(* ===== verification/Prelude.thy ===== *)
theory Prelude
  imports Complex_Main "HOL-Library.Word" "HOL-Library.Multiset"
begin

text \<open>
  Shared vocabulary of the development: the fixed width integer types of the C++ code, the
  state-and-exception results of its operations, and the facts about lists, multisets and
  words that several components use.

  An operation of the code that changes an object and may throw is a function into
  \<open>'s \<times> ('e + 'a)\<close>: the object after the call comes back in both cases, because a C++
  exception leaves behind whatever the operation had already written, and the second
  component is \<open>Inl\<close> of the exception or \<open>Inr\<close> of the value returned.
\<close>

unbundle bit_operations_syntax

type_synonym u8 = "8 word"
type_synonym u16 = "16 word"
type_synonym u32 = "32 word"
type_synonym u64 = "64 word"

named_theorems step_simps \<open>unfolding rules for the operations of one component\<close>
named_theorems shape_simps \<open>sizes and hashpowers that an operation leaves alone\<close>

section \<open>Sequencing of operations that may throw\<close>

definition and_then ::
  "'s \<times> ('e + 'a) \<Rightarrow> ('a \<Rightarrow> 's \<Rightarrow> 's \<times> ('e + 'b)) \<Rightarrow> 's \<times> ('e + 'b)" where
  "and_then m f = (case m of (s, Inl e) \<Rightarrow> (s, Inl e) | (s, Inr a) \<Rightarrow> f a s)"

lemma and_then_simps [simp]:
  "and_then (s, Inl e) f = (s, Inl e)"
  "and_then (s, Inr a) f = f a s"
  by (simp_all add: and_then_def)

lemma and_then_Inr_iff:
  "and_then m f = (s', Inr b) \<longleftrightarrow> (\<exists>s a. m = (s, Inr a) \<and> f a s = (s', Inr b))"
  by (auto simp: and_then_def split: prod.splits sum.splits)

lemma and_then_Inl_iff:
  "and_then m f = (s', Inl e) \<longleftrightarrow>
     m = (s', Inl e) \<or> (\<exists>s a. m = (s, Inr a) \<and> f a s = (s', Inl e))"
  by (auto simp: and_then_def split: prod.splits sum.splits)

section \<open>Lists\<close>

lemma set_list_updateE:
  assumes "x \<in> set (xs[i := y])"
  obtains "x = y" | "x \<in> set xs"
  using assms set_update_subset_insert [of xs i y] by auto

lemma sum_list_update_int:
  fixes xs :: "int list"
  assumes "i < length xs"
  shows "sum_list (xs[i := y]) = sum_list xs - xs ! i + y"
  using assms
proof (induction xs arbitrary: i)
  case Nil
  then show ?case by simp
next
  case (Cons x xs)
  then show ?case by (cases i) simp_all
qed

lemma sum_fun_upd_in:
  fixes f :: "nat \<Rightarrow> 'a::ab_group_add"
  assumes "finite A" "a \<in> A"
  shows "sum (f(a := x)) A = sum f A - f a + x"
  using assms by (simp add: sum.remove [of A a] fun_upd_def)

lemma sorted_map_le_last:
  fixes f :: "'a \<Rightarrow> 'b::linorder"
  assumes "sorted (map f xs)" "y \<in> set xs"
  shows "f y \<le> f (last xs)"
  using assms by (induction xs rule: rev_induct) (auto simp: sorted_append)

lemma sorted_map_const:
  fixes f :: "'a \<Rightarrow> 'b::linorder"
  assumes "\<And>y. y \<in> set xs \<Longrightarrow> f y = d"
  shows "sorted (map f xs)"
  using assms by (induction xs) auto

section \<open>Machine words\<close>

lemma unat_take_bit_word:
  fixes w :: "'a::len word"
  shows "unat (take_bit n w) = unat w mod 2 ^ n"
  by (metis take_bit_eq_mod unsigned_take_bit_eq)

lemma unat_take_bit_less:
  fixes w :: "'a::len word"
  shows "unat (take_bit n w) < 2 ^ n"
  by (simp add: unat_take_bit_word)

lemma mask_eq_shift_minus_1:
  "push_bit n (1 :: 'a::len word) - 1 = mask n"
  by (simp add: mask_eq_exp_minus_1 push_bit_eq_mult)

lemma and_mask_take_bit:
  fixes w :: "'a::len word"
  shows "w AND (push_bit n 1 - 1) = take_bit n w"
  by (simp only: mask_eq_shift_minus_1 take_bit_eq_mask)

end
