(* ===== verification/Cuckoo_Hash.thy ===== *)
theory Cuckoo_Hash
  imports Prelude
begin

text \<open>
  Hashing of the CPU tables: the integer mixers \<open>HybridHash\<close> of \<open>lookup_table_op_cpu.h\<close>
  and the derivation of the partial key and of the two candidate buckets of a key in
  \<open>cuckoohash_map.hh\<close>.  Hash values are kept at their width; bucket indices are natural
  numbers below \<open>2 ^ hp\<close>.  The lemmas show that the mixers are injective, that the
  alternate index is an involution, and that doubling the table adds one bit on top of
  both indices, which is what the doubling of the table relies on.
\<close>

section \<open>Integer mixers\<close>

definition hybrid_hash_int64 :: "u64 \<Rightarrow> u64" where
  "hybrid_hash_int64 key =
     (let k = key;
          k = k XOR drop_bit 33 k;
          k = k * 0xff51afd7ed558ccd;
          k = k XOR drop_bit 33 k;
          k = k * 0xc4ceb9fe1a85ec53;
          k = k XOR drop_bit 33 k
      in k)"

definition hybrid_hash_int32 :: "u32 \<Rightarrow> u32" where
  "hybrid_hash_int32 key =
     (let k = key;
          k = k XOR drop_bit 16 k;
          k = k * 0x85ebca6b;
          k = k XOR drop_bit 13 k;
          k = k * 0xc2b2ae35;
          k = k XOR drop_bit 16 k
      in k)"

text \<open>
  The functor for \<open>int32\<close> returns an \<open>int32\<close>, which \<open>hashed_key\<close> converts to
  \<open>size_type\<close>: the conversion extends the sign.
\<close>

definition hash_of_int32_key :: "u32 \<Rightarrow> u64" where
  "hash_of_int32_key key = scast (hybrid_hash_int32 key)"

section \<open>Partial keys and bucket indices\<close>

definition hashsize :: "nat \<Rightarrow> u64" where
  "hashsize hp = push_bit hp 1"

definition hashmask :: "nat \<Rightarrow> u64" where
  "hashmask hp = hashsize hp - 1"

definition partial_key :: "u64 \<Rightarrow> u8" where
  "partial_key hash =
     (let hash_64bit = hash;
          hash_32bit = (ucast hash_64bit :: u32) XOR ucast (drop_bit 32 hash_64bit);
          hash_16bit = (ucast hash_32bit :: u16) XOR ucast (drop_bit 16 hash_32bit);
          hash_8bit = (ucast hash_16bit :: u8) XOR ucast (drop_bit 8 hash_16bit)
      in hash_8bit)"

definition index_hash :: "nat \<Rightarrow> u64 \<Rightarrow> nat" where
  "index_hash hp hv = unat (hv AND hashmask hp)"

definition alt_index :: "nat \<Rightarrow> u8 \<Rightarrow> nat \<Rightarrow> nat" where
  "alt_index hp partial index =
     (let nonzero_tag = (ucast partial :: u64) + 1
      in unat ((of_nat index XOR nonzero_tag * 0xc6a4a7935bd1e995) AND hashmask hp))"

record hash_value =
  hv_hash :: u64
  hv_partial :: u8

definition hashed_key :: "('k \<Rightarrow> u64) \<Rightarrow> 'k \<Rightarrow> hash_value" where
  "hashed_key hash_fn key =
     (let hash = hash_fn key in \<lparr>hv_hash = hash, hv_partial = partial_key hash\<rparr>)"

definition hashed_key_only_hash :: "('k \<Rightarrow> u64) \<Rightarrow> 'k \<Rightarrow> u64" where
  "hashed_key_only_hash hash_fn key = hash_fn key"

text \<open>
  The two buckets a key may live in, as the insertion code asserts it: the index of its
  hash, or the alternate index of that index.
\<close>

definition home :: "nat \<Rightarrow> u64 \<Rightarrow> nat \<Rightarrow> bool" where
  "home hp hash i \<longleftrightarrow>
     i = index_hash hp hash \<or> i = alt_index hp (partial_key hash) (index_hash hp hash)"

section \<open>The mixers lose no information\<close>

lemma xorshift_twice:
  fixes k :: "'a::len word"
  assumes "LENGTH('a) \<le> 2 * n"
  shows "(k XOR drop_bit n k) XOR drop_bit n (k XOR drop_bit n k) = k"
proof (rule bit_word_eqI)
  fix m
  assume "m < LENGTH('a)"
  with assms have "\<not> bit k (n + (n + m))"
    by (auto dest: bit_imp_le_length)
  then show "bit ((k XOR drop_bit n k) XOR drop_bit n (k XOR drop_bit n k)) m = bit k m"
    by (auto simp: bit_xor_iff bit_drop_bit_eq add.assoc)
qed

lemma xorshift_inj:
  fixes x y :: "'a::len word"
  assumes "LENGTH('a) \<le> 2 * n"
    and "x XOR drop_bit n x = y XOR drop_bit n y"
  shows "x = y"
  using xorshift_twice [OF assms(1), of x] xorshift_twice [OF assms(1), of y] assms(2)
  by simp

lemma xorshift_thrice:
  fixes k :: "'a::len word"
  assumes "LENGTH('a) \<le> 3 * n"
  defines "f \<equiv> k XOR drop_bit n k"
  shows "f XOR drop_bit n f XOR drop_bit (2 * n) f = k"
proof (rule bit_word_eqI)
  fix m
  assume "m < LENGTH('a)"
  with assms(1) have "\<not> bit k (n + (2 * n + m))"
    by (auto dest: bit_imp_le_length)
  then show "bit (f XOR drop_bit n f XOR drop_bit (2 * n) f) m = bit k m"
    by (auto simp: f_def bit_xor_iff bit_drop_bit_eq mult_2 mult_2_right numeral_3_eq_3 ac_simps)
qed

lemma xorshift_inj3:
  fixes x y :: "'a::len word"
  assumes "LENGTH('a) \<le> 3 * n"
    and "x XOR drop_bit n x = y XOR drop_bit n y"
  shows "x = y"
  using xorshift_thrice [OF assms(1), of x] xorshift_thrice [OF assms(1), of y] assms(2)
  by simp

lemma times_inj:
  fixes x y c d :: "'a::len word"
  assumes "c * d = 1" and "x * c = y * c"
  shows "x = y"
proof -
  have "x * c * d = y * c * d" using assms(2) by simp
  then show ?thesis using assms(1) by (simp add: mult.assoc)
qed

lemma hybrid_hash_int64_inj: "hybrid_hash_int64 x = hybrid_hash_int64 y \<Longrightarrow> x = y"
proof -
  assume *: "hybrid_hash_int64 x = hybrid_hash_int64 y"
  have c1: "(0xff51afd7ed558ccd :: u64) * 0x4f74430c22a54005 = 1" by simp
  have c2: "(0xc4ceb9fe1a85ec53 :: u64) * 0x9cb4b2f8129337db = 1" by simp
  have len: "LENGTH(64) \<le> 2 * 33" by simp
  note inj = xorshift_inj [OF len] times_inj [OF c1] times_inj [OF c2]
  show "x = y"
    by (rule inj(1), rule inj(2), rule inj(1), rule inj(3), rule inj(1))
      (use * in \<open>simp add: hybrid_hash_int64_def Let_def\<close>)
qed

lemma hybrid_hash_int32_inj: "hybrid_hash_int32 x = hybrid_hash_int32 y \<Longrightarrow> x = y"
proof -
  assume *: "hybrid_hash_int32 x = hybrid_hash_int32 y"
  have c1: "(0x85ebca6b :: u32) * 0xa5cb9243 = 1" by simp
  have c2: "(0xc2b2ae35 :: u32) * 0x7ed1b41d = 1" by simp
  have len: "LENGTH(32) \<le> 2 * 16" "LENGTH(32) \<le> 3 * 13" by simp_all
  note inj = xorshift_inj [OF len(1)] times_inj [OF c1] xorshift_inj3 [OF len(2)]
    times_inj [OF c2]
  show "x = y"
    by (rule inj(1), rule inj(2), rule inj(3), rule inj(4), rule inj(1))
      (use * in \<open>simp add: hybrid_hash_int32_def Let_def\<close>)
qed

lemma hash_of_int32_key_inj: "hash_of_int32_key x = hash_of_int32_key y \<Longrightarrow> x = y"
proof -
  assume "hash_of_int32_key x = hash_of_int32_key y"
  then have "(ucast (scast (hybrid_hash_int32 x) :: u64) :: u32)
      = ucast (scast (hybrid_hash_int32 y) :: u64)"
    by (simp add: hash_of_int32_key_def)
  moreover have "ucast (scast w :: u64) = w" for w :: u32
    by (rule bit_word_eqI) (simp add: bit_ucast_iff bit_signed_iff)
  ultimately have "hybrid_hash_int32 x = hybrid_hash_int32 y" by simp
  then show "x = y" by (rule hybrid_hash_int32_inj)
qed

section \<open>Candidate buckets\<close>

lemma hashmask_eq_mask: "hashmask hp = mask hp"
  by (simp only: hashmask_def hashsize_def mask_eq_shift_minus_1)

lemma index_hash_take_bit: "index_hash hp hv = unat (take_bit hp hv)"
  by (simp add: index_hash_def hashmask_eq_mask take_bit_eq_mask)

definition alt_tag :: "u8 \<Rightarrow> u64" where
  "alt_tag p = (ucast p + 1) * 0xc6a4a7935bd1e995"

lemma alt_index_take_bit: "alt_index hp p i = unat (take_bit hp (of_nat i XOR alt_tag p))"
  by (simp only: alt_index_def Let_def hashmask_eq_mask take_bit_eq_mask alt_tag_def)

lemma index_hash_less [simp, intro]: "index_hash hp hv < 2 ^ hp"
  by (simp only: index_hash_take_bit unat_take_bit_less)

lemma alt_index_less [simp, intro]: "alt_index hp p i < 2 ^ hp"
  by (simp only: alt_index_take_bit unat_take_bit_less)

lemma home_less: "home hp h i \<Longrightarrow> i < 2 ^ hp"
  by (auto simp: home_def)

lemma take_bit_xor_twice:
  fixes x c :: "'a::len word"
  shows "take_bit n (take_bit n (x XOR c) XOR c) = take_bit n x"
  by (rule bit_word_eqI) (auto simp: bit_take_bit_iff bit_xor_iff)

lemma take_bit_of_nat_small:
  "i < 2 ^ n \<Longrightarrow> unat (take_bit n (of_nat i :: 'a::len word)) = i mod 2 ^ LENGTH('a)"
  by (simp add: unat_take_bit_word unat_of_nat)
    (metis le_less_trans mod_less mod_less_eq_dividend)

lemma word_nat_cast_inv: "(of_nat (unat w) :: 'a::len word) = w"
  by simp

lemma alt_index_involution:
  assumes "i < 2 ^ hp" "hp \<le> 64"
  shows "alt_index hp p (alt_index hp p i) = i"
proof -
  have "(2::nat) ^ hp \<le> 2 ^ 64" using assms(2) by (rule power_increasing) simp
  with assms(1) have "i mod 2 ^ LENGTH(64) = i" by simp
  then have "unat (take_bit hp (of_nat i :: u64)) = i"
    using take_bit_of_nat_small [OF assms(1), where 'a = 64] by simp
  then show ?thesis
    by (simp only: alt_index_take_bit word_nat_cast_inv take_bit_xor_twice)
qed

lemma index_hash_grow: "index_hash (Suc hp) hv mod 2 ^ hp = index_hash hp hv"
  by (simp add: index_hash_take_bit unat_take_bit_word mod_mod_cancel)

lemma take_bit_xor_cong:
  fixes x y c :: "'a::len word"
  shows "take_bit n x = take_bit n y \<Longrightarrow> take_bit n (x XOR c) = take_bit n (y XOR c)"
  by (simp add: take_bit_xor)

lemma take_bit_of_nat_mod:
  "take_bit n (of_nat (i mod 2 ^ n) :: 'a::len word) = take_bit n (of_nat i)"
  by (simp add: take_bit_of_nat flip: take_bit_eq_mod)

lemma alt_index_grow: "alt_index (Suc hp) p i mod 2 ^ hp = alt_index hp p (i mod 2 ^ hp)"
proof -
  have "alt_index (Suc hp) p i mod 2 ^ hp = unat (take_bit hp (of_nat i XOR alt_tag p))"
    by (simp only: alt_index_take_bit unat_take_bit_word)
      (simp add: mod_mod_cancel)
  also have "take_bit hp (of_nat i XOR alt_tag p)
      = take_bit hp (of_nat (i mod 2 ^ hp) XOR alt_tag p)"
    by (rule take_bit_xor_cong) (rule take_bit_of_nat_mod [symmetric])
  also have "unat \<dots> = alt_index hp p (i mod 2 ^ hp)"
    by (simp only: alt_index_take_bit)
  finally show ?thesis .
qed

lemma mod_double_cases:
  fixes i :: nat
  assumes "i < 2 ^ Suc hp"
  shows "i = i mod 2 ^ hp \<or> i = i mod 2 ^ hp + 2 ^ hp"
proof (cases "i < 2 ^ hp")
  case True
  then show ?thesis by simp
next
  case False
  with assms have "i mod 2 ^ hp = i - 2 ^ hp" by (simp add: le_mod_geq)
  with False show ?thesis by simp
qed

lemma home_grow: "home (Suc hp) h i \<Longrightarrow> home hp h (i mod 2 ^ hp)"
  by (auto simp: home_def index_hash_grow alt_index_grow)

lemma home_alt:
  assumes "home hp h i" "hp \<le> 64"
  shows "home hp h (alt_index hp (partial_key h) i)"
  using assms by (auto simp: home_def alt_index_involution)

lemma home_same_pair:
  assumes "home hp h i" "home hp h j" "hp \<le> 64"
  shows "j = i \<or> j = alt_index hp (partial_key h) i"
  using assms by (auto simp: home_def alt_index_involution)

end
