(* ===== verification/Cuckoo_Table.thy ===== *)
theory Cuckoo_Table
  imports Cuckoo_Hash
begin

text \<open>
  The storage of \<open>cuckoohash_map\<close>: the bucket container of
  \<open>libcuckoo_bucket_container.hh\<close>, the striped locks with their element counters and
  migration flags, and the lazy migration of the buckets of the previous table into the
  current one (\<open>rehash_lock\<close>, \<open>move_bucket\<close>).

  A bucket is a list of \<open>slot_per_bucket\<close> optional entries; \<open>None\<close> is a slot whose
  \<open>occupied\<close> flag is false.  Operations are modelled as they run when no other thread
  holds a lock, so taking a lock only has the effect the code gives it besides exclusion:
  the hashpower check and the migration of the buckets it guards.  Lock arrays that were
  replaced by a larger one are not kept: only waiting threads read them.

  \<open>eff\<close> is the bucket a reader finds once it has taken the lock; the lemmas show that
  migrating never changes it, so the abstraction of the table is stated over it.
\<close>

section \<open>The bucket container\<close>

definition slot_per_bucket :: nat where
  "slot_per_bucket = 4"

record ('k, 'v) kv =
  kv_partial :: u8
  kv_key :: 'k
  kv_mapped :: 'v

type_synonym ('k, 'v) bucket = "('k, 'v) kv option list"

record ('k, 'v) container =
  cont_hashpower :: nat
  cont_buckets :: "('k, 'v) bucket list"

definition empty_bucket :: "('k, 'v) bucket" where
  "empty_bucket = replicate slot_per_bucket None"

definition mk_container :: "nat \<Rightarrow> ('k, 'v) container" where
  "mk_container hp = \<lparr>cont_hashpower = hp, cont_buckets = replicate (2 ^ hp) empty_bucket\<rparr>"

definition cont_size :: "('k, 'v) container \<Rightarrow> nat" where
  "cont_size c = 2 ^ cont_hashpower c"

definition occupied :: "('k, 'v) bucket \<Rightarrow> nat \<Rightarrow> bool" where
  "occupied b slot \<longleftrightarrow> b ! slot \<noteq> None"

definition setKV ::
  "nat \<Rightarrow> nat \<Rightarrow> u8 \<Rightarrow> 'k \<Rightarrow> 'v \<Rightarrow> ('k, 'v) container \<Rightarrow> ('k, 'v) container" where
  "setKV ind slot p k v c =
     c\<lparr>cont_buckets := (cont_buckets c)
        [ind := (cont_buckets c ! ind)
          [slot := Some \<lparr>kv_partial = p, kv_key = k, kv_mapped = v\<rparr>]]\<rparr>"

definition eraseKV :: "nat \<Rightarrow> nat \<Rightarrow> ('k, 'v) container \<Rightarrow> ('k, 'v) container" where
  "eraseKV ind slot c =
     c\<lparr>cont_buckets := (cont_buckets c)[ind := (cont_buckets c ! ind)[slot := None]]\<rparr>"

definition clear_container :: "('k, 'v) container \<Rightarrow> ('k, 'v) container" where
  "clear_container c =
     fold (\<lambda>i c. fold (\<lambda>j c. if occupied (cont_buckets c ! i) j then eraseKV i j c else c)
                   [0..<slot_per_bucket] c)
       [0..<cont_size c] c"

definition clear_and_deallocate :: "('k, 'v) container \<Rightarrow> ('k, 'v) container" where
  "clear_and_deallocate c = c\<lparr>cont_buckets := []\<rparr>"

section \<open>Locks and the map object\<close>

record spinlock =
  elem_counter :: int
  is_migrated :: bool

definition new_spinlock :: spinlock where
  "new_spinlock = \<lparr>elem_counter = 0, is_migrated = True\<rparr>"

definition kMaxNumLocks :: nat where
  "kMaxNumLocks = 2 ^ 16"

definition LIBCUCKOO_NO_MAXIMUM_HASHPOWER :: nat where
  "LIBCUCKOO_NO_MAXIMUM_HASHPOWER = 2 ^ 64 - 1"

text \<open>The double nearest to \<open>0.05\<close>, written as the exact fraction it denotes.\<close>

definition LIBCUCKOO_DEFAULT_MINIMUM_LOAD_FACTOR :: rat where
  "LIBCUCKOO_DEFAULT_MINIMUM_LOAD_FACTOR = 3602879701896397 / 2 ^ 56"

text \<open>
  \<open>is_simple\<close> is the compile time predicate on the key type.  \<open>alloc_limit\<close> is not
  a member of the class: it is the largest hashpower for which the allocator still
  provides the bucket array, beyond which the container's constructor throws
  \<open>std::bad_alloc\<close>.
\<close>

record ('k, 'v) cuckoo_map =
  hash_fn :: "'k \<Rightarrow> u64"
  is_simple :: bool
  buckets :: "('k, 'v) container"
  old_buckets :: "('k, 'v) container"
  locks :: "spinlock list"
  num_remaining :: nat
  minimum_load_factor :: rat
  maximum_hashpower :: nat
  max_num_worker_threads :: nat
  alloc_limit :: nat

datatype cuckoo_exn =
    Hashpower_changed
  | Load_factor_too_low rat
  | Maximum_hashpower_exceeded nat
  | Bad_alloc
  | Out_of_range
  | Invalid_argument
  | Queue_overflow
  | Diverges

function reserve_calc_loop :: "nat \<Rightarrow> nat \<Rightarrow> nat" where
  "reserve_calc_loop nb blog2 =
     (if 2 ^ blog2 < nb then reserve_calc_loop nb (Suc blog2) else blog2)"
  by pat_completeness auto
termination
proof (relation "measure (\<lambda>(nb, blog2). nb - blog2)", goal_cases)
  case (2 nb blog2)
  then have "blog2 < nb" by (rule order.strict_trans [OF less_exp])
  then show ?case by simp
qed simp

declare reserve_calc_loop.simps [simp del]

definition reserve_calc :: "u64 \<Rightarrow> nat" where
  "reserve_calc n =
     (let nb = (n + of_nat slot_per_bucket - 1) div of_nat slot_per_bucket
      in reserve_calc_loop (unat nb) 0)"

definition hashpower :: "('k, 'v) cuckoo_map \<Rightarrow> nat" where
  "hashpower t = cont_hashpower (buckets t)"

definition bucket_count :: "('k, 'v) cuckoo_map \<Rightarrow> nat" where
  "bucket_count t = cont_size (buckets t)"

definition new_cuckoohash_map ::
  "nat \<Rightarrow> bool \<Rightarrow> ('k \<Rightarrow> u64) \<Rightarrow> u64 \<Rightarrow> cuckoo_exn + ('k, 'v) cuckoo_map" where
  "new_cuckoohash_map limit simple hf n =
     (let hp = reserve_calc n
      in if limit < hp then Inl Bad_alloc
         else Inr
          \<lparr>hash_fn = hf, is_simple = simple,
           buckets = mk_container hp, old_buckets = mk_container 0,
           locks = replicate (min (2 ^ hp) kMaxNumLocks) new_spinlock,
           num_remaining = 0,
           minimum_load_factor = LIBCUCKOO_DEFAULT_MINIMUM_LOAD_FACTOR,
           maximum_hashpower = LIBCUCKOO_NO_MAXIMUM_HASHPOWER,
           max_num_worker_threads = 6,
           alloc_limit = limit\<rparr>)"

text \<open>
  The counters are signed: an entry may be counted under the lock of the bucket it was
  inserted into and be removed under another one, so only their sum is meaningful.
\<close>

definition cuckoo_size :: "('k, 'v) cuckoo_map \<Rightarrow> nat" where
  "cuckoo_size t = nat (sum_list (map elem_counter (locks t)))"

definition cuckoo_empty :: "('k, 'v) cuckoo_map \<Rightarrow> bool" where
  "cuckoo_empty t \<longleftrightarrow> cuckoo_size t = 0"

definition capacity :: "('k, 'v) cuckoo_map \<Rightarrow> nat" where
  "capacity t = bucket_count t * slot_per_bucket"

definition load_factor :: "('k, 'v) cuckoo_map \<Rightarrow> rat" where
  "load_factor t = of_nat (cuckoo_size t) / of_nat (capacity t)"

definition set_minimum_load_factor ::
  "rat \<Rightarrow> ('k, 'v) cuckoo_map \<Rightarrow> ('k, 'v) cuckoo_map \<times> (cuckoo_exn + unit)" where
  "set_minimum_load_factor mlf t =
     (if mlf < 0 then (t, Inl Invalid_argument)
      else if mlf > 1 then (t, Inl Invalid_argument)
      else (t\<lparr>minimum_load_factor := mlf\<rparr>, Inr ()))"

definition set_maximum_hashpower ::
  "nat \<Rightarrow> ('k, 'v) cuckoo_map \<Rightarrow> ('k, 'v) cuckoo_map \<times> (cuckoo_exn + unit)" where
  "set_maximum_hashpower mhp t =
     (if hashpower t > mhp then (t, Inl Invalid_argument)
      else (t\<lparr>maximum_hashpower := mhp\<rparr>, Inr ()))"

definition set_max_num_worker_threads ::
  "nat \<Rightarrow> ('k, 'v) cuckoo_map \<Rightarrow> ('k, 'v) cuckoo_map" where
  "set_max_num_worker_threads extra_threads t =
     t\<lparr>max_num_worker_threads := extra_threads\<rparr>"

definition lock_ind :: "nat \<Rightarrow> nat" where
  "lock_ind bucket_ind = bucket_ind AND (kMaxNumLocks - 1)"

section \<open>Lazy migration\<close>

text \<open>
  Setting the number of remaining locks returns before the test that would free the old
  buckets, so the old container is only freed by the last lazy decrement.
\<close>

definition set_num_remaining_lazy_rehash_locks ::
  "nat \<Rightarrow> ('k, 'v) cuckoo_map \<Rightarrow> ('k, 'v) cuckoo_map" where
  "set_num_remaining_lazy_rehash_locks n t = t\<lparr>num_remaining := n\<rparr>"

definition decrement_num_remaining_lazy_rehash_locks ::
  "('k, 'v) cuckoo_map \<Rightarrow> ('k, 'v) cuckoo_map" where
  "decrement_num_remaining_lazy_rehash_locks t =
     (let old_num_remaining = num_remaining t;
          t = t\<lparr>num_remaining := old_num_remaining - 1\<rparr>
      in if old_num_remaining = 1
         then t\<lparr>old_buckets := clear_and_deallocate (old_buckets t)\<rparr> else t)"

definition moves_up :: "('k \<Rightarrow> u64) \<Rightarrow> nat \<Rightarrow> nat \<Rightarrow> nat \<Rightarrow> 'k \<Rightarrow> bool" where
  "moves_up hf old_hp new_hp old_bucket_ind k =
     (let new_bucket_ind = old_bucket_ind + 2 ^ old_hp;
          hv = hashed_key hf k;
          old_ihash = index_hash old_hp (hv_hash hv);
          old_ahash = alt_index old_hp (hv_partial hv) old_ihash;
          new_ihash = index_hash new_hp (hv_hash hv);
          new_ahash = alt_index new_hp (hv_partial hv) new_ihash
      in (old_bucket_ind = old_ihash \<and> new_ihash = new_bucket_ind) \<or>
         (old_bucket_ind = old_ahash \<and> new_ahash = new_bucket_ind))"

fun move_slots ::
  "('k \<Rightarrow> u64) \<Rightarrow> nat \<Rightarrow> nat \<Rightarrow> nat \<Rightarrow> ('k, 'v) bucket \<Rightarrow> nat \<Rightarrow> nat
     \<Rightarrow> ('k, 'v) container \<Rightarrow> ('k, 'v) container" where
  "move_slots hf old_hp new_hp old_ind [] old_slot new_slot c = c"
| "move_slots hf old_hp new_hp old_ind (None # bs) old_slot new_slot c =
     move_slots hf old_hp new_hp old_ind bs (Suc old_slot) new_slot c"
| "move_slots hf old_hp new_hp old_ind (Some e # bs) old_slot new_slot c =
     (if moves_up hf old_hp new_hp old_ind (kv_key e)
      then move_slots hf old_hp new_hp old_ind bs (Suc old_slot) (Suc new_slot)
             (setKV (old_ind + 2 ^ old_hp) new_slot (kv_partial e) (kv_key e) (kv_mapped e) c)
      else move_slots hf old_hp new_hp old_ind bs (Suc old_slot) new_slot
             (setKV old_ind old_slot (kv_partial e) (kv_key e) (kv_mapped e) c))"

definition move_bucket ::
  "('k \<Rightarrow> u64) \<Rightarrow> ('k, 'v) container \<Rightarrow> nat \<Rightarrow> ('k, 'v) container \<Rightarrow> ('k, 'v) container" where
  "move_bucket hf oldc old_bucket_ind newc =
     move_slots hf (cont_hashpower oldc) (cont_hashpower newc) old_bucket_ind
       (cont_buckets oldc ! old_bucket_ind) 0 0 newc"

function rehash_loop ::
  "nat \<Rightarrow> ('k, 'v) cuckoo_map \<Rightarrow> ('k, 'v) cuckoo_map" where
  "rehash_loop bucket_ind t =
     (if bucket_ind < cont_size (old_buckets t)
      then rehash_loop (bucket_ind + kMaxNumLocks)
             (t\<lparr>buckets := move_bucket (hash_fn t) (old_buckets t) bucket_ind (buckets t)\<rparr>)
      else t)"
  by pat_completeness auto
termination
  by (relation "measure (\<lambda>(i, t). cont_size (old_buckets t) - i)")
    (auto simp: kMaxNumLocks_def)

declare rehash_loop.simps [simp del]

definition rehash_lock ::
  "bool \<Rightarrow> nat \<Rightarrow> ('k, 'v) cuckoo_map \<Rightarrow> ('k, 'v) cuckoo_map" where
  "rehash_lock is_lazy l t =
     (if is_migrated (locks t ! l) then t
      else let t = rehash_loop l t;
               t = t\<lparr>locks := (locks t)[l := (locks t ! l)\<lparr>is_migrated := True\<rparr>]\<rparr>
           in if is_lazy then decrement_num_remaining_lazy_rehash_locks t else t)"

end
