(* ===== verification/Cuckoo_Inv.thy ===== *)
theory Cuckoo_Inv
  imports Cuckoo_Table
begin

text \<open>
  The view of a table through its pending migration and the representation invariant.
  \<open>eff t i\<close> is bucket \<open>i\<close> as it is after the migration its lock still owes,
  \<open>live t\<close> the entries of all these buckets in iteration order, \<open>abs_map t\<close> the finite
  map they denote.  \<open>table_ok\<close> is the invariant every operation of the table preserves.
  The lemmas show that moving a bucket splits it into two (\<open>move_bucket_split\<close>) and that
  taking a lock changes neither the view nor the invariant (\<open>rehash_lock_eff\<close>,
  \<open>rehash_lock_ok\<close>).
\<close>

section \<open>Contents of buckets\<close>

lemma kv_collapse [simp]:
  fixes e :: "('k, 'v) kv"
  shows "\<lparr>kv_partial = kv_partial e, kv_key = kv_key e, kv_mapped = kv_mapped e\<rparr> = e"
  by (cases e) simp

definition contents :: "('k, 'v) bucket \<Rightarrow> ('k, 'v) kv list" where
  "contents b = map the (filter (\<lambda>s. s \<noteq> None) b)"

lemma contents_simps [simp]:
  "contents [] = []"
  "contents (None # b) = contents b"
  "contents (Some e # b) = e # contents b"
  by (simp_all add: contents_def)

lemma contents_append [simp]: "contents (b @ b') = contents b @ contents b'"
  by (simp add: contents_def)

lemma contents_replicate_None [simp]: "contents (replicate n None) = []"
  by (simp add: contents_def)

lemma contents_map_Some [simp]: "contents (map Some es) = es"
  by (induction es) simp_all

lemma set_contents: "set (contents b) = {e. Some e \<in> set b}"
  by (induction b) (auto simp: contents_def image_iff split: option.splits)

lemma contents_eq_Nil_iff: "contents b = [] \<longleftrightarrow> (\<forall>s\<in>set b. s = None)"
  by (auto simp: contents_def filter_empty_conv)

lemma contents_empty_bucket [simp]: "contents empty_bucket = []"
  by (simp add: empty_bucket_def)

lemma length_empty_bucket [simp]: "length empty_bucket = slot_per_bucket"
  by (simp add: empty_bucket_def)

lemma mset_contents_put:
  "j < length b \<Longrightarrow> b ! j = None \<Longrightarrow>
     mset (contents (b[j := Some e])) = add_mset e (mset (contents b))"
proof (induction b arbitrary: j)
  case Nil
  then show ?case by simp
next
  case (Cons s b)
  then show ?case by (cases j; cases s) auto
qed

lemma mset_contents_del:
  "j < length b \<Longrightarrow> b ! j = Some e \<Longrightarrow>
     mset (contents b) = add_mset e (mset (contents (b[j := None])))"
proof (induction b arbitrary: j)
  case Nil
  then show ?case by simp
next
  case (Cons s b)
  then show ?case by (cases j; cases s) auto
qed

section \<open>What moving a bucket does\<close>

fun ups :: "('k \<Rightarrow> bool) \<Rightarrow> ('k, 'v) bucket \<Rightarrow> ('k, 'v) kv list" where
  "ups P [] = []"
| "ups P (None # b) = ups P b"
| "ups P (Some e # b) = (if P (kv_key e) then e # ups P b else ups P b)"

fun downs :: "('k \<Rightarrow> bool) \<Rightarrow> ('k, 'v) bucket \<Rightarrow> ('k, 'v) bucket" where
  "downs P [] = []"
| "downs P (None # b) = None # downs P b"
| "downs P (Some e # b) = (if P (kv_key e) then None else Some e) # downs P b"

definition lo_part :: "('k \<Rightarrow> bool) \<Rightarrow> ('k, 'v) bucket \<Rightarrow> ('k, 'v) bucket" where
  "lo_part P b = downs P b"

definition hi_part :: "('k \<Rightarrow> bool) \<Rightarrow> ('k, 'v) bucket \<Rightarrow> ('k, 'v) bucket" where
  "hi_part P b = map Some (ups P b) @ replicate (length b - length (ups P b)) None"

lemma length_downs [simp]: "length (downs P b) = length b"
  by (induction P b rule: downs.induct) simp_all

lemma length_ups_le: "length (ups P b) \<le> length b"
  by (induction P b rule: ups.induct) auto

lemma length_parts [simp]: "length (lo_part P b) = length b" "length (hi_part P b) = length b"
  using length_ups_le [of P b] by (simp_all add: lo_part_def hi_part_def)

lemma mset_parts:
  "mset (contents (lo_part P b)) + mset (contents (hi_part P b)) = mset (contents b)"
  by (induction P b rule: ups.induct) (auto simp: lo_part_def hi_part_def)

lemma set_lo_part: "Some e \<in> set (lo_part P b) \<longleftrightarrow> Some e \<in> set b \<and> \<not> P (kv_key e)"
  unfolding lo_part_def by (induction P b rule: downs.induct) auto

lemma set_ups: "e \<in> set (ups P b) \<longleftrightarrow> Some e \<in> set b \<and> P (kv_key e)"
  by (induction P b rule: ups.induct) auto

lemma set_hi_part: "Some e \<in> set (hi_part P b) \<longleftrightarrow> Some e \<in> set b \<and> P (kv_key e)"
  by (auto simp: hi_part_def set_ups image_iff)

lemma setKV_hashpower [simp]: "cont_hashpower (setKV i j p k v c) = cont_hashpower c"
  by (simp add: setKV_def)

lemma eraseKV_hashpower [simp]: "cont_hashpower (eraseKV i j c) = cont_hashpower c"
  by (simp add: eraseKV_def)

lemma move_slots_hashpower [simp]:
  "cont_hashpower (move_slots hf ohp nhp j bs s n c) = cont_hashpower c"
  by (induction hf ohp nhp j bs s n c rule: move_slots.induct) auto

lemma move_slots_frame:
  "i \<noteq> j \<Longrightarrow> i \<noteq> j + 2 ^ ohp \<Longrightarrow>
     cont_buckets (move_slots hf ohp nhp j bs s n c) ! i = cont_buckets c ! i"
  by (induction hf ohp nhp j bs s n c rule: move_slots.induct) (auto simp: setKV_def)

lemma move_slots_length [simp]:
  "length (cont_buckets (move_slots hf ohp nhp j bs s n c)) = length (cont_buckets c)"
  by (induction hf ohp nhp j bs s n c rule: move_slots.induct) (auto simp: setKV_def)

lemma update_append_replicate:
  "length xs = n \<Longrightarrow> (xs @ replicate (Suc m) None)[n := Some x]
     = (xs @ [Some x]) @ replicate m None"
  by (simp add: list_update_append)

lemma move_slots_content:
  assumes "j + 2 ^ ohp < length (cont_buckets c)"
    and "cont_buckets c ! j = lo @ replicate (length bs) None" "length lo = s"
    and "cont_buckets c ! (j + 2 ^ ohp) = hi @ replicate m None" "length hi = n"
    and "length (ups (moves_up hf ohp nhp j) bs) \<le> m"
  shows "cont_buckets (move_slots hf ohp nhp j bs s n c) ! j = lo @ downs (moves_up hf ohp nhp j) bs"
    and "cont_buckets (move_slots hf ohp nhp j bs s n c) ! (j + 2 ^ ohp)
      = hi @ map Some (ups (moves_up hf ohp nhp j) bs) @ replicate (m - length (ups (moves_up hf ohp nhp j) bs)) None"
proof -
  have "cont_buckets (move_slots hf ohp nhp j bs s n c) ! j = lo @ downs (moves_up hf ohp nhp j) bs \<and>
    cont_buckets (move_slots hf ohp nhp j bs s n c) ! (j + 2 ^ ohp)
      = hi @ map Some (ups (moves_up hf ohp nhp j) bs) @ replicate (m - length (ups (moves_up hf ohp nhp j) bs)) None"
    using assms(1-6)
  proof (induction hf ohp nhp j bs s n c arbitrary: lo hi m rule: move_slots.induct)
    case (1 hf ohp nhp j s n c)
    then show ?case by simp
  next
    case (2 hf ohp nhp j bs s n c)
    have "cont_buckets c ! j = (lo @ [None]) @ replicate (length bs) None"
      using "2.prems" by simp
    from "2.IH" [OF "2.prems"(1) this _ "2.prems"(4,5)] "2.prems" show ?case by simp
  next
    case (3 hf ohp nhp j e bs s n c)
    have ne: "j \<noteq> j + 2 ^ ohp" by simp
    show ?case
    proof (cases "moves_up hf ohp nhp j (kv_key e)")
      case True
      with "3.prems"(6) obtain m' where m: "m = Suc m'" by (cases m) auto
      let ?c = "setKV (j + 2 ^ ohp) n (kv_partial e) (kv_key e) (kv_mapped e) c"
      have 1: "j + 2 ^ ohp < length (cont_buckets ?c)"
        using "3.prems"(1) by (simp add: setKV_def)
      have 2: "cont_buckets ?c ! j = (lo @ [None]) @ replicate (length bs) None"
        using "3.prems" ne by (simp add: setKV_def)
      have 3: "cont_buckets ?c ! (j + 2 ^ ohp) = (hi @ [Some e]) @ replicate m' None"
        using "3.prems" m by (simp add: setKV_def list_update_append)
      from "3.IH"(1) [OF True 1 2 _ 3] "3.prems" m True show ?thesis by simp
    next
      case False
      let ?c = "setKV j s (kv_partial e) (kv_key e) (kv_mapped e) c"
      have 1: "j + 2 ^ ohp < length (cont_buckets ?c)"
        using "3.prems"(1) by (simp add: setKV_def)
      have 2: "cont_buckets ?c ! j = (lo @ [Some e]) @ replicate (length bs) None"
        using "3.prems" by (simp add: setKV_def list_update_append)
      have 3: "cont_buckets ?c ! (j + 2 ^ ohp) = hi @ replicate m None"
        using "3.prems" ne by (simp add: setKV_def)
      from "3.IH"(2) [OF False 1 2 _ 3] "3.prems" False show ?thesis by simp
    qed
  qed
  then show "cont_buckets (move_slots hf ohp nhp j bs s n c) ! j = lo @ downs (moves_up hf ohp nhp j) bs"
    and "cont_buckets (move_slots hf ohp nhp j bs s n c) ! (j + 2 ^ ohp)
      = hi @ map Some (ups (moves_up hf ohp nhp j) bs) @ replicate (m - length (ups (moves_up hf ohp nhp j) bs)) None"
    by simp_all
qed

lemma move_bucket_split:
  fixes hf :: "'k \<Rightarrow> u64"
  assumes "j + 2 ^ cont_hashpower old < length (cont_buckets c)"
    and "length (cont_buckets old ! j) = slot_per_bucket"
    and "cont_buckets c ! j = empty_bucket"
    and "cont_buckets c ! (j + 2 ^ cont_hashpower old) = empty_bucket"
  defines "P \<equiv> moves_up hf (cont_hashpower old) (cont_hashpower c) j"
    and "b \<equiv> cont_buckets old ! j"
  shows "cont_buckets (move_bucket hf old j c) ! j = lo_part P b"
    and "cont_buckets (move_bucket hf old j c) ! (j + 2 ^ cont_hashpower old) = hi_part P b"
  using move_slots_content [OF assms(1), of "[]" b 0 "[]" slot_per_bucket 0 hf
      "cont_hashpower c"] assms length_ups_le [of P b]
  by (simp_all add: move_bucket_def empty_bucket_def lo_part_def hi_part_def)

lemma move_bucket_frame [simp]:
  "cont_hashpower (move_bucket hf old j c) = cont_hashpower c"
  "length (cont_buckets (move_bucket hf old j c)) = length (cont_buckets c)"
  "i \<noteq> j \<Longrightarrow> i \<noteq> j + 2 ^ cont_hashpower old \<Longrightarrow>
     cont_buckets (move_bucket hf old j c) ! i = cont_buckets c ! i"
  by (simp_all add: move_bucket_def move_slots_frame)

section \<open>The view through a pending migration\<close>

abbreviation arr :: "('k, 'v) cuckoo_map \<Rightarrow> ('k, 'v) bucket list" where
  "arr t \<equiv> cont_buckets (buckets t)"

abbreviation old_hp :: "('k, 'v) cuckoo_map \<Rightarrow> nat" where
  "old_hp t \<equiv> cont_hashpower (old_buckets t)"

abbreviation old_arr :: "('k, 'v) cuckoo_map \<Rightarrow> ('k, 'v) bucket list" where
  "old_arr t \<equiv> cont_buckets (old_buckets t)"

definition migrated :: "('k, 'v) cuckoo_map \<Rightarrow> nat \<Rightarrow> bool" where
  "migrated t i \<longleftrightarrow> is_migrated (locks t ! lock_ind i)"

definition pending :: "('k, 'v) cuckoo_map \<Rightarrow> nat \<Rightarrow> ('k, 'v) bucket" where
  "pending t i =
     (let j = i mod 2 ^ old_hp t;
          P = moves_up (hash_fn t) (old_hp t) (hashpower t) j
      in if i < 2 ^ old_hp t then lo_part P (old_arr t ! j) else hi_part P (old_arr t ! j))"

lemma pending_cong:
  "hash_fn t' = hash_fn t \<Longrightarrow> old_buckets t' = old_buckets t \<Longrightarrow> hashpower t' = hashpower t \<Longrightarrow>
     pending t' i = pending t i"
  by (simp add: pending_def Let_def)

definition eff :: "('k, 'v) cuckoo_map \<Rightarrow> nat \<Rightarrow> ('k, 'v) bucket" where
  "eff t i = (if migrated t i then arr t ! i else pending t i)"

definition live :: "('k, 'v) cuckoo_map \<Rightarrow> ('k, 'v) kv list" where
  "live t = concat (map (\<lambda>i. contents (eff t i)) [0..<2 ^ hashpower t])"

definition pair_of :: "('k, 'v) kv \<Rightarrow> 'k \<times> 'v" where
  "pair_of e = (kv_key e, kv_mapped e)"

definition abs_map :: "('k, 'v) cuckoo_map \<Rightarrow> 'k \<rightharpoonup> 'v" where
  "abs_map t = map_of (map pair_of (live t))"

section \<open>The representation invariant\<close>

definition shaped :: "('k, 'v) container \<Rightarrow> bool" where
  "shaped c \<longleftrightarrow> length (cont_buckets c) = 2 ^ cont_hashpower c \<and>
     (\<forall>b\<in>set (cont_buckets c). length b = slot_per_bucket)"

definition placed :: "('k \<Rightarrow> u64) \<Rightarrow> nat \<Rightarrow> nat \<Rightarrow> ('k, 'v) bucket \<Rightarrow> bool" where
  "placed hf hp i b \<longleftrightarrow>
     (\<forall>e\<in>set (contents b). kv_partial e = partial_key (hf (kv_key e)) \<and>
        home hp (hf (kv_key e)) i)"

definition locks_ok :: "('k, 'v) cuckoo_map \<Rightarrow> bool" where
  "locks_ok t \<longleftrightarrow> min kMaxNumLocks (2 ^ hashpower t) \<le> length (locks t) \<and>
     length (locks t) \<le> kMaxNumLocks"

definition lazy_ok :: "('k, 'v) cuckoo_map \<Rightarrow> nat \<Rightarrow> bool" where
  "lazy_ok t l \<longleftrightarrow> is_migrated (locks t ! l) \<or>
     (length (locks t) = kMaxNumLocks \<and> hashpower t = Suc (old_hp t) \<and> 16 \<le> old_hp t \<and>
      shaped (old_buckets t) \<and>
      (\<forall>i<2 ^ hashpower t. lock_ind i = l \<longrightarrow> arr t ! i = empty_bucket) \<and>
      (\<forall>i<2 ^ old_hp t. lock_ind i = l \<longrightarrow>
         placed (hash_fn t) (old_hp t) i (old_arr t ! i)))"

definition table_struct :: "('k, 'v) cuckoo_map \<Rightarrow> bool" where
  "table_struct t \<longleftrightarrow> shaped (buckets t) \<and> hashpower t \<le> alloc_limit t \<and> alloc_limit t < 60 \<and>
     locks_ok t \<and> (\<forall>l<length (locks t). lazy_ok t l) \<and>
     (\<forall>i<2 ^ hashpower t. placed (hash_fn t) (hashpower t) i (arr t ! i))"

definition table_core :: "('k, 'v) cuckoo_map \<Rightarrow> bool" where
  "table_core t \<longleftrightarrow> table_struct t \<and> distinct (map kv_key (live t)) \<and>
     sum_list (map elem_counter (locks t)) = int (length (live t))"

definition unmigrated :: "('k, 'v) cuckoo_map \<Rightarrow> nat" where
  "unmigrated t = length (filter (\<lambda>lk. \<not> is_migrated lk) (locks t))"

definition table_ok :: "('k, 'v) cuckoo_map \<Rightarrow> bool" where
  "table_ok t \<longleftrightarrow> table_core t \<and> num_remaining t = unmigrated t"

lemma table_ok_core: "table_ok t \<Longrightarrow> table_core t"
  by (simp add: table_ok_def)

lemma table_core_struct: "table_core t \<Longrightarrow> table_struct t"
  by (simp add: table_core_def)

lemma table_structD:
  assumes "table_struct t"
  shows "shaped (buckets t)" "hashpower t \<le> alloc_limit t" "alloc_limit t < 60"
    "locks_ok t" "l < length (locks t) \<Longrightarrow> lazy_ok t l"
    "i < 2 ^ hashpower t \<Longrightarrow> placed (hash_fn t) (hashpower t) i (arr t ! i)"
  using assms by (simp_all add: table_struct_def)

lemma table_coreD:
  assumes "table_core t"
  shows "shaped (buckets t)" "hashpower t \<le> alloc_limit t" "alloc_limit t < 60"
    "locks_ok t" "l < length (locks t) \<Longrightarrow> lazy_ok t l"
    "i < 2 ^ hashpower t \<Longrightarrow> placed (hash_fn t) (hashpower t) i (arr t ! i)"
    "distinct (map kv_key (live t))"
    "sum_list (map elem_counter (locks t)) = int (length (live t))"
  using assms by (simp_all add: table_core_def table_struct_def)

lemmas table_okD = table_coreD [OF table_ok_core]

lemma table_core_hashpower_less: "table_core t \<Longrightarrow> hashpower t < 60"
  using table_coreD(2,3) [of t] by simp

section \<open>Lock indices\<close>

lemma lock_ind_mod: "lock_ind i = i mod kMaxNumLocks"
proof -
  have "kMaxNumLocks - 1 = mask 16"
    by (simp add: kMaxNumLocks_def mask_eq_exp_minus_1)
  then have "lock_ind i = take_bit 16 i"
    by (simp only: lock_ind_def take_bit_eq_mask)
  then show ?thesis by (simp only: take_bit_eq_mod kMaxNumLocks_def)
qed

lemma kMaxNumLocks_pos [simp]: "0 < kMaxNumLocks"
  by (simp add: kMaxNumLocks_def)

lemma kMaxNumLocks_nz [simp]: "kMaxNumLocks \<noteq> 0"
  by (simp add: kMaxNumLocks_def)

lemma lock_ind_less_locks:
  assumes "locks_ok t" "i < 2 ^ hashpower t"
  shows "lock_ind i < length (locks t)"
proof (cases "kMaxNumLocks \<le> 2 ^ hashpower t")
  case True
  then have "kMaxNumLocks \<le> length (locks t)" using assms(1) by (simp add: locks_ok_def)
  moreover have "lock_ind i < kMaxNumLocks" by (simp add: lock_ind_mod)
  ultimately show ?thesis by simp
next
  case False
  then have "2 ^ hashpower t \<le> length (locks t)" using assms(1) by (simp add: locks_ok_def)
  moreover have "lock_ind i \<le> i" by (simp add: lock_ind_mod)
  ultimately show ?thesis using assms(2) by simp
qed

lemma lock_ind_mod_power:
  assumes "16 \<le> n"
  shows "lock_ind (i mod 2 ^ n) = lock_ind i"
proof -
  have "(2::nat) ^ 16 dvd 2 ^ n" using assms by (rule le_imp_power_dvd)
  then show ?thesis by (simp add: lock_ind_mod kMaxNumLocks_def mod_mod_cancel)
qed

lemma lock_ind_add_power:
  assumes "16 \<le> n"
  shows "lock_ind (i + 2 ^ n) = lock_ind i"
  using lock_ind_mod_power [OF assms, of "i + 2 ^ n"] lock_ind_mod_power [OF assms, of i]
  by simp

section \<open>Migration of one lock\<close>

lemma rehash_loop_frame [simp]:
  "locks (rehash_loop s t) = locks t" "old_buckets (rehash_loop s t) = old_buckets t"
  "hash_fn (rehash_loop s t) = hash_fn t" "is_simple (rehash_loop s t) = is_simple t"
  "num_remaining (rehash_loop s t) = num_remaining t"
  "minimum_load_factor (rehash_loop s t) = minimum_load_factor t"
  "maximum_hashpower (rehash_loop s t) = maximum_hashpower t"
  "max_num_worker_threads (rehash_loop s t) = max_num_worker_threads t"
  "alloc_limit (rehash_loop s t) = alloc_limit t"
  "hashpower (rehash_loop s t) = hashpower t"
  "cont_hashpower (buckets (rehash_loop s t)) = cont_hashpower (buckets t)"
  "length (arr (rehash_loop s t)) = length (arr t)"
  by (induction s t rule: rehash_loop.induct; subst rehash_loop.simps; simp add: hashpower_def)+

text \<open>The buckets of one lock, seen from bucket \<open>s\<close>, come in steps of the number of locks.\<close>

lemma next_of_lock:
  assumes "lock_ind i = lock_ind s" "16 \<le> h"
  shows "s \<le> i mod 2 ^ h \<longleftrightarrow> i mod 2 ^ h = s \<or> s + kMaxNumLocks \<le> i mod 2 ^ h"
proof
  have "lock_ind (i mod 2 ^ h) = lock_ind s" using assms by (simp add: lock_ind_mod_power)
  then have eq: "i mod 2 ^ h mod kMaxNumLocks = s mod kMaxNumLocks" by (simp add: lock_ind_mod)
  assume "s \<le> i mod 2 ^ h"
  then obtain q where "i mod 2 ^ h = s + kMaxNumLocks * q" using eq by (metis mod_eq_nat2E)
  then show "i mod 2 ^ h = s \<or> s + kMaxNumLocks \<le> i mod 2 ^ h" by (cases q) auto
qed (use kMaxNumLocks_pos in linarith)

text \<open>Moving one old bucket fills the two buckets it is split into.\<close>

lemma moved_bucket_arr:
  assumes "length (arr t) = 2 ^ Suc (old_hp t)" "shaped (old_buckets t)" "s < 2 ^ old_hp t"
    and "hashpower t = Suc (old_hp t)" "arr t ! s = empty_bucket" "arr t ! (s + 2 ^ old_hp t) = empty_bucket"
    and "i < 2 ^ hashpower t"
  shows "cont_buckets (move_bucket (hash_fn t) (old_buckets t) s (buckets t)) ! i =
    (if i mod 2 ^ old_hp t = s then pending t i else arr t ! i)"
proof -
  let ?N = "2 ^ old_hp t :: nat"
  have len: "length (old_arr t ! s) = slot_per_bucket" using assms(2,3) by (simp add: shaped_def)
  have bound: "s + ?N < length (arr t)" using assms(1,3) by simp
  note split = move_bucket_split [OF bound len assms(5,6), of "hash_fn t"]
  have "i mod ?N = s \<longleftrightarrow> i = s \<or> i = s + ?N"
    using mod_double_cases [of i "old_hp t"] assms(3,4,7) by auto
  then show ?thesis using split assms(3,4) by (auto simp: pending_def hashpower_def)
qed

lemma rehash_loop_arr:
  assumes "length (arr t) = 2 ^ Suc (old_hp t)" "16 \<le> old_hp t" "shaped (old_buckets t)"
    and "hashpower t = Suc (old_hp t)" "lock_ind s = l"
    and "\<And>i. i < 2 ^ hashpower t \<Longrightarrow> lock_ind i = l \<Longrightarrow> s \<le> i mod 2 ^ old_hp t \<Longrightarrow>
      arr t ! i = empty_bucket"
    and "i < 2 ^ hashpower t"
  shows "arr (rehash_loop s t) ! i =
    (if lock_ind i = l \<and> s \<le> i mod 2 ^ old_hp t then pending t i else arr t ! i)"
  using assms
proof (induction s t rule: rehash_loop.induct)
  case (1 s t)
  let ?N = "2 ^ old_hp t :: nat"
  show ?case
  proof (cases "s < ?N")
    case False
    moreover have "i mod ?N < ?N" by simp
    ultimately have "\<not> s \<le> i mod ?N" by linarith
    with False show ?thesis by (subst rehash_loop.simps) (simp add: cont_size_def)
  next
    case True
    let ?c = "move_bucket (hash_fn t) (old_buckets t) s (buckets t)"
    let ?t = "t\<lparr>buckets := ?c\<rparr>"
    have ls: "lock_ind (s + ?N) = l" using "1.prems"(2,5) by (simp add: lock_ind_add_power)
    have e1: "arr t ! s = empty_bucket" "arr t ! (s + ?N) = empty_bucket"
      using "1.prems"(4,5) "1.prems"(6) [of s] "1.prems"(6) [of "s + ?N"] True ls by simp_all
    note moved = moved_bucket_arr [OF "1.prems"(1,3) True "1.prems"(4) e1]
    note step = next_of_lock [OF _ "1.prems"(2), of _ s, unfolded "1.prems"(5)]
    have pend: "pending ?t i' = pending t i'" for i'
      by (rule pending_cong) (simp_all add: hashpower_def)
    have empty': "arr ?t ! i' = empty_bucket"
      if "i' < 2 ^ hashpower t" "lock_ind i' = l" "s + kMaxNumLocks \<le> i' mod ?N" for i'
    proof -
      have "i' mod ?N \<noteq> s" using that(3) kMaxNumLocks_pos by linarith
      then show ?thesis using moved [OF that(1)] "1.prems"(6) that by simp
    qed
    have li: "lock_ind (s + kMaxNumLocks) = l" using "1.prems"(5) by (simp add: lock_ind_mod)
    have cs: "s < cont_size (old_buckets t)" using True by (simp add: cont_size_def)
    have "arr (rehash_loop (s + kMaxNumLocks) ?t) ! i =
        (if lock_ind i = l \<and> s + kMaxNumLocks \<le> i mod 2 ^ old_hp ?t then pending ?t i
         else arr ?t ! i)"
      by (rule "1.IH") (use cs "1.prems" empty' li in \<open>simp_all add: hashpower_def\<close>)
    moreover have "arr (rehash_loop s t) = arr (rehash_loop (s + kMaxNumLocks) ?t)"
      by (subst rehash_loop.simps) (simp add: cs)
    ultimately have "arr (rehash_loop s t) ! i =
        (if lock_ind i = l \<and> s + kMaxNumLocks \<le> i mod ?N then pending t i
         else if i mod ?N = s then pending t i else arr t ! i)"
      using pend moved [OF "1.prems"(7)] by simp
    moreover have "lock_ind i = l" if "i mod ?N = s"
      using lock_ind_mod_power [OF "1.prems"(2), of i] that "1.prems"(5) by simp
    ultimately show ?thesis using step [of i] by auto
  qed
qed

lemma rehash_lock_frame [simp]:
  "hash_fn (rehash_lock z l t) = hash_fn t" "is_simple (rehash_lock z l t) = is_simple t"
  "minimum_load_factor (rehash_lock z l t) = minimum_load_factor t"
  "maximum_hashpower (rehash_lock z l t) = maximum_hashpower t"
  "max_num_worker_threads (rehash_lock z l t) = max_num_worker_threads t"
  "alloc_limit (rehash_lock z l t) = alloc_limit t"
  "hashpower (rehash_lock z l t) = hashpower t"
  "cont_hashpower (buckets (rehash_lock z l t)) = cont_hashpower (buckets t)"
  "length (arr (rehash_lock z l t)) = length (arr t)"
  "length (locks (rehash_lock z l t)) = length (locks t)"
  "old_hp (rehash_lock z l t) = old_hp t"
  by (simp_all add: rehash_lock_def Let_def decrement_num_remaining_lazy_rehash_locks_def
      clear_and_deallocate_def hashpower_def)

lemma rehash_lock_locks:
  "locks (rehash_lock z l t) = (locks t)[l := (locks t ! l)\<lparr>is_migrated := True\<rparr>]"
proof (cases "is_migrated (locks t ! l)")
  case True
  then have "(locks t ! l)\<lparr>is_migrated := True\<rparr> = locks t ! l"
    by (cases "locks t ! l") simp
  then have "(locks t)[l := (locks t ! l)\<lparr>is_migrated := True\<rparr>] = locks t"
    by (simp only: list_update_id)
  then show ?thesis using True by (simp only: rehash_lock_def if_True)
next
  case False
  then show ?thesis
    by (simp add: rehash_lock_def Let_def decrement_num_remaining_lazy_rehash_locks_def)
qed

lemma rehash_lock_counters [simp]:
  "map elem_counter (locks (rehash_lock z l t)) = map elem_counter (locks t)"
  by (cases "l < length (locks t)")
    (simp_all add: rehash_lock_locks map_update list_update_same_conv list_update_beyond)

lemma rehash_lock_arr:
  "\<not> is_migrated (locks t ! l) \<Longrightarrow> arr (rehash_lock z l t) = arr (rehash_loop l t)"
  by (simp add: rehash_lock_def Let_def decrement_num_remaining_lazy_rehash_locks_def)

lemma rehash_lock_migrated: "is_migrated (locks t ! l) \<Longrightarrow> rehash_lock z l t = t"
  by (simp add: rehash_lock_def)

lemma unmigrated_update:
  assumes "l < length (locks t)" "\<not> is_migrated (locks t ! l)"
    and "locks t' = (locks t)[l := (locks t ! l)\<lparr>is_migrated := True\<rparr>]"
  shows "unmigrated t = Suc (unmigrated t')"
proof -
  have "length (filter P (xs[l := y])) + 1 = length (filter P xs)"
    if "l < length xs" "P (xs ! l)" "\<not> P y" for P and xs :: "spinlock list" and y
    using that
  proof (induction xs arbitrary: l)
    case (Cons x xs)
    then show ?case by (cases l) auto
  qed simp
  from this [of "locks t" "\<lambda>lk. \<not> is_migrated lk"] assms show ?thesis
    by (simp add: unmigrated_def)
qed

lemma unmigrated_ge2:
  assumes "l < length (locks t)" "\<not> is_migrated (locks t ! l)"
    and "m < length (locks t)" "\<not> is_migrated (locks t ! m)" "l \<noteq> m"
  shows "2 \<le> unmigrated t"
proof -
  have "card {l, m} \<le> card {i. i < length (locks t) \<and> \<not> is_migrated (locks t ! i)}"
    by (rule card_mono) (use assms in auto)
  then show ?thesis using assms(5) by (simp add: unmigrated_def length_filter_conv_card)
qed

lemma rehash_lock_old:
  assumes "table_core t" "z \<Longrightarrow> table_ok t" "l < length (locks t)"
    and "m < length (locks t)" "\<not> is_migrated (locks t ! m)" "l \<noteq> m"
  shows "old_buckets (rehash_lock z l t) = old_buckets t"
proof (cases "is_migrated (locks t ! l)")
  case True
  then show ?thesis by (simp add: rehash_lock_migrated)
next
  case False
  have "z \<Longrightarrow> num_remaining t \<noteq> 1"
    using unmigrated_ge2 [OF assms(3) False assms(4-6)] assms(2) by (simp add: table_ok_def)
  with False show ?thesis
    by (auto simp: rehash_lock_def Let_def decrement_num_remaining_lazy_rehash_locks_def)
qed

lemma lazy_okD:
  assumes "lazy_ok t l" "\<not> is_migrated (locks t ! l)"
  shows "length (locks t) = kMaxNumLocks" "hashpower t = Suc (old_hp t)" "16 \<le> old_hp t"
    "shaped (old_buckets t)"
    "i < 2 ^ hashpower t \<Longrightarrow> lock_ind i = l \<Longrightarrow> arr t ! i = empty_bucket"
    "i < 2 ^ old_hp t \<Longrightarrow> lock_ind i = l \<Longrightarrow>
       placed (hash_fn t) (old_hp t) i (old_arr t ! i)"
  using assms by (simp_all add: lazy_ok_def)

lemma rehash_lock_arr_nth:
  assumes "table_core t" "l < length (locks t)" "\<not> is_migrated (locks t ! l)"
    and "i < 2 ^ hashpower t"
  shows "arr (rehash_lock z l t) ! i = (if lock_ind i = l then pending t i else arr t ! i)"
proof -
  note lz = lazy_okD [OF table_coreD(5) [OF assms(1,2)] assms(3)]
  have l: "lock_ind l = l" using assms(2) lz(1) by (simp add: lock_ind_mod)
  have "l \<le> i mod 2 ^ old_hp t" if "lock_ind i = l"
    using lock_ind_mod_power [OF lz(3), of i] that by (metis lock_ind_mod mod_less_eq_dividend)
  moreover have "arr (rehash_loop l t) ! i =
      (if lock_ind i = l \<and> l \<le> i mod 2 ^ old_hp t then pending t i else arr t ! i)"
    by (rule rehash_loop_arr [OF _ lz(3,4,2) l])
      (use lz assms(4) table_coreD(1) [OF assms(1)] in \<open>auto simp: shaped_def hashpower_def\<close>)
  ultimately show ?thesis using assms(3) by (simp add: rehash_lock_arr)
qed

lemma rehash_lock_eff:
  assumes "table_core t" "z \<Longrightarrow> table_ok t" "l < length (locks t)" "i < 2 ^ hashpower t"
  shows "eff (rehash_lock z l t) i = eff t i"
proof (cases "is_migrated (locks t ! l)")
  case True
  then show ?thesis by (simp add: rehash_lock_migrated)
next
  case False
  note nth = rehash_lock_arr_nth [OF assms(1,3) False assms(4), of z]
  have li: "lock_ind i < length (locks t)"
    by (rule lock_ind_less_locks [OF table_coreD(4) [OF assms(1)] assms(4)])
  show ?thesis
  proof (cases "lock_ind i = l")
    case True
    then show ?thesis using nth False assms(3)
      by (simp add: eff_def migrated_def rehash_lock_locks)
  next
    case ne: False
    then have mig: "migrated (rehash_lock z l t) i = migrated t i"
      by (simp add: migrated_def rehash_lock_locks)
    show ?thesis
    proof (cases "migrated t i")
      case True
      then show ?thesis using nth ne mig by (simp add: eff_def)
    next
      case um: False
      have "old_buckets (rehash_lock z l t) = old_buckets t"
        by (rule rehash_lock_old [OF assms(1-3) li])
          (use um ne in \<open>auto simp: migrated_def\<close>)
      then have "pending (rehash_lock z l t) i = pending t i"
        by (intro pending_cong) simp_all
      then show ?thesis using um mig by (simp add: eff_def)
    qed
  qed
qed

lemma live_cong:
  assumes "hashpower t' = hashpower t" "\<And>i. i < 2 ^ hashpower t \<Longrightarrow> eff t' i = eff t i"
  shows "live t' = live t"
  unfolding live_def assms(1)
  by (rule arg_cong [where f = concat]) (simp add: assms(2))

lemma abs_map_cong: "live t' = live t \<Longrightarrow> abs_map t' = abs_map t"
  by (simp add: abs_map_def)

lemma rehash_lock_live:
  assumes "table_core t" "z \<Longrightarrow> table_ok t" "l < length (locks t)"
  shows "live (rehash_lock z l t) = live t"
  by (rule live_cong) (simp_all add: rehash_lock_eff [OF assms])

lemma moves_up_placed:
  assumes "home o1 (hf k) j"
  shows "moves_up hf o1 (Suc o1) j k \<Longrightarrow> home (Suc o1) (hf k) (j + 2 ^ o1)"
    and "\<not> moves_up hf o1 (Suc o1) j k \<Longrightarrow> home (Suc o1) (hf k) j"
proof -
  let ?h = "hf k"
  let ?i = "index_hash (Suc o1) ?h"
  let ?a = "alt_index (Suc o1) (partial_key ?h) ?i"
  have i: "?i mod 2 ^ o1 = index_hash o1 ?h" by (rule index_hash_grow)
  have a: "?a mod 2 ^ o1 = alt_index o1 (partial_key ?h) (index_hash o1 ?h)"
    by (simp add: alt_index_grow i)
  have ci: "?i = index_hash o1 ?h \<or> ?i = index_hash o1 ?h + 2 ^ o1"
    using mod_double_cases [OF index_hash_less, of o1 ?h] i by simp
  have ca: "?a = alt_index o1 (partial_key ?h) (index_hash o1 ?h) \<or>
      ?a = alt_index o1 (partial_key ?h) (index_hash o1 ?h) + 2 ^ o1"
    using mod_double_cases [OF alt_index_less, of o1 "partial_key ?h" ?i] a by simp
  have up: "moves_up hf o1 (Suc o1) j k \<longleftrightarrow>
      (j = index_hash o1 ?h \<and> ?i = j + 2 ^ o1) \<or>
      (j = alt_index o1 (partial_key ?h) (index_hash o1 ?h) \<and> ?a = j + 2 ^ o1)"
    by (simp add: moves_up_def hashed_key_def Let_def)
  show "home (Suc o1) ?h (j + 2 ^ o1)" if "moves_up hf o1 (Suc o1) j k"
    using that unfolding up home_def by metis
  show "home (Suc o1) ?h j" if "\<not> moves_up hf o1 (Suc o1) j k"
    using that assms ci ca unfolding up home_def by metis
qed

lemma placed_parts:
  assumes "placed hf o1 j b"
  defines "P \<equiv> moves_up hf o1 (Suc o1) j"
  shows "placed hf (Suc o1) j (lo_part P b)" "placed hf (Suc o1) (j + 2 ^ o1) (hi_part P b)"
  using assms(1) moves_up_placed [of o1 hf _ j]
  by (auto simp: placed_def set_contents set_lo_part set_hi_part P_def)

lemma pending_ok:
  assumes "hashpower t = Suc (old_hp t)" "i < 2 ^ hashpower t"
    and "placed (hash_fn t) (old_hp t) (i mod 2 ^ old_hp t) (old_arr t ! (i mod 2 ^ old_hp t))"
    and "shaped (old_buckets t)"
  shows "placed (hash_fn t) (hashpower t) i (pending t i)"
    and "length (pending t i) = slot_per_bucket"
proof -
  let ?j = "i mod 2 ^ old_hp t"
  have "?j < length (old_arr t)" using assms(4) by (simp add: shaped_def)
  then show "length (pending t i) = slot_per_bucket"
    using assms(4) by (simp add: pending_def Let_def shaped_def)
  show "placed (hash_fn t) (hashpower t) i (pending t i)"
  proof (cases "i < 2 ^ old_hp t")
    case True
    with placed_parts(1) [OF assms(3)] assms(1) show ?thesis
      by (simp add: pending_def Let_def)
  next
    case False
    then have "i = ?j + 2 ^ old_hp t"
      using mod_double_cases [of i "old_hp t"] assms(1,2)
      by (metis mod_less_divisor zero_less_numeral zero_less_power)
    with False placed_parts(2) [OF assms(3)] assms(1) show ?thesis
      by (simp add: pending_def Let_def)
  qed
qed

lemma unmigrated_pending:
  assumes "table_struct t" "i < 2 ^ hashpower t" "\<not> migrated t i"
  shows "placed (hash_fn t) (hashpower t) i (pending t i)"
    and "length (pending t i) = slot_per_bucket"
proof -
  have li: "lock_ind i < length (locks t)"
    by (rule lock_ind_less_locks [OF table_structD(4) [OF assms(1)] assms(2)])
  note lz = lazy_okD [OF table_structD(5) [OF assms(1) li] assms(3) [unfolded migrated_def]]
  have "placed (hash_fn t) (old_hp t) (i mod 2 ^ old_hp t) (old_arr t ! (i mod 2 ^ old_hp t))"
    by (rule lz(6)) (simp_all add: lock_ind_mod_power lz(3))
  from pending_ok [OF lz(2) assms(2) this lz(4)]
  show "placed (hash_fn t) (hashpower t) i (pending t i)"
    and "length (pending t i) = slot_per_bucket" .
qed

lemma eff_placed:
  assumes "table_struct t" "i < 2 ^ hashpower t"
  shows "placed (hash_fn t) (hashpower t) i (eff t i)"
  using unmigrated_pending(1) [OF assms] table_structD(6) [OF assms] by (simp add: eff_def)

lemma arr_bucket_length:
  assumes "table_struct t" "i < 2 ^ hashpower t"
  shows "length (arr t ! i) = slot_per_bucket"
  using table_structD(1) [OF assms(1)] assms(2) by (simp add: shaped_def hashpower_def)

lemma eff_length:
  assumes "table_struct t" "i < 2 ^ hashpower t"
  shows "length (eff t i) = slot_per_bucket"
  using unmigrated_pending(2) [OF assms] arr_bucket_length [OF assms] by (simp add: eff_def)

lemma arr_length: "table_struct t \<Longrightarrow> length (arr t) = 2 ^ hashpower t"
  using table_structD(1) [of t] by (simp add: shaped_def hashpower_def)

lemma shapedI:
  assumes "length (cont_buckets c) = 2 ^ cont_hashpower c"
    and "\<And>i. i < 2 ^ cont_hashpower c \<Longrightarrow> length (cont_buckets c ! i) = slot_per_bucket"
  shows "shaped c"
  using assms by (auto simp: shaped_def in_set_conv_nth)

lemma rehash_lock_core:
  assumes "table_core t" "z \<Longrightarrow> table_ok t" "l < length (locks t)"
  shows "table_core (rehash_lock z l t)"
proof (cases "is_migrated (locks t ! l)")
  case True
  then show ?thesis using assms(1) by (simp add: rehash_lock_migrated)
next
  case False
  let ?t = "rehash_lock z l t"
  note struct = table_core_struct [OF assms(1)]
  note nth = rehash_lock_arr_nth [OF assms(1,3) False, of _ z]
  have bucket: "length (arr ?t ! i) = slot_per_bucket \<and>
      placed (hash_fn t) (hashpower t) i (arr ?t ! i)" if "i < 2 ^ hashpower t" for i
    using nth [OF that] unmigrated_pending [OF struct that] False
      arr_bucket_length [OF struct that] table_coreD(6) [OF assms(1) that]
    by (auto simp: migrated_def)
  have "shaped (buckets ?t)"
    by (rule shapedI) (use bucket arr_length [OF struct] in \<open>auto simp: hashpower_def\<close>)
  moreover have "lazy_ok ?t m" if "m < length (locks t)" for m
  proof (cases "m = l \<or> is_migrated (locks t ! m)")
    case True
    then have "is_migrated (locks ?t ! m)"
      using that by (cases "m = l") (simp_all add: rehash_lock_locks)
    then show ?thesis by (simp add: lazy_ok_def)
  next
    case m: False
    note lz = lazy_okD [OF table_coreD(5) [OF assms(1) that]]
    have "old_buckets ?t = old_buckets t"
      by (rule rehash_lock_old [OF assms that]) (use m in auto)
    moreover have "arr ?t ! i = empty_bucket" if "i < 2 ^ hashpower t" "lock_ind i = m" for i
      using nth [OF that(1)] m lz(5) [of i] that by auto
    ultimately show ?thesis using lz m by (simp add: lazy_ok_def)
  qed
  ultimately show ?thesis
    using assms(1) bucket rehash_lock_live [OF assms]
    by (simp add: table_core_def table_struct_def locks_ok_def)
qed

lemma rehash_lock_ok:
  assumes "table_ok t" "l < length (locks t)"
  shows "table_ok (rehash_lock True l t)"
proof (cases "is_migrated (locks t ! l)")
  case True
  then show ?thesis using assms(1) by (simp add: rehash_lock_migrated)
next
  case False
  have "num_remaining (rehash_lock True l t) = num_remaining t - 1"
    using False
    by (simp add: rehash_lock_def Let_def decrement_num_remaining_lazy_rehash_locks_def)
  moreover have "unmigrated t = Suc (unmigrated (rehash_lock True l t))"
    by (rule unmigrated_update [OF assms(2) False]) (simp add: rehash_lock_locks)
  ultimately show ?thesis
    using assms rehash_lock_core [of t True l] by (simp add: table_ok_def)
qed

lemma rehash_lock_is_migrated:
  "l < length (locks t) \<Longrightarrow>
     migrated (rehash_lock z l t) i \<longleftrightarrow> lock_ind i = l \<or> migrated t i"
  by (auto simp: migrated_def rehash_lock_locks nth_list_update)

text \<open>What taking any lock keeps: the view, the invariant and the parameters of the table.\<close>

definition same_view :: "('k, 'v) cuckoo_map \<Rightarrow> ('k, 'v) cuckoo_map \<Rightarrow> bool" where
  "same_view t t' \<longleftrightarrow> hash_fn t' = hash_fn t \<and> is_simple t' = is_simple t \<and>
     hashpower t' = hashpower t \<and> alloc_limit t' = alloc_limit t \<and>
     minimum_load_factor t' = minimum_load_factor t \<and>
     maximum_hashpower t' = maximum_hashpower t \<and>
     max_num_worker_threads t' = max_num_worker_threads t \<and>
     map elem_counter (locks t') = map elem_counter (locks t) \<and>
     (\<forall>i<2 ^ hashpower t. eff t' i = eff t i) \<and>
     (\<forall>i<2 ^ hashpower t. migrated t i \<longrightarrow> migrated t' i)"

lemma same_view_refl [simp]: "same_view t t"
  by (simp add: same_view_def)

lemma same_view_trans: "same_view t u \<Longrightarrow> same_view u w \<Longrightarrow> same_view t w"
  by (simp add: same_view_def)

lemma same_viewD:
  assumes "same_view t t'"
  shows "hash_fn t' = hash_fn t" "is_simple t' = is_simple t" "hashpower t' = hashpower t"
    "alloc_limit t' = alloc_limit t" "live t' = live t" "abs_map t' = abs_map t"
    "i < 2 ^ hashpower t \<Longrightarrow> eff t' i = eff t i"
    "i < 2 ^ hashpower t \<Longrightarrow> migrated t i \<Longrightarrow> migrated t' i"
    "length (locks t') = length (locks t)"
    "cuckoo_size t' = cuckoo_size t"
  using assms live_cong [of t' t] abs_map_cong [of t' t]
  by (auto simp: same_view_def cuckoo_size_def dest: map_eq_imp_length_eq)

lemma rehash_lock_view_core:
  assumes "table_core t" "z \<Longrightarrow> table_ok t" "l < length (locks t)"
  shows "same_view t (rehash_lock z l t)"
  using rehash_lock_eff [OF assms] assms(3)
  by (simp add: same_view_def rehash_lock_is_migrated)

lemma rehash_lock_view:
  assumes "table_ok t" "l < length (locks t)"
  shows "same_view t (rehash_lock True l t)"
  by (rule rehash_lock_view_core) (use assms table_ok_core in auto)

section \<open>The map a table denotes\<close>

lemma pair_of_sel [simp]:
  "fst (pair_of e) = kv_key e" "snd (pair_of e) = kv_mapped e" "fst \<circ> pair_of = kv_key"
  by (auto simp: pair_of_def)

lemma pair_of_eq_iff: "pair_of e = (k, v) \<longleftrightarrow> kv_key e = k \<and> kv_mapped e = v"
  by (auto simp: pair_of_def)

lemma map_of_mset_cong:
  assumes "mset xs = mset ys" "distinct (map fst xs)"
  shows "map_of xs = map_of ys"
proof -
  have "distinct (map fst ys)"
    using assms by (metis mset_eq_imp_distinct_iff mset_map)
  then show ?thesis
    using assms by (intro map_of_eqI) (auto dest: mset_eq_setD simp: map_of_eq_Some_iff
        intro!: image_cong split: option.splits)
qed

lemma abs_map_mset_cong:
  assumes "mset (live t') = mset (live t)" "distinct (map kv_key (live t))"
  shows "abs_map t' = abs_map t"
  unfolding abs_map_def
  by (rule map_of_mset_cong [symmetric]) (use assms in simp_all)

lemma distinct_keys_mset:
  assumes "mset es = mset es'" "distinct (map kv_key es)"
  shows "distinct (map kv_key es')"
  using assms by (metis mset_eq_imp_distinct_iff mset_map)

lemma abs_map_add:
  assumes "mset (live t') = add_mset e (mset (live t))" "distinct (map kv_key (live t'))"
  shows "abs_map t' = (abs_map t)(kv_key e \<mapsto> kv_mapped e)"
proof -
  have "abs_map t' = map_of (map pair_of (e # live t))"
    unfolding abs_map_def by (rule map_of_mset_cong) (use assms in simp_all)
  then show ?thesis by (simp add: abs_map_def pair_of_def)
qed

lemma abs_map_del:
  assumes "mset (live t) = add_mset e (mset (live t'))" "distinct (map kv_key (live t))"
  shows "abs_map t' = (abs_map t)(kv_key e := None)"
proof -
  have d: "distinct (map kv_key (e # live t'))"
    by (rule distinct_keys_mset [OF _ assms(2)]) (simp add: assms(1))
  then have "abs_map t' (kv_key e) = None"
    by (auto simp: abs_map_def map_of_eq_None_iff image_iff)
  moreover have "abs_map t = (abs_map t')(kv_key e \<mapsto> kv_mapped e)"
    by (rule abs_map_add [OF assms])
  ultimately show ?thesis by auto
qed

lemma abs_map_SomeI:
  assumes "table_core t" "e \<in> set (live t)"
  shows "abs_map t (kv_key e) = Some (kv_mapped e)"
  unfolding abs_map_def
  by (rule map_of_is_SomeI)
    (use assms table_coreD(7) [OF assms(1)] in \<open>auto simp: image_iff pair_of_def\<close>)

lemma abs_map_None_iff: "abs_map t k = None \<longleftrightarrow> k \<notin> kv_key ` set (live t)"
  by (auto simp: abs_map_def map_of_eq_None_iff image_iff)

lemma abs_map_SomeD:
  "abs_map t k = Some v \<Longrightarrow> \<exists>e\<in>set (live t). kv_key e = k \<and> kv_mapped e = v"
  by (auto simp: abs_map_def pair_of_eq_iff dest!: map_of_SomeD)
    (metis pair_of_eq_iff)

lemma finite_dom_abs_map [simp]: "finite (dom (abs_map t))"
  by (simp add: abs_map_def finite_dom_map_of)

lemma card_dom_abs_map:
  assumes "distinct (map kv_key (live t))"
  shows "card (dom (abs_map t)) = length (live t)"
proof -
  have "dom (abs_map t) = set (map kv_key (live t))"
    by (auto simp: abs_map_def dom_map_of_conv_image_fst image_iff)
  then show ?thesis using assms by (metis distinct_card length_map)
qed

lemma cuckoo_size_card: "table_core t \<Longrightarrow> cuckoo_size t = card (dom (abs_map t))"
  by (simp add: cuckoo_size_def table_coreD(7,8) card_dom_abs_map)

lemma set_live: "set (live t) = (\<Union>i<2 ^ hashpower t. set (contents (eff t i)))"
  by (auto simp: live_def atLeast0LessThan)

lemma mset_live: "mset (live t) = (\<Sum>i<2 ^ hashpower t. mset (contents (eff t i)))"
proof -
  have "mset (concat (map f [0..<n])) = (\<Sum>i<n. mset (f i))" for f :: "nat \<Rightarrow> ('k, 'v) kv list" and n
    by (induction n) simp_all
  then show ?thesis unfolding live_def .
qed

lemma live_home:
  assumes "table_core t" "e \<in> set (live t)"
  obtains i where "i < 2 ^ hashpower t" "home (hashpower t) (hash_fn t (kv_key e)) i"
    "Some e \<in> set (eff t i)"
  using assms eff_placed [OF table_core_struct [OF assms(1)]]
  by (auto simp: set_live placed_def set_contents)

lemma live_partial:
  assumes "table_core t" "e \<in> set (live t)"
  shows "kv_partial e = partial_key (hash_fn t (kv_key e))"
  using assms eff_placed [OF table_core_struct [OF assms(1)]] by (auto simp: set_live placed_def)

section \<open>Changing one slot of a bucket whose lock is held\<close>

definition put_slot ::
  "nat \<Rightarrow> nat \<Rightarrow> ('k, 'v) kv option \<Rightarrow> ('k, 'v) cuckoo_map \<Rightarrow> ('k, 'v) cuckoo_map" where
  "put_slot i j x t =
     t\<lparr>buckets := (buckets t)\<lparr>cont_buckets := (arr t)[i := (arr t ! i)[j := x]]\<rparr>\<rparr>"

lemma setKV_put_slot:
  "t\<lparr>buckets := setKV i j p k v (buckets t)\<rparr>
     = put_slot i j (Some \<lparr>kv_partial = p, kv_key = k, kv_mapped = v\<rparr>) t"
  by (simp add: put_slot_def setKV_def)

lemma eraseKV_put_slot: "t\<lparr>buckets := eraseKV i j (buckets t)\<rparr> = put_slot i j None t"
  by (simp add: put_slot_def eraseKV_def)

lemma put_slot_frame [simp]:
  "hash_fn (put_slot i j x t) = hash_fn t" "is_simple (put_slot i j x t) = is_simple t"
  "old_buckets (put_slot i j x t) = old_buckets t" "locks (put_slot i j x t) = locks t"
  "num_remaining (put_slot i j x t) = num_remaining t"
  "minimum_load_factor (put_slot i j x t) = minimum_load_factor t"
  "maximum_hashpower (put_slot i j x t) = maximum_hashpower t"
  "max_num_worker_threads (put_slot i j x t) = max_num_worker_threads t"
  "alloc_limit (put_slot i j x t) = alloc_limit t"
  "hashpower (put_slot i j x t) = hashpower t"
  "cont_hashpower (buckets (put_slot i j x t)) = cont_hashpower (buckets t)"
  "length (arr (put_slot i j x t)) = length (arr t)"
  "migrated (put_slot i j x t) m = migrated t m"
  "unmigrated (put_slot i j x t) = unmigrated t"
  "pending (put_slot i j x t) m = pending t m"
  by (simp_all add: put_slot_def hashpower_def migrated_def unmigrated_def pending_def Let_def)

lemma put_slot_arr:
  "i < length (arr t) \<Longrightarrow>
     arr (put_slot i j x t) ! m = (if m = i then (arr t ! i)[j := x] else arr t ! m)"
  by (simp add: put_slot_def)

lemma put_slot_eff:
  "i < length (arr t) \<Longrightarrow> migrated t i \<Longrightarrow>
     eff (put_slot i j x t) m = (if m = i then (eff t i)[j := x] else eff t m)"
  by (simp add: eff_def put_slot_arr)

lemma mset_live_put_slot:
  assumes "table_struct t" "i < 2 ^ hashpower t" "migrated t i"
  shows "mset (live (put_slot i j x t)) + mset (contents (eff t i))
    = mset (live t) + mset (contents ((eff t i)[j := x]))"
proof -
  have i: "i < length (arr t)" using assms(1,2) by (simp add: arr_length)
  let ?f = "\<lambda>m. mset (contents (eff t m))"
  let ?g = "\<lambda>m. mset (contents (eff (put_slot i j x t) m))"
  have "sum ?g ({..<2 ^ hashpower t} - {i}) = sum ?f ({..<2 ^ hashpower t} - {i})"
    by (rule sum.cong) (use put_slot_eff [OF i assms(3)] in auto)
  then show ?thesis
    using assms(2) put_slot_eff [OF i assms(3), of j x i]
    by (simp add: mset_live sum.remove [of "{..<2 ^ hashpower t}" i])
qed

lemma live_put_slot_Some:
  assumes "table_struct t" "i < 2 ^ hashpower t" "migrated t i" "j < slot_per_bucket"
    and "eff t i ! j = None"
  shows "mset (live (put_slot i j (Some e) t)) = add_mset e (mset (live t))"
  using mset_live_put_slot [OF assms(1-3), of j "Some e"]
    mset_contents_put [of j "eff t i" e] eff_length [OF assms(1,2)] assms(4,5)
  by simp

lemma live_put_slot_None:
  assumes "table_struct t" "i < 2 ^ hashpower t" "migrated t i" "j < slot_per_bucket"
    and "eff t i ! j = Some e"
  shows "mset (live t) = add_mset e (mset (live (put_slot i j None t)))"
  using mset_live_put_slot [OF assms(1-3), of j None]
    mset_contents_del [of j "eff t i" e] eff_length [OF assms(1,2)] assms(4,5)
  by simp

lemma live_put_slot_change:
  assumes "table_struct t" "i < 2 ^ hashpower t" "migrated t i" "j < slot_per_bucket"
    and "eff t i ! j = Some e"
  shows "add_mset e (mset (live (put_slot i j (Some e') t))) = add_mset e' (mset (live t))"
proof -
  have "j < length (eff t i)" using eff_length [OF assms(1,2)] assms(4) by simp
  then have "mset (contents ((eff t i)[j := Some e']))
      = add_mset e' (mset (contents ((eff t i)[j := None])))"
    using mset_contents_put [of j "(eff t i)[j := None]" e'] by simp
  then show ?thesis
    using mset_live_put_slot [OF assms(1-3), of j "Some e'"]
      mset_contents_del [OF \<open>j < length (eff t i)\<close> assms(5)]
    by simp
qed

lemma Some_in_set_updateD:
  "Some e \<in> set (b[j := x]) \<Longrightarrow> x = Some e \<or> Some e \<in> set b"
  using set_update_subset_insert [of b j x] by auto

text \<open>
  The structural half of the invariant survives writing an entry into one of its own
  candidate buckets.
\<close>

lemma put_slot_struct:
  assumes "table_struct t" "i < 2 ^ hashpower t" "migrated t i"
    and "\<And>e. x = Some e \<Longrightarrow> kv_partial e = partial_key (hash_fn t (kv_key e)) \<and>
      home (hashpower t) (hash_fn t (kv_key e)) i"
  shows "table_struct (put_slot i j x t)"
proof -
  have i: "i < length (arr t)" using assms(1,2) by (simp add: arr_length)
  note arr' = put_slot_arr [OF i]
  have "shaped (buckets (put_slot i j x t))"
  proof (rule shapedI)
    show "length (arr (put_slot i j x t)) = 2 ^ cont_hashpower (buckets (put_slot i j x t))"
      using arr_length [OF assms(1)] by (simp add: hashpower_def)
    show "length (arr (put_slot i j x t) ! m) = slot_per_bucket"
      if "m < 2 ^ cont_hashpower (buckets (put_slot i j x t))" for m
      using that arr_bucket_length [OF assms(1), of m] arr_bucket_length [OF assms(1,2)]
      by (simp add: arr' hashpower_def)
  qed
  moreover have "placed (hash_fn t) (hashpower t) m (arr (put_slot i j x t) ! m)"
    if "m < 2 ^ hashpower t" for m
    using table_structD(6) [OF assms(1) that] table_structD(6) [OF assms(1,2)] assms(4)
    by (auto simp: arr' placed_def set_contents dest!: Some_in_set_updateD)
  moreover have "lazy_ok (put_slot i j x t) l" if "l < length (locks t)" for l
    using table_structD(5) [OF assms(1) that] assms(3)
    by (auto simp: lazy_ok_def arr' migrated_def)
  ultimately show ?thesis
    using table_structD(2-4) [OF assms(1)] by (simp add: table_struct_def locks_ok_def)
qed

end
