(* ===== verification/Cuckoo_Search.thy ===== *)
theory Cuckoo_Search
  imports Cuckoo_Inv
begin

text \<open>
  Taking bucket locks and looking for a place: \<open>lock_one\<close>, \<open>lock_two\<close>,
  \<open>lock_three\<close>, \<open>cuckoo_find\<close>, the breadth first search for a cuckoo path
  (\<open>slot_search\<close>, \<open>cuckoopath_search\<close>), the moves along it (\<open>cuckoopath_move\<close>) and
  \<open>run_cuckoo\<close>.  A lock manager is represented by the bucket indices it stands for; the
  order in which the code acquires the spinlocks is in \<open>lock_one_steps\<close>, \<open>lock_two_steps\<close> and
  \<open>lock_three_steps\<close>.
\<close>

section \<open>Taking locks\<close>

datatype table_mode = Locked_table_mode | Normal_mode

record two_buckets =
  b_i1 :: nat
  b_i2 :: nat

text \<open>
  What a call does with the locks, in its order: take the spinlock \<open>l\<close>, compare the hashpower
  and give the lock back if it has changed, migrate the buckets of the lock.
\<close>

datatype lock_step = Lock nat | Check nat | Migrate nat

definition sort_locks_three :: "nat \<Rightarrow> nat \<Rightarrow> nat \<Rightarrow> nat \<times> nat \<times> nat" where
  "sort_locks_three i1 i2 i3 =
     (let (l0, l1, l2) = (lock_ind i1, lock_ind i2, lock_ind i3);
          (l1, l2) = (if l2 < l1 then (l2, l1) else (l1, l2));
          (l0, l2) = (if l2 < l0 then (l2, l0) else (l0, l2));
          (l0, l1) = (if l1 < l0 then (l1, l0) else (l0, l1))
      in (l0, l1, l2))"

definition check_hashpower ::
  "nat \<Rightarrow> ('k, 'v) cuckoo_map \<Rightarrow> ('k, 'v) cuckoo_map \<times> (cuckoo_exn + unit)" where
  "check_hashpower hp t = (if hashpower t \<noteq> hp then (t, Inl Hashpower_changed) else (t, Inr ()))"

text \<open>
  Run alone, no spinlock is taken by anyone else, and taking it changes nothing else.  How
  calls wait for each other is the subject of \<open>Cuckoo_Lock_Order\<close>.
\<close>

fun run_steps ::
  "nat \<Rightarrow> lock_step list \<Rightarrow> ('k, 'v) cuckoo_map \<Rightarrow> ('k, 'v) cuckoo_map \<times> (cuckoo_exn + unit)" where
  "run_steps hp [] t = (t, Inr ())"
| "run_steps hp (Lock l # steps) t = run_steps hp steps t"
| "run_steps hp (Check l # steps) t = and_then (check_hashpower hp t) (\<lambda>_. run_steps hp steps)"
| "run_steps hp (Migrate l # steps) t = run_steps hp steps (rehash_lock True l t)"

definition lock_one_steps :: "nat \<Rightarrow> lock_step list" where
  "lock_one_steps i = (let l = lock_ind i in [Lock l, Check l, Migrate l])"

definition lock_two_steps :: "nat \<Rightarrow> nat \<Rightarrow> lock_step list" where
  "lock_two_steps i1 i2 =
     (let l1 = lock_ind i1; l2 = lock_ind i2;
          (l1, l2) = (if l2 < l1 then (l2, l1) else (l1, l2))
      in [Lock l1, Check l1] @ (if l2 \<noteq> l1 then [Lock l2] else []) @ [Migrate l1, Migrate l2])"

definition lock_three_steps :: "nat \<Rightarrow> nat \<Rightarrow> nat \<Rightarrow> lock_step list" where
  "lock_three_steps i1 i2 i3 =
     (case sort_locks_three i1 i2 i3 of (l0, l1, l2) \<Rightarrow>
        [Lock l0, Check l0] @ (if l1 \<noteq> l0 then [Lock l1] else []) @
        (if l2 \<noteq> l1 then [Lock l2] else []) @ [Migrate l0, Migrate l1, Migrate l2])"

definition lock_one ::
  "table_mode \<Rightarrow> nat \<Rightarrow> nat \<Rightarrow> ('k, 'v) cuckoo_map \<Rightarrow> ('k, 'v) cuckoo_map \<times> (cuckoo_exn + unit)"
  where
  "lock_one mode hp i t =
     (case mode of
        Locked_table_mode \<Rightarrow> (t, Inr ())
      | Normal_mode \<Rightarrow> run_steps hp (lock_one_steps i) t)"

definition lock_two ::
  "table_mode \<Rightarrow> nat \<Rightarrow> nat \<Rightarrow> nat \<Rightarrow> ('k, 'v) cuckoo_map
     \<Rightarrow> ('k, 'v) cuckoo_map \<times> (cuckoo_exn + two_buckets)" where
  "lock_two mode hp i1 i2 t =
     (case mode of
        Locked_table_mode \<Rightarrow> (t, Inr \<lparr>b_i1 = i1, b_i2 = i2\<rparr>)
      | Normal_mode \<Rightarrow>
          and_then (run_steps hp (lock_two_steps i1 i2) t) (\<lambda>_ t. (t, Inr \<lparr>b_i1 = i1, b_i2 = i2\<rparr>)))"

definition lock_three ::
  "table_mode \<Rightarrow> nat \<Rightarrow> nat \<Rightarrow> nat \<Rightarrow> nat \<Rightarrow> ('k, 'v) cuckoo_map
     \<Rightarrow> ('k, 'v) cuckoo_map \<times> (cuckoo_exn + two_buckets)" where
  "lock_three mode hp i1 i2 i3 t =
     (case mode of
        Locked_table_mode \<Rightarrow> (t, Inr \<lparr>b_i1 = i1, b_i2 = i2\<rparr>)
      | Normal_mode \<Rightarrow>
          and_then (run_steps hp (lock_three_steps i1 i2 i3) t)
            (\<lambda>_ t. (t, Inr \<lparr>b_i1 = i1, b_i2 = i2\<rparr>)))"

lemma lock_one_run:
  "lock_one mode hp i t =
     (case mode of
        Locked_table_mode \<Rightarrow> (t, Inr ())
      | Normal_mode \<Rightarrow>
          and_then (check_hashpower hp t) (\<lambda>_ t. (rehash_lock True (lock_ind i) t, Inr ())))"
  by (simp add: lock_one_def lock_one_steps_def check_hashpower_def Let_def split: table_mode.split)

lemma lock_two_run:
  "lock_two mode hp i1 i2 t =
     (case mode of
        Locked_table_mode \<Rightarrow> (t, Inr \<lparr>b_i1 = i1, b_i2 = i2\<rparr>)
      | Normal_mode \<Rightarrow>
          let l1 = lock_ind i1; l2 = lock_ind i2;
              (l1, l2) = (if l2 < l1 then (l2, l1) else (l1, l2))
          in and_then (check_hashpower hp t)
               (\<lambda>_ t. (rehash_lock True l2 (rehash_lock True l1 t),
                       Inr \<lparr>b_i1 = i1, b_i2 = i2\<rparr>)))"
  by (simp add: lock_two_def lock_two_steps_def check_hashpower_def Let_def split: table_mode.split)

lemma lock_three_run:
  "lock_three mode hp i1 i2 i3 t =
     (case mode of
        Locked_table_mode \<Rightarrow> (t, Inr \<lparr>b_i1 = i1, b_i2 = i2\<rparr>)
      | Normal_mode \<Rightarrow>
          (case sort_locks_three i1 i2 i3 of (l0, l1, l2) \<Rightarrow>
             and_then (check_hashpower hp t)
               (\<lambda>_ t. (rehash_lock True l2 (rehash_lock True l1 (rehash_lock True l0 t)),
                       Inr \<lparr>b_i1 = i1, b_i2 = i2\<rparr>))))"
  by (simp add: lock_three_def lock_three_steps_def check_hashpower_def split: table_mode.split prod.split)

text \<open>
  The loop of \<open>snapshot_and_lock_two\<close> repeats while another thread changes the hashpower
  between reading it and taking the locks; run alone its first attempt succeeds
  (\<open>snapshot_and_lock_two_ok\<close>).
\<close>

definition snapshot_and_lock_two ::
  "table_mode \<Rightarrow> hash_value \<Rightarrow> ('k, 'v) cuckoo_map
     \<Rightarrow> ('k, 'v) cuckoo_map \<times> (cuckoo_exn + two_buckets)" where
  "snapshot_and_lock_two mode hv t =
     (let hp = hashpower t;
          i1 = index_hash hp (hv_hash hv);
          i2 = alt_index hp (hv_partial hv) i1
      in lock_two mode hp i1 i2 t)"

section \<open>Reading a bucket\<close>

datatype cuckoo_status =
  Ok | Failure | Failure_key_not_found | Failure_key_duplicated | Failure_table_full
  | Failure_under_expansion

record table_position =
  pos_index :: nat
  pos_slot :: nat
  pos_status :: cuckoo_status

text \<open>A slot number, or \<open>-1\<close> when there is none.\<close>

fun try_read_slots :: "bool \<Rightarrow> u8 \<Rightarrow> 'k \<Rightarrow> ('k, 'v) bucket \<Rightarrow> nat \<Rightarrow> int" where
  "try_read_slots simple p k [] i = -1"
| "try_read_slots simple p k (None # b) i = try_read_slots simple p k b (Suc i)"
| "try_read_slots simple p k (Some e # b) i =
     (if \<not> simple \<and> p \<noteq> kv_partial e then try_read_slots simple p k b (Suc i)
      else if kv_key e = k then int i
      else try_read_slots simple p k b (Suc i))"

definition try_read_from_bucket ::
  "('k, 'v) cuckoo_map \<Rightarrow> ('k, 'v) bucket \<Rightarrow> u8 \<Rightarrow> 'k \<Rightarrow> int" where
  "try_read_from_bucket t b p k = try_read_slots (is_simple t) p k b 0"

definition cuckoo_find ::
  "'k \<Rightarrow> u8 \<Rightarrow> nat \<Rightarrow> nat \<Rightarrow> ('k, 'v) cuckoo_map \<Rightarrow> table_position" where
  "cuckoo_find k p i1 i2 t =
     (let slot = try_read_from_bucket t (arr t ! i1) p k
      in if slot \<noteq> -1 then \<lparr>pos_index = i1, pos_slot = nat slot, pos_status = Ok\<rparr>
      else let slot = try_read_from_bucket t (arr t ! i2) p k
      in if slot \<noteq> -1 then \<lparr>pos_index = i2, pos_slot = nat slot, pos_status = Ok\<rparr>
      else \<lparr>pos_index = 0, pos_slot = 0, pos_status = Failure_key_not_found\<rparr>)"

text \<open>
  The result is the value the function returns together with what it stores through its
  \<open>slot\<close> argument: the duplicate's slot, or the last free slot, or \<open>-1\<close>.
\<close>

fun find_insert_slots ::
  "bool \<Rightarrow> u8 \<Rightarrow> 'k \<Rightarrow> ('k, 'v) bucket \<Rightarrow> nat \<Rightarrow> int \<Rightarrow> bool \<times> int" where
  "find_insert_slots simple p k [] i slot = (True, slot)"
| "find_insert_slots simple p k (None # b) i slot =
     find_insert_slots simple p k b (Suc i) (int i)"
| "find_insert_slots simple p k (Some e # b) i slot =
     (if \<not> simple \<and> p \<noteq> kv_partial e then find_insert_slots simple p k b (Suc i) slot
      else if kv_key e = k then (False, int i)
      else find_insert_slots simple p k b (Suc i) slot)"

definition try_find_insert_bucket ::
  "('k, 'v) cuckoo_map \<Rightarrow> ('k, 'v) bucket \<Rightarrow> u8 \<Rightarrow> 'k \<Rightarrow> bool \<times> int" where
  "try_find_insert_bucket t b p k = find_insert_slots (is_simple t) p k b 0 (-1)"

section \<open>Breadth first search for a cuckoo path\<close>

definition MAX_BFS_PATH_LEN :: nat where
  "MAX_BFS_PATH_LEN = 5"

fun const_pow :: "nat \<Rightarrow> nat \<Rightarrow> nat" where
  "const_pow a b = (if b = 0 then 1 else a * const_pow a (b - 1))"

declare const_pow.simps [simp del]

definition MAX_CUCKOO_COUNT :: nat where
  "MAX_CUCKOO_COUNT =
     2 * (if slot_per_bucket = 1 then MAX_BFS_PATH_LEN
          else (const_pow slot_per_bucket MAX_BFS_PATH_LEN - 1) div (slot_per_bucket - 1))"

record cuckoo_record =
  cr_bucket :: nat
  cr_slot :: nat
  cr_hv :: hash_value

record b_slot =
  bs_bucket :: nat
  bs_pathcode :: nat
  bs_depth :: int

definition mk_b_slot :: "nat \<Rightarrow> nat \<Rightarrow> int \<Rightarrow> b_slot" where
  "mk_b_slot b p d = \<lparr>bs_bucket = b, bs_pathcode = p mod 2 ^ 16, bs_depth = d\<rparr>"

text \<open>
  The queue is an array that is filled once: \<open>q_slots\<close> is its filled prefix, so \<open>last_\<close>
  is its length, and \<open>q_first\<close> the index of the head.
\<close>

record b_queue =
  q_slots :: "b_slot list"
  q_first :: nat

definition q_new :: b_queue where
  "q_new = \<lparr>q_slots = [], q_first = 0\<rparr>"

definition q_empty :: "b_queue \<Rightarrow> bool" where
  "q_empty q \<longleftrightarrow> q_first q = length (q_slots q)"

definition q_full :: "b_queue \<Rightarrow> bool" where
  "q_full q \<longleftrightarrow> length (q_slots q) = MAX_CUCKOO_COUNT"

definition q_enqueue :: "b_slot \<Rightarrow> b_queue \<Rightarrow> b_queue" where
  "q_enqueue x q = q\<lparr>q_slots := q_slots q @ [x]\<rparr>"

definition q_dequeue :: "b_queue \<Rightarrow> b_slot \<times> b_queue" where
  "q_dequeue q = (q_slots q ! q_first q, q\<lparr>q_first := Suc (q_first q)\<rparr>)"

text \<open>
  The scan of one bucket ends with a free slot, with the queue extended by the buckets its
  entries could be kicked out to, or, were the queue full, with a write past its array.
\<close>

datatype scan_result = Scan_found b_slot | Scan_more b_queue | Scan_overflow

fun scan_slots ::
  "nat \<Rightarrow> ('k, 'v) bucket \<Rightarrow> b_slot \<Rightarrow> nat list \<Rightarrow> b_queue \<Rightarrow> scan_result" where
  "scan_slots hp b x [] q = Scan_more q"
| "scan_slots hp b x (slot # ss) q =
     (case b ! slot of
        None \<Rightarrow> Scan_found (x\<lparr>bs_pathcode := (bs_pathcode x * slot_per_bucket + slot) mod 2 ^ 16\<rparr>)
      | Some e \<Rightarrow>
          if bs_depth x < int MAX_BFS_PATH_LEN - 1
          then if q_full q then Scan_overflow
               else scan_slots hp b x ss
                 (q_enqueue (mk_b_slot (alt_index hp (kv_partial e) (bs_bucket x))
                    (bs_pathcode x * slot_per_bucket + slot) (bs_depth x + 1)) q)
          else scan_slots hp b x ss q)"

definition scan_order :: "b_slot \<Rightarrow> nat list" where
  "scan_order x =
     (let starting_slot = bs_pathcode x mod slot_per_bucket
      in map (\<lambda>i. (starting_slot + i) mod slot_per_bucket) [0..<slot_per_bucket])"

lemma length_scan_order [simp]: "length (scan_order x) = slot_per_bucket"
  by (simp add: scan_order_def Let_def)

definition q_weight :: "b_slot \<Rightarrow> nat" where
  "q_weight x = 5 ^ nat (5 - bs_depth x)"

definition q_measure :: "b_queue \<Rightarrow> nat" where
  "q_measure q = sum_list (map q_weight (drop (q_first q) (q_slots q)))"

lemma scan_slots_measure:
  assumes "scan_slots hp b x ss q = Scan_more q'" "q_first q \<le> length (q_slots q)"
  shows "q_measure q' \<le> q_measure q +
      (if bs_depth x < 4 then length ss * 5 ^ nat (4 - bs_depth x) else 0) \<and>
    q_first q' = q_first q \<and> length (q_slots q) \<le> length (q_slots q')"
  using assms
proof (induction hp b x ss q rule: scan_slots.induct)
  case (1 hp b x q)
  then show ?case by simp
next
  case (2 hp b x slot ss q)
  obtain e where e: "b ! slot = Some e" using "2.prems"(1) by (cases "b ! slot") simp_all
  show ?case
  proof (cases "bs_depth x < 4")
    case True
    then have d: "bs_depth x < int MAX_BFS_PATH_LEN - 1" by (simp add: MAX_BFS_PATH_LEN_def)
    have nf: "\<not> q_full q" using "2.prems"(1) e d by auto
    let ?y = "mk_b_slot (alt_index hp (kv_partial e) (bs_bucket x))
      (bs_pathcode x * slot_per_bucket + slot) (bs_depth x + 1)"
    have w: "q_weight ?y = 5 ^ nat (4 - bs_depth x)"
      by (simp add: q_weight_def mk_b_slot_def)
    have "scan_slots hp b x ss (q_enqueue ?y q) = Scan_more q'"
      using "2.prems"(1) e d nf by simp
    from "2.IH"(1) [OF e d nf this] "2.prems"(2) True w show ?thesis
      by (auto simp: q_measure_def q_enqueue_def)
  next
    case False
    then have d: "\<not> bs_depth x < int MAX_BFS_PATH_LEN - 1" by (simp add: MAX_BFS_PATH_LEN_def)
    have "scan_slots hp b x ss q = Scan_more q'" using "2.prems"(1) e d by simp
    from "2.IH"(2) [OF e d this "2.prems"(2)] False show ?thesis by simp
  qed
qed

lemma slot_search_decrease:
  assumes "q_first q < length (q_slots q)" "q_dequeue q = (x, q1)"
    and scan: "scan_slots hp b x (scan_order x) q1 = Scan_more q2"
  shows "q_measure q2 < q_measure q"
proof -
  have x: "x = q_slots q ! q_first q" and q1: "q1 = q\<lparr>q_first := Suc (q_first q)\<rparr>"
    using assms(2) by (simp_all add: q_dequeue_def)
  have "drop (q_first q) (q_slots q) = x # drop (Suc (q_first q)) (q_slots q)"
    using assms(1) x by (simp add: Cons_nth_drop_Suc)
  then have m: "q_measure q = q_weight x + q_measure q1"
    by (simp add: q_measure_def q1)
  have "q_measure q2 \<le> q_measure q1 +
      (if bs_depth x < 4 then slot_per_bucket * 5 ^ nat (4 - bs_depth x) else 0)"
    using scan_slots_measure [OF scan] assms(1) by (auto simp: q1)
  also have "\<dots> < q_measure q1 + q_weight x"
  proof (cases "bs_depth x < 4")
    case True
    then have "nat (5 - bs_depth x) = Suc (nat (4 - bs_depth x))" by simp
    with True show ?thesis by (simp add: q_weight_def slot_per_bucket_def)
  qed (simp add: q_weight_def)
  finally show ?thesis using m by simp
qed

function slot_search_loop ::
  "table_mode \<Rightarrow> nat \<Rightarrow> b_queue \<Rightarrow> ('k, 'v) cuckoo_map
     \<Rightarrow> ('k, 'v) cuckoo_map \<times> (cuckoo_exn + b_slot)" where
  "slot_search_loop mode hp q t =
     (if length (q_slots q) \<le> q_first q then (t, Inr (mk_b_slot 0 0 (-1)))
      else case q_dequeue q of (x, q) \<Rightarrow>
        (case lock_one mode hp (bs_bucket x) t of
           (t, Inl ex) \<Rightarrow> (t, Inl ex)
         | (t, Inr _) \<Rightarrow>
             (case scan_slots hp (arr t ! bs_bucket x) x (scan_order x) q of
                Scan_found y \<Rightarrow> (t, Inr y)
              | Scan_overflow \<Rightarrow> (t, Inl Queue_overflow)
              | Scan_more q \<Rightarrow> slot_search_loop mode hp q t)))"
  by pat_completeness auto
termination
  by (relation "measure (\<lambda>(mode, hp, q, t). q_measure q)")
    (auto simp: not_le intro: slot_search_decrease [OF _ sym])

declare slot_search_loop.simps [simp del]

definition slot_search ::
  "table_mode \<Rightarrow> nat \<Rightarrow> nat \<Rightarrow> nat \<Rightarrow> ('k, 'v) cuckoo_map
     \<Rightarrow> ('k, 'v) cuckoo_map \<times> (cuckoo_exn + b_slot)" where
  "slot_search mode hp i1 i2 t =
     slot_search_loop mode hp
       (q_enqueue (mk_b_slot i2 1 0) (q_enqueue (mk_b_slot i1 0 0) q_new)) t"

end
