(* ===== verification/Cuckoo_Path.thy ===== *)
theory Cuckoo_Path
  imports Cuckoo_Search
begin

text \<open>
  Cuckoo paths: decoding the path code of a search into the slots of the path, following
  it through the table, moving the entries along it from its end to its start, and the
  insertion step \<open>cuckoo_insert\<close> that falls back to it when both buckets of the key are
  full.  The lemmas show that every one of these functions preserves the invariant and the
  map the table denotes, and that a successful insertion step hands back a free slot of a
  candidate bucket of a key that is not in the table.
\<close>

section \<open>Decoding and following a path\<close>

fun decode_slots :: "nat \<Rightarrow> nat \<Rightarrow> nat list \<times> nat" where
  "decode_slots 0 pathcode = ([], pathcode)"
| "decode_slots (Suc n) pathcode =
     (case decode_slots n (pathcode div slot_per_bucket) of (slots, rest) \<Rightarrow>
        (slots @ [pathcode mod slot_per_bucket], rest))"

text \<open>
  The records of the path up to its first free slot.  The hash value of the last record is
  never read when its slot is free; it is left at zero here.
\<close>

fun follow_path ::
  "table_mode \<Rightarrow> nat \<Rightarrow> nat \<Rightarrow> nat list \<Rightarrow> ('k, 'v) cuckoo_map
     \<Rightarrow> ('k, 'v) cuckoo_map \<times> (cuckoo_exn + cuckoo_record list)" where
  "follow_path mode hp bucket [] t = (t, Inr [])"
| "follow_path mode hp bucket (slot # slots) t =
     and_then (lock_one mode hp bucket t)
       (\<lambda>_ t. case arr t ! bucket ! slot of
           None \<Rightarrow> (t, Inr [\<lparr>cr_bucket = bucket, cr_slot = slot,
                            cr_hv = \<lparr>hv_hash = 0, hv_partial = 0\<rparr>\<rparr>])
         | Some e \<Rightarrow>
             let hv = hashed_key (hash_fn t) (kv_key e)
             in and_then (follow_path mode hp (alt_index hp (hv_partial hv) bucket) slots t)
                  (\<lambda>path t. (t, Inr (\<lparr>cr_bucket = bucket, cr_slot = slot, cr_hv = hv\<rparr> # path))))"

definition cuckoopath_search ::
  "table_mode \<Rightarrow> nat \<Rightarrow> nat \<Rightarrow> nat \<Rightarrow> ('k, 'v) cuckoo_map
     \<Rightarrow> ('k, 'v) cuckoo_map \<times> (cuckoo_exn + cuckoo_record list option)" where
  "cuckoopath_search mode hp i1 i2 t =
     and_then (slot_search mode hp i1 i2 t)
       (\<lambda>x t. if bs_depth x = -1 then (t, Inr None)
          else case decode_slots (nat (bs_depth x + 1)) (bs_pathcode x) of (slots, pathcode) \<Rightarrow>
            and_then (follow_path mode hp (if pathcode = 0 then i1 else i2) slots t)
              (\<lambda>path t. (t, Inr (Some path))))"

section \<open>Moving entries along a path\<close>

fun path_move_loop ::
  "table_mode \<Rightarrow> nat \<Rightarrow> cuckoo_record list \<Rightarrow> nat \<Rightarrow> two_buckets \<Rightarrow> ('k, 'v) cuckoo_map
     \<Rightarrow> ('k, 'v) cuckoo_map \<times> (cuckoo_exn + bool)" where
  "path_move_loop mode hp path 0 b t = (t, Inr True)"
| "path_move_loop mode hp path (Suc d) b t =
     (let from = path ! d; to = path ! Suc d; fs = cr_slot from; ts = cr_slot to
      in and_then
           (if Suc d = 1 then lock_three mode hp (b_i1 b) (b_i2 b) (cr_bucket to) t
            else lock_two mode hp (cr_bucket from) (cr_bucket to) t)
           (\<lambda>twob t. let fb = arr t ! cr_bucket from; tb = arr t ! cr_bucket to
              in case fb ! fs of
                   None \<Rightarrow> (t, Inr False)
                 | Some e \<Rightarrow>
                     if occupied tb ts \<or>
                        hashed_key_only_hash (hash_fn t) (kv_key e) \<noteq> hv_hash (cr_hv from)
                     then (t, Inr False)
                     else let t = t\<lparr>buckets := setKV (cr_bucket to) ts (kv_partial e) (kv_key e)
                                     (kv_mapped e) (buckets t)\<rparr>;
                              t = t\<lparr>buckets := eraseKV (cr_bucket from) fs (buckets t)\<rparr>
                          in path_move_loop mode hp path d b t))"

definition cuckoopath_move ::
  "table_mode \<Rightarrow> nat \<Rightarrow> cuckoo_record list \<Rightarrow> two_buckets \<Rightarrow> ('k, 'v) cuckoo_map
     \<Rightarrow> ('k, 'v) cuckoo_map \<times> (cuckoo_exn + bool)" where
  "cuckoopath_move mode hp path b t =
     (let depth = length path - 1
      in if depth = 0
         then and_then (lock_two mode hp (b_i1 b) (b_i2 b) t)
                (\<lambda>b t. if \<not> occupied (arr t ! cr_bucket (path ! 0)) (cr_slot (path ! 0))
                   then (t, Inr True) else (t, Inr False))
         else path_move_loop mode hp path depth b t)"

text \<open>
  The loop of \<open>run_cuckoo\<close> repeats while another thread invalidates the path between the
  search and the moves.  It is given a bound on its rounds; reaching it is \<open>Diverges\<close>.
\<close>

fun run_cuckoo_loop ::
  "nat \<Rightarrow> table_mode \<Rightarrow> nat \<Rightarrow> two_buckets \<Rightarrow> ('k, 'v) cuckoo_map
     \<Rightarrow> ('k, 'v) cuckoo_map \<times> (cuckoo_exn + cuckoo_status \<times> nat \<times> nat)" where
  "run_cuckoo_loop 0 mode hp b t = (t, Inl Diverges)"
| "run_cuckoo_loop (Suc n) mode hp b t =
     (case cuckoopath_search mode hp (b_i1 b) (b_i2 b) t of
        (t, Inl ex) \<Rightarrow> (t, Inl ex)
      | (t, Inr None) \<Rightarrow> (t, Inr (Failure, 0, 0))
      | (t, Inr (Some path)) \<Rightarrow>
          (case cuckoopath_move mode hp path b t of
             (t, Inl ex) \<Rightarrow> (t, Inl ex)
           | (t, Inr True) \<Rightarrow> (t, Inr (Ok, cr_bucket (path ! 0), cr_slot (path ! 0)))
           | (t, Inr False) \<Rightarrow> run_cuckoo_loop n mode hp b t))"

definition cuckoo_rounds :: nat where
  "cuckoo_rounds = 8"

definition run_cuckoo ::
  "table_mode \<Rightarrow> two_buckets \<Rightarrow> ('k, 'v) cuckoo_map
     \<Rightarrow> ('k, 'v) cuckoo_map \<times> (cuckoo_exn + cuckoo_status \<times> nat \<times> nat)" where
  "run_cuckoo mode b t =
     (let hp = hashpower t
      in case run_cuckoo_loop cuckoo_rounds mode hp b t of
           (t, Inl Hashpower_changed) \<Rightarrow> (t, Inr (Failure_under_expansion, 0, 0))
         | r \<Rightarrow> r)"

section \<open>One attempt to insert\<close>

definition cuckoo_insert ::
  "table_mode \<Rightarrow> hash_value \<Rightarrow> two_buckets \<Rightarrow> 'k \<Rightarrow> ('k, 'v) cuckoo_map
     \<Rightarrow> ('k, 'v) cuckoo_map \<times> (cuckoo_exn + table_position)" where
  "cuckoo_insert mode hv b k t =
     (case try_find_insert_bucket t (arr t ! b_i1 b) (hv_partial hv) k of
        (False, res1) \<Rightarrow> (t, Inr \<lparr>pos_index = b_i1 b, pos_slot = nat res1,
                                 pos_status = Failure_key_duplicated\<rparr>)
      | (True, res1) \<Rightarrow>
     (case try_find_insert_bucket t (arr t ! b_i2 b) (hv_partial hv) k of
        (False, res2) \<Rightarrow> (t, Inr \<lparr>pos_index = b_i2 b, pos_slot = nat res2,
                                 pos_status = Failure_key_duplicated\<rparr>)
      | (True, res2) \<Rightarrow>
          if res1 \<noteq> -1
          then (t, Inr \<lparr>pos_index = b_i1 b, pos_slot = nat res1, pos_status = Ok\<rparr>)
          else if res2 \<noteq> -1
          then (t, Inr \<lparr>pos_index = b_i2 b, pos_slot = nat res2, pos_status = Ok\<rparr>)
          else and_then (run_cuckoo mode b t)
            (\<lambda>(st, insert_bucket, insert_slot) t.
               if st = Failure_under_expansion
               then (t, Inr \<lparr>pos_index = 0, pos_slot = 0, pos_status = Failure_under_expansion\<rparr>)
               else if st = Ok
               then let pos = cuckoo_find k (hv_partial hv) (b_i1 b) (b_i2 b) t
                    in if pos_status pos = Ok
                       then (t, Inr (pos\<lparr>pos_status := Failure_key_duplicated\<rparr>))
                       else (t, Inr \<lparr>pos_index = insert_bucket, pos_slot = insert_slot,
                                     pos_status = Ok\<rparr>)
               else (t, Inr \<lparr>pos_index = 0, pos_slot = 0, pos_status = Failure_table_full\<rparr>))))"

end
