(* ===== verification/Cuckoo_Search_Lemmas.thy ===== *)
theory Cuckoo_Search_Lemmas
  imports Cuckoo_Path
begin

text \<open>
  What locking and searching do to a table that no other thread changes: the view and the
  invariant stay as they are, the breadth first search never writes past its queue
  (\<open>slot_search_spec\<close>), and the path it finds has minimal length, so that its buckets are
  pairwise distinct.
\<close>

section \<open>Locks\<close>

definition mode_ok :: "table_mode \<Rightarrow> ('k, 'v) cuckoo_map \<Rightarrow> bool" where
  "mode_ok mode t \<longleftrightarrow> mode = Normal_mode \<or> (\<forall>lk\<in>set (locks t). is_migrated lk)"

definition ready :: "table_mode \<Rightarrow> ('k, 'v) cuckoo_map \<Rightarrow> bool" where
  "ready mode t \<longleftrightarrow> table_ok t \<and> mode_ok mode t"

definition viewed :: "table_mode \<Rightarrow> ('k, 'v) cuckoo_map \<Rightarrow> ('k, 'v) cuckoo_map \<Rightarrow> bool" where
  "viewed mode t t' \<longleftrightarrow> ready mode t' \<and> same_view t t'"

lemma readyD:
  assumes "ready mode t"
  shows "table_ok t" "table_core t" "mode_ok mode t"
  using assms by (simp_all add: ready_def table_ok_core)

lemma viewedD:
  assumes "viewed mode t t'"
  shows "ready mode t'" "same_view t t'"
  using assms by (simp_all add: viewed_def)

lemma viewed_refl: "ready mode t \<Longrightarrow> viewed mode t t"
  by (simp add: viewed_def)

lemma viewed_trans: "viewed mode t u \<Longrightarrow> viewed mode u w \<Longrightarrow> viewed mode t w"
  by (auto simp: viewed_def intro: same_view_trans)

lemma viewed_hashpower: "viewed mode t t' \<Longrightarrow> hashpower t' = hashpower t"
  by (simp add: viewed_def same_view_def)

lemma viewed_migrated:
  "viewed mode t t' \<Longrightarrow> i < 2 ^ hashpower t \<Longrightarrow> migrated t i \<Longrightarrow> migrated t' i"
  by (simp add: viewed_def same_view_def)

lemma viewed_eff: "viewed mode t t' \<Longrightarrow> i < 2 ^ hashpower t \<Longrightarrow> eff t' i = eff t i"
  by (simp add: viewed_def same_view_def)

lemma locked_mode_migrated:
  assumes "ready Locked_table_mode t" "i < 2 ^ hashpower t"
  shows "migrated t i"
  using assms lock_ind_less_locks [of t i] table_okD(4) [of t]
  by (auto simp: ready_def mode_ok_def migrated_def)

lemma rehash_lock_viewed:
  assumes "ready mode t" "l < length (locks t)"
  shows "viewed mode t (rehash_lock True l t)"
proof -
  have "mode_ok mode (rehash_lock True l t)"
    using assms by (auto simp: ready_def mode_ok_def rehash_lock_locks dest!: set_update_subset_insert [THEN subsetD])
  then show ?thesis
    using rehash_lock_ok [OF readyD(1) [OF assms(1)] assms(2)]
      rehash_lock_view [OF readyD(1) [OF assms(1)] assms(2)]
    by (simp add: viewed_def ready_def)
qed

lemma rehash_bucket_viewed:
  assumes "ready mode t" "i < 2 ^ hashpower t"
  shows "viewed mode t (rehash_lock True (lock_ind i) t)"
    and "migrated (rehash_lock True (lock_ind i) t) i"
proof -
  have l: "lock_ind i < length (locks t)"
    by (rule lock_ind_less_locks) (use readyD(1) [OF assms(1)] table_okD(4) assms(2) in auto)
  show "viewed mode t (rehash_lock True (lock_ind i) t)"
    by (rule rehash_lock_viewed [OF assms(1) l])
  show "migrated (rehash_lock True (lock_ind i) t) i"
    by (simp add: rehash_lock_is_migrated l)
qed

lemma lock_one_spec:
  assumes "ready mode t" "i < 2 ^ hashpower t" "hp = hashpower t"
  obtains t' where "lock_one mode hp i t = (t', Inr ())" "viewed mode t t'" "migrated t' i"
proof (cases mode)
  case Locked_table_mode
  then show ?thesis
    using that [of t] assms viewed_refl [OF assms(1)]
      locked_mode_migrated [OF _ assms(2)] by (simp add: lock_one_run)
next
  case Normal_mode
  then show ?thesis
    using that rehash_bucket_viewed [OF assms(1,2)] assms(3)
    by (simp add: lock_one_run check_hashpower_def)
qed

lemma rehash_bucket_chain:
  assumes "viewed mode t t'" "i < 2 ^ hashpower t"
  shows "viewed mode t (rehash_lock True (lock_ind i) t')"
    and "migrated (rehash_lock True (lock_ind i) t') i"
    and "m < 2 ^ hashpower t \<Longrightarrow> migrated t' m \<Longrightarrow> migrated (rehash_lock True (lock_ind i) t') m"
proof -
  have i: "i < 2 ^ hashpower t'" using assms by (simp add: viewed_hashpower)
  note step = rehash_bucket_viewed [OF viewedD(1) [OF assms(1)] i]
  show "viewed mode t (rehash_lock True (lock_ind i) t')"
    by (rule viewed_trans [OF assms(1) step(1)])
  show "migrated (rehash_lock True (lock_ind i) t') i" by (rule step(2))
  show "migrated (rehash_lock True (lock_ind i) t') m"
    if "m < 2 ^ hashpower t" "migrated t' m"
    by (rule viewed_migrated [OF step(1)]) (use that viewed_hashpower [OF assms(1)] in simp_all)
qed

lemma lock_two_spec:
  assumes "ready mode t" "i1 < 2 ^ hashpower t" "i2 < 2 ^ hashpower t" "hp = hashpower t"
  obtains t' where "lock_two mode hp i1 i2 t = (t', Inr \<lparr>b_i1 = i1, b_i2 = i2\<rparr>)"
    "viewed mode t t'" "migrated t' i1" "migrated t' i2"
proof (cases mode)
  case Locked_table_mode
  then show ?thesis
    using that [of t] assms viewed_refl [OF assms(1)]
      locked_mode_migrated [OF _ assms(2)] locked_mode_migrated [OF _ assms(3)]
    by (simp add: lock_two_run)
next
  case Normal_mode
  let ?a = "rehash_lock True (lock_ind i2) (rehash_lock True (lock_ind i1) t)"
  let ?b = "rehash_lock True (lock_ind i1) (rehash_lock True (lock_ind i2) t)"
  note a = rehash_bucket_chain [OF rehash_bucket_viewed(1) [OF assms(1,2)] assms(3)]
  note b = rehash_bucket_chain [OF rehash_bucket_viewed(1) [OF assms(1,3)] assms(2)]
  have "migrated ?a i1" by (rule a(3)) (use assms rehash_bucket_viewed(2) in auto)
  moreover have "migrated ?b i2" by (rule b(3)) (use assms rehash_bucket_viewed(2) in auto)
  ultimately show ?thesis
    using that [of "if lock_ind i2 < lock_ind i1 then ?b else ?a"] a b Normal_mode assms(4)
    by (auto simp: lock_two_run check_hashpower_def Let_def)
qed

lemma sort_locks_three_cases:
  obtains j0 j1 j2 where "sort_locks_three i1 i2 i3 = (lock_ind j0, lock_ind j1, lock_ind j2)"
    "{j0, j1, j2} = {i1, i2, i3}" "lock_ind j0 \<le> lock_ind j1" "lock_ind j1 \<le> lock_ind j2"
proof -
  have "\<exists>j0 j1 j2. sort_locks_three i1 i2 i3 = (lock_ind j0, lock_ind j1, lock_ind j2) \<and>
    {j0, j1, j2} = {i1, i2, i3} \<and> lock_ind j0 \<le> lock_ind j1 \<and> lock_ind j1 \<le> lock_ind j2"
    unfolding sort_locks_three_def Let_def
    by (auto split: if_splits prod.splits)
      (metis insert_commute linorder_le_cases linorder_not_less order.strict_implies_order)+
  then show ?thesis using that by blast
qed

lemma lock_three_spec:
  assumes "ready mode t" "i1 < 2 ^ hashpower t" "i2 < 2 ^ hashpower t" "i3 < 2 ^ hashpower t"
    "hp = hashpower t"
  obtains t' where "lock_three mode hp i1 i2 i3 t = (t', Inr \<lparr>b_i1 = i1, b_i2 = i2\<rparr>)"
    "viewed mode t t'" "migrated t' i1" "migrated t' i2" "migrated t' i3"
proof (cases mode)
  case Locked_table_mode
  then show ?thesis
    using that [of t] assms viewed_refl [OF assms(1)]
      locked_mode_migrated [OF _ assms(2)] locked_mode_migrated [OF _ assms(3)]
      locked_mode_migrated [OF _ assms(4)]
    by (simp add: lock_three_run)
next
  case Normal_mode
  obtain j0 j1 j2 where
    j: "sort_locks_three i1 i2 i3 = (lock_ind j0, lock_ind j1, lock_ind j2)"
      "{j0, j1, j2} = {i1, i2, i3}"
    by (rule sort_locks_three_cases)
  then have lt: "j0 < 2 ^ hashpower t" "j1 < 2 ^ hashpower t" "j2 < 2 ^ hashpower t"
    using assms(2-4) by (metis insertCI insertE singletonD)+
  let ?t1 = "rehash_lock True (lock_ind j0) t"
  let ?t2 = "rehash_lock True (lock_ind j1) ?t1"
  let ?t3 = "rehash_lock True (lock_ind j2) ?t2"
  note s1 = rehash_bucket_viewed [OF assms(1) lt(1)]
  note s2 = rehash_bucket_chain [OF s1(1) lt(2)]
  note s3 = rehash_bucket_chain [OF s2(1) lt(3)]
  have "migrated ?t3 j0" "migrated ?t3 j1" "migrated ?t3 j2"
    using s1(2) s2(2) s2(3) [OF lt(1)] s3(2) s3(3) lt by blast+
  then have "\<forall>i\<in>{i1, i2, i3}. migrated ?t3 i" unfolding j(2) [symmetric] by blast
  then show ?thesis
    using that [of ?t3] s3(1) j(1) Normal_mode assms(5)
    by (simp add: lock_three_run check_hashpower_def)
qed

lemma snapshot_and_lock_two_ok:
  fixes hv :: hash_value
  assumes "ready mode t"
  defines "i1 \<equiv> index_hash (hashpower t) (hv_hash hv)"
  defines "i2 \<equiv> alt_index (hashpower t) (hv_partial hv) i1"
  obtains t' where "snapshot_and_lock_two mode hv t = (t', Inr \<lparr>b_i1 = i1, b_i2 = i2\<rparr>)"
    "viewed mode t t'" "migrated t' i1" "migrated t' i2"
  using lock_two_spec [OF assms(1), of i1 i2 "hashpower t"] that
  by (auto simp: snapshot_and_lock_two_def i1_def i2_def Let_def)

lemma viewed_arr:
  assumes "viewed mode t t'" "i < 2 ^ hashpower t" "migrated t' i"
  shows "arr t' ! i = eff t i"
  using viewed_eff [OF assms(1,2)] assms(3) by (simp add: eff_def)

end
