(* ===== verification/Cuckoo_BFS.thy ===== *)
theory Cuckoo_BFS
  imports Cuckoo_Search_Lemmas
begin

text \<open>
  The breadth first search run alone.  A \<open>trail\<close> is a walk that leaves every bucket
  through an occupied slot; the queue holds trails from the two start buckets in the order
  of their length.  The lemmas show that the queue never overflows its array of
  \<open>MAX_CUCKOO_COUNT\<close> slots, that a slot found ends a shortest trail, which is what its
  path code encodes, and that the search gives up only when every bucket within
  \<open>MAX_BFS_PATH_LEN - 1\<close> displacements is full.
\<close>

section \<open>Trails\<close>

definition nbr :: "(nat \<Rightarrow> ('k, 'v) bucket) \<Rightarrow> nat \<Rightarrow> nat \<Rightarrow> nat \<Rightarrow> nat" where
  "nbr E hp b s = alt_index hp (kv_partial (the (E b ! s))) b"

definition walk :: "(nat \<Rightarrow> ('k, 'v) bucket) \<Rightarrow> nat \<Rightarrow> nat \<Rightarrow> nat list \<Rightarrow> nat" where
  "walk E hp = foldl (nbr E hp)"

fun trail :: "(nat \<Rightarrow> ('k, 'v) bucket) \<Rightarrow> nat \<Rightarrow> nat \<Rightarrow> nat list \<Rightarrow> bool" where
  "trail E hp b [] = True"
| "trail E hp b (s # ss) =
     (s < slot_per_bucket \<and> E b ! s \<noteq> None \<and> trail E hp (nbr E hp b s) ss)"

definition full_bucket :: "('k, 'v) bucket \<Rightarrow> bool" where
  "full_bucket b \<longleftrightarrow> (\<forall>s < slot_per_bucket. b ! s \<noteq> None)"

definition reach :: "(nat \<Rightarrow> ('k, 'v) bucket) \<Rightarrow> nat \<Rightarrow> nat \<Rightarrow> nat \<Rightarrow> nat \<Rightarrow> nat \<Rightarrow> bool" where
  "reach E hp i1 i2 k b \<longleftrightarrow>
     (\<exists>st ss. st \<in> {i1, i2} \<and> length ss = k \<and> trail E hp st ss \<and> b = walk E hp st ss)"

definition encode :: "nat \<Rightarrow> nat list \<Rightarrow> nat" where
  "encode st ss = foldl (\<lambda>p s. p * slot_per_bucket + s) st ss"

lemma walk_simps [simp]:
  "walk E hp b [] = b"
  "walk E hp b (s # ss) = walk E hp (nbr E hp b s) ss"
  "walk E hp b (ss @ ss') = walk E hp (walk E hp b ss) ss'"
  by (simp_all add: walk_def)

lemma trail_append [simp]:
  "trail E hp b (ss @ ss') \<longleftrightarrow> trail E hp b ss \<and> trail E hp (walk E hp b ss) ss'"
  by (induction E hp b ss rule: trail.induct) auto

lemma encode_simps [simp]:
  "encode st [] = st"
  "encode st (ss @ [s]) = encode st ss * slot_per_bucket + s"
  by (simp_all add: encode_def)

lemma nbr_less [simp]: "nbr E hp b s < 2 ^ hp"
  by (simp add: nbr_def)

lemma walk_less: "b < 2 ^ hp \<Longrightarrow> walk E hp b ss < 2 ^ hp"
  by (induction ss rule: rev_induct) simp_all

lemma encode_less:
  "\<forall>s\<in>set ss. s < slot_per_bucket \<Longrightarrow> st < 2 \<Longrightarrow> encode st ss < 2 * 4 ^ length ss"
proof (induction ss rule: rev_induct)
  case Nil
  then show ?case by simp
next
  case (snoc s ss)
  then have "encode st ss < 2 * 4 ^ length ss" "s < 4"
    by (auto simp: slot_per_bucket_def)
  then have "encode st ss * 4 + s < 4 * (2 * 4 ^ length ss)" by linarith
  then show ?case by (simp add: slot_per_bucket_def)
qed

lemma decode_encode:
  "\<forall>s\<in>set ss. s < slot_per_bucket \<Longrightarrow> decode_slots (length ss) (encode st ss) = (ss, st)"
proof (induction ss rule: rev_induct)
  case Nil
  then show ?case by simp
next
  case (snoc s ss)
  then have "s < slot_per_bucket" "\<forall>s\<in>set ss. s < slot_per_bucket" by simp_all
  with snoc.IH show ?case by (simp add: slot_per_bucket_def)
qed

lemma trail_slots: "trail E hp b ss \<Longrightarrow> \<forall>s\<in>set ss. s < slot_per_bucket"
  by (induction E hp b ss rule: trail.induct) auto

lemma reach_0: "reach E hp i1 i2 0 b \<longleftrightarrow> b \<in> {i1, i2}"
  by (auto simp: reach_def)

lemma reach_Suc:
  assumes "reach E hp i1 i2 (Suc k) b"
  obtains b' s where "reach E hp i1 i2 k b'" "s < slot_per_bucket" "E b' ! s \<noteq> None"
    "b = nbr E hp b' s"
proof -
  from assms obtain st ss where *: "st \<in> {i1, i2}" "length ss = Suc k" "trail E hp st ss"
    "b = walk E hp st ss" by (auto simp: reach_def)
  from *(2) obtain ss' s where "ss = ss' @ [s]" "length ss' = k"
    by (metis length_Suc_conv_rev)
  with * show ?thesis by (intro that [of "walk E hp st ss'" s]) (auto simp: reach_def)
qed

text \<open>The buckets of a shortest trail to a free slot are pairwise distinct.\<close>

lemma shortest_distinct:
  assumes "st \<in> {i1, i2}" "trail E hp st ss" "\<not> full_bucket (E (walk E hp st ss))"
    and "\<And>k b. k < length ss \<Longrightarrow> reach E hp i1 i2 k b \<Longrightarrow> full_bucket (E b)"
    and "i < j" "j \<le> length ss"
  shows "walk E hp st (take i ss) \<noteq> walk E hp st (take j ss)"
proof
  assume eq: "walk E hp st (take i ss) = walk E hp st (take j ss)"
  let ?ss = "take i ss @ drop j ss"
  have split: "trail E hp st (take m ss) \<and> trail E hp (walk E hp st (take m ss)) (drop m ss)" for m
    using assms(2) trail_append [of E hp st "take m ss" "drop m ss"] by simp
  have "walk E hp st ?ss = walk E hp st (take j ss @ drop j ss)"
    by (simp only: walk_simps eq)
  then have "walk E hp st ?ss = walk E hp st ss" by simp
  moreover have "trail E hp st ?ss" using split [of i] split [of j] eq by simp
  ultimately have "reach E hp i1 i2 (length ?ss) (walk E hp st ss)"
    using assms(1) unfolding reach_def by metis
  moreover have "length ?ss < length ss" using assms(5,6) by simp
  ultimately show False using assms(3,4) by blast
qed

section \<open>Scanning one bucket\<close>

lemma set_scan_order: "set (scan_order x) = {..<slot_per_bucket}"
proof -
  let ?c = "bs_pathcode x mod slot_per_bucket"
  have "[0..<4] = [0, 1, 2, 3 :: nat]" by (simp add: upt_rec)
  moreover have "?c = 0 \<or> ?c = 1 \<or> ?c = 2 \<or> ?c = 3" by (auto simp: slot_per_bucket_def)
  ultimately show ?thesis
    by (auto simp: scan_order_def slot_per_bucket_def Let_def)
qed

lemma MAX_CUCKOO_COUNT_value: "MAX_CUCKOO_COUNT = 682"
  by (simp add: MAX_CUCKOO_COUNT_def slot_per_bucket_def MAX_BFS_PATH_LEN_def const_pow.simps)

definition child :: "nat \<Rightarrow> ('k, 'v) bucket \<Rightarrow> b_slot \<Rightarrow> nat \<Rightarrow> b_slot" where
  "child hp b x s = mk_b_slot (alt_index hp (kv_partial (the (b ! s))) (bs_bucket x))
     (bs_pathcode x * slot_per_bucket + s) (bs_depth x + 1)"

lemma scan_slots_full:
  assumes "\<forall>s\<in>set ss. b ! s \<noteq> None"
    and "bs_depth x < 4 \<Longrightarrow> length (q_slots q) + length ss \<le> MAX_CUCKOO_COUNT"
  shows "scan_slots hp b x ss q = Scan_more
    (q\<lparr>q_slots := q_slots q @ (if bs_depth x < 4 then map (child hp b x) ss else [])\<rparr>)"
  using assms
proof (induction ss arbitrary: q)
  case Nil
  then show ?case by simp
next
  case (Cons s ss)
  then obtain e where "b ! s = Some e" by auto
  with Cons show ?case
    by (auto simp: MAX_BFS_PATH_LEN_def q_full_def q_enqueue_def child_def)
qed

lemma scan_slots_free:
  assumes "\<exists>s\<in>set ss. b ! s = None"
    and "bs_depth x < 4 \<Longrightarrow> length (q_slots q) + length ss \<le> MAX_CUCKOO_COUNT"
  shows "\<exists>s\<in>set ss. b ! s = None \<and> scan_slots hp b x ss q
    = Scan_found (x\<lparr>bs_pathcode := (bs_pathcode x * slot_per_bucket + s) mod 2 ^ 16\<rparr>)"
  using assms
proof (induction ss arbitrary: q)
  case Nil
  then show ?case by simp
next
  case (Cons s ss)
  show ?case
  proof (cases "b ! s")
    case None
    then show ?thesis by simp
  next
    case (Some e)
    with Cons show ?thesis
      by (auto simp: MAX_BFS_PATH_LEN_def q_full_def q_enqueue_def)
  qed
qed

section \<open>The search loop\<close>

fun subtree :: "nat \<Rightarrow> nat" where
  "subtree 0 = 0"
| "subtree (Suc n) = slot_per_bucket * (1 + subtree n)"

definition below :: "b_slot \<Rightarrow> nat" where
  "below x = subtree (nat (4 - bs_depth x))"

definition node_ok :: "(nat \<Rightarrow> ('k, 'v) bucket) \<Rightarrow> nat \<Rightarrow> nat \<Rightarrow> nat \<Rightarrow> b_slot \<Rightarrow> bool" where
  "node_ok E hp i1 i2 x \<longleftrightarrow> bs_depth x \<le> 4 \<and>
     (\<exists>st ss. st < 2 \<and> trail E hp (if st = 0 then i1 else i2) ss \<and>
        bs_bucket x = walk E hp (if st = 0 then i1 else i2) ss \<and>
        bs_depth x = int (length ss) \<and> bs_pathcode x = encode st ss)"

definition has_node :: "b_queue \<Rightarrow> nat \<Rightarrow> int \<Rightarrow> bool" where
  "has_node q b d \<longleftrightarrow> (\<exists>y\<in>set (q_slots q). bs_bucket y = b \<and> bs_depth y = d)"

definition bfs_inv ::
  "(nat \<Rightarrow> ('k, 'v) bucket) \<Rightarrow> nat \<Rightarrow> nat \<Rightarrow> nat \<Rightarrow> b_queue \<Rightarrow> bool" where
  "bfs_inv E hp i1 i2 q \<longleftrightarrow>
     q_first q \<le> length (q_slots q) \<and> has_node q i1 0 \<and> has_node q i2 0 \<and>
     (\<forall>x\<in>set (q_slots q). node_ok E hp i1 i2 x) \<and>
     sorted (map bs_depth (q_slots q)) \<and>
     (q_first q < length (q_slots q) \<longrightarrow>
        bs_depth (last (q_slots q)) \<le> bs_depth (q_slots q ! q_first q) + 1) \<and>
     (\<forall>x\<in>set (take (q_first q) (q_slots q)). full_bucket (E (bs_bucket x)) \<and>
        (bs_depth x < 4 \<longrightarrow>
           (\<forall>s < slot_per_bucket. has_node q (nbr E hp (bs_bucket x) s) (bs_depth x + 1)))) \<and>
     length (q_slots q) + sum_list (map below (drop (q_first q) (q_slots q))) \<le> MAX_CUCKOO_COUNT"

lemma bfs_invD:
  assumes "bfs_inv E hp i1 i2 q"
  shows "q_first q \<le> length (q_slots q)" "has_node q i1 0" "has_node q i2 0"
    "x \<in> set (q_slots q) \<Longrightarrow> node_ok E hp i1 i2 x"
    "sorted (map bs_depth (q_slots q))"
    "x \<in> set (take (q_first q) (q_slots q)) \<Longrightarrow> full_bucket (E (bs_bucket x))"
    "x \<in> set (take (q_first q) (q_slots q)) \<Longrightarrow> bs_depth x < 4 \<Longrightarrow> s < slot_per_bucket \<Longrightarrow>
       has_node q (nbr E hp (bs_bucket x) s) (bs_depth x + 1)"
  using assms by (simp_all add: bfs_inv_def)

lemma bfs_levels:
  assumes "bfs_inv E hp i1 i2 q" "d \<le> 5"
    and "\<forall>x\<in>set (drop (q_first q) (q_slots q)). int d \<le> bs_depth x"
  shows "k < d \<Longrightarrow> reach E hp i1 i2 k b \<Longrightarrow>
    \<exists>x\<in>set (take (q_first q) (q_slots q)). bs_bucket x = b \<and> bs_depth x = int k"
proof (induction k arbitrary: b)
  have node: "\<exists>x\<in>set (take (q_first q) (q_slots q)). bs_bucket x = b \<and> bs_depth x = int k"
    if "has_node q b (int k)" "k < d" for b k
  proof -
    from that(1) obtain y where y: "y \<in> set (q_slots q)" "bs_bucket y = b" "bs_depth y = int k"
      by (auto simp: has_node_def)
    have "q_slots q = take (q_first q) (q_slots q) @ drop (q_first q) (q_slots q)" by simp
    with y(1) have "y \<in> set (take (q_first q) (q_slots q)) \<or> y \<in> set (drop (q_first q) (q_slots q))"
      by (metis Un_iff set_append)
    with assms(3) y that(2) show ?thesis by fastforce
  qed
  {
    case 0
    then show ?case using node [of b 0] bfs_invD(2,3) [OF assms(1)] by (auto simp: reach_0)
  next
    case (Suc k)
    from Suc.prems(2) obtain b' s where b': "reach E hp i1 i2 k b'" "s < slot_per_bucket"
      "b = nbr E hp b' s" by (rule reach_Suc)
    with Suc obtain x where x: "x \<in> set (take (q_first q) (q_slots q))" "bs_bucket x = b'"
      "bs_depth x = int k" by auto
    have "has_node q b (int (Suc k))"
      using bfs_invD(7) [OF assms(1) x(1), of s] x b'(2,3) Suc.prems(1) assms(2)
      by (simp add: add.commute)
    then show ?case using node [of b "Suc k"] Suc.prems(1) by blast
  }
qed

lemma node_ok_child:
  assumes "node_ok E hp i1 i2 x" "bs_depth x < 4" "s < slot_per_bucket"
    "E (bs_bucket x) ! s \<noteq> None"
  shows "node_ok E hp i1 i2 (child hp (E (bs_bucket x)) x s)"
proof -
  from assms(1) obtain st ss where *: "st < 2" "trail E hp (if st = 0 then i1 else i2) ss"
    "bs_bucket x = walk E hp (if st = 0 then i1 else i2) ss" "bs_depth x = int (length ss)"
    "bs_pathcode x = encode st ss" by (auto simp: node_ok_def)
  let ?ss = "ss @ [s]"
  have "encode st ?ss < 2 * 4 ^ length ?ss"
    by (rule encode_less) (use trail_slots [OF *(2)] assms(3) *(1) in auto)
  also have "\<dots> \<le> 2 * 4 ^ 4"
    using assms(2) *(4) by (intro mult_le_mono2 power_increasing) simp_all
  finally have "encode st ?ss mod 2 ^ 16 = encode st ?ss" by simp
  then show ?thesis unfolding node_ok_def
    using * assms(2-4)
    by (intro conjI exI [of _ st] exI [of _ ?ss]) (simp_all add: child_def mk_b_slot_def nbr_def)
qed

lemma has_node_mono:
  "has_node q b d \<Longrightarrow> set (q_slots q) \<subseteq> set (q_slots q') \<Longrightarrow> has_node q' b d"
  by (auto simp: has_node_def)

text \<open>A node and the children it is given leave room for the same number of nodes below.\<close>

lemma children_below:
  assumes "node_ok E hp i1 i2 x"
  defines "cs \<equiv> if bs_depth x < 4 then map (child hp (E (bs_bucket x)) x) (scan_order x) else []"
  shows "length cs + sum_list (map below cs) = below x"
proof (cases "bs_depth x < 4")
  case True
  have "map below cs = map (\<lambda>_. subtree (nat (3 - bs_depth x))) (scan_order x)"
    using True by (simp add: cs_def below_def child_def mk_b_slot_def)
  then have "sum_list (map below cs) = slot_per_bucket * subtree (nat (3 - bs_depth x))"
    by (simp only: map_replicate_const sum_list_replicate length_scan_order of_nat_id)
  moreover have "nat (4 - bs_depth x) = Suc (nat (3 - bs_depth x))" using True by simp
  then have "below x = slot_per_bucket * (1 + subtree (nat (3 - bs_depth x)))" by (simp add: below_def)
  ultimately show ?thesis using True by (simp add: cs_def)
next
  case False
  with assms(1) show ?thesis by (simp add: cs_def below_def node_ok_def)
qed

text \<open>
  Taking the first node of a queue whose depths ascend and span two levels at most, and appending
  nodes one level below it, leaves such a queue.
\<close>

lemma two_levels:
  assumes sorted: "sorted (map f (xs @ x # ys))" and last: "f (last (x # ys)) \<le> f x + 1"
    and cs: "\<And>y. y \<in> set cs \<Longrightarrow> f y = f x + (1 :: int)"
  shows "sorted (map f (xs @ x # ys @ cs))" "ys @ cs \<noteq> [] \<Longrightarrow> f (last (ys @ cs)) \<le> f (hd (ys @ cs)) + 1"
proof -
  have le: "f y \<le> f x + 1" if "y \<in> set (xs @ x # ys)" for y
  proof -
    have "f y \<le> f (last (xs @ x # ys))" by (rule sorted_map_le_last [OF sorted that])
    with last show ?thesis by simp
  qed
  have "sorted (map f cs)" by (rule sorted_map_const) (use cs in blast)
  moreover have "\<forall>a\<in>set (map f (xs @ x # ys)). \<forall>b\<in>set (map f cs). a \<le> b" using le cs by fastforce
  ultimately have "sorted (map f (xs @ x # ys) @ map f cs)" using sorted unfolding sorted_append by blast
  then show "sorted (map f (xs @ x # ys @ cs))" by simp
  assume ne: "ys @ cs \<noteq> []"
  have "f (last (ys @ cs)) \<le> f x + 1" using last_in_set [OF ne] le cs by fastforce
  moreover have "f x \<le> f (hd (ys @ cs))" using hd_in_set [OF ne] sorted cs by (fastforce simp: sorted_append)
  ultimately show "f (last (ys @ cs)) \<le> f (hd (ys @ cs)) + 1" by simp
qed

lemma bfs_step:
  assumes inv: "bfs_inv E hp i1 i2 q" and f: "q_first q < length (q_slots q)"
  defines "x \<equiv> q_slots q ! q_first q"
  assumes full: "full_bucket (E (bs_bucket x))"
  defines "cs \<equiv> if bs_depth x < 4 then map (child hp (E (bs_bucket x)) x) (scan_order x) else []"
  shows "bfs_inv E hp i1 i2 \<lparr>q_slots = q_slots q @ cs, q_first = Suc (q_first q)\<rparr>"
    (is "bfs_inv _ _ _ _ ?q")
proof -
  obtain xs ys where q: "q_slots q = xs @ x # ys" "length xs = q_first q"
    using f id_take_nth_drop [OF f] by (metis x_def length_take min.absorb2 less_imp_le)
  have nx: "node_ok E hp i1 i2 x" by (rule bfs_invD(4) [OF inv]) (simp add: q)
  have cs: "node_ok E hp i1 i2 y \<and> bs_depth y = bs_depth x + 1" if "y \<in> set cs" for y
    using that node_ok_child [OF nx] full
    by (cases "bs_depth x < 4")
      (auto simp: cs_def set_scan_order full_bucket_def child_def mk_b_slot_def)
  have sorted_q: "sorted (map bs_depth (xs @ x # ys))" using bfs_invD(5) [OF inv] by (simp add: q)
  have last_q: "bs_depth (last (x # ys)) \<le> bs_depth x + 1"
    using inv f by (simp add: bfs_inv_def q nth_append flip: q(2))
  note levels = two_levels [OF sorted_q last_q, of cs]
  have sub: "set (q_slots q) \<subseteq> set (q_slots ?q)" by auto
  have nodes: "has_node ?q (nbr E hp (bs_bucket x) s) (bs_depth x + 1)"
    if "bs_depth x < 4" "s < slot_per_bucket" for s
  proof -
    have "child hp (E (bs_bucket x)) x s \<in> set cs"
      using that by (simp add: cs_def set_scan_order)
    then show ?thesis unfolding has_node_def
      by (intro bexI [of _ "child hp (E (bs_bucket x)) x s"])
        (simp_all add: child_def mk_b_slot_def nbr_def)
  qed
  have sum_cs: "length cs + sum_list (map below cs) = below x"
    unfolding cs_def by (rule children_below [OF nx])
  show ?thesis unfolding bfs_inv_def
  proof (intro conjI)
    show "has_node ?q i1 0" "has_node ?q i2 0"
      using bfs_invD(2,3) [OF inv] has_node_mono [OF _ sub] by blast+
    show "\<forall>y\<in>set (q_slots ?q). node_ok E hp i1 i2 y"
      using bfs_invD(4) [OF inv] cs by auto
    show "sorted (map bs_depth (q_slots ?q))" using levels(1) cs by (simp add: q(1))
    show "q_first ?q < length (q_slots ?q) \<longrightarrow>
      bs_depth (last (q_slots ?q)) \<le> bs_depth (q_slots ?q ! q_first ?q) + 1"
    proof
      assume "q_first ?q < length (q_slots ?q)"
      then have ne: "ys @ cs \<noteq> []" and hd: "q_slots ?q ! q_first ?q = hd (ys @ cs)"
        by (auto simp: q hd_conv_nth nth_append simp flip: q(2))
      have "last (q_slots ?q) = last ((xs @ [x]) @ (ys @ cs))" by (simp add: q)
      then have "last (q_slots ?q) = last (ys @ cs)" by (simp only: last_appendR [OF ne])
      then show "bs_depth (last (q_slots ?q)) \<le> bs_depth (q_slots ?q ! q_first ?q) + 1"
        using levels(2) [OF _ ne] cs hd by simp
    qed
    show "\<forall>y\<in>set (take (q_first ?q) (q_slots ?q)). full_bucket (E (bs_bucket y)) \<and>
      (bs_depth y < 4 \<longrightarrow> (\<forall>s < slot_per_bucket.
         has_node ?q (nbr E hp (bs_bucket y) s) (bs_depth y + 1)))"
    proof
      fix y
      assume "y \<in> set (take (q_first ?q) (q_slots ?q))"
      then have "y = x \<or> y \<in> set (take (q_first q) (q_slots q))" by (auto simp: q simp flip: q(2))
      then show "full_bucket (E (bs_bucket y)) \<and> (bs_depth y < 4 \<longrightarrow> (\<forall>s < slot_per_bucket.
         has_node ?q (nbr E hp (bs_bucket y) s) (bs_depth y + 1)))"
        using full nodes bfs_invD(6,7) [OF inv] has_node_mono [OF _ sub] by blast
    qed
    show "length (q_slots ?q) + sum_list (map below (drop (q_first ?q) (q_slots ?q)))
      \<le> MAX_CUCKOO_COUNT"
      using inv sum_cs by (simp add: bfs_inv_def q flip: q(2))
  qed (use f in simp)
qed

text \<open>
  What a search that does not throw answers: the free end of a shortest trail, or that
  every bucket within four displacements is full.
\<close>

definition found_trail ::
  "(nat \<Rightarrow> ('k, 'v) bucket) \<Rightarrow> nat \<Rightarrow> nat \<Rightarrow> nat \<Rightarrow> nat \<Rightarrow> nat list \<Rightarrow> nat \<Rightarrow> bool" where
  "found_trail E hp i1 i2 st ss s \<longleftrightarrow>
     st < 2 \<and> length ss \<le> 4 \<and> s < slot_per_bucket \<and>
     trail E hp (if st = 0 then i1 else i2) ss \<and>
     E (walk E hp (if st = 0 then i1 else i2) ss) ! s = None \<and>
     (\<forall>k<length ss. \<forall>b. reach E hp i1 i2 k b \<longrightarrow> full_bucket (E b))"

definition search_answer ::
  "(nat \<Rightarrow> ('k, 'v) bucket) \<Rightarrow> nat \<Rightarrow> nat \<Rightarrow> nat \<Rightarrow> b_slot \<Rightarrow> bool" where
  "search_answer E hp i1 i2 x \<longleftrightarrow>
     (bs_depth x = -1 \<and> (\<forall>k<MAX_BFS_PATH_LEN. \<forall>b. reach E hp i1 i2 k b \<longrightarrow> full_bucket (E b))) \<or>
     (\<exists>st ss s. found_trail E hp i1 i2 st ss s \<and> bs_depth x = int (length ss) \<and>
        bs_pathcode x = encode st (ss @ [s]))"

lemma bfs_room:
  assumes "bfs_inv E hp i1 i2 q" "q_first q < length (q_slots q)"
    and "bs_depth (q_slots q ! q_first q) < 4"
  shows "length (q_slots q) + slot_per_bucket \<le> MAX_CUCKOO_COUNT"
proof -
  let ?x = "q_slots q ! q_first q"
  have "drop (q_first q) (q_slots q) = ?x # drop (Suc (q_first q)) (q_slots q)"
    using assms(2) by (simp add: Cons_nth_drop_Suc)
  then have "length (q_slots q) + below ?x \<le> MAX_CUCKOO_COUNT"
    using assms(1) by (simp add: bfs_inv_def)
  moreover obtain n where "nat (4 - bs_depth ?x) = Suc n"
    using assms(3) by (cases "nat (4 - bs_depth ?x)") simp_all
  ultimately show ?thesis by (simp add: below_def)
qed

lemma bfs_found:
  assumes inv: "bfs_inv E hp i1 i2 q" and f: "q_first q < length (q_slots q)"
  defines "x \<equiv> q_slots q ! q_first q"
  assumes s: "s < slot_per_bucket" "E (bs_bucket x) ! s = None"
  shows "search_answer E hp i1 i2
    (x\<lparr>bs_pathcode := (bs_pathcode x * slot_per_bucket + s) mod 2 ^ 16\<rparr>)"
proof -
  have "node_ok E hp i1 i2 x" by (rule bfs_invD(4) [OF inv]) (simp add: x_def f)
  then obtain st ss where *: "st < 2" "trail E hp (if st = 0 then i1 else i2) ss"
    "bs_bucket x = walk E hp (if st = 0 then i1 else i2) ss" "bs_depth x = int (length ss)"
    "bs_pathcode x = encode st ss" "length ss \<le> 4" by (auto simp: node_ok_def)
  have "encode st (ss @ [s]) < 2 * 4 ^ length (ss @ [s])"
    by (rule encode_less) (use trail_slots [OF *(2)] s(1) *(1) in auto)
  also have "\<dots> \<le> 2 * 4 ^ 5"
    using *(6) by (intro mult_le_mono2 power_increasing) simp_all
  finally have code: "encode st (ss @ [s]) mod 2 ^ 16 = encode st (ss @ [s])" by simp
  have after: "int (length ss) \<le> bs_depth y" if y: "y \<in> set (drop (q_first q) (q_slots q))" for y
  proof -
    have "sorted (map bs_depth (drop (q_first q) (q_slots q)))"
      using bfs_invD(5) [OF inv] by (simp add: sorted_wrt_drop flip: drop_map)
    moreover have "drop (q_first q) (q_slots q) = x # drop (Suc (q_first q)) (q_slots q)"
      using f by (simp add: Cons_nth_drop_Suc x_def)
    ultimately show ?thesis using y *(4) by auto
  qed
  have "full_bucket (E b)" if kb: "k < length ss" "reach E hp i1 i2 k b" for k b
  proof -
    obtain y where "y \<in> set (take (q_first q) (q_slots q))" "bs_bucket y = b"
      using bfs_levels [OF inv, of "length ss" k b] kb after *(6) by auto
    with bfs_invD(6) [OF inv] show ?thesis by blast
  qed
  then have "found_trail E hp i1 i2 st ss s"
    using * s by (simp add: found_trail_def)
  moreover have "(bs_pathcode x * slot_per_bucket + s) mod 2 ^ 16 = encode st (ss @ [s])"
    using code *(5) by simp
  ultimately show ?thesis
    unfolding search_answer_def using *(4) by auto
qed

lemma slot_search_loop_spec:
  assumes "bfs_inv (eff t0) (hashpower t0) i1 i2 q" "viewed mode t0 t"
    and "i1 < 2 ^ hashpower t0" "i2 < 2 ^ hashpower t0"
  shows "\<exists>t' x. slot_search_loop mode (hashpower t0) q t = (t', Inr x) \<and>
    viewed mode t0 t' \<and> search_answer (eff t0) (hashpower t0) i1 i2 x"
  using assms
proof (induction mode "hashpower t0" q t rule: slot_search_loop.induct)
  case (1 mode q t)
  let ?E = "eff t0" and ?hp = "hashpower t0"
  note inv = "1.prems"(1)
  show ?case
  proof (cases "length (q_slots q) \<le> q_first q")
    case True
    have "full_bucket (?E b)" if kb: "k < MAX_BFS_PATH_LEN" "reach ?E ?hp i1 i2 k b" for k b
    proof -
      obtain y where "y \<in> set (take (q_first q) (q_slots q))" "bs_bucket y = b"
        using bfs_levels [OF inv, of 5 k b] kb True by (auto simp: MAX_BFS_PATH_LEN_def)
      with bfs_invD(6) [OF inv] show ?thesis by blast
    qed
    then have "search_answer ?E ?hp i1 i2 (mk_b_slot 0 0 (-1))"
      by (simp add: search_answer_def mk_b_slot_def)
    with True "1.prems"(2) show ?thesis by (subst slot_search_loop.simps) simp
  next
    case False
    let ?x = "q_slots q ! q_first q" and ?q = "q\<lparr>q_first := Suc (q_first q)\<rparr>"
    have f: "q_first q < length (q_slots q)" using False by simp
    have dq: "(?x, ?q) = q_dequeue q" by (simp add: q_dequeue_def)
    have "node_ok ?E ?hp i1 i2 ?x" by (rule bfs_invD(4) [OF inv]) (simp add: f)
    then have b: "bs_bucket ?x < 2 ^ ?hp"
      using walk_less "1.prems"(3,4) by (auto simp: node_ok_def split: if_splits)
    obtain t1 where t1: "lock_one mode ?hp (bs_bucket ?x) t = (t1, Inr ())"
      "viewed mode t t1" "migrated t1 (bs_bucket ?x)"
      by (rule lock_one_spec [OF viewedD(1) [OF "1.prems"(2)], of "bs_bucket ?x" ?hp])
        (use b viewed_hashpower [OF "1.prems"(2)] in simp_all)
    have v1: "viewed mode t0 t1" by (rule viewed_trans [OF "1.prems"(2) t1(2)])
    have arr: "arr t1 ! bs_bucket ?x = ?E (bs_bucket ?x)" by (rule viewed_arr [OF v1 b t1(3)])
    have room: "bs_depth ?x < 4 \<Longrightarrow>
        length (q_slots ?q) + length (scan_order ?x) \<le> MAX_CUCKOO_COUNT"
      using bfs_room [OF inv f] by simp
    show ?thesis
    proof (cases "full_bucket (?E (bs_bucket ?x))")
      case True
      let ?cs = "if bs_depth ?x < 4
        then map (child ?hp (?E (bs_bucket ?x)) ?x) (scan_order ?x) else []"
      let ?q2 = "\<lparr>q_slots = q_slots q @ ?cs, q_first = Suc (q_first q)\<rparr>"
      have scan: "scan_slots ?hp (arr t1 ! bs_bucket ?x) ?x (scan_order ?x) ?q = Scan_more ?q2"
        using scan_slots_full [OF _ room, where b = "?E (bs_bucket ?x)" and hp = ?hp] True
        by (simp add: set_scan_order full_bucket_def arr)
      have "\<exists>t' x. slot_search_loop mode ?hp ?q2 t1 = (t', Inr x) \<and>
          viewed mode t0 t' \<and> search_answer ?E ?hp i1 i2 x"
        by (rule "1.hyps" [OF False dq t1(1) [symmetric] refl scan
              bfs_step [OF inv f True] v1 "1.prems"(3,4)])
      then show ?thesis
        using False t1(1) scan by (subst slot_search_loop.simps) (simp add: q_dequeue_def)
    next
      case nf: False
      then obtain s where s: "s < slot_per_bucket" "?E (bs_bucket ?x) ! s = None"
        "scan_slots ?hp (arr t1 ! bs_bucket ?x) ?x (scan_order ?x) ?q = Scan_found
          (?x\<lparr>bs_pathcode := (bs_pathcode ?x * slot_per_bucket + s) mod 2 ^ 16\<rparr>)"
        using scan_slots_free [OF _ room, where b = "?E (bs_bucket ?x)" and hp = ?hp]
        by (auto simp: set_scan_order full_bucket_def arr)
      from bfs_found [OF inv f s(1,2)] False t1(1) s(3) v1
      show ?thesis by (subst slot_search_loop.simps) (simp add: q_dequeue_def)
    qed
  qed
qed

lemma bfs_init:
  "bfs_inv E hp i1 i2 (q_enqueue (mk_b_slot i2 1 0) (q_enqueue (mk_b_slot i1 0 0) q_new))"
proof -
  have four: "4 = Suc (Suc (Suc (Suc 0)))" by simp
  have "subtree 4 = 340" by (subst four) (simp add: slot_per_bucket_def)
  then have "below (mk_b_slot b p 0) = 340" for b p
    by (simp add: below_def mk_b_slot_def)
  moreover have "node_ok E hp i1 i2 (mk_b_slot i1 0 0)"
    unfolding node_ok_def by (intro conjI exI [of _ 0] exI [of _ "[]"]) (simp_all add: mk_b_slot_def)
  moreover have "node_ok E hp i1 i2 (mk_b_slot i2 1 0)"
    unfolding node_ok_def by (intro conjI exI [of _ 1] exI [of _ "[]"]) (simp_all add: mk_b_slot_def)
  ultimately show ?thesis
    by (simp add: bfs_inv_def q_enqueue_def q_new_def has_node_def MAX_CUCKOO_COUNT_value)
      (simp add: mk_b_slot_def)
qed

lemma slot_search_spec:
  assumes "ready mode t" "i1 < 2 ^ hashpower t" "i2 < 2 ^ hashpower t"
  obtains t' x where "slot_search mode (hashpower t) i1 i2 t = (t', Inr x)" "viewed mode t t'"
    "search_answer (eff t) (hashpower t) i1 i2 x"
  using slot_search_loop_spec [OF bfs_init viewed_refl [OF assms(1)] assms(2,3)]
  by (auto simp: slot_search_def)

end
