(* ===== verification/Cuckoo_Kick.thy ===== *)
theory Cuckoo_Kick
  imports Cuckoo_BFS
begin

text \<open>
  Kicking entries along a cuckoo path, run alone.  \<open>moved t t'\<close> is what a table may look
  like after entries changed places: the same parameters, the same entries, the invariant,
  no lock given back.  The path a search finds is \<open>path_good\<close>; the moves along it succeed
  in the first round (\<open>cuckoopath_move_spec\<close>), so \<open>run_cuckoo\<close> never comes back to its
  loop, and it either frees a slot of one of its two buckets or reports failure with every
  bucket within four displacements full (\<open>run_cuckoo_spec\<close>).
\<close>

section \<open>Tables that hold the same entries\<close>

definition same_params :: "('k, 'v) cuckoo_map \<Rightarrow> ('k, 'v) cuckoo_map \<Rightarrow> bool" where
  "same_params t t' \<longleftrightarrow> hash_fn t' = hash_fn t \<and> is_simple t' = is_simple t \<and>
     alloc_limit t' = alloc_limit t \<and> minimum_load_factor t' = minimum_load_factor t \<and>
     maximum_hashpower t' = maximum_hashpower t \<and>
     max_num_worker_threads t' = max_num_worker_threads t"

definition moved ::
  "table_mode \<Rightarrow> ('k, 'v) cuckoo_map \<Rightarrow> ('k, 'v) cuckoo_map \<Rightarrow> bool" where
  "moved mode t t' \<longleftrightarrow> ready mode t' \<and> same_params t t' \<and> hashpower t' = hashpower t \<and>
     map elem_counter (locks t') = map elem_counter (locks t) \<and>
     mset (live t') = mset (live t) \<and>
     (\<forall>i<2 ^ hashpower t. migrated t i \<longrightarrow> migrated t' i)"

lemma same_params_refl [simp]: "same_params t t"
  by (simp add: same_params_def)

lemma same_params_trans: "same_params t u \<Longrightarrow> same_params u w \<Longrightarrow> same_params t w"
  by (simp add: same_params_def)

lemma same_paramsD:
  assumes "same_params t t'"
  shows "hash_fn t' = hash_fn t" "is_simple t' = is_simple t" "alloc_limit t' = alloc_limit t"
    "minimum_load_factor t' = minimum_load_factor t" "maximum_hashpower t' = maximum_hashpower t"
    "max_num_worker_threads t' = max_num_worker_threads t"
  using assms by (simp_all add: same_params_def)

lemma same_view_params: "same_view t t' \<Longrightarrow> same_params t t'"
  by (simp add: same_view_def same_params_def)

lemma viewed_moved:
  assumes "viewed mode t t'"
  shows "moved mode t t'"
proof -
  note v = viewedD [OF assms]
  show ?thesis
    unfolding moved_def
    using v(1) same_view_params [OF v(2)] same_viewD(3,5,8) [OF v(2)] v(2) [unfolded same_view_def]
    by (intro conjI) simp_all
qed

lemma moved_refl: "ready mode t \<Longrightarrow> moved mode t t"
  by (simp add: moved_def)

lemma moved_trans: "moved mode t u \<Longrightarrow> moved mode u w \<Longrightarrow> moved mode t w"
  by (auto simp: moved_def intro: same_params_trans)

lemma movedD:
  assumes "moved mode t t'"
  shows "ready mode t'" "same_params t t'" "hashpower t' = hashpower t"
    "mset (live t') = mset (live t)"
    "map elem_counter (locks t') = map elem_counter (locks t)"
    "i < 2 ^ hashpower t \<Longrightarrow> migrated t i \<Longrightarrow> migrated t' i"
    "hash_fn t' = hash_fn t"
  using assms by (simp_all add: moved_def same_params_def)

lemma moved_abs_map:
  assumes "moved mode t t'" "ready mode t"
  shows "abs_map t' = abs_map t"
  by (rule abs_map_mset_cong [OF movedD(4) [OF assms(1)]])
    (rule table_coreD(7) [OF readyD(2) [OF assms(2)]])

lemma moved_size: "moved mode t t' \<Longrightarrow> cuckoo_size t' = cuckoo_size t"
  by (simp add: moved_def cuckoo_size_def)

section \<open>Moving one entry\<close>

definition move_entry ::
  "nat \<Rightarrow> nat \<Rightarrow> nat \<Rightarrow> nat \<Rightarrow> ('k, 'v) kv \<Rightarrow> ('k, 'v) cuckoo_map \<Rightarrow> ('k, 'v) cuckoo_map" where
  "move_entry i j i' j' e t = put_slot i j None (put_slot i' j' (Some e) t)"

lemma move_entry_eff:
  assumes "table_struct t" "i < 2 ^ hashpower t" "i' < 2 ^ hashpower t"
    and "migrated t i" "migrated t i'" "i \<noteq> i'"
  shows "eff (move_entry i j i' j' e t) m =
    (if m = i then (eff t i)[j := None] else if m = i' then (eff t i')[j' := Some e] else eff t m)"
  using assms by (simp add: move_entry_def put_slot_eff arr_length)

lemma move_entry_moved:
  assumes "ready mode t" "i < 2 ^ hashpower t" "i' < 2 ^ hashpower t"
    and "migrated t i" "migrated t i'" "i \<noteq> i'" "j < slot_per_bucket" "j' < slot_per_bucket"
    and "eff t i ! j = Some e" "eff t i' ! j' = None"
    and "i' = alt_index (hashpower t) (kv_partial e) i"
  shows "moved mode t (move_entry i j i' j' e t)"
proof -
  let ?u = "put_slot i' j' (Some e) t" and ?w = "move_entry i j i' j' e t"
  note struct = table_core_struct [OF readyD(2) [OF assms(1)]]
  have "e \<in> set (contents (eff t i))"
    using assms(7,9) eff_length [OF struct assms(2)]
    by (auto simp: set_contents) (metis nth_mem)
  then have p: "kv_partial e = partial_key (hash_fn t (kv_key e))"
    "home (hashpower t) (hash_fn t (kv_key e)) i"
    using eff_placed [OF struct assms(2)] by (auto simp: placed_def)
  have "hashpower t \<le> 64" using table_core_hashpower_less [OF readyD(2) [OF assms(1)]] by simp
  then have home: "home (hashpower t) (hash_fn t (kv_key e)) i'"
    using home_alt [OF p(2)] p(1) assms(11) by simp
  have u: "table_struct ?u"
    by (rule put_slot_struct [OF struct assms(3,5)]) (use p home in auto)
  have w: "table_struct ?w" unfolding move_entry_def
    by (rule put_slot_struct [OF u]) (use assms in auto)
  have "eff ?u i ! j = Some e"
    using assms(6,9) put_slot_eff [OF _ assms(5)] arr_length [OF struct] assms(3) by simp
  then have "add_mset e (mset (live ?w)) = mset (live ?u)"
    unfolding move_entry_def
    using live_put_slot_None [OF u, of i j e] assms by simp
  moreover have "mset (live ?u) = add_mset e (mset (live t))"
    by (rule live_put_slot_Some [OF struct assms(3,5,8,10)])
  ultimately have mset: "mset (live ?w) = mset (live t)" by simp
  have "length (live ?w) = length (live t)" using mset by (metis size_mset)
  moreover have "distinct (map kv_key (live ?w))"
    by (rule distinct_keys_mset [OF mset [symmetric]])
      (rule table_coreD(7) [OF readyD(2) [OF assms(1)]])
  ultimately have "table_ok ?w"
    using w readyD(1) [OF assms(1)] table_coreD(8) [OF readyD(2) [OF assms(1)]]
    by (simp add: table_ok_def table_core_def) (simp add: move_entry_def)
  then show ?thesis
    using assms(1) mset unfolding moved_def ready_def
    by (simp add: move_entry_def mode_ok_def same_params_def)
qed

section \<open>Good paths\<close>

definition link ::
  "(nat \<Rightarrow> ('k, 'v) bucket) \<Rightarrow> ('k \<Rightarrow> u64) \<Rightarrow> nat \<Rightarrow> cuckoo_record list \<Rightarrow> nat \<Rightarrow> bool" where
  "link E hf hp path i \<longleftrightarrow>
     (\<exists>e. E (cr_bucket (path ! i)) ! cr_slot (path ! i) = Some e \<and>
        cr_hv (path ! i) = hashed_key hf (kv_key e) \<and>
        cr_bucket (path ! Suc i) = alt_index hp (kv_partial e) (cr_bucket (path ! i)))"

definition path_good ::
  "(nat \<Rightarrow> ('k, 'v) bucket) \<Rightarrow> ('k \<Rightarrow> u64) \<Rightarrow> nat \<Rightarrow> cuckoo_record list \<Rightarrow> nat \<Rightarrow> bool" where
  "path_good E hf hp path d \<longleftrightarrow>
     (\<forall>i\<le>d. cr_bucket (path ! i) < 2 ^ hp \<and> cr_slot (path ! i) < slot_per_bucket) \<and>
     (\<forall>i<d. link E hf hp path i) \<and>
     E (cr_bucket (path ! d)) ! cr_slot (path ! d) = None \<and>
     (\<forall>i j. i < j \<longrightarrow> j \<le> d \<longrightarrow> cr_bucket (path ! i) \<noteq> cr_bucket (path ! j))"

lemma path_good_cong:
  assumes "path_good E hf hp path d" "\<And>i. i < 2 ^ hp \<Longrightarrow> E' i = E i"
  shows "path_good E' hf hp path d"
proof -
  have "E' (cr_bucket (path ! i)) = E (cr_bucket (path ! i))" if "i \<le> d" for i
    using assms that by (simp add: path_good_def)
  then show ?thesis using assms(1) by (simp add: path_good_def link_def)
qed

lemma path_good_step:
  assumes good: "path_good (eff t) hf hp path (Suc d)" and hp: "hp = hashpower t"
    and struct: "table_struct t"
    and e: "eff t (cr_bucket (path ! d)) ! cr_slot (path ! d) = Some e"
    and m: "migrated t (cr_bucket (path ! d))" "migrated t (cr_bucket (path ! Suc d))"
  defines "t' \<equiv> move_entry (cr_bucket (path ! d)) (cr_slot (path ! d))
      (cr_bucket (path ! Suc d)) (cr_slot (path ! Suc d)) e t"
  shows "path_good (eff t') hf hp path d"
proof -
  let ?b = "\<lambda>i. cr_bucket (path ! i)"
  have lt: "?b i < 2 ^ hp" "cr_slot (path ! i) < slot_per_bucket" if "i \<le> Suc d" for i
    using good that by (simp_all add: path_good_def)
  have ne: "?b i \<noteq> ?b j" if "i < j" "j \<le> Suc d" for i j
    using good that by (simp add: path_good_def)
  note eff = move_entry_eff [OF struct, of "?b d" "?b (Suc d)"]
  have E: "eff t' (?b i) = (if i = d then (eff t (?b d))[cr_slot (path ! d) := None] else eff t (?b i))"
    if "i \<le> d" for i
    unfolding t'_def
    by (cases "i = d")
      (use eff lt [of d] lt [of "Suc d"] m ne [of d "Suc d"] ne [of i d] ne [of i "Suc d"] that hp
        in simp_all)
  have "length (eff t (?b d)) = slot_per_bucket"
    using eff_length [OF struct] lt [of d] hp by simp
  then show ?thesis
    using good E lt [of d] unfolding path_good_def link_def by simp
qed

section \<open>Moving along a good path\<close>

text \<open>The locks of one displacement: the last one also holds both buckets of the new key.\<close>

lemma displacement_locks:
  assumes r: "ready mode t" and hp: "hp = hashpower t"
    and lt: "b_i1 b < 2 ^ hp" "b_i2 b < 2 ^ hp" "from < 2 ^ hp" "to < 2 ^ hp"
    and first: "fin \<Longrightarrow> from \<in> {b_i1 b, b_i2 b}"
  obtains t' bb where "(if fin then lock_three mode hp (b_i1 b) (b_i2 b) to t
      else lock_two mode hp from to t) = (t', Inr bb)"
    "viewed mode t t'" "migrated t' from" "migrated t' to"
    "fin \<Longrightarrow> migrated t' (b_i1 b) \<and> migrated t' (b_i2 b)"
proof (cases fin)
  case True
  obtain t' where "lock_three mode hp (b_i1 b) (b_i2 b) to t = (t', Inr \<lparr>b_i1 = b_i1 b, b_i2 = b_i2 b\<rparr>)"
    "viewed mode t t'" "migrated t' (b_i1 b)" "migrated t' (b_i2 b)" "migrated t' to"
    by (rule lock_three_spec [OF r, of "b_i1 b" "b_i2 b" to hp]) (use hp lt in simp_all)
  then show ?thesis using True first by (intro that) auto
next
  case False
  obtain t' where "lock_two mode hp from to t = (t', Inr \<lparr>b_i1 = from, b_i2 = to\<rparr>)"
    "viewed mode t t'" "migrated t' from" "migrated t' to"
    by (rule lock_two_spec [OF r, of "from" to hp]) (use hp lt in simp_all)
  then show ?thesis using False by (intro that) auto
qed

lemma path_move_loop_spec:
  assumes "ready mode t" "hp = hashpower t" "path_good (eff t) (hash_fn t) hp path d"
    and "b_i1 b < 2 ^ hp" "b_i2 b < 2 ^ hp" "cr_bucket (path ! 0) \<in> {b_i1 b, b_i2 b}"
    and "d = 0 \<Longrightarrow> migrated t (b_i1 b) \<and> migrated t (b_i2 b)"
  shows "\<exists>t'. path_move_loop mode hp path d b t = (t', Inr True) \<and> moved mode t t' \<and>
    eff t' (cr_bucket (path ! 0)) ! cr_slot (path ! 0) = None \<and>
    migrated t' (b_i1 b) \<and> migrated t' (b_i2 b)"
  using assms
proof (induction d arbitrary: t)
  case 0
  then show ?case by (simp add: moved_refl path_good_def)
next
  case (Suc d)
  let ?from = "path ! d" and ?to = "path ! Suc d"
  note good = Suc.prems(3)
  have lt: "cr_bucket ?from < 2 ^ hp" "cr_slot ?from < slot_per_bucket"
    "cr_bucket ?to < 2 ^ hp" "cr_slot ?to < slot_per_bucket"
    using good by (simp_all add: path_good_def)
  have ne: "cr_bucket ?from \<noteq> cr_bucket ?to" using good by (simp add: path_good_def)
  have first: "Suc d = 1 \<Longrightarrow> cr_bucket ?from \<in> {b_i1 b, b_i2 b}" using Suc.prems(6) by simp
  obtain t1 bb where t1: "(if Suc d = 1 then lock_three mode hp (b_i1 b) (b_i2 b) (cr_bucket ?to) t
      else lock_two mode hp (cr_bucket ?from) (cr_bucket ?to) t) = (t1, Inr bb)" "viewed mode t t1"
    "migrated t1 (cr_bucket ?from)" "migrated t1 (cr_bucket ?to)"
    "Suc d = 1 \<Longrightarrow> migrated t1 (b_i1 b) \<and> migrated t1 (b_i2 b)"
    by (rule displacement_locks [OF Suc.prems(1,2,4,5) lt(1,3), where fin = "Suc d = 1"]) (erule first, rule that)
  have r1: "ready mode t1" by (rule viewedD(1) [OF t1(2)])
  have hp1: "hp = hashpower t1" using viewed_hashpower [OF t1(2)] Suc.prems(2) by simp
  have hf1: "hash_fn t1 = hash_fn t" by (rule same_viewD(1) [OF viewedD(2) [OF t1(2)]])
  have good1: "path_good (eff t1) (hash_fn t1) hp path (Suc d)"
    unfolding hf1 by (rule path_good_cong [OF good])
      (use viewed_eff [OF t1(2)] Suc.prems(2) in simp)
  then obtain e where e: "eff t1 (cr_bucket ?from) ! cr_slot ?from = Some e"
    "cr_hv ?from = hashed_key (hash_fn t1) (kv_key e)"
    "cr_bucket ?to = alt_index hp (kv_partial e) (cr_bucket ?from)"
    by (auto simp: path_good_def link_def)
  have free: "eff t1 (cr_bucket ?to) ! cr_slot ?to = None" using good1 by (simp add: path_good_def)
  let ?t2 = "move_entry (cr_bucket ?from) (cr_slot ?from) (cr_bucket ?to) (cr_slot ?to) e t1"
  have m2: "moved mode t1 ?t2"
    by (rule move_entry_moved) (use r1 lt hp1 t1 ne e free in simp_all)
  have good2: "path_good (eff ?t2) (hash_fn ?t2) hp path d"
    using path_good_step [OF good1 hp1 table_core_struct [OF readyD(2) [OF r1]] e(1) t1(3,4)]
    by (simp add: move_entry_def)
  have "\<exists>t'. path_move_loop mode hp path d b ?t2 = (t', Inr True) \<and> moved mode ?t2 t' \<and>
    eff t' (cr_bucket (path ! 0)) ! cr_slot (path ! 0) = None \<and>
    migrated t' (b_i1 b) \<and> migrated t' (b_i2 b)"
    by (rule Suc.IH [OF movedD(1) [OF m2] _ good2])
      (use hp1 Suc.prems(4-6) t1(5) movedD(3,6) [OF m2] in auto)
  moreover have "path_move_loop mode hp path (Suc d) b t = path_move_loop mode hp path d b ?t2"
  proof -
    have "arr t1 ! cr_bucket ?from = eff t1 (cr_bucket ?from)"
      "arr t1 ! cr_bucket ?to = eff t1 (cr_bucket ?to)"
      using t1(3,4) by (simp_all add: eff_def)
    then show ?thesis
      using t1(1) e free
      by (simp add: occupied_def hashed_key_only_hash_def hashed_key_def setKV_put_slot
          eraseKV_put_slot move_entry_def Let_def)
  qed
  moreover have "moved mode t ?t2" by (rule moved_trans [OF viewed_moved [OF t1(2)] m2])
  ultimately show ?case by (auto intro: moved_trans)
qed

lemma cuckoopath_move_spec:
  assumes "ready mode t" "hp = hashpower t" "path_good (eff t) (hash_fn t) hp path (length path - 1)"
    and "b_i1 b < 2 ^ hp" "b_i2 b < 2 ^ hp" "cr_bucket (path ! 0) \<in> {b_i1 b, b_i2 b}"
  obtains t' where "cuckoopath_move mode hp path b t = (t', Inr True)" "moved mode t t'"
    "eff t' (cr_bucket (path ! 0)) ! cr_slot (path ! 0) = None"
    "migrated t' (b_i1 b)" "migrated t' (b_i2 b)"
proof (cases "length path - 1 = 0")
  case True
  obtain t1 where t1: "lock_two mode hp (b_i1 b) (b_i2 b) t
      = (t1, Inr \<lparr>b_i1 = b_i1 b, b_i2 = b_i2 b\<rparr>)"
    "viewed mode t t1" "migrated t1 (b_i1 b)" "migrated t1 (b_i2 b)"
    by (rule lock_two_spec [OF assms(1), of "b_i1 b" "b_i2 b" hp]) (use assms in simp_all)
  have lt: "cr_bucket (path ! 0) < 2 ^ hashpower t" using assms(2,3) True by (simp add: path_good_def)
  have m: "migrated t1 (cr_bucket (path ! 0))" using assms(6) t1 by auto
  have "eff t1 (cr_bucket (path ! 0)) ! cr_slot (path ! 0) = None"
    using viewed_eff [OF t1(2) lt] assms(3) True by (simp add: path_good_def)
  moreover from this m have "\<not> occupied (arr t1 ! cr_bucket (path ! 0)) (cr_slot (path ! 0))"
    by (simp add: occupied_def eff_def)
  ultimately show ?thesis
    using that [of t1] t1 True viewed_moved [OF t1(2)] by (simp add: cuckoopath_move_def)
next
  case False
  with path_move_loop_spec [OF assms] that show ?thesis
    by (auto simp: cuckoopath_move_def Let_def)
qed

section \<open>Following a trail\<close>

lemma placed_hashed_key:
  assumes "table_struct t" "b < 2 ^ hashpower t" "s < slot_per_bucket" "eff t b ! s = Some e"
  shows "hv_partial (hashed_key (hash_fn t) (kv_key e)) = kv_partial e"
proof -
  have "e \<in> set (contents (eff t b))"
    using assms(3,4) eff_length [OF assms(1,2)] by (auto simp: set_contents) (metis nth_mem)
  then show ?thesis
    using eff_placed [OF assms(1,2)] by (simp add: placed_def hashed_key_def Let_def)
qed

lemma follow_path_spec:
  assumes "ready mode t" "hp = hashpower t" "b < 2 ^ hp" "trail (eff t0) hp b ss"
    and "\<And>i. i < 2 ^ hp \<Longrightarrow> eff t i = eff t0 i" "hash_fn t = hf"
    and "s < slot_per_bucket" "eff t0 (walk (eff t0) hp b ss) ! s = None"
  shows "\<exists>t' path. follow_path mode hp b (ss @ [s]) t = (t', Inr path) \<and> viewed mode t t' \<and>
    length path = Suc (length ss) \<and>
    (\<forall>i\<le>length ss. cr_bucket (path ! i) = walk (eff t0) hp b (take i ss) \<and>
       cr_slot (path ! i) = (ss @ [s]) ! i) \<and>
    (\<forall>i<length ss. link (eff t0) hf hp path i)"
  using assms
proof (induction ss arbitrary: b t)
  case Nil
  obtain t1 where t1: "lock_one mode hp b t = (t1, Inr ())" "viewed mode t t1" "migrated t1 b"
    by (rule lock_one_spec [OF Nil.prems(1), of b hp]) (use Nil.prems(2,3) in simp_all)
  have "arr t1 ! b = eff t0 b"
    using viewed_arr [OF t1(2) _ t1(3)] Nil.prems(2,3,5) by simp
  with t1 Nil.prems(8) show ?case by simp
next
  case (Cons r ss)
  obtain t1 where t1: "lock_one mode hp b t = (t1, Inr ())" "viewed mode t t1" "migrated t1 b"
    by (rule lock_one_spec [OF Cons.prems(1), of b hp]) (use Cons.prems(2,3) in simp_all)
  from Cons.prems(4) obtain e where e: "eff t0 b ! r = Some e" "r < slot_per_bucket"
    and tr: "trail (eff t0) hp (nbr (eff t0) hp b r) ss" by auto
  have arr: "arr t1 ! b = eff t0 b"
    using viewed_arr [OF t1(2) _ t1(3)] Cons.prems(2,3,5) by simp
  have hp1: "hashpower t1 = hp" using viewed_hashpower [OF t1(2)] Cons.prems(2) by simp
  have hf1: "hash_fn t1 = hf" using same_viewD(1) [OF viewedD(2) [OF t1(2)]] Cons.prems(6) by simp
  have "hv_partial (hashed_key (hash_fn t) (kv_key e)) = kv_partial e"
    by (rule placed_hashed_key [OF table_core_struct [OF readyD(2) [OF Cons.prems(1)]], of b r])
      (use Cons.prems(2,3) Cons.prems(5) [OF Cons.prems(3)] e in simp_all)
  then have nb: "alt_index hp (hv_partial (hashed_key hf (kv_key e))) b = nbr (eff t0) hp b r"
    using Cons.prems(6) e(1) by (simp add: nbr_def)
  have "\<exists>t' path. follow_path mode hp (nbr (eff t0) hp b r) (ss @ [s]) t1 = (t', Inr path) \<and>
    viewed mode t1 t' \<and> length path = Suc (length ss) \<and>
    (\<forall>i\<le>length ss. cr_bucket (path ! i) = walk (eff t0) hp (nbr (eff t0) hp b r) (take i ss) \<and>
       cr_slot (path ! i) = (ss @ [s]) ! i) \<and>
    (\<forall>i<length ss. link (eff t0) hf hp path i)"
    by (rule Cons.IH [OF viewedD(1) [OF t1(2)]])
      (use hp1 hf1 tr Cons.prems viewed_eff [OF t1(2)] in simp_all)
  then obtain t' path where p: "follow_path mode hp (nbr (eff t0) hp b r) (ss @ [s]) t1 = (t', Inr path)"
    "viewed mode t1 t'" "length path = Suc (length ss)"
    "\<And>i. i \<le> length ss \<Longrightarrow> cr_bucket (path ! i) = walk (eff t0) hp (nbr (eff t0) hp b r) (take i ss) \<and>
       cr_slot (path ! i) = (ss @ [s]) ! i"
    "\<And>i. i < length ss \<Longrightarrow> link (eff t0) hf hp path i" by blast
  let ?rec = "\<lparr>cr_bucket = b, cr_slot = r, cr_hv = hashed_key hf (kv_key e)\<rparr>"
  have "follow_path mode hp b ((r # ss) @ [s]) t = (t', Inr (?rec # path))"
    using t1(1) arr e(1) nb p(1) hf1 by (simp add: Let_def)
  moreover have "viewed mode t t'" by (rule viewed_trans [OF t1(2) p(2)])
  moreover have "cr_bucket ((?rec # path) ! i) = walk (eff t0) hp b (take i (r # ss)) \<and>
      cr_slot ((?rec # path) ! i) = ((r # ss) @ [s]) ! i" if "i \<le> length (r # ss)" for i
    using that p(4) by (cases i) simp_all
  moreover have "link (eff t0) hf hp (?rec # path) i" if "i < length (r # ss)" for i
  proof (cases i)
    case 0
    then show ?thesis using e p(4) [of 0] by (simp add: link_def nbr_def)
  next
    case (Suc i')
    then show ?thesis using p(5) [of i'] that by (simp add: link_def)
  qed
  ultimately show ?case using p(3) by (intro exI [of _ t'] exI [of _ "?rec # path"]) simp
qed

lemma found_trail_good:
  assumes "found_trail E hp i1 i2 st ss s" "i1 < 2 ^ hp" "i2 < 2 ^ hp"
    and "\<And>i. i \<le> length ss \<Longrightarrow>
      cr_bucket (path ! i) = walk E hp (if st = 0 then i1 else i2) (take i ss) \<and>
      cr_slot (path ! i) = (ss @ [s]) ! i"
    and "\<And>i. i < length ss \<Longrightarrow> link E hf hp path i"
  shows "path_good E hf hp path (length ss)"
proof -
  let ?b = "if st = 0 then i1 else i2"
  note f = assms(1) [unfolded found_trail_def]
  have "?b < 2 ^ hp" using assms(2,3) by simp
  then have "walk E hp ?b (take i ss) < 2 ^ hp" for i by (rule walk_less)
  moreover have "(ss @ [s]) ! i < slot_per_bucket" if "i \<le> length ss" for i
    using trail_slots [of E hp ?b ss] f that by (auto simp: nth_append)
  moreover have "walk E hp ?b (take i ss) \<noteq> walk E hp ?b (take j ss)" if "i < j" "j \<le> length ss" for i j
    by (rule shortest_distinct [of _ i1 i2]) (use f that in \<open>auto simp: full_bucket_def\<close>)
  ultimately show ?thesis using assms(4,5) f by (simp add: path_good_def)
qed

lemma cuckoopath_search_spec:
  assumes "ready mode t" "i1 < 2 ^ hashpower t" "i2 < 2 ^ hashpower t"
  obtains
    (none) t' where "cuckoopath_search mode (hashpower t) i1 i2 t = (t', Inr None)"
      "viewed mode t t'"
      "\<And>k b. k < MAX_BFS_PATH_LEN \<Longrightarrow> reach (eff t) (hashpower t) i1 i2 k b \<Longrightarrow> full_bucket (eff t b)"
  | (path) t' path where "cuckoopath_search mode (hashpower t) i1 i2 t = (t', Inr (Some path))"
      "viewed mode t t'" "path_good (eff t) (hash_fn t) (hashpower t) path (length path - 1)"
      "cr_bucket (path ! 0) \<in> {i1, i2}"
proof -
  obtain t1 x where x: "slot_search mode (hashpower t) i1 i2 t = (t1, Inr x)" "viewed mode t t1"
    "search_answer (eff t) (hashpower t) i1 i2 x"
    by (rule slot_search_spec [OF assms])
  show thesis
  proof (cases "bs_depth x = -1")
    case True
    then show thesis using x none [of t1] by (auto simp: search_answer_def cuckoopath_search_def)
  next
    case False
    with x(3) obtain st ss s where f: "found_trail (eff t) (hashpower t) i1 i2 st ss s"
      "bs_depth x = int (length ss)" "bs_pathcode x = encode st (ss @ [s])"
      by (auto simp: search_answer_def)
    note f' = f(1) [unfolded found_trail_def]
    let ?b = "if st = 0 then i1 else i2"
    have "nat (bs_depth x + 1) = length (ss @ [s])" using f(2) by simp
    moreover have "decode_slots (length (ss @ [s])) (encode st (ss @ [s])) = (ss @ [s], st)"
      by (rule decode_encode) (use f' trail_slots [of "eff t" "hashpower t" ?b ss] in auto)
    ultimately have dec: "decode_slots (nat (bs_depth x + 1)) (bs_pathcode x) = (ss @ [s], st)"
      by (simp only: f(3))
    have "\<exists>t' path. follow_path mode (hashpower t) ?b (ss @ [s]) t1 = (t', Inr path) \<and>
        viewed mode t1 t' \<and> length path = Suc (length ss) \<and>
        (\<forall>i\<le>length ss. cr_bucket (path ! i) = walk (eff t) (hashpower t) ?b (take i ss) \<and>
           cr_slot (path ! i) = (ss @ [s]) ! i) \<and>
        (\<forall>i<length ss. link (eff t) (hash_fn t) (hashpower t) path i)"
      by (rule follow_path_spec [OF viewedD(1) [OF x(2)]])
        (use f' assms viewed_eff [OF x(2)] viewed_hashpower [OF x(2)]
          same_viewD(1) [OF viewedD(2) [OF x(2)]] in auto)
    then obtain t2 path where p: "follow_path mode (hashpower t) ?b (ss @ [s]) t1 = (t2, Inr path)"
      "viewed mode t1 t2" "length path = Suc (length ss)"
      "\<And>i. i \<le> length ss \<Longrightarrow>
         cr_bucket (path ! i) = walk (eff t) (hashpower t) ?b (take i ss) \<and>
         cr_slot (path ! i) = (ss @ [s]) ! i"
      "\<And>i. i < length ss \<Longrightarrow> link (eff t) (hash_fn t) (hashpower t) path i" by blast
    have "path_good (eff t) (hash_fn t) (hashpower t) path (length ss)"
      by (rule found_trail_good [OF f(1) assms(2,3) p(4,5)])
    moreover have "cr_bucket (path ! 0) \<in> {i1, i2}" using p(4) [of 0] by simp
    moreover have "cuckoopath_search mode (hashpower t) i1 i2 t = (t2, Inr (Some path))"
      using x(1) False dec p(1) by (simp add: cuckoopath_search_def)
    ultimately show thesis using path [of t2 path] p(3) viewed_trans [OF x(2) p(2)] by simp
  qed
qed

section \<open>Making room\<close>

definition no_room :: "('k, 'v) cuckoo_map \<Rightarrow> nat \<Rightarrow> nat \<Rightarrow> bool" where
  "no_room t i1 i2 \<longleftrightarrow>
     (\<forall>k<MAX_BFS_PATH_LEN. \<forall>b. reach (eff t) (hashpower t) i1 i2 k b \<longrightarrow> full_bucket (eff t b))"

lemma run_cuckoo_spec:
  assumes "ready mode t" "b_i1 b < 2 ^ hashpower t" "b_i2 b < 2 ^ hashpower t"
  obtains
    (failed) t' where "run_cuckoo mode b t = (t', Inr (Failure, 0, 0))" "viewed mode t t'"
      "no_room t (b_i1 b) (b_i2 b)"
  | (freed) t' i j where "run_cuckoo mode b t = (t', Inr (Ok, i, j))" "moved mode t t'"
      "i \<in> {b_i1 b, b_i2 b}" "j < slot_per_bucket" "eff t' i ! j = None"
      "migrated t' (b_i1 b)" "migrated t' (b_i2 b)"
proof (cases rule: cuckoopath_search_spec [OF assms, case_names none path])
  case (none t1)
  obtain n where r: "cuckoo_rounds = Suc n"
    by (cases cuckoo_rounds) (simp_all add: cuckoo_rounds_def)
  show ?thesis
    by (rule failed [of t1]) (use none in \<open>auto simp: run_cuckoo_def r no_room_def\<close>)
next
  case (path t1 path)
  obtain n where r: "cuckoo_rounds = Suc n"
    by (cases cuckoo_rounds) (simp_all add: cuckoo_rounds_def)
  have hp1: "hashpower t1 = hashpower t" by (rule viewed_hashpower [OF path(2)])
  have hf1: "hash_fn t1 = hash_fn t" by (rule same_viewD(1) [OF viewedD(2) [OF path(2)]])
  have good: "path_good (eff t1) (hash_fn t1) (hashpower t) path (length path - 1)"
    unfolding hf1 by (rule path_good_cong [OF path(3) viewed_eff [OF path(2)]])
  obtain t2 where t2: "cuckoopath_move mode (hashpower t) path b t1 = (t2, Inr True)"
    "moved mode t1 t2" "eff t2 (cr_bucket (path ! 0)) ! cr_slot (path ! 0) = None"
    "migrated t2 (b_i1 b)" "migrated t2 (b_i2 b)"
    by (rule cuckoopath_move_spec [OF viewedD(1) [OF path(2)] _ good])
      (use assms hp1 path(4) in simp_all)
  have "run_cuckoo mode b t = (t2, Inr (Ok, cr_bucket (path ! 0), cr_slot (path ! 0)))"
    using path(1) t2(1) by (simp add: run_cuckoo_def r)
  then show ?thesis
    using freed [of t2] t2 path(3,4) moved_trans [OF viewed_moved [OF path(2)] t2(2)]
    by (simp add: path_good_def)
qed

end
