(* ===== verification/Cuckoo_Place.thy ===== *)
theory Cuckoo_Place
  imports Cuckoo_Kick
begin

text \<open>
  Looking a key up and finding a place for it.  A key lives in one of its two candidate
  buckets, so \<open>cuckoo_find\<close> decides whether the whole table holds it
  (\<open>cuckoo_find_spec\<close>), and one attempt to insert answers with the slot that holds the
  key, with a free slot of a candidate bucket of a key that is nowhere in the table, or
  with failure when no bucket near the candidates has room (\<open>cuckoo_insert_spec\<close>).
\<close>

section \<open>Scanning a bucket for a key\<close>

definition slot_at ::
  "(('k, 'v) kv option \<Rightarrow> bool) \<Rightarrow> ('k, 'v) bucket \<Rightarrow> nat \<Rightarrow> int \<Rightarrow> bool" where
  "slot_at P b i r \<longleftrightarrow> (\<exists>j<length b. r = int (i + j) \<and> P (b ! j))"

definition has_key :: "'k \<Rightarrow> ('k, 'v) kv option \<Rightarrow> bool" where
  "has_key k x \<longleftrightarrow> (\<exists>e. x = Some e \<and> kv_key e = k)"

lemma slot_at_simps [simp]:
  "\<not> slot_at P [] i r"
  "slot_at P (x # b) i r \<longleftrightarrow> (r = int i \<and> P x) \<or> slot_at P b (Suc i) r"
  by (auto simp: slot_at_def less_Suc_eq_0_disj)

lemma has_key_simps [simp]: "\<not> has_key k None" "has_key k (Some e) \<longleftrightarrow> kv_key e = k"
  by (simp_all add: has_key_def)

lemma try_read_slots_spec:
  "\<forall>e. Some e \<in> set b \<longrightarrow> kv_key e = k \<longrightarrow> kv_partial e = p \<Longrightarrow>
     try_read_slots simple p k b i = -1 \<and> (\<forall>x\<in>set b. \<not> has_key k x) \<or>
     slot_at (has_key k) b i (try_read_slots simple p k b i)"
  by (induction simple p k b i rule: try_read_slots.induct) auto

lemma find_insert_slots_spec:
  "\<forall>e. Some e \<in> set b \<longrightarrow> kv_key e = k \<longrightarrow> kv_partial e = p \<Longrightarrow>
     find_insert_slots simple p k b i s = (absent, r) \<Longrightarrow>
     (\<not> absent \<and> slot_at (has_key k) b i r) \<or>
     (absent \<and> (\<forall>x\<in>set b. \<not> has_key k x) \<and>
      (slot_at (\<lambda>x. x = None) b i r \<or> (None \<notin> set b \<and> r = s)))"
  by (induction simple p k b i s rule: find_insert_slots.induct) (auto split: if_splits)

section \<open>Positions\<close>

definition at_slot ::
  "('k, 'v) cuckoo_map \<Rightarrow> nat \<Rightarrow> nat \<Rightarrow> ('k, 'v) kv option \<Rightarrow> bool" where
  "at_slot t i j x \<longleftrightarrow> i < 2 ^ hashpower t \<and> j < slot_per_bucket \<and> migrated t i \<and> eff t i ! j = x"

definition candidates ::
  "('k, 'v) cuckoo_map \<Rightarrow> 'k \<Rightarrow> two_buckets \<Rightarrow> bool" where
  "candidates t k b \<longleftrightarrow>
     b_i1 b = index_hash (hashpower t) (hash_fn t k) \<and>
     b_i2 b = alt_index (hashpower t) (partial_key (hash_fn t k)) (b_i1 b) \<and>
     migrated t (b_i1 b) \<and> migrated t (b_i2 b)"

lemma candidatesD:
  assumes "candidates t k b"
  shows "b_i1 b < 2 ^ hashpower t" "b_i2 b < 2 ^ hashpower t"
    "migrated t (b_i1 b)" "migrated t (b_i2 b)"
    "home (hashpower t) (hash_fn t k) i \<longleftrightarrow> i \<in> {b_i1 b, b_i2 b}"
    "arr t ! b_i1 b = eff t (b_i1 b)" "arr t ! b_i2 b = eff t (b_i2 b)"
  using assms by (auto simp: candidates_def home_def eff_def)

lemma candidates_moved:
  assumes "candidates t k b" "moved mode t t'"
  shows "candidates t' k b"
  using movedD(6) [OF assms(2)] candidatesD(1-4) [OF assms(1)] movedD(3,7) [OF assms(2)] assms(1)
  unfolding candidates_def by metis

lemma eff_key_partial:
  assumes "table_struct t" "i < 2 ^ hashpower t" "Some e \<in> set (eff t i)"
  shows "kv_partial e = partial_key (hash_fn t (kv_key e))"
    "home (hashpower t) (hash_fn t (kv_key e)) i"
  using eff_placed [OF assms(1,2)] assms(3) by (simp_all add: placed_def set_contents)

lemma absent_if_candidates:
  assumes "table_core t" "candidates t k b"
    and "\<And>e. Some e \<in> set (eff t (b_i1 b)) \<Longrightarrow> kv_key e \<noteq> k"
    and "\<And>e. Some e \<in> set (eff t (b_i2 b)) \<Longrightarrow> kv_key e \<noteq> k"
  shows "abs_map t k = None"
proof -
  have False if e: "e \<in> set (live t)" "kv_key e = k" for e
  proof -
    obtain i where "home (hashpower t) (hash_fn t k) i" "Some e \<in> set (eff t i)"
      using live_home [OF assms(1) e(1)] e(2) by blast
    with candidatesD(5) [OF assms(2)] assms(3,4) e(2) show False by auto
  qed
  then show ?thesis by (auto simp: abs_map_None_iff)
qed

lemma at_slot_live:
  assumes "table_core t" "at_slot t i j (Some e)"
  shows "e \<in> set (live t)" "abs_map t (kv_key e) = Some (kv_mapped e)"
    "home (hashpower t) (hash_fn t (kv_key e)) i"
    "kv_partial e = partial_key (hash_fn t (kv_key e))"
proof -
  have "Some e \<in> set (eff t i)"
    using assms eff_length [OF table_core_struct [OF assms(1)]] unfolding at_slot_def
    by (metis nth_mem)
  moreover have "i < 2 ^ hashpower t" using assms(2) by (simp add: at_slot_def)
  ultimately show "e \<in> set (live t)" "home (hashpower t) (hash_fn t (kv_key e)) i"
    "kv_partial e = partial_key (hash_fn t (kv_key e))"
    using eff_key_partial [OF table_core_struct [OF assms(1)]]
    by (auto simp: set_live set_contents)
  then show "abs_map t (kv_key e) = Some (kv_mapped e)" by (intro abs_map_SomeI [OF assms(1)])
qed

lemma cuckoo_find_spec:
  assumes "table_core t" "candidates t k b"
  shows "(\<exists>i j e. cuckoo_find k (partial_key (hash_fn t k)) (b_i1 b) (b_i2 b) t
        = \<lparr>pos_index = i, pos_slot = j, pos_status = Ok\<rparr> \<and>
      at_slot t i j (Some e) \<and> kv_key e = k) \<or>
    (cuckoo_find k (partial_key (hash_fn t k)) (b_i1 b) (b_i2 b) t
        = \<lparr>pos_index = 0, pos_slot = 0, pos_status = Failure_key_not_found\<rparr> \<and> abs_map t k = None)"
proof -
  note struct = table_core_struct [OF assms(1)]
  note c = candidatesD [OF assms(2)]
  let ?p = "partial_key (hash_fn t k)"
  have scan: "try_read_from_bucket t (eff t i) ?p k = -1 \<and>
        (\<forall>e. Some e \<in> set (eff t i) \<longrightarrow> kv_key e \<noteq> k) \<or>
      (\<exists>j e. try_read_from_bucket t (eff t i) ?p k = int j \<and> at_slot t i j (Some e) \<and> kv_key e = k)"
    if i: "i < 2 ^ hashpower t" "migrated t i" for i
    using try_read_slots_spec [of "eff t i" k ?p "is_simple t" 0] eff_key_partial [OF struct i(1)]
      eff_length [OF struct i(1)] i
    by (auto simp: try_read_from_bucket_def at_slot_def slot_at_def has_key_def)
  from scan [OF c(1,3)] show ?thesis
  proof (elim disjE exE conjE)
    assume 1: "try_read_from_bucket t (eff t (b_i1 b)) ?p k = -1"
      "\<forall>e. Some e \<in> set (eff t (b_i1 b)) \<longrightarrow> kv_key e \<noteq> k"
    from scan [OF c(2,4)] show ?thesis
    proof (elim disjE exE conjE)
      assume 2: "try_read_from_bucket t (eff t (b_i2 b)) ?p k = -1"
        "\<forall>e. Some e \<in> set (eff t (b_i2 b)) \<longrightarrow> kv_key e \<noteq> k"
      have "abs_map t k = None"
        by (rule absent_if_candidates [OF assms]) (use 1 2 in auto)
      with 1 2 c show ?thesis by (simp add: cuckoo_find_def)
    next
      fix j e
      assume "try_read_from_bucket t (eff t (b_i2 b)) ?p k = int j"
        "at_slot t (b_i2 b) j (Some e)" "kv_key e = k"
      with 1 c show ?thesis by (auto simp: cuckoo_find_def)
    qed
  next
    fix j e
    assume "try_read_from_bucket t (eff t (b_i1 b)) ?p k = int j"
      "at_slot t (b_i1 b) j (Some e)" "kv_key e = k"
    with c show ?thesis by (auto simp: cuckoo_find_def)
  qed
qed

section \<open>One attempt to insert\<close>

lemma try_find_insert_bucket_spec:
  assumes "table_struct t" "i < 2 ^ hashpower t" "migrated t i"
    and "try_find_insert_bucket t (eff t i) (partial_key (hash_fn t k)) k = (absent, r)"
  shows "(\<not> absent \<and> (\<exists>e. at_slot t i (nat r) (Some e) \<and> kv_key e = k)) \<or>
    (absent \<and> (\<forall>e. Some e \<in> set (eff t i) \<longrightarrow> kv_key e \<noteq> k) \<and>
     (r = -1 \<or> at_slot t i (nat r) None))"
proof -
  have "\<forall>e. Some e \<in> set (eff t i) \<longrightarrow> kv_key e = k \<longrightarrow> kv_partial e = partial_key (hash_fn t k)"
    using eff_key_partial(1) [OF assms(1,2)] by blast
  note spec = find_insert_slots_spec [OF this assms(4) [unfolded try_find_insert_bucket_def]]
  have pos: "at_slot t i (nat r) (eff t i ! nat r) \<and> P (eff t i ! nat r)"
    if "slot_at P (eff t i) 0 r" for P
    using that eff_length [OF assms(1,2)] assms(2,3) by (auto simp: at_slot_def slot_at_def)
  have absent_key: "kv_key e \<noteq> k" if "\<forall>x\<in>set (eff t i). \<not> has_key k x" "Some e \<in> set (eff t i)" for e
    using that by fastforce
  show ?thesis
  proof (cases absent)
    case True
    with spec have "\<forall>x\<in>set (eff t i). \<not> has_key k x"
      "slot_at (\<lambda>x. x = None) (eff t i) 0 r \<or> r = -1" by blast+
    then have "(\<forall>e. Some e \<in> set (eff t i) \<longrightarrow> kv_key e \<noteq> k) \<and> (r = -1 \<or> at_slot t i (nat r) None)"
      using pos [of "\<lambda>x. x = None"] absent_key by (intro conjI) (blast, metis)
    with True show ?thesis by blast
  next
    case False
    with spec have "slot_at (has_key k) (eff t i) 0 r" by blast
    note at = pos [OF this]
    then obtain e where e: "eff t i ! nat r = Some e" "kv_key e = k"
      unfolding has_key_def by blast
    have "at_slot t i (nat r) (Some e)" using at e(1) by simp
    with False e(2) show ?thesis by blast
  qed
qed

definition insert_answer ::
  "table_mode \<Rightarrow> 'k \<Rightarrow> two_buckets \<Rightarrow> ('k, 'v) cuckoo_map \<Rightarrow> ('k, 'v) cuckoo_map
     \<Rightarrow> table_position \<Rightarrow> bool" where
  "insert_answer mode k b t t' pos \<longleftrightarrow> moved mode t t' \<and>
     ((pos_status pos = Failure_key_duplicated \<and> candidates t' k b \<and>
         (\<exists>e. at_slot t' (pos_index pos) (pos_slot pos) (Some e) \<and> kv_key e = k)) \<or>
      (pos_status pos = Ok \<and> abs_map t k = None \<and> candidates t' k b \<and>
         home (hashpower t) (hash_fn t k) (pos_index pos) \<and>
         at_slot t' (pos_index pos) (pos_slot pos) None) \<or>
      (pos_status pos = Failure_table_full \<and> abs_map t k = None \<and> no_room t (b_i1 b) (b_i2 b)))"

lemma cuckoo_insert_spec:
  assumes r: "ready mode t" and c: "candidates t k b"
  obtains t' pos where
    "cuckoo_insert mode (hashed_key (hash_fn t) k) b k t = (t', Inr pos)"
    "insert_answer mode k b t t' pos"
proof -
  note core = readyD(2) [OF r]
  note struct = table_core_struct [OF core]
  note cd = candidatesD [OF c]
  let ?p = "partial_key (hash_fn t k)"
  have hv: "hv_partial (hashed_key (hash_fn t) k) = ?p" by (simp add: hashed_key_def Let_def)
  obtain ab1 r1 ab2 r2 where
    1: "try_find_insert_bucket t (eff t (b_i1 b)) ?p k = (ab1, r1)" and
    2: "try_find_insert_bucket t (eff t (b_i2 b)) ?p k = (ab2, r2)" by fastforce
  note s1 = try_find_insert_bucket_spec [OF struct cd(1,3) 1]
  note s2 = try_find_insert_bucket_spec [OF struct cd(2,4) 2]
  note m = moved_refl [OF r]
  show thesis
  proof (cases "ab1 \<and> ab2")
    case False
    let ?pos = "if ab1 then \<lparr>pos_index = b_i2 b, pos_slot = nat r2, pos_status = Failure_key_duplicated\<rparr>
      else \<lparr>pos_index = b_i1 b, pos_slot = nat r1, pos_status = Failure_key_duplicated\<rparr>"
    have "cuckoo_insert mode (hashed_key (hash_fn t) k) b k t = (t, Inr ?pos)"
      using False 1 2 cd(6,7) by (simp add: cuckoo_insert_def hv)
    moreover have "insert_answer mode k b t t ?pos"
      using False s1 s2 m c by (auto simp: insert_answer_def)
    ultimately show thesis by (rule that)
  next
    case True
    then have absent: "abs_map t k = None"
      using s1 s2 by (intro absent_if_candidates [OF core c]) auto
    show thesis
    proof (cases "r1 = -1 \<and> r2 = -1")
      case False
      let ?pos = "if r1 \<noteq> -1 then \<lparr>pos_index = b_i1 b, pos_slot = nat r1, pos_status = Ok\<rparr>
        else \<lparr>pos_index = b_i2 b, pos_slot = nat r2, pos_status = Ok\<rparr>"
      have "cuckoo_insert mode (hashed_key (hash_fn t) k) b k t = (t, Inr ?pos)"
        using True False 1 2 cd(6,7) by (simp add: cuckoo_insert_def hv)
      moreover have "insert_answer mode k b t t ?pos"
        using True False s1 s2 m c absent by (auto simp: insert_answer_def cd(5))
      ultimately show thesis by (rule that)
    next
      case none: True
      show thesis
      proof (cases rule: run_cuckoo_spec [OF r cd(1,2), case_names failed freed])
        case (failed t')
        have "cuckoo_insert mode (hashed_key (hash_fn t) k) b k t
            = (t', Inr \<lparr>pos_index = 0, pos_slot = 0, pos_status = Failure_table_full\<rparr>)"
          using True none 1 2 failed(1) cd(6,7) by (simp add: cuckoo_insert_def hv)
        then show thesis
          by (rule that) (use viewed_moved [OF failed(2)] failed(3) absent in
              \<open>simp add: insert_answer_def\<close>)
      next
        case (freed t' i j)
        note c' = candidates_moved [OF c freed(2)]
        note core' = readyD(2) [OF movedD(1) [OF freed(2)]]
        have hf: "hash_fn t' = hash_fn t" by (rule movedD(7) [OF freed(2)])
        have "abs_map t' k = None" using moved_abs_map [OF freed(2) r] absent by simp
        then have "cuckoo_find k ?p (b_i1 b) (b_i2 b) t'
            = \<lparr>pos_index = 0, pos_slot = 0, pos_status = Failure_key_not_found\<rparr>"
          using cuckoo_find_spec [OF core' c'] at_slot_live(2) [OF core'] by (auto simp: hf)
        then have "cuckoo_insert mode (hashed_key (hash_fn t) k) b k t
            = (t', Inr \<lparr>pos_index = i, pos_slot = j, pos_status = Ok\<rparr>)"
          using True none 1 2 freed(1) cd(6,7) by (simp add: cuckoo_insert_def hv)
        moreover have "at_slot t' i j None"
          using freed(3-7) candidatesD(1,2) [OF c'] by (auto simp: at_slot_def)
        ultimately show thesis
          using that [of t' "\<lparr>pos_index = i, pos_slot = j, pos_status = Ok\<rparr>"]
            freed(2,3) c' absent by (simp add: insert_answer_def cd(5))
      qed
    qed
  qed
qed

end
