(* ===== verification/Cuckoo_Resize.thy ===== *)
theory Cuckoo_Resize
  imports Cuckoo_Place
begin

text \<open>
  Growing the table: \<open>check_resize_validity\<close>, \<open>maybe_resize_locks\<close>, the work split of
  \<open>parallel_exec\<close>, \<open>rehash_with_workers\<close> and \<open>cuckoo_fast_double\<close>, for a key and a value
  type that move without throwing.  Small tables are split at once, large ones only mark
  every lock as not migrated; the lemmas show that both leave the same view, so that
  doubling keeps every entry, the size and the invariant.  An allocation failure is the
  one exception after which the table is not the one before: the containers have been
  swapped by then.
\<close>

section \<open>Splitting work\<close>

definition work_ranges :: "nat \<Rightarrow> nat \<Rightarrow> nat \<Rightarrow> (nat \<times> nat) list" where
  "work_ranges num_extra_threads start stop =
     (let num_workers = 1 + num_extra_threads;
          work_per_thread = (stop - start) div num_workers
      in map (\<lambda>i. (start + i * work_per_thread, start + (i + 1) * work_per_thread))
           [0..<num_extra_threads]
         @ [(start + num_extra_threads * work_per_thread, stop)])"

definition parallel_exec_noexcept ::
  "nat \<Rightarrow> nat \<Rightarrow> nat \<Rightarrow> (nat \<Rightarrow> nat \<Rightarrow> 's \<Rightarrow> 's) \<Rightarrow> 's \<Rightarrow> 's" where
  "parallel_exec_noexcept num_extra_threads start stop func s =
     fold (\<lambda>(a, b). func a b) (work_ranges num_extra_threads start stop) s"

lemma upt_append: "a \<le> b \<Longrightarrow> b \<le> c \<Longrightarrow> [a..<b] @ [b..<c] = [a..<c]"
  by (metis le_Suc_ex upt_add_eq_append)

lemma concat_equal_ranges:
  "concat (map (\<lambda>i. [start + i * w..<start + (i + 1) * w]) [0..<n]) = [start..<start + n * w]"
proof (induction n)
  case 0
  then show ?case by simp
next
  case (Suc n)
  then show ?case using upt_append [of start "start + n * w" "start + Suc n * w"] by simp
qed

lemma work_ranges_cover:
  assumes "start \<le> stop"
  shows "concat (map (\<lambda>(a, b). [a..<b]) (work_ranges n start stop)) = [start..<stop]"
proof -
  let ?w = "(stop - start) div (1 + n)"
  have "n * ?w \<le> (1 + n) * ?w" by simp
  also have "\<dots> \<le> stop - start" by (rule times_div_less_eq_dividend)
  finally have "start + n * ?w \<le> stop" using assms by simp
  then show ?thesis
    unfolding work_ranges_def Let_def map_append concat_append
    using concat_equal_ranges [of start ?w n] upt_append [of start "start + n * ?w" stop]
    by (simp add: comp_def)
qed

lemma fold_fold_ranges:
  "fold (\<lambda>(a, b). fold f [a..<b]) rs s = fold f (concat (map (\<lambda>(a, b). [a..<b]) rs)) s"
  by (induction rs arbitrary: s) auto

lemma parallel_exec_noexcept_fold:
  "start \<le> stop \<Longrightarrow> parallel_exec_noexcept n start stop (\<lambda>a b. fold f [a..<b]) s
     = fold f [start..<stop] s"
  by (simp add: parallel_exec_noexcept_def fold_fold_ranges work_ranges_cover)

section \<open>The operations\<close>

definition check_resize_validity ::
  "bool \<Rightarrow> nat \<Rightarrow> nat \<Rightarrow> ('k, 'v) cuckoo_map \<Rightarrow> ('k, 'v) cuckoo_map \<times> (cuckoo_exn + cuckoo_status)"
  where
  "check_resize_validity auto_resize orig_hp new_hp t =
     (let mhp = maximum_hashpower t
      in if mhp \<noteq> LIBCUCKOO_NO_MAXIMUM_HASHPOWER \<and> new_hp > mhp
         then (t, Inl (Maximum_hashpower_exceeded new_hp))
         else if auto_resize \<and> load_factor t < minimum_load_factor t
         then (t, Inl (Load_factor_too_low (minimum_load_factor t)))
         else if hashpower t \<noteq> orig_hp then (t, Inr Failure_under_expansion)
         else (t, Inr Ok))"

definition maybe_resize_locks :: "nat \<Rightarrow> ('k, 'v) cuckoo_map \<Rightarrow> ('k, 'v) cuckoo_map" where
  "maybe_resize_locks new_bucket_count t =
     (let current_locks = locks t
      in if \<not> (length current_locks < kMaxNumLocks \<and> length current_locks < new_bucket_count)
         then t
         else let new_locks = replicate (min kMaxNumLocks new_bucket_count) new_spinlock
              in t\<lparr>locks := current_locks @ drop (length current_locks) new_locks\<rparr>)"

definition rehash_with_workers :: "('k, 'v) cuckoo_map \<Rightarrow> ('k, 'v) cuckoo_map" where
  "rehash_with_workers t =
     set_num_remaining_lazy_rehash_locks 0
       (parallel_exec_noexcept (max_num_worker_threads t) 0 (length (locks t))
          (\<lambda>start stop. fold (rehash_lock False) [start..<stop]) t)"

definition cuckoo_fast_double ::
  "table_mode \<Rightarrow> bool \<Rightarrow> nat \<Rightarrow> ('k, 'v) cuckoo_map
     \<Rightarrow> ('k, 'v) cuckoo_map \<times> (cuckoo_exn + cuckoo_status)" where
  "cuckoo_fast_double mode auto_resize current_hp t =
     (let new_hp = current_hp + 1
      in and_then (check_resize_validity auto_resize current_hp new_hp t)
        (\<lambda>st t. if st \<noteq> Ok then (t, Inr st)
           else let
             t = fold (rehash_lock False) [0..<length (locks t)] t;
             t = set_num_remaining_lazy_rehash_locks 0 t;
             t = maybe_resize_locks (2 ^ new_hp) t;
             t = t\<lparr>old_buckets := buckets t, buckets := old_buckets t\<rparr>
           in if alloc_limit t < new_hp then (t, Inl Bad_alloc)
           else let t = t\<lparr>buckets := mk_container new_hp\<rparr>
           in if cont_size (old_buckets t) < kMaxNumLocks
              then let t = t\<lparr>buckets := fold (move_bucket (hash_fn t) (old_buckets t))
                               [0..<cont_size (old_buckets t)] (buckets t)\<rparr>
                   in (set_num_remaining_lazy_rehash_locks 0 t, Inr Ok)
              else let
                t = t\<lparr>locks := map (\<lambda>lk. lk\<lparr>is_migrated := False\<rparr>) (locks t)\<rparr>;
                t = set_num_remaining_lazy_rehash_locks (length (locks t)) t
              in if mode = Locked_table_mode then (rehash_with_workers t, Inr Ok)
                 else (t, Inr Ok)))"

section \<open>Migrating everything\<close>

lemma rehash_fold_spec:
  assumes "table_core t" "n \<le> length (locks t)"
  shows "table_core (fold (rehash_lock False) [0..<n] t) \<and>
    same_view t (fold (rehash_lock False) [0..<n] t) \<and>
    (\<forall>l<n. is_migrated (locks (fold (rehash_lock False) [0..<n] t) ! l))"
  using assms(2)
proof (induction n)
  case 0
  then show ?case using assms(1) by simp
next
  case (Suc n)
  let ?u = "fold (rehash_lock False) [0..<n] t"
  have IH: "table_core ?u" "same_view t ?u" "\<forall>l<n. is_migrated (locks ?u ! l)"
    using Suc by auto
  have n: "n < length (locks ?u)" using Suc.prems same_viewD(9) [OF IH(2)] by simp
  have "table_core (rehash_lock False n ?u)"
    by (rule rehash_lock_core [OF IH(1) _ n]) simp
  moreover have "same_view t (rehash_lock False n ?u)"
    by (rule same_view_trans [OF IH(2)]) (rule rehash_lock_view_core [OF IH(1) _ n], simp)
  moreover have "is_migrated (locks (rehash_lock False n ?u) ! l)" if "l < Suc n" for l
    using that IH(3) n by (cases "l = n") (simp_all add: rehash_lock_locks)
  ultimately show ?case by simp
qed

definition all_migrated :: "('k, 'v) cuckoo_map \<Rightarrow> bool" where
  "all_migrated t \<longleftrightarrow> (\<forall>lk\<in>set (locks t). is_migrated lk)"

lemma all_migratedI: "(\<And>l. l < length (locks t) \<Longrightarrow> is_migrated (locks t ! l)) \<Longrightarrow> all_migrated t"
  by (auto simp: all_migrated_def in_set_conv_nth)

lemma all_migrated_eff:
  assumes "all_migrated t" "table_core t" "i < 2 ^ hashpower t"
  shows "eff t i = arr t ! i" "migrated t i"
  using assms lock_ind_less_locks [OF table_coreD(4) [OF assms(2)] assms(3)]
  by (auto simp: all_migrated_def eff_def migrated_def)

lemma all_migrated_unmigrated: "all_migrated t \<Longrightarrow> unmigrated t = 0"
  by (simp add: all_migrated_def unmigrated_def filter_empty_conv)

lemma all_migrated_ready:
  assumes "all_migrated t" "table_core t" "num_remaining t = 0"
  shows "ready mode t"
  using assms by (simp add: ready_def table_ok_def mode_ok_def all_migrated_unmigrated)
    (simp add: all_migrated_def)

lemma set_num_remaining_frame [simp]:
  "hash_fn (set_num_remaining_lazy_rehash_locks n t) = hash_fn t"
  "buckets (set_num_remaining_lazy_rehash_locks n t) = buckets t"
  "old_buckets (set_num_remaining_lazy_rehash_locks n t) = old_buckets t"
  "locks (set_num_remaining_lazy_rehash_locks n t) = locks t"
  "num_remaining (set_num_remaining_lazy_rehash_locks n t) = n"
  "alloc_limit (set_num_remaining_lazy_rehash_locks n t) = alloc_limit t"
  "hashpower (set_num_remaining_lazy_rehash_locks n t) = hashpower t"
  "is_simple (set_num_remaining_lazy_rehash_locks n t) = is_simple t"
  "minimum_load_factor (set_num_remaining_lazy_rehash_locks n t) = minimum_load_factor t"
  "maximum_hashpower (set_num_remaining_lazy_rehash_locks n t) = maximum_hashpower t"
  "max_num_worker_threads (set_num_remaining_lazy_rehash_locks n t) = max_num_worker_threads t"
  by (simp_all add: set_num_remaining_lazy_rehash_locks_def hashpower_def)

lemma set_num_remaining_view [simp]:
  "eff (set_num_remaining_lazy_rehash_locks n t) i = eff t i"
  "migrated (set_num_remaining_lazy_rehash_locks n t) i = migrated t i"
  "live (set_num_remaining_lazy_rehash_locks n t) = live t"
  "table_core (set_num_remaining_lazy_rehash_locks n t) = table_core t"
  "all_migrated (set_num_remaining_lazy_rehash_locks n t) = all_migrated t"
  "cuckoo_size (set_num_remaining_lazy_rehash_locks n t) = cuckoo_size t"
proof -
  show m: "migrated (set_num_remaining_lazy_rehash_locks n t) i = migrated t i" for i
    by (simp add: migrated_def)
  show e: "eff (set_num_remaining_lazy_rehash_locks n t) i = eff t i" for i
    by (simp add: eff_def m pending_def Let_def)
  show l: "live (set_num_remaining_lazy_rehash_locks n t) = live t"
    by (simp add: live_def e)
  have "lazy_ok (set_num_remaining_lazy_rehash_locks n t) l = lazy_ok t l" for l
    by (simp add: lazy_ok_def)
  then show "table_core (set_num_remaining_lazy_rehash_locks n t) = table_core t"
    by (simp add: table_core_def table_struct_def l locks_ok_def)
qed (simp_all add: all_migrated_def cuckoo_size_def)

lemma rehash_with_workers_spec:
  assumes "table_core t"
  shows "ready mode (rehash_with_workers t)" "all_migrated (rehash_with_workers t)"
    "same_view t (rehash_with_workers t)"
proof -
  let ?u = "fold (rehash_lock False) [0..<length (locks t)] t"
  have eq: "rehash_with_workers t = set_num_remaining_lazy_rehash_locks 0 ?u"
    by (simp add: rehash_with_workers_def parallel_exec_noexcept_fold)
  note f = rehash_fold_spec [OF assms order_refl]
  then have mig: "all_migrated ?u"
    using same_viewD(9) [of t ?u] by (intro all_migratedI) simp
  show "ready mode (rehash_with_workers t)" "all_migrated (rehash_with_workers t)"
    unfolding eq using f mig by (simp_all add: all_migrated_ready)
  show "same_view t (rehash_with_workers t)"
    unfolding eq using f by (simp add: same_view_def)
qed

section \<open>Doubling\<close>

lemma sum_lessThan_add:
  fixes f :: "nat \<Rightarrow> 'a::comm_monoid_add"
  shows "sum f {..<n + m} = sum f {..<n} + (\<Sum>j<m. f (n + j))"
  by (induction m) (simp_all add: add.assoc)

text \<open>
  \<open>split_of t u\<close>: the containers of \<open>u\<close> are the current one of \<open>t\<close> as the old one
  and one of twice its size as the current one, which every reader will find filled with
  the halves of the old buckets.
\<close>

definition split_of :: "('k, 'v) cuckoo_map \<Rightarrow> ('k, 'v) cuckoo_map \<Rightarrow> bool" where
  "split_of t u \<longleftrightarrow> hash_fn u = hash_fn t \<and> old_buckets u = buckets t \<and>
     hashpower u = Suc (hashpower t) \<and>
     (\<forall>i<2 ^ Suc (hashpower t). eff u i = pending u i)"

lemma split_of_live:
  assumes "split_of t u" "table_core t" "all_migrated t"
  shows "mset (live u) = mset (live t)"
proof -
  let ?N = "2 ^ hashpower t" and ?c = "\<lambda>b. mset (contents b)"
  let ?P = "\<lambda>j. moves_up (hash_fn t) (hashpower t) (Suc (hashpower t)) j"
  have u: "hash_fn u = hash_fn t" "old_arr u = arr t" "old_hp u = hashpower t"
    "hashpower u = Suc (hashpower t)"
    using assms(1) by (simp_all add: split_of_def hashpower_def)
  have lo: "eff u j = lo_part (?P j) (arr t ! j)" if "j < ?N" for j
    using assms(1) that u by (simp add: split_of_def pending_def Let_def)
  have hi: "eff u (?N + j) = hi_part (?P j) (arr t ! j)" if "j < ?N" for j
    using assms(1) that u by (simp add: split_of_def pending_def Let_def)
  have "mset (live u) = (\<Sum>i<?N + ?N. ?c (eff u i))"
    unfolding mset_live u(4) by (simp add: mult_2)
  also have "\<dots> = (\<Sum>j<?N. ?c (eff u j)) + (\<Sum>j<?N. ?c (eff u (?N + j)))"
    by (rule sum_lessThan_add)
  also have "\<dots> = (\<Sum>j<?N. ?c (lo_part (?P j) (arr t ! j)) + ?c (hi_part (?P j) (arr t ! j)))"
    by (simp add: lo hi sum.distrib)
  also have "\<dots> = (\<Sum>j<?N. ?c (eff t j))"
    by (simp add: mset_parts all_migrated_eff [OF assms(3,2)])
  also have "\<dots> = mset (live t)" by (simp add: mset_live)
  finally show ?thesis .
qed

lemma split_of_pending_ok:
  assumes "split_of t u" "table_core t" "i < 2 ^ hashpower u"
  shows "placed (hash_fn u) (hashpower u) i (pending u i)"
    "length (pending u i) = slot_per_bucket"
proof -
  have u: "hash_fn u = hash_fn t" "old_arr u = arr t" "old_hp u = hashpower t"
    "hashpower u = Suc (hashpower t)" "old_buckets u = buckets t"
    using assms(1) by (simp_all add: split_of_def hashpower_def)
  have "placed (hash_fn u) (old_hp u) (i mod 2 ^ old_hp u) (old_arr u ! (i mod 2 ^ old_hp u))"
    using table_coreD(6) [OF assms(2)] u by simp
  from pending_ok [OF _ assms(3) this] u table_coreD(1) [OF assms(2)]
  show "placed (hash_fn u) (hashpower u) i (pending u i)"
    "length (pending u i) = slot_per_bucket" by simp_all
qed

lemma split_of_core:
  assumes "split_of t u" "table_core t" "all_migrated t"
    and "table_struct u" "map elem_counter (locks u) = map elem_counter (locks t) @ replicate m 0"
  shows "table_core u"
proof -
  note m = split_of_live [OF assms(1-3)]
  have "distinct (map kv_key (live u))"
    by (rule distinct_keys_mset [OF m [symmetric] table_coreD(7) [OF assms(2)]])
  moreover have "length (live u) = length (live t)" using m by (metis size_mset)
  ultimately show ?thesis
    using assms(4,5) table_coreD(8) [OF assms(2)]
    by (simp add: table_core_def sum_list_replicate)
qed

text \<open>The eager split of a small table.\<close>

lemma move_fold_arr:
  fixes hf :: "'k \<Rightarrow> u64" and c old :: "('k, 'v) container"
  assumes "length (cont_buckets c) = 2 ^ Suc (cont_hashpower old)"
    "cont_hashpower c = Suc (cont_hashpower old)"
    "\<And>j. j < 2 ^ cont_hashpower old \<Longrightarrow> length (cont_buckets old ! j) = slot_per_bucket"
    "\<And>i. i < 2 ^ Suc (cont_hashpower old) \<Longrightarrow> cont_buckets c ! i = empty_bucket"
    "n \<le> 2 ^ cont_hashpower old" "i < 2 ^ Suc (cont_hashpower old)"
  defines "o1 \<equiv> cont_hashpower old"
  defines "P \<equiv> \<lambda>j. moves_up hf o1 (Suc o1) j"
  defines "v \<equiv> \<lambda>i. let j = i mod 2 ^ o1 in
      if i < 2 ^ o1 then lo_part (P j) (cont_buckets old ! j) else hi_part (P j) (cont_buckets old ! j)"
  shows "cont_hashpower (fold (move_bucket hf old) [0..<n] c) = Suc o1 \<and>
    length (cont_buckets (fold (move_bucket hf old) [0..<n] c)) = 2 ^ Suc o1 \<and>
    cont_buckets (fold (move_bucket hf old) [0..<n] c) ! i
      = (if i mod 2 ^ o1 < n then v i else empty_bucket)"
  using assms(5,6)
proof (induction n arbitrary: i)
  case 0
  then show ?case using assms(1,2,4) by (simp add: o1_def)
next
  case (Suc n)
  let ?f = "fold (move_bucket hf old) [0..<n] c" and ?N = "2 ^ o1 :: nat"
  have n: "n < ?N" using Suc.prems(1) by (simp add: o1_def)
  have IH: "cont_hashpower ?f = Suc o1" "length (cont_buckets ?f) = 2 ^ Suc o1"
    "i' < 2 ^ Suc o1 \<Longrightarrow> cont_buckets ?f ! i' = (if i' mod ?N < n then v i' else empty_bucket)" for i'
    using Suc.IH Suc.prems by (simp_all add: o1_def)
  have split: "cont_buckets (move_bucket hf old n ?f) ! n = lo_part (P n) (cont_buckets old ! n)"
    "cont_buckets (move_bucket hf old n ?f) ! (n + ?N) = hi_part (P n) (cont_buckets old ! n)"
    using move_bucket_split [of n old ?f hf] IH(1,2) IH(3) [of n] IH(3) [of "n + ?N"] n assms(3) [of n]
    by (simp_all add: o1_def P_def)
  have cases_i: "i = i mod ?N \<or> i = i mod ?N + ?N"
    by (rule mod_double_cases) (use Suc.prems(2) in \<open>simp add: o1_def\<close>)
  have frame: "cont_buckets (move_bucket hf old n ?f) ! i = cont_buckets ?f ! i" if "i mod ?N \<noteq> n"
    by (rule move_bucket_frame(3)) (use that n in \<open>auto simp: o1_def\<close>)
  have "cont_buckets (move_bucket hf old n ?f) ! i = (if i mod ?N < Suc n then v i else empty_bucket)"
  proof (cases "i mod ?N = n")
    case True
    with cases_i split n show ?thesis by (auto simp: v_def Let_def)
  next
    case False
    with frame IH(3) [of i] Suc.prems(2) show ?thesis by (auto simp: o1_def)
  qed
  then show ?case using IH(1,2) by simp
qed

lemma maybe_resize_locks_spec:
  obtains m where "maybe_resize_locks n t = t\<lparr>locks := locks t @ replicate m new_spinlock\<rparr>"
    "length (locks t) \<le> kMaxNumLocks \<Longrightarrow> length (locks t) + m \<le> kMaxNumLocks"
    "min kMaxNumLocks n \<le> length (locks t) + m"
proof (cases "length (locks t) < kMaxNumLocks \<and> length (locks t) < n")
  case True
  have "maybe_resize_locks n t
      = t\<lparr>locks := locks t @ replicate (min kMaxNumLocks n - length (locks t)) new_spinlock\<rparr>"
    using True by (simp add: maybe_resize_locks_def Let_def)
  then show thesis by (rule that) (use True in auto)
next
  case False
  then have "maybe_resize_locks n t = t\<lparr>locks := locks t @ replicate 0 new_spinlock\<rparr>"
    by (simp add: maybe_resize_locks_def)
  then show thesis by (rule that) (use False in auto)
qed

lemma shaped_mk_container: "shaped (mk_container hp)"
  by (simp add: shaped_def mk_container_def)

lemma mk_container_nth: "i < 2 ^ hp \<Longrightarrow> cont_buckets (mk_container hp) ! i = empty_bucket"
  by (simp add: mk_container_def)

lemma placed_empty_bucket [simp]: "placed hf hp i empty_bucket"
  by (simp add: placed_def)

lemma set_migrated_False_counters [simp]:
  "map elem_counter (map (\<lambda>lk. lk\<lparr>is_migrated := False\<rparr>) ls) = map elem_counter ls"
  by (induction ls) simp_all

text \<open>The small table after the split: every lock is migrated and the buckets are filled.\<close>

lemma small_split:
  assumes "table_core t" "all_migrated t" "Suc (hashpower t) \<le> alloc_limit t"
    and m: "length (locks t) + m \<le> kMaxNumLocks"
      "min kMaxNumLocks (2 ^ Suc (hashpower t)) \<le> length (locks t) + m"
  defines "u \<equiv> t\<lparr>locks := locks t @ replicate m new_spinlock, old_buckets := buckets t,
     buckets := fold (move_bucket (hash_fn t) (buckets t)) [0..<2 ^ hashpower t]
       (mk_container (Suc (hashpower t)))\<rparr>"
  shows "table_core u" "all_migrated u" "mset (live u) = mset (live t)"
    "hashpower u = Suc (hashpower t)"
proof -
  let ?n = "hashpower t"
  have len: "length (arr t ! j) = slot_per_bucket" if "j < 2 ^ ?n" for j
    by (rule arr_bucket_length [OF table_core_struct [OF assms(1)] that])
  have fill: "cont_hashpower (buckets u) = Suc ?n \<and> length (arr u) = 2 ^ Suc ?n \<and>
      arr u ! i = pending u i" if "i < 2 ^ Suc ?n" for i
  proof -
    have "i mod 2 ^ ?n < 2 ^ ?n" by simp
    then show ?thesis
      using move_fold_arr [of "mk_container (Suc ?n)" "buckets t" "2 ^ ?n" i "hash_fn t"] that len
      by (simp add: u_def hashpower_def pending_def Let_def mk_container_nth)
        (simp add: mk_container_def)
  qed
  from fill [of 0] have hp: "hashpower u = Suc ?n" by (simp add: hashpower_def)
  have new: "is_migrated new_spinlock" "elem_counter new_spinlock = 0"
    by (simp_all add: new_spinlock_def)
  show mig: "all_migrated u" using assms(2) new by (auto simp: u_def all_migrated_def)
  have locks_u: "locks_ok u" using m hp by (simp add: u_def locks_ok_def)
  have li: "lock_ind i < length (locks u)" if "i < 2 ^ Suc ?n" for i
    by (rule lock_ind_less_locks [OF locks_u]) (use that hp in simp)
  have eff: "eff u i = pending u i" if "i < 2 ^ Suc ?n" for i
    using fill [OF that] by (simp add: eff_def)
  have split: "split_of t u"
    unfolding split_of_def using hp eff by (simp add: u_def)
  have struct: "table_struct u" unfolding table_struct_def
  proof (intro conjI)
    show "shaped (buckets u)"
      by (rule shapedI) (use fill [of 0] fill split_of_pending_ok(2) [OF split assms(1)] hp in auto)
    show "\<forall>i<2 ^ hashpower u. placed (hash_fn u) (hashpower u) i (arr u ! i)"
      using fill split_of_pending_ok(1) [OF split assms(1)] hp by auto
    show "\<forall>l<length (locks u). lazy_ok u l"
      using mig by (simp add: lazy_ok_def all_migrated_def)
  qed (use assms(3) table_coreD(3) [OF assms(1)] hp locks_u in \<open>simp_all add: u_def\<close>)
  show "table_core u"
    by (rule split_of_core [OF split assms(1,2) struct, of m]) (simp add: u_def new)
  show "mset (live u) = mset (live t)" by (rule split_of_live [OF split assms(1,2)])
  show "hashpower u = Suc ?n" by (rule hp)
qed

text \<open>The large table: nothing is moved, every lock owes its migration.\<close>

lemma lazy_split:
  assumes "table_core t" "all_migrated t" "Suc (hashpower t) \<le> alloc_limit t"
    and big: "kMaxNumLocks \<le> 2 ^ hashpower t"
  defines "u \<equiv> t\<lparr>old_buckets := buckets t, buckets := mk_container (Suc (hashpower t)),
     locks := map (\<lambda>lk. lk\<lparr>is_migrated := False\<rparr>) (locks t),
     num_remaining := length (locks t)\<rparr>"
  shows "table_ok u" "mset (live u) = mset (live t)" "hashpower u = Suc (hashpower t)"
    "length (locks t) = kMaxNumLocks"
proof -
  let ?n = "hashpower t"
  have hp: "hashpower u = Suc ?n" by (simp add: u_def hashpower_def mk_container_def)
  show len: "length (locks t) = kMaxNumLocks"
    using table_coreD(4) [OF assms(1)] big by (simp add: locks_ok_def)
  have n16: "16 \<le> ?n"
    using big unfolding kMaxNumLocks_def by (simp only: power_increasing_iff)
  have locks_u: "locks_ok u" using len by (simp add: locks_ok_def u_def)
  have not_mig: "\<not> migrated u i" if "i < 2 ^ Suc ?n" for i
    using lock_ind_less_locks [OF locks_u, of i] that hp by (simp add: migrated_def u_def)
  have split: "split_of t u"
    unfolding split_of_def using hp not_mig by (simp add: u_def eff_def)
  have struct: "table_struct u" unfolding table_struct_def
  proof (intro conjI)
    show "shaped (buckets u)" by (simp add: u_def shaped_mk_container)
    show "\<forall>i<2 ^ hashpower u. placed (hash_fn u) (hashpower u) i (arr u ! i)"
      using hp by (simp add: u_def mk_container_nth)
    show "\<forall>l<length (locks u). lazy_ok u l"
    proof (intro allI impI)
      fix l assume "l < length (locks u)"
      have "placed (hash_fn t) ?n i (arr t ! i)" if "i < 2 ^ ?n" for i
        by (rule table_coreD(6) [OF assms(1) that])
      then show "lazy_ok u l"
        unfolding lazy_ok_def using len hp n16 table_coreD(1) [OF assms(1)]
        by (simp add: u_def mk_container_nth hashpower_def)
    qed
  qed (use assms(3) table_coreD(3) [OF assms(1)] hp locks_u in \<open>simp_all add: u_def\<close>)
  have "table_core u"
    by (rule split_of_core [OF split assms(1,2) struct, of 0]) (simp add: u_def)
  moreover have "unmigrated u = length (locks t)"
    by (simp add: unmigrated_def u_def filter_map comp_def)
  ultimately show "table_ok u" by (simp add: table_ok_def u_def)
  show "mset (live u) = mset (live t)" by (rule split_of_live [OF split assms(1,2)])
  show "hashpower u = Suc ?n" by (rule hp)
qed

lemma check_resize_validity_cases:
  obtains (exceeded) "maximum_hashpower t < new_hp"
      "check_resize_validity auto_resize hp new_hp t = (t, Inl (Maximum_hashpower_exceeded new_hp))"
  | (low) "auto_resize" "load_factor t < minimum_load_factor t"
      "check_resize_validity auto_resize hp new_hp t
        = (t, Inl (Load_factor_too_low (minimum_load_factor t)))"
  | (changed) "hashpower t \<noteq> hp"
      "check_resize_validity auto_resize hp new_hp t = (t, Inr Failure_under_expansion)"
  | (valid) "hashpower t = hp" "check_resize_validity auto_resize hp new_hp t = (t, Inr Ok)"
      "\<not> (auto_resize \<and> load_factor t < minimum_load_factor t)"
  using that unfolding check_resize_validity_def Let_def by argo

definition grown :: "table_mode \<Rightarrow> ('k, 'v) cuckoo_map \<Rightarrow> ('k, 'v) cuckoo_map \<Rightarrow> bool" where
  "grown mode t u \<longleftrightarrow> ready mode u \<and> same_params t u \<and> mset (live u) = mset (live t) \<and>
     hashpower t \<le> hashpower u"

lemma grownD:
  assumes "grown mode t u"
  shows "ready mode u" "same_params t u" "mset (live u) = mset (live t)" "hash_fn u = hash_fn t"
    "hashpower t \<le> hashpower u"
  using assms by (simp_all add: grown_def same_params_def)

lemma grown_trans: "grown mode t u \<Longrightarrow> grown mode u w \<Longrightarrow> grown mode t w"
  by (auto simp: grown_def intro: same_params_trans)

lemma moved_grown: "moved mode t u \<Longrightarrow> grown mode t u"
  by (simp add: moved_def grown_def)

lemma grown_refl: "ready mode t \<Longrightarrow> grown mode t t"
  by (simp add: grown_def)

lemma grown_abs_map: "grown mode t u \<Longrightarrow> ready mode t \<Longrightarrow> abs_map u = abs_map t"
  by (rule abs_map_mset_cong) (auto dest: grownD(3) intro: table_coreD(7) [OF readyD(2)])

lemma table_core_cong_num:
  "table_core (t\<lparr>num_remaining := n\<rparr>) = table_core t"
  using set_num_remaining_view(4) [of n t] by (simp add: set_num_remaining_lazy_rehash_locks_def)

text \<open>What doubling starts from: every bucket is where it belongs.\<close>

abbreviation all_moved :: "('k, 'v) cuckoo_map \<Rightarrow> ('k, 'v) cuckoo_map" where
  "all_moved t \<equiv> set_num_remaining_lazy_rehash_locks 0 (fold (rehash_lock False) [0..<length (locks t)] t)"

lemma all_moved_spec:
  assumes "table_core t"
  shows "same_view t (all_moved t)" "table_core (all_moved t)" "all_migrated (all_moved t)"
    "hashpower (all_moved t) = hashpower t" "num_remaining (all_moved t) = 0"
    "alloc_limit (all_moved t) = alloc_limit t"
proof -
  note fold_t = rehash_fold_spec [OF assms order_refl]
  show view: "same_view t (all_moved t)" using fold_t by (simp add: same_view_def)
  show "table_core (all_moved t)" "all_migrated (all_moved t)" "hashpower (all_moved t) = hashpower t"
    "num_remaining (all_moved t) = 0" "alloc_limit (all_moved t) = alloc_limit t"
    using fold_t same_viewD(3,4,9) [OF view] by (auto intro!: all_migratedI)
qed

text \<open>The two ways of splitting the buckets, from a table \<open>b\<close> without pending migrations.\<close>

lemma small_split_grown:
  assumes view: "same_view t b" and b: "table_core b" "all_migrated b" "num_remaining b = 0"
    and alloc: "Suc (hashpower b) \<le> alloc_limit b"
    and m: "length (locks b) + m \<le> kMaxNumLocks" "min kMaxNumLocks (2 ^ Suc (hashpower b)) \<le> length (locks b) + m"
  defines "u \<equiv> b\<lparr>locks := locks b @ replicate m new_spinlock, old_buckets := buckets b,
     buckets := fold (move_bucket (hash_fn b) (buckets b)) [0..<2 ^ hashpower b]
       (mk_container (Suc (hashpower b)))\<rparr>"
  shows "grown mode t u" "hashpower u = Suc (hashpower t)"
proof -
  note u = small_split [OF b(1,2) alloc m, folded u_def]
  show hp: "hashpower u = Suc (hashpower t)" using u(4) same_viewD(3) [OF view] by simp
  show "grown mode t u"
    unfolding grown_def
    using all_migrated_ready [OF u(2,1)] u(3) hp b(3) same_viewD(5) [OF view] same_view_params [OF view]
    by (simp add: same_params_def) (simp add: u_def)
qed

lemma lazy_split_grown:
  assumes view: "same_view t b" and b: "table_core b" "all_migrated b"
    and alloc: "Suc (hashpower b) \<le> alloc_limit b" and big: "kMaxNumLocks \<le> 2 ^ hashpower b"
  defines "u \<equiv> b\<lparr>old_buckets := buckets b, buckets := mk_container (Suc (hashpower b)),
     locks := map (\<lambda>lk. lk\<lparr>is_migrated := False\<rparr>) (locks b), num_remaining := length (locks b)\<rparr>"
  shows "grown mode t (if mode = Locked_table_mode then rehash_with_workers u else u)"
    "hashpower (if mode = Locked_table_mode then rehash_with_workers u else u) = Suc (hashpower t)"
proof -
  note u = lazy_split [OF b alloc big, folded u_def]
  have params: "same_params t u" using same_view_params [OF view] by (simp add: same_params_def u_def)
  note w = rehash_with_workers_spec [OF table_ok_core [OF u(1)]]
  have "same_params t (rehash_with_workers u)"
    by (rule same_params_trans [OF params same_view_params [OF w(3)]])
  then show "grown mode t (if mode = Locked_table_mode then rehash_with_workers u else u)"
    using w(1) same_viewD(3,5) [OF w(3)] u(1-3) same_viewD(3,5) [OF view] params
    by (cases mode) (simp_all add: grown_def ready_def [of Normal_mode] mode_ok_def)
  show "hashpower (if mode = Locked_table_mode then rehash_with_workers u else u) = Suc (hashpower t)"
    using same_viewD(3) [OF w(3)] u(3) same_viewD(3) [OF view] by simp
qed

lemma cuckoo_fast_double_spec:
  assumes r: "ready mode t"
  obtains (grew) u where "cuckoo_fast_double mode auto_resize (hashpower t) t = (u, Inr Ok)"
      "grown mode t u" "hashpower u = Suc (hashpower t)"
      "\<not> (auto_resize \<and> load_factor t < minimum_load_factor t)"
  | (max_hp) "maximum_hashpower t < Suc (hashpower t)"
      "cuckoo_fast_double mode auto_resize (hashpower t) t
        = (t, Inl (Maximum_hashpower_exceeded (Suc (hashpower t))))"
  | (low_load) "auto_resize" "load_factor t < minimum_load_factor t"
      "cuckoo_fast_double mode auto_resize (hashpower t) t
        = (t, Inl (Load_factor_too_low (minimum_load_factor t)))"
  | (nomem) u where "cuckoo_fast_double mode auto_resize (hashpower t) t = (u, Inl Bad_alloc)"
      "alloc_limit t = hashpower t"
proof (cases rule: check_resize_validity_cases [of t "hashpower t + 1" auto_resize "hashpower t"])
  case valid
  let ?n = "hashpower t" and ?b = "all_moved t"
  note b = all_moved_spec [OF readyD(2) [OF r]]
  obtain m where m: "maybe_resize_locks (2 ^ (?n + 1)) ?b
      = ?b\<lparr>locks := locks ?b @ replicate m new_spinlock\<rparr>"
    "length (locks ?b) \<le> kMaxNumLocks \<Longrightarrow> length (locks ?b) + m \<le> kMaxNumLocks"
    "min kMaxNumLocks (2 ^ (?n + 1)) \<le> length (locks ?b) + m"
    by (rule maybe_resize_locks_spec [of "2 ^ (?n + 1)" ?b]) (rule that)
  have lim: "length (locks ?b) \<le> kMaxNumLocks" using table_coreD(4) [OF b(2)] by (simp add: locks_ok_def)
  let ?c = "?b\<lparr>locks := locks ?b @ replicate m new_spinlock, old_buckets := buckets ?b,
     buckets := old_buckets ?b\<rparr>"
  let ?d = "?c\<lparr>buckets := mk_container (?n + 1)\<rparr>"
  have eq: "cuckoo_fast_double mode auto_resize ?n t =
     (if alloc_limit t < ?n + 1 then (?c, Inl Bad_alloc)
      else if cont_size (buckets ?b) < kMaxNumLocks
        then (set_num_remaining_lazy_rehash_locks 0
          (?d\<lparr>buckets := fold (move_bucket (hash_fn t) (buckets ?b))
             [0..<cont_size (buckets ?b)] (mk_container (?n + 1))\<rparr>), Inr Ok)
      else let e = ?d\<lparr>locks := map (\<lambda>lk. lk\<lparr>is_migrated := False\<rparr>) (locks ?d),
          num_remaining := length (locks ?d)\<rparr>
        in if mode = Locked_table_mode then (rehash_with_workers e, Inr Ok) else (e, Inr Ok))"
    using valid(2) m(1) same_viewD(1,4) [OF b(1)] b(6)
    by (simp add: cuckoo_fast_double_def Let_def set_num_remaining_lazy_rehash_locks_def
        del: set_num_remaining_frame)
  show thesis
  proof (cases "alloc_limit t < ?n + 1")
    case True
    then have "alloc_limit t = ?n" using table_coreD(2) [OF readyD(2) [OF r]] by simp
    with True eq nomem show thesis by simp
  next
    case alloc: False
    then have al: "Suc (hashpower ?b) \<le> alloc_limit ?b" using b(4,6) by simp
    have cs: "cont_size (buckets ?b) = 2 ^ hashpower ?b" by (simp only: cont_size_def hashpower_def)
    show thesis
    proof (cases "cont_size (buckets ?b) < kMaxNumLocks")
      case True
      have m': "min kMaxNumLocks (2 ^ Suc (hashpower ?b)) \<le> length (locks ?b) + m" using m(3) b(4) by simp
      note u = small_split_grown [OF b(1-3,5) al m(2) [OF lim] m']
      show thesis
        by (rule grew [OF _ u(1) u(2) valid(3)])
          (use eq alloc True cs b(4,5) same_viewD(1) [OF b(1)] in
            \<open>simp add: set_num_remaining_lazy_rehash_locks_def\<close>)
    next
      case False
      then have big: "kMaxNumLocks \<le> 2 ^ hashpower ?b" using cs by simp
      have "m = 0" using m(2) [OF lim] lazy_split(4) [OF b(2,3) al big] by simp
      then have "cuckoo_fast_double mode auto_resize ?n t = (let u = ?b\<lparr>old_buckets := buckets ?b,
          buckets := mk_container (Suc (hashpower ?b)), locks := map (\<lambda>lk. lk\<lparr>is_migrated := False\<rparr>) (locks ?b),
          num_remaining := length (locks ?b)\<rparr>
        in (if mode = Locked_table_mode then rehash_with_workers u else u, Inr Ok))"
        using eq alloc False b(4) by (simp add: Let_def)
      from grew [OF this [unfolded Let_def] lazy_split_grown [OF b(1-3) al big, of mode] valid(3)] show thesis .
    qed
  qed
next
  case exceeded
  then show thesis by (intro max_hp) (simp_all add: cuckoo_fast_double_def)
next
  case low
  then show thesis by (intro low_load) (simp_all add: cuckoo_fast_double_def)
qed simp

text \<open>Once the checks let it pass, doubling fails only for want of memory.\<close>

lemma cuckoo_fast_double_result:
  assumes "ready mode t"
    and "check_resize_validity auto_resize (hashpower t) (hashpower t + 1) t = (t, Inr Ok)"
  shows "\<exists>u. cuckoo_fast_double mode auto_resize (hashpower t) t
    = (u, if alloc_limit t \<le> hashpower t then Inl Bad_alloc else Inr Ok)"
proof -
  let ?b = "all_moved t"
  note b = all_moved_spec [OF readyD(2) [OF assms(1)]]
  obtain m where m: "maybe_resize_locks (2 ^ (hashpower t + 1)) ?b
      = ?b\<lparr>locks := locks ?b @ replicate m new_spinlock\<rparr>"
    by (rule maybe_resize_locks_spec [of "2 ^ (hashpower t + 1)" ?b]) (rule that)
  show ?thesis
    using assms(2) m b(6) by (simp add: cuckoo_fast_double_def Let_def)
qed

end
