(* ===== verification/Cuckoo_Map.thy ===== *)
theory Cuckoo_Map
  imports Cuckoo_Resize
begin

text \<open>
  The public operations of \<open>cuckoohash_map\<close>: \<open>cuckoo_insert_loop\<close> and what is built on
  it, lookups, updates, erasures and \<open>clear\<close>.  A functor that the code passes by
  reference is a function on the mapped value: the value it leaves behind and, where it
  decides about erasing, its result.  The theory \<open>Cuckoo_Map_Spec\<close> proves what each
  operation does to the map a table denotes.
\<close>

section \<open>Entries and counters\<close>

definition bump_counter :: "nat \<Rightarrow> int \<Rightarrow> ('k, 'v) cuckoo_map \<Rightarrow> ('k, 'v) cuckoo_map" where
  "bump_counter l d t =
     t\<lparr>locks := (locks t)[l := (locks t ! l)\<lparr>elem_counter := elem_counter (locks t ! l) + d\<rparr>]\<rparr>"

definition add_to_bucket ::
  "nat \<Rightarrow> nat \<Rightarrow> u8 \<Rightarrow> 'k \<Rightarrow> 'v \<Rightarrow> ('k, 'v) cuckoo_map \<Rightarrow> ('k, 'v) cuckoo_map" where
  "add_to_bucket bucket_ind slot p k v t =
     (let t = t\<lparr>buckets := setKV bucket_ind slot p k v (buckets t)\<rparr>
      in bump_counter (lock_ind bucket_ind) 1 t)"

definition del_from_bucket ::
  "nat \<Rightarrow> nat \<Rightarrow> ('k, 'v) cuckoo_map \<Rightarrow> ('k, 'v) cuckoo_map" where
  "del_from_bucket bucket_ind slot t =
     (let t = t\<lparr>buckets := eraseKV bucket_ind slot (buckets t)\<rparr>
      in bump_counter (lock_ind bucket_ind) (-1) t)"

text \<open>Reading and writing the mapped value of an occupied slot through a reference.\<close>

definition mapped_at :: "('k, 'v) cuckoo_map \<Rightarrow> nat \<Rightarrow> nat \<Rightarrow> 'v" where
  "mapped_at t i j = kv_mapped (the (arr t ! i ! j))"

definition set_mapped :: "nat \<Rightarrow> nat \<Rightarrow> 'v \<Rightarrow> ('k, 'v) cuckoo_map \<Rightarrow> ('k, 'v) cuckoo_map" where
  "set_mapped i j v t =
     t\<lparr>buckets := (buckets t)\<lparr>cont_buckets :=
        (arr t)[i := (arr t ! i)[j := map_option (\<lambda>e. e\<lparr>kv_mapped := v\<rparr>) (arr t ! i ! j)]]\<rparr>\<rparr>"

section \<open>The insertion loop\<close>

text \<open>
  The loop ends because every round that does not return doubles the table or throws; the
  bound on its rounds is never reached (\<open>cuckoo_insert_loop_spec\<close>).
\<close>

fun cuckoo_insert_loop ::
  "nat \<Rightarrow> table_mode \<Rightarrow> hash_value \<Rightarrow> two_buckets \<Rightarrow> 'k \<Rightarrow> ('k, 'v) cuckoo_map
     \<Rightarrow> ('k, 'v) cuckoo_map \<times> (cuckoo_exn + table_position)" where
  "cuckoo_insert_loop 0 mode hv b k t = (t, Inl Diverges)"
| "cuckoo_insert_loop (Suc n) mode hv b k t =
     (let hp = hashpower t
      in and_then (cuckoo_insert mode hv b k t)
        (\<lambda>pos t.
           if pos_status pos = Ok \<or> pos_status pos = Failure_key_duplicated then (t, Inr pos)
           else if pos_status pos = Failure_table_full
           then and_then (cuckoo_fast_double mode True hp t)
             (\<lambda>_ t. and_then (snapshot_and_lock_two mode hv t)
               (\<lambda>b t. cuckoo_insert_loop n mode hv b k t))
           else if pos_status pos = Failure_under_expansion
           then and_then (snapshot_and_lock_two mode hv t)
             (\<lambda>b t. cuckoo_insert_loop n mode hv b k t)
           else cuckoo_insert_loop n mode hv b k t))"

definition insert_rounds :: nat where
  "insert_rounds = 64"

section \<open>Lookups\<close>

text \<open>\<open>find_fn\<close> answers with the value it has invoked its functor on, if any.\<close>

definition find_fn ::
  "'k \<Rightarrow> ('k, 'v) cuckoo_map \<Rightarrow> ('k, 'v) cuckoo_map \<times> (cuckoo_exn + 'v option)" where
  "find_fn k t =
     (let hv = hashed_key (hash_fn t) k
      in and_then (snapshot_and_lock_two Normal_mode hv t)
        (\<lambda>b t. let pos = cuckoo_find k (hv_partial hv) (b_i1 b) (b_i2 b) t
           in if pos_status pos = Ok
              then (t, Inr (Some (mapped_at t (pos_index pos) (pos_slot pos))))
              else (t, Inr None)))"

definition find_into ::
  "'k \<Rightarrow> 'v \<Rightarrow> ('k, 'v) cuckoo_map \<Rightarrow> ('k, 'v) cuckoo_map \<times> (cuckoo_exn + bool \<times> 'v)" where
  "find_into k val t =
     and_then (find_fn k t)
       (\<lambda>r t. (t, Inr (case r of Some v \<Rightarrow> (True, v) | None \<Rightarrow> (False, val))))"

definition find_value ::
  "'k \<Rightarrow> ('k, 'v) cuckoo_map \<Rightarrow> ('k, 'v) cuckoo_map \<times> (cuckoo_exn + 'v)" where
  "find_value k t =
     (let hv = hashed_key (hash_fn t) k
      in and_then (snapshot_and_lock_two Normal_mode hv t)
        (\<lambda>b t. let pos = cuckoo_find k (hv_partial hv) (b_i1 b) (b_i2 b) t
           in if pos_status pos = Ok
              then (t, Inr (mapped_at t (pos_index pos) (pos_slot pos)))
              else (t, Inl Out_of_range)))"

definition contains ::
  "'k \<Rightarrow> ('k, 'v) cuckoo_map \<Rightarrow> ('k, 'v) cuckoo_map \<times> (cuckoo_exn + bool)" where
  "contains k t = and_then (find_fn k t) (\<lambda>r t. (t, Inr (r \<noteq> None)))"

section \<open>Updates and erasures\<close>

definition update_fn ::
  "'k \<Rightarrow> ('v \<Rightarrow> 'v) \<Rightarrow> ('k, 'v) cuckoo_map \<Rightarrow> ('k, 'v) cuckoo_map \<times> (cuckoo_exn + bool)" where
  "update_fn k fn t =
     (let hv = hashed_key (hash_fn t) k
      in and_then (snapshot_and_lock_two Normal_mode hv t)
        (\<lambda>b t. let pos = cuckoo_find k (hv_partial hv) (b_i1 b) (b_i2 b) t
           in if pos_status pos = Ok
              then (set_mapped (pos_index pos) (pos_slot pos)
                      (fn (mapped_at t (pos_index pos) (pos_slot pos))) t, Inr True)
              else (t, Inr False)))"

definition update ::
  "'k \<Rightarrow> 'v \<Rightarrow> ('k, 'v) cuckoo_map \<Rightarrow> ('k, 'v) cuckoo_map \<times> (cuckoo_exn + bool)" where
  "update k val t = update_fn k (\<lambda>_. val) t"

text \<open>
  A functor that may erase: it leaves a value in the slot and its result says whether the
  entry goes.
\<close>

definition apply_erasing ::
  "('v \<Rightarrow> 'v \<times> bool) \<Rightarrow> table_position \<Rightarrow> ('k, 'v) cuckoo_map \<Rightarrow> ('k, 'v) cuckoo_map" where
  "apply_erasing fn pos t =
     (case fn (mapped_at t (pos_index pos) (pos_slot pos)) of (v, erases) \<Rightarrow>
        let t = set_mapped (pos_index pos) (pos_slot pos) v t
        in if erases then del_from_bucket (pos_index pos) (pos_slot pos) t else t)"

definition erase_fn ::
  "'k \<Rightarrow> ('v \<Rightarrow> 'v \<times> bool) \<Rightarrow> ('k, 'v) cuckoo_map \<Rightarrow> ('k, 'v) cuckoo_map \<times> (cuckoo_exn + bool)"
  where
  "erase_fn k fn t =
     (let hv = hashed_key (hash_fn t) k
      in and_then (snapshot_and_lock_two Normal_mode hv t)
        (\<lambda>b t. let pos = cuckoo_find k (hv_partial hv) (b_i1 b) (b_i2 b) t
           in if pos_status pos = Ok then (apply_erasing fn pos t, Inr True)
              else (t, Inr False)))"

definition erase ::
  "'k \<Rightarrow> ('k, 'v) cuckoo_map \<Rightarrow> ('k, 'v) cuckoo_map \<times> (cuckoo_exn + bool)" where
  "erase k t = erase_fn k (\<lambda>v. (v, True)) t"

section \<open>Insertions\<close>

definition uprase_fn ::
  "'k \<Rightarrow> ('v \<Rightarrow> 'v \<times> bool) \<Rightarrow> 'v \<Rightarrow> ('k, 'v) cuckoo_map
     \<Rightarrow> ('k, 'v) cuckoo_map \<times> (cuckoo_exn + bool)" where
  "uprase_fn k fn val t =
     (let hv = hashed_key (hash_fn t) k
      in and_then (snapshot_and_lock_two Normal_mode hv t)
        (\<lambda>b t. and_then (cuckoo_insert_loop insert_rounds Normal_mode hv b k t)
          (\<lambda>pos t.
             if pos_status pos = Ok
             then (add_to_bucket (pos_index pos) (pos_slot pos) (hv_partial hv) k val t, Inr True)
             else (apply_erasing fn pos t, Inr False))))"

definition accumrase_fn ::
  "'k \<Rightarrow> ('v \<Rightarrow> 'v \<times> bool) \<Rightarrow> bool \<Rightarrow> 'v \<Rightarrow> ('k, 'v) cuckoo_map
     \<Rightarrow> ('k, 'v) cuckoo_map \<times> (cuckoo_exn + bool)" where
  "accumrase_fn k fn exist val_or_delta t =
     (let hv = hashed_key (hash_fn t) k
      in and_then (snapshot_and_lock_two Normal_mode hv t)
        (\<lambda>b t. and_then (cuckoo_insert_loop insert_rounds Normal_mode hv b k t)
          (\<lambda>pos t.
             let t = (if pos_status pos = Ok \<and> \<not> exist
               then add_to_bucket (pos_index pos) (pos_slot pos) (hv_partial hv) k val_or_delta t
               else if pos_status pos = Failure_key_duplicated \<and> exist
               then apply_erasing fn pos t
               else t)
             in (t, Inr (pos_status pos = Ok)))))"

definition upsert ::
  "'k \<Rightarrow> ('v \<Rightarrow> 'v) \<Rightarrow> 'v \<Rightarrow> ('k, 'v) cuckoo_map
     \<Rightarrow> ('k, 'v) cuckoo_map \<times> (cuckoo_exn + bool)" where
  "upsert k fn val t = uprase_fn k (\<lambda>v. (fn v, False)) val t"

definition accumrase ::
  "'k \<Rightarrow> ('v \<Rightarrow> 'v) \<Rightarrow> bool \<Rightarrow> 'v \<Rightarrow> ('k, 'v) cuckoo_map
     \<Rightarrow> ('k, 'v) cuckoo_map \<times> (cuckoo_exn + bool)" where
  "accumrase k fn exist val_or_delta t = accumrase_fn k (\<lambda>v. (fn v, False)) exist val_or_delta t"

definition cuckoo_map_insert ::
  "'k \<Rightarrow> 'v \<Rightarrow> ('k, 'v) cuckoo_map \<Rightarrow> ('k, 'v) cuckoo_map \<times> (cuckoo_exn + bool)" where
  "cuckoo_map_insert k val t = upsert k (\<lambda>v. v) val t"

definition insert_or_assign ::
  "'k \<Rightarrow> 'v \<Rightarrow> ('k, 'v) cuckoo_map \<Rightarrow> ('k, 'v) cuckoo_map \<times> (cuckoo_exn + bool)" where
  "insert_or_assign k val t = upsert k (\<lambda>_. val) val t"

text \<open>\<open>plus_assign m d\<close> is the value of \<open>m\<close> after \<open>m += d\<close>.\<close>

definition insert_or_accum ::
  "('v \<Rightarrow> 'v \<Rightarrow> 'v) \<Rightarrow> 'k \<Rightarrow> 'v \<Rightarrow> bool \<Rightarrow> ('k, 'v) cuckoo_map
     \<Rightarrow> ('k, 'v) cuckoo_map \<times> (cuckoo_exn + bool)" where
  "insert_or_accum plus_assign k val_or_delta exist t =
     accumrase k (\<lambda>m. if exist then plus_assign m val_or_delta else m) exist val_or_delta t"

section \<open>Clearing and resizing\<close>

definition cuckoo_clear :: "('k, 'v) cuckoo_map \<Rightarrow> ('k, 'v) cuckoo_map" where
  "cuckoo_clear t =
     (let t = t\<lparr>buckets := clear_container (buckets t)\<rparr>;
          t = set_num_remaining_lazy_rehash_locks 0 t
      in t\<lparr>locks := map (\<lambda>lk. lk\<lparr>elem_counter := 0, is_migrated := True\<rparr>) (locks t)\<rparr>)"

definition clear :: "('k, 'v) cuckoo_map \<Rightarrow> ('k, 'v) cuckoo_map" where
  "clear t = cuckoo_clear t"

text \<open>
  The version of \<open>parallel_exec\<close> for functors that may throw: every range is run, and the
  first exception in the order of the threads is thrown again.  Threads are run one after
  the other.
\<close>

definition parallel_exec ::
  "nat \<Rightarrow> nat \<Rightarrow> nat \<Rightarrow> (nat \<Rightarrow> nat \<Rightarrow> 's \<Rightarrow> 's \<times> (cuckoo_exn + unit)) \<Rightarrow> 's
     \<Rightarrow> 's \<times> (cuckoo_exn + unit)" where
  "parallel_exec num_extra_threads start stop func s =
     fold (\<lambda>(a, b) (s, eptr). case func a b s of (s, r) \<Rightarrow>
         (s, case eptr of Inl ex \<Rightarrow> Inl ex | Inr _ \<Rightarrow> r))
       (work_ranges num_extra_threads start stop) (s, Inr ())"

text \<open>
  A worker of an expansion: the entries at the given slots of the table \<open>t\<close> are inserted in
  the new table with \<open>std::move\<close>.  The key and the value are moved out of their slot when
  the insertion adds them, and \<open>mv e\<close> is what a move leaves of the entry \<open>e\<close>: \<open>e\<close> itself
  for integers and other trivially copied types, something else for strings and vectors.
\<close>

fun leave_at ::
  "(('k, 'v) kv \<Rightarrow> ('k, 'v) kv) \<Rightarrow> nat \<times> nat \<Rightarrow> ('k, 'v) cuckoo_map \<Rightarrow> ('k, 'v) cuckoo_map" where
  "leave_at mv (i, j) t =
     (case arr t ! i ! j of
        None \<Rightarrow> t
      | Some e \<Rightarrow> t\<lparr>buckets := (buckets t)
          \<lparr>cont_buckets := (arr t)[i := (arr t ! i)[j := Some (mv e)]]\<rparr>\<rparr>)"

fun move_entries ::
  "(('k, 'v) kv \<Rightarrow> ('k, 'v) kv) \<Rightarrow> (nat \<times> nat) list \<Rightarrow> ('k, 'v) cuckoo_map \<times> ('k, 'v) cuckoo_map
     \<Rightarrow> (('k, 'v) cuckoo_map \<times> ('k, 'v) cuckoo_map) \<times> (cuckoo_exn + unit)" where
  "move_entries mv [] (new_map, t) = ((new_map, t), Inr ())"
| "move_entries mv ((i, j) # ps) (new_map, t) =
     (case arr t ! i ! j of
        None \<Rightarrow> move_entries mv ps (new_map, t)
      | Some e \<Rightarrow>
          (case cuckoo_map_insert (kv_key e) (kv_mapped e) new_map of
             (new_map, Inl ex) \<Rightarrow> ((new_map, t), Inl ex)
           | (new_map, Inr inserted) \<Rightarrow>
               move_entries mv ps (new_map, if inserted then leave_at mv (i, j) t else t)))"

definition bucket_slots :: "nat \<Rightarrow> nat \<Rightarrow> (nat \<times> nat) list" where
  "bucket_slots i stop = concat (map (\<lambda>i. map (Pair i) [0..<slot_per_bucket]) [i..<stop])"

definition cuckoo_expand_simple ::
  "(('k, 'v) kv \<Rightarrow> ('k, 'v) kv) \<Rightarrow> bool \<Rightarrow> nat \<Rightarrow> ('k, 'v) cuckoo_map
     \<Rightarrow> ('k, 'v) cuckoo_map \<times> (cuckoo_exn + cuckoo_status)" where
  "cuckoo_expand_simple mv auto_resize new_hp t =
     (let hp = hashpower t
      in and_then (check_resize_validity auto_resize hp new_hp t)
        (\<lambda>st t. if st \<noteq> Ok then (t, Inr st)
           else let t = rehash_with_workers t
           in case new_cuckoohash_map (alloc_limit t) (is_simple t) (hash_fn t)
                (hashsize new_hp * of_nat slot_per_bucket) of
                Inl ex \<Rightarrow> (t, Inl ex)
              | Inr new_map \<Rightarrow>
                  let new_map = set_max_num_worker_threads (max_num_worker_threads t) new_map
                  in case parallel_exec (max_num_worker_threads t) 0 (2 ^ hp)
                       (\<lambda>i stop. move_entries mv (bucket_slots i stop)) (new_map, t) of
                       ((new_map, t), Inl ex) \<Rightarrow> (t, Inl ex)
                     | ((new_map, t), Inr _) \<Rightarrow>
                         let new_map = rehash_with_workers new_map;
                             t = maybe_resize_locks (bucket_count new_map) t
                         in (t\<lparr>buckets := buckets new_map\<rparr>, Inr Ok)))"

definition cuckoo_rehash ::
  "(('k, 'v) kv \<Rightarrow> ('k, 'v) kv) \<Rightarrow> nat \<Rightarrow> ('k, 'v) cuckoo_map
     \<Rightarrow> ('k, 'v) cuckoo_map \<times> (cuckoo_exn + bool)" where
  "cuckoo_rehash mv n t =
     (if n = hashpower t then (t, Inr False)
      else and_then (cuckoo_expand_simple mv False n t) (\<lambda>st t. (t, Inr (st = Ok))))"

definition cuckoo_reserve ::
  "(('k, 'v) kv \<Rightarrow> ('k, 'v) kv) \<Rightarrow> u64 \<Rightarrow> ('k, 'v) cuckoo_map
     \<Rightarrow> ('k, 'v) cuckoo_map \<times> (cuckoo_exn + bool)" where
  "cuckoo_reserve mv n t =
     (let new_hp = reserve_calc n
      in if new_hp = hashpower t then (t, Inr False)
         else and_then (cuckoo_expand_simple mv False new_hp t) (\<lambda>st t. (t, Inr (st = Ok))))"

section \<open>Exchanging two tables\<close>

text \<open>What \<open>swap\<close> exchanges, member by member; the other members stay where they are.\<close>

definition swap_maps ::
  "('k, 'v) cuckoo_map \<Rightarrow> ('k, 'v) cuckoo_map \<Rightarrow> ('k, 'v) cuckoo_map \<times> ('k, 'v) cuckoo_map" where
  "swap_maps t u =
     (t\<lparr>hash_fn := hash_fn u, buckets := buckets u, locks := locks u,
        minimum_load_factor := minimum_load_factor u, maximum_hashpower := maximum_hashpower u\<rparr>,
      u\<lparr>hash_fn := hash_fn t, buckets := buckets t, locks := locks t,
        minimum_load_factor := minimum_load_factor t, maximum_hashpower := maximum_hashpower t\<rparr>)"

end
