(* ===== verification/Cuckoo_Map_Spec.thy ===== *)
theory Cuckoo_Map_Spec
  imports Cuckoo_Map
begin

text \<open>
  What the operations of \<open>cuckoohash_map\<close> do to the map a table denotes.  \<open>yields t u m\<close>
  says that \<open>u\<close> is a table in order with the parameters of \<open>t\<close> that denotes \<open>m\<close>.  An
  insertion either yields its result, or throws because the table is not allowed to grow,
  leaving the same map, or runs out of memory.
\<close>

section \<open>Changing one entry\<close>

definition yields ::
  "table_mode \<Rightarrow> ('k, 'v) cuckoo_map \<Rightarrow> ('k, 'v) cuckoo_map \<Rightarrow> ('k \<rightharpoonup> 'v) \<Rightarrow> bool" where
  "yields mode t u m \<longleftrightarrow> ready mode u \<and> same_params t u \<and> abs_map u = m \<and>
     hashpower t \<le> hashpower u"

lemma yieldsD:
  assumes "yields mode t u m"
  shows "ready mode u" "same_params t u" "abs_map u = m" "hashpower t \<le> hashpower u"
  using assms by (simp_all add: yields_def)

lemma yields_trans: "yields mode t u m \<Longrightarrow> yields mode u w m' \<Longrightarrow> yields mode t w m'"
  by (auto simp: yields_def intro: same_params_trans)

lemma grown_yields: "grown mode t u \<Longrightarrow> ready mode t \<Longrightarrow> yields mode t u (abs_map t)"
  by (simp add: yields_def grown_abs_map) (simp add: grown_def)

lemma grown_yields_trans:
  "grown mode t u \<Longrightarrow> yields mode u w m \<Longrightarrow> yields mode t w m"
  by (auto simp: yields_def grown_def intro: same_params_trans)

lemma viewed_grown: "viewed mode t u \<Longrightarrow> grown mode t u"
  by (rule moved_grown [OF viewed_moved])

lemma bump_counter_frame [simp]:
  "hash_fn (bump_counter l d t) = hash_fn t" "is_simple (bump_counter l d t) = is_simple t"
  "buckets (bump_counter l d t) = buckets t" "old_buckets (bump_counter l d t) = old_buckets t"
  "num_remaining (bump_counter l d t) = num_remaining t"
  "minimum_load_factor (bump_counter l d t) = minimum_load_factor t"
  "maximum_hashpower (bump_counter l d t) = maximum_hashpower t"
  "max_num_worker_threads (bump_counter l d t) = max_num_worker_threads t"
  "alloc_limit (bump_counter l d t) = alloc_limit t"
  "hashpower (bump_counter l d t) = hashpower t"
  "length (locks (bump_counter l d t)) = length (locks t)"
  by (simp_all add: bump_counter_def hashpower_def)

lemma bump_counter_flags [simp]:
  "map is_migrated (locks (bump_counter l d t)) = map is_migrated (locks t)"
  by (cases "l < length (locks t)")
    (simp_all add: bump_counter_def map_update list_update_same_conv list_update_beyond)

lemma bump_counter_flag [simp]:
  assumes "i < length (locks t)"
  shows "is_migrated (locks (bump_counter l d t) ! i) = is_migrated (locks t ! i)"
  using assms by (cases "l = i") (simp_all add: bump_counter_def)

lemma unmigrated_flags: "unmigrated t = length (filter Not (map is_migrated (locks t)))"
  by (simp add: unmigrated_def filter_map comp_def)

lemma bump_counter_0: "bump_counter l 0 t = t"
proof -
  have "(locks t ! l)\<lparr>elem_counter := elem_counter (locks t ! l) + 0\<rparr> = locks t ! l" by simp
  then show ?thesis by (simp only: bump_counter_def list_update_id) simp
qed

lemma bump_counter_view:
  assumes "locks_ok t"
  shows "i < 2 ^ hashpower t \<Longrightarrow> migrated (bump_counter l d t) i = migrated t i"
    and "i < 2 ^ hashpower t \<Longrightarrow> eff (bump_counter l d t) i = eff t i"
    and "live (bump_counter l d t) = live t"
    and "unmigrated (bump_counter l d t) = unmigrated t"
proof -
  show m: "migrated (bump_counter l d t) i = migrated t i" if "i < 2 ^ hashpower t" for i
    using lock_ind_less_locks [OF assms that] by (simp add: migrated_def)
  show e: "eff (bump_counter l d t) i = eff t i" if "i < 2 ^ hashpower t" for i
    using m [OF that] by (simp add: eff_def pending_def Let_def)
  show "live (bump_counter l d t) = live t" by (rule live_cong) (simp_all add: e)
  show "unmigrated (bump_counter l d t) = unmigrated t"
    by (simp only: unmigrated_flags bump_counter_flags)
qed

lemma bump_counter_struct: "table_struct t \<Longrightarrow> table_struct (bump_counter l d t)"
  by (simp add: table_struct_def locks_ok_def lazy_ok_def)

lemma bump_counter_sum:
  assumes "l < length (locks t)"
  shows "sum_list (map elem_counter (locks (bump_counter l d t)))
    = sum_list (map elem_counter (locks t)) + d"
  using sum_list_update_int [of l "map elem_counter (locks t)"] assms
  by (simp add: bump_counter_def map_update)

lemma mode_ok_flags: "mode_ok mode t \<longleftrightarrow> mode = Normal_mode \<or> (\<forall>x\<in>set (map is_migrated (locks t)). x)"
  by (simp add: mode_ok_def)

lemma change_slot_ready:
  assumes r: "ready mode t" and s: "at_slot t i j x"
    and x': "\<And>e. x' = Some e \<Longrightarrow> kv_partial e = partial_key (hash_fn t (kv_key e)) \<and>
      home (hashpower t) (hash_fn t (kv_key e)) i"
    and d: "distinct (map kv_key (live (put_slot i j x' t)))"
    and len: "int (length (live (put_slot i j x' t))) = int (length (live t)) + c"
    and l: "l < length (locks t)"
  shows "ready mode (bump_counter l c (put_slot i j x' t))"
    "same_params t (bump_counter l c (put_slot i j x' t))"
    "abs_map (bump_counter l c (put_slot i j x' t)) = abs_map (put_slot i j x' t)"
proof -
  let ?p = "put_slot i j x' t" and ?u = "bump_counter l c (put_slot i j x' t)"
  note s' = s [unfolded at_slot_def]
  note core = readyD(2) [OF r]
  have struct: "table_struct ?p"
    by (rule put_slot_struct [OF table_core_struct [OF core]]) (use s' x' in auto)
  have lo: "locks_ok ?p" by (rule table_structD(4) [OF struct])
  note view = bump_counter_view [OF lo]
  have "table_core ?u"
    unfolding table_core_def
    using bump_counter_struct [OF struct] d len l view(3) bump_counter_sum [of l ?p c]
      table_coreD(8) [OF core] by simp
  then show "ready mode ?u"
    using readyD(1,3) [OF r] view(4) [of l c]
    by (simp add: ready_def table_ok_def mode_ok_flags)
  show "same_params t ?u" by (simp add: same_params_def)
  show "abs_map ?u = abs_map ?p" by (rule abs_map_cong) (rule view(3))
qed

lemma at_slot_lock: "at_slot t i j x \<Longrightarrow> table_core t \<Longrightarrow> lock_ind i < length (locks t)"
  by (rule lock_ind_less_locks) (auto simp: at_slot_def table_coreD(4))

lemma add_to_bucket_spec:
  assumes r: "ready mode t" and s: "at_slot t i j None"
    and k: "home (hashpower t) (hash_fn t k) i" "abs_map t k = None"
  shows "yields mode t (add_to_bucket i j (partial_key (hash_fn t k)) k v t) ((abs_map t)(k \<mapsto> v))"
proof -
  let ?e = "\<lparr>kv_partial = partial_key (hash_fn t k), kv_key = k, kv_mapped = v\<rparr>"
  let ?p = "put_slot i j (Some ?e) t"
  note core = readyD(2) [OF r]
  note s' = s [unfolded at_slot_def]
  have m: "mset (live ?p) = add_mset ?e (mset (live t))"
    by (rule live_put_slot_Some [OF table_core_struct [OF core]]) (use s' in auto)
  have "distinct (map kv_key (?e # live t))"
    using k(2) table_coreD(7) [OF core] by (simp add: abs_map_None_iff)
  then have d: "distinct (map kv_key (live ?p))"
    by (rule distinct_keys_mset [rotated]) (simp add: m)
  have "length (live ?p) = Suc (length (live t))"
    using arg_cong [OF m, of size] by simp
  then have len: "int (length (live ?p)) = int (length (live t)) + 1" by simp
  have eq: "add_to_bucket i j (partial_key (hash_fn t k)) k v t = bump_counter (lock_ind i) 1 ?p"
    by (simp add: add_to_bucket_def setKV_put_slot)
  note c = change_slot_ready [OF r s _ d len at_slot_lock [OF s core]]
  show ?thesis
    unfolding eq yields_def
    using c k(1) abs_map_add [OF m d] by simp
qed

lemma del_from_bucket_spec:
  assumes r: "ready mode t" and s: "at_slot t i j (Some e)"
  shows "yields mode t (del_from_bucket i j t) ((abs_map t)(kv_key e := None))"
proof -
  let ?p = "put_slot i j None t"
  note core = readyD(2) [OF r]
  note s' = s [unfolded at_slot_def]
  have m: "mset (live t) = add_mset e (mset (live ?p))"
    by (rule live_put_slot_None [OF table_core_struct [OF core]]) (use s' in auto)
  have "distinct (map kv_key (e # live ?p))"
    by (rule distinct_keys_mset [OF _ table_coreD(7) [OF core]]) (simp add: m)
  then have d: "distinct (map kv_key (live ?p))" by simp
  have "length (live t) = Suc (length (live ?p))"
    using arg_cong [OF m, of size] by simp
  then have len: "int (length (live ?p)) = int (length (live t)) + (-1)" by simp
  have eq: "del_from_bucket i j t = bump_counter (lock_ind i) (-1) ?p"
    by (simp add: del_from_bucket_def eraseKV_put_slot)
  note c = change_slot_ready [OF r s _ d len at_slot_lock [OF s core]]
  show ?thesis
    unfolding eq yields_def
    using c abs_map_del [OF m table_coreD(7) [OF core]] by simp
qed

lemma at_slot_arr: "at_slot t i j x \<Longrightarrow> arr t ! i ! j = x"
  by (cases "migrated t i") (simp_all add: at_slot_def eff_def)

lemma set_mapped_spec:
  assumes r: "ready mode t" and s: "at_slot t i j (Some e)"
  shows "yields mode t (set_mapped i j v t) ((abs_map t)(kv_key e \<mapsto> v))"
    "at_slot (set_mapped i j v t) i j (Some (e\<lparr>kv_mapped := v\<rparr>))"
proof -
  let ?e = "e\<lparr>kv_mapped := v\<rparr>"
  let ?p = "put_slot i j (Some ?e) t"
  note core = readyD(2) [OF r]
  note struct = table_core_struct [OF core]
  note s' = s [unfolded at_slot_def]
  have m: "add_mset e (mset (live ?p)) = add_mset ?e (mset (live t))"
    by (rule live_put_slot_change [OF struct]) (use s' in auto)
  have e: "e \<in># mset (live t)" using at_slot_live(1) [OF core s] by simp
  have "image_mset kv_key (mset (live ?p)) = image_mset kv_key (mset (live t))"
    using e arg_cong [OF m, of "image_mset kv_key"] by simp
  then have d: "distinct (map kv_key (live ?p))"
    using table_coreD(7) [OF core] by (metis mset_eq_imp_distinct_iff mset_map)
  have len: "int (length (live ?p)) = int (length (live t)) + 0"
    using arg_cong [OF m, of size] by simp
  have eq: "set_mapped i j v t = bump_counter (lock_ind i) 0 ?p"
    using at_slot_arr [OF s] by (simp add: set_mapped_def put_slot_def bump_counter_0)
  note p = at_slot_live(3,4) [OF core s]
  note c = change_slot_ready [OF r s _ d len at_slot_lock [OF s core]]
  have "abs_map ?p = (abs_map t)(kv_key e \<mapsto> v)"
  proof -
    let ?q = "put_slot i j None t"
    have q: "mset (live t) = add_mset e (mset (live ?q))"
      by (rule live_put_slot_None [OF struct]) (use s' in auto)
    have "mset (live ?p) = add_mset ?e (mset (live ?q))" using m q by simp
    from abs_map_add [OF this d] abs_map_del [OF q table_coreD(7) [OF core]]
    show ?thesis by simp
  qed
  then show "yields mode t (set_mapped i j v t) ((abs_map t)(kv_key e \<mapsto> v))"
    unfolding eq yields_def using c p by simp
  have i: "i < length (arr t)" using s' arr_length [OF struct] by simp
  have "at_slot ?p i j (Some ?e)"
    using s' put_slot_eff [OF i] eff_length [OF struct] by (simp add: at_slot_def)
  then show "at_slot (set_mapped i j v t) i j (Some ?e)"
    unfolding eq using bump_counter_view(1,2) [of ?p i "lock_ind i" 0] table_coreD(4) [OF core]
    by (simp add: at_slot_def locks_ok_def)
qed

section \<open>The insertion loop\<close>

definition growth_refused :: "('k, 'v) cuckoo_map \<Rightarrow> cuckoo_exn \<Rightarrow> bool" where
  "growth_refused t ex \<longleftrightarrow>
     (ex = Load_factor_too_low (minimum_load_factor t) \<and> load_factor t < minimum_load_factor t) \<or>
     (ex = Maximum_hashpower_exceeded (Suc (hashpower t)) \<and> maximum_hashpower t < Suc (hashpower t))"

definition place_answer ::
  "table_mode \<Rightarrow> 'k \<Rightarrow> ('k, 'v) cuckoo_map \<Rightarrow> ('k, 'v) cuckoo_map \<Rightarrow> table_position \<Rightarrow> bool" where
  "place_answer mode k t u pos \<longleftrightarrow> grown mode t u \<and>
     ((pos_status pos = Ok \<and> abs_map t k = None \<and>
         home (hashpower u) (hash_fn u k) (pos_index pos) \<and>
         at_slot u (pos_index pos) (pos_slot pos) None) \<or>
      (pos_status pos = Failure_key_duplicated \<and>
         (\<exists>e. at_slot u (pos_index pos) (pos_slot pos) (Some e) \<and> kv_key e = k)))"

text \<open>How an operation that may have to grow the table ends.\<close>

definition ends ::
  "table_mode \<Rightarrow> ('k, 'v) cuckoo_map \<Rightarrow> ('k, 'v) cuckoo_map \<times> (cuckoo_exn + 'a)
     \<Rightarrow> (('k, 'v) cuckoo_map \<Rightarrow> 'a \<Rightarrow> bool) \<Rightarrow> bool" where
  "ends mode t r Q \<longleftrightarrow>
     (\<exists>u a. r = (u, Inr a) \<and> Q u a) \<or>
     (\<exists>u ex. r = (u, Inl ex) \<and> grown mode t u \<and> growth_refused u ex) \<or>
     (\<exists>u w. r = (u, Inl Bad_alloc) \<and> grown mode t w \<and> hashpower w = alloc_limit t)"

lemma endsI:
  "Q u a \<Longrightarrow> ends mode t (u, Inr a) Q"
  "grown mode t u \<Longrightarrow> growth_refused u ex \<Longrightarrow> ends mode t (u, Inl ex) Q"
  "grown mode t w \<Longrightarrow> hashpower w = alloc_limit t \<Longrightarrow> ends mode t (u, Inl Bad_alloc) Q"
  by (auto simp: ends_def)

lemma ends_grown:
  assumes "ends mode u r Q" "grown mode t u" "\<And>w a. Q w a \<Longrightarrow> Q' w a"
  shows "ends mode t r Q'"
proof -
  have "alloc_limit u = alloc_limit t" using assms(2) by (simp add: grown_def same_params_def)
  then show ?thesis using assms grown_trans [OF assms(2)] unfolding ends_def by fastforce
qed

lemma endsE:
  assumes "ends mode t r Q"
  obtains (returns) u a where "r = (u, Inr a)" "Q u a"
  | (refuses) u ex where "r = (u, Inl ex)" "grown mode t u" "growth_refused u ex"
  | (nomem) u w where "r = (u, Inl Bad_alloc)" "grown mode t w" "hashpower w = alloc_limit t"
  using assms unfolding ends_def by blast

lemma ends_and_then:
  assumes "ends mode t r Q" "\<And>u a. Q u a \<Longrightarrow> ends mode t (f a u) Q'"
  shows "ends mode t (and_then r f) Q'"
  using assms(1) by (cases rule: endsE) (simp_all add: assms(2) endsI(2,3))

lemma ends_no_Diverges: "ends mode t r Q \<Longrightarrow> snd r \<noteq> Inl Diverges \<and> snd r \<noteq> Inl Queue_overflow"
  by (auto simp: ends_def growth_refused_def)

lemma snapshot_candidates:
  assumes "ready mode t"
  obtains t' b where
    "snapshot_and_lock_two mode (hashed_key (hash_fn t) k) t = (t', Inr b)"
    "viewed mode t t'" "candidates t' k b" "hash_fn t' = hash_fn t"
proof -
  let ?hv = "hashed_key (hash_fn t) k"
  let ?i1 = "index_hash (hashpower t) (hv_hash ?hv)"
  let ?i2 = "alt_index (hashpower t) (hv_partial ?hv) ?i1"
  obtain t' where *: "snapshot_and_lock_two mode ?hv t = (t', Inr \<lparr>b_i1 = ?i1, b_i2 = ?i2\<rparr>)"
    "viewed mode t t'" "migrated t' ?i1" "migrated t' ?i2"
    by (rule snapshot_and_lock_two_ok [OF assms])
  have "hash_fn t' = hash_fn t" by (rule same_viewD(1) [OF viewedD(2) [OF *(2)]])
  moreover from this have "candidates t' k \<lparr>b_i1 = ?i1, b_i2 = ?i2\<rparr>"
    using *(3,4) viewed_hashpower [OF *(2)] by (simp add: candidates_def hashed_key_def Let_def)
  ultimately show thesis by (intro that [OF *(1,2)])
qed

lemma cuckoo_insert_loop_spec:
  assumes "ready mode t" "candidates t k b" "60 \<le> n + hashpower t" "hv = hashed_key (hash_fn t) k"
  shows "ends mode t (cuckoo_insert_loop n mode hv b k t) (place_answer mode k t)"
  using assms
proof (induction n arbitrary: b t)
  case 0
  then show ?case using table_core_hashpower_less [OF readyD(2) [OF "0.prems"(1)]] by simp
next
  case (Suc n)
  obtain t1 pos where 1: "cuckoo_insert mode hv b k t = (t1, Inr pos)" "insert_answer mode k b t t1 pos"
    using cuckoo_insert_spec [OF Suc.prems(1,2)] Suc.prems(4) by blast
  have m: "moved mode t t1" using 1(2) by (simp add: insert_answer_def)
  have hp1: "hashpower t1 = hashpower t" and hf1: "hash_fn t1 = hash_fn t"
    and al1: "alloc_limit t1 = alloc_limit t"
    using movedD(2,3,7) [OF m] same_paramsD(3) by auto
  note r1 = movedD(1) [OF m]
  show ?case
  proof (cases "pos_status pos = Failure_table_full")
    case False
    then have "place_answer mode k t t1 pos"
      using 1(2) hp1 hf1 by (auto simp: insert_answer_def place_answer_def intro: moved_grown)
    moreover have "cuckoo_insert_loop (Suc n) mode hv b k t = (t1, Inr pos)"
      using False 1 by (auto simp: insert_answer_def)
    ultimately show ?thesis by (simp add: endsI(1))
  next
    case True
    have step: "cuckoo_insert_loop (Suc n) mode hv b k t =
      and_then (cuckoo_fast_double mode True (hashpower t1) t1)
        (\<lambda>_ t. and_then (snapshot_and_lock_two mode hv t)
           (\<lambda>b t. cuckoo_insert_loop n mode hv b k t))"
      using 1(1) True hp1 by simp
    show ?thesis
    proof (cases rule: cuckoo_fast_double_spec [OF r1, of True, case_names grew max_hp low_load nomem])
      case (grew t2)
      have g: "grown mode t t2" by (rule grown_trans [OF moved_grown [OF m] grew(2)])
      obtain t3 b3 where 3: "snapshot_and_lock_two mode (hashed_key (hash_fn t2) k) t2 = (t3, Inr b3)"
        "viewed mode t2 t3" "candidates t3 k b3" "hash_fn t3 = hash_fn t2"
        by (rule snapshot_candidates [OF grownD(1) [OF grew(2)]])
      have g3: "grown mode t t3" by (rule grown_trans [OF g viewed_grown [OF 3(2)]])
      have hf: "hash_fn t2 = hash_fn t" by (rule grownD(4) [OF g])
      have "ends mode t3 (cuckoo_insert_loop n mode hv b3 k t3) (place_answer mode k t3)"
        by (rule Suc.IH)
          (use viewedD(1) [OF 3(2)] 3(3,4) Suc.prems(3,4) viewed_hashpower [OF 3(2)] grew(3) hp1 hf in auto)
      then have "ends mode t (cuckoo_insert_loop n mode hv b3 k t3) (place_answer mode k t)"
        by (rule ends_grown [OF _ g3])
          (use grown_abs_map [OF g3 Suc.prems(1)] grown_trans [OF g3] in
            \<open>simp add: place_answer_def\<close>)
      then show ?thesis using step grew(1) 3(1) hf Suc.prems(4) by simp
    next
      case max_hp
      then show ?thesis
        using step by (auto intro!: endsI(2) moved_grown [OF m] simp: growth_refused_def)
    next
      case low_load
      then show ?thesis
        using step by (auto intro!: endsI(2) moved_grown [OF m] simp: growth_refused_def)
    next
      case (nomem u)
      then show ?thesis
        using step al1 by (auto intro!: endsI(3) [OF moved_grown [OF m]])
    qed
  qed
qed

section \<open>Lookups\<close>

lemma locate_key:
  assumes "ready mode t"
  obtains
    (here) u b pos e where "snapshot_and_lock_two mode (hashed_key (hash_fn t) k) t = (u, Inr b)"
      "viewed mode t u"
      "cuckoo_find k (hv_partial (hashed_key (hash_fn t) k)) (b_i1 b) (b_i2 b) u = pos"
      "pos_status pos = Ok" "at_slot u (pos_index pos) (pos_slot pos) (Some e)" "kv_key e = k"
      "abs_map t k = Some (kv_mapped e)"
  | (absent) u b pos where "snapshot_and_lock_two mode (hashed_key (hash_fn t) k) t = (u, Inr b)"
      "viewed mode t u"
      "cuckoo_find k (hv_partial (hashed_key (hash_fn t) k)) (b_i1 b) (b_i2 b) u = pos"
      "pos_status pos \<noteq> Ok" "abs_map t k = None"
proof -
  obtain u b where u: "snapshot_and_lock_two mode (hashed_key (hash_fn t) k) t = (u, Inr b)"
    "viewed mode t u" "candidates u k b" "hash_fn u = hash_fn t"
    by (rule snapshot_candidates [OF assms])
  have core: "table_core u" by (rule readyD(2) [OF viewedD(1) [OF u(2)]])
  have abs: "abs_map u = abs_map t" by (rule same_viewD(6) [OF viewedD(2) [OF u(2)]])
  have hv: "hv_partial (hashed_key (hash_fn t) k) = partial_key (hash_fn u k)"
    by (simp add: hashed_key_def Let_def u(4))
  let ?pos = "cuckoo_find k (partial_key (hash_fn u k)) (b_i1 b) (b_i2 b) u"
  from cuckoo_find_spec [OF core u(3)] show thesis
  proof (elim disjE exE conjE)
    fix i j e
    assume *: "?pos = \<lparr>pos_index = i, pos_slot = j, pos_status = Ok\<rparr>"
      "at_slot u i j (Some e)" "kv_key e = k"
    from here [OF u(1,2), of ?pos e] * at_slot_live(2) [OF core *(2)] abs hv
    show thesis by simp
  next
    assume "?pos = \<lparr>pos_index = 0, pos_slot = 0, pos_status = Failure_key_not_found\<rparr>"
      "abs_map u k = None"
    with absent [OF u(1,2), of ?pos] abs hv show thesis by simp
  qed
qed

lemma mapped_at_slot: "at_slot t i j (Some e) \<Longrightarrow> mapped_at t i j = kv_mapped e"
  by (simp add: mapped_at_def at_slot_arr)

lemma find_fn_spec:
  assumes "ready Normal_mode t"
  shows "\<exists>u. find_fn k t = (u, Inr (abs_map t k)) \<and> viewed Normal_mode t u"
proof (cases rule: locate_key [OF assms, of k, case_names here absent])
  case (here u b pos e)
  then show ?thesis
    by (intro exI [of _ u]) (simp add: find_fn_def Let_def mapped_at_slot)
next
  case (absent u b pos)
  then show ?thesis by (intro exI [of _ u]) (simp add: find_fn_def Let_def)
qed

lemma find_value_spec:
  assumes "ready Normal_mode t"
  shows "\<exists>u. find_value k t
      = (u, case abs_map t k of None \<Rightarrow> Inl Out_of_range | Some v \<Rightarrow> Inr v) \<and> viewed Normal_mode t u"
proof (cases rule: locate_key [OF assms, of k, case_names here absent])
  case (here u b pos e)
  then show ?thesis
    by (intro exI [of _ u]) (simp add: find_value_def Let_def mapped_at_slot)
next
  case (absent u b pos)
  then show ?thesis by (intro exI [of _ u]) (simp add: find_value_def Let_def)
qed

lemma viewed_yields: "viewed mode t u \<Longrightarrow> yields mode t u (abs_map t)"
  using viewedD [of mode t u] same_view_params [of t u] same_viewD(6) [of t u]
    viewed_hashpower [of mode t u]
  by (simp add: yields_def)

lemma viewed_yields_trans: "viewed mode t u \<Longrightarrow> yields mode u w m \<Longrightarrow> yields mode t w m"
  by (rule grown_yields_trans [OF viewed_grown])

section \<open>Updates and erasures\<close>

definition after_erasing :: "('v \<Rightarrow> 'v \<times> bool) \<Rightarrow> 'k \<Rightarrow> 'v \<Rightarrow> ('k \<rightharpoonup> 'v) \<Rightarrow> 'k \<rightharpoonup> 'v" where
  "after_erasing fn k v m = (case fn v of (v', erases) \<Rightarrow> m(k := if erases then None else Some v'))"

lemma apply_erasing_spec:
  assumes "ready mode t" "at_slot t (pos_index pos) (pos_slot pos) (Some e)"
  shows "yields mode t (apply_erasing fn pos t)
    (after_erasing fn (kv_key e) (kv_mapped e) (abs_map t))"
proof -
  obtain v erases where fn: "fn (kv_mapped e) = (v, erases)" by fastforce
  let ?u = "set_mapped (pos_index pos) (pos_slot pos) v t"
  note s = set_mapped_spec [OF assms, of v]
  have "yields mode t (del_from_bucket (pos_index pos) (pos_slot pos) ?u) ((abs_map t)(kv_key e := None))"
    using yields_trans [OF s(1) del_from_bucket_spec [OF yieldsD(1) [OF s(1)] s(2)]]
      yieldsD(3) [OF s(1)] by simp
  with s(1) fn show ?thesis
    by (simp add: apply_erasing_def after_erasing_def mapped_at_slot [OF assms(2)] Let_def)
qed

lemma update_fn_spec:
  assumes "ready Normal_mode t"
  shows "\<exists>u. update_fn k fn t = (u, Inr (abs_map t k \<noteq> None)) \<and>
    yields Normal_mode t u (case abs_map t k of None \<Rightarrow> abs_map t | Some v \<Rightarrow> (abs_map t)(k \<mapsto> fn v))"
proof (cases rule: locate_key [OF assms, of k, case_names here absent])
  case (here u b pos e)
  let ?w = "set_mapped (pos_index pos) (pos_slot pos) (fn (kv_mapped e)) u"
  have "yields Normal_mode t ?w ((abs_map t)(k \<mapsto> fn (kv_mapped e)))"
    using viewed_yields_trans [OF here(2) set_mapped_spec(1) [OF viewedD(1) [OF here(2)] here(5)]]
      here(6) same_viewD(6) [OF viewedD(2) [OF here(2)]] by simp
  with here show ?thesis
    by (intro exI [of _ ?w]) (simp add: update_fn_def Let_def mapped_at_slot)
next
  case (absent u b pos)
  then show ?thesis
    by (intro exI [of _ u]) (simp add: update_fn_def Let_def viewed_yields)
qed

lemma erase_fn_spec:
  assumes "ready Normal_mode t"
  shows "\<exists>u. erase_fn k fn t = (u, Inr (abs_map t k \<noteq> None)) \<and>
    yields Normal_mode t u
      (case abs_map t k of None \<Rightarrow> abs_map t | Some v \<Rightarrow> after_erasing fn k v (abs_map t))"
proof (cases rule: locate_key [OF assms, of k, case_names here absent])
  case (here u b pos e)
  have "yields Normal_mode t (apply_erasing fn pos u) (after_erasing fn k (kv_mapped e) (abs_map t))"
    using viewed_yields_trans [OF here(2) apply_erasing_spec [OF viewedD(1) [OF here(2)] here(5)]]
      here(6) same_viewD(6) [OF viewedD(2) [OF here(2)]] by simp
  with here show ?thesis
    by (intro exI [of _ "apply_erasing fn pos u"]) (simp add: erase_fn_def Let_def)
next
  case (absent u b pos)
  then show ?thesis
    by (intro exI [of _ u]) (simp add: erase_fn_def Let_def viewed_yields)
qed

section \<open>Insertions\<close>

lemma place_spec:
  assumes "ready mode t"
  obtains u b where "snapshot_and_lock_two mode (hashed_key (hash_fn t) k) t = (u, Inr b)"
    "ends mode t (cuckoo_insert_loop insert_rounds mode (hashed_key (hash_fn t) k) b k u)
       (place_answer mode k t)"
proof -
  obtain u b where u: "snapshot_and_lock_two mode (hashed_key (hash_fn t) k) t = (u, Inr b)"
    "viewed mode t u" "candidates u k b" "hash_fn u = hash_fn t"
    by (rule snapshot_candidates [OF assms])
  have "ends mode u (cuckoo_insert_loop insert_rounds mode (hashed_key (hash_fn t) k) b k u)
      (place_answer mode k u)"
    by (rule cuckoo_insert_loop_spec [OF viewedD(1) [OF u(2)] u(3)])
      (simp_all add: insert_rounds_def u(4))
  then have "ends mode t (cuckoo_insert_loop insert_rounds mode (hashed_key (hash_fn t) k) b k u)
      (place_answer mode k t)"
    by (rule ends_grown [OF _ viewed_grown [OF u(2)]])
      (use grown_trans [OF viewed_grown [OF u(2)]] same_viewD(6) [OF viewedD(2) [OF u(2)]] in
        \<open>simp add: place_answer_def\<close>)
  with u(1) show thesis by (rule that)
qed

lemma place_answer_cases:
  assumes "place_answer mode k t u pos" "ready mode t"
  obtains
    (free) "pos_status pos = Ok" "abs_map t k = None"
      "\<And>v. yields mode t (add_to_bucket (pos_index pos) (pos_slot pos)
         (hv_partial (hashed_key (hash_fn t) k)) k v u) ((abs_map t)(k \<mapsto> v))"
  | (present) v where "pos_status pos = Failure_key_duplicated" "abs_map t k = Some v"
      "\<And>fn. yields mode t (apply_erasing fn pos u) (after_erasing fn k v (abs_map t))"
proof -
  have g: "grown mode t u" using assms(1) by (simp add: place_answer_def)
  have abs: "abs_map u = abs_map t" by (rule grown_abs_map [OF g assms(2)])
  have hv: "hv_partial (hashed_key (hash_fn t) k) = partial_key (hash_fn u k)"
    by (simp add: hashed_key_def Let_def grownD(4) [OF g])
  note ru = grownD(1) [OF g]
  from assms(1) show thesis
    unfolding place_answer_def
  proof (elim conjE disjE exE)
    assume *: "pos_status pos = Ok" "abs_map t k = None"
      "home (hashpower u) (hash_fn u k) (pos_index pos)"
      "at_slot u (pos_index pos) (pos_slot pos) None"
    have "yields mode t (add_to_bucket (pos_index pos) (pos_slot pos)
        (hv_partial (hashed_key (hash_fn t) k)) k v u) ((abs_map t)(k \<mapsto> v))" for v
      using grown_yields_trans [OF g add_to_bucket_spec [OF ru *(4,3)]] *(2) by (simp add: abs hv)
    with *(1,2) show thesis by (rule free)
  next
    fix e
    assume *: "pos_status pos = Failure_key_duplicated"
      "at_slot u (pos_index pos) (pos_slot pos) (Some e)" "kv_key e = k"
    have "abs_map t k = Some (kv_mapped e)"
      using at_slot_live(2) [OF readyD(2) [OF ru] *(2)] *(3) abs by simp
    moreover have "yields mode t (apply_erasing fn pos u) (after_erasing fn k (kv_mapped e) (abs_map t))" for fn
      using grown_yields_trans [OF g apply_erasing_spec [OF ru *(2)]] *(3) by (simp add: abs)
    ultimately show thesis by (rule present [OF *(1)])
  qed
qed

lemma uprase_fn_spec:
  assumes "ready Normal_mode t"
  shows "ends Normal_mode t (uprase_fn k fn val t) (\<lambda>u inserted.
    inserted = (abs_map t k = None) \<and>
    yields Normal_mode t u (case abs_map t k of
        None \<Rightarrow> (abs_map t)(k \<mapsto> val) | Some v \<Rightarrow> after_erasing fn k v (abs_map t)))"
proof -
  obtain u b where u: "snapshot_and_lock_two Normal_mode (hashed_key (hash_fn t) k) t = (u, Inr b)"
    "ends Normal_mode t (cuckoo_insert_loop insert_rounds Normal_mode (hashed_key (hash_fn t) k) b k u)
       (place_answer Normal_mode k t)"
    by (rule place_spec [OF assms])
  show ?thesis
    unfolding uprase_fn_def Let_def u(1) and_then_simps
  proof (rule ends_and_then [OF u(2)])
    fix w pos
    assume "place_answer Normal_mode k t w pos"
    then show "ends Normal_mode t (if pos_status pos = Ok
        then (add_to_bucket (pos_index pos) (pos_slot pos) (hv_partial (hashed_key (hash_fn t) k)) k val w, Inr True)
        else (apply_erasing fn pos w, Inr False)) (\<lambda>u inserted.
          inserted = (abs_map t k = None) \<and>
          yields Normal_mode t u (case abs_map t k of
            None \<Rightarrow> (abs_map t)(k \<mapsto> val) | Some v \<Rightarrow> after_erasing fn k v (abs_map t)))"
      by (cases rule: place_answer_cases [OF _ assms]) (auto simp: ends_def)
  qed
qed

lemma accumrase_fn_spec:
  assumes "ready Normal_mode t"
  shows "ends Normal_mode t (accumrase_fn k fn exist val_or_delta t) (\<lambda>u r.
    r = (abs_map t k = None) \<and>
    yields Normal_mode t u (case abs_map t k of
        None \<Rightarrow> if exist then abs_map t else (abs_map t)(k \<mapsto> val_or_delta)
      | Some v \<Rightarrow> if exist then after_erasing fn k v (abs_map t) else abs_map t))"
proof -
  obtain u b where u: "snapshot_and_lock_two Normal_mode (hashed_key (hash_fn t) k) t = (u, Inr b)"
    "ends Normal_mode t (cuckoo_insert_loop insert_rounds Normal_mode (hashed_key (hash_fn t) k) b k u)
       (place_answer Normal_mode k t)"
    by (rule place_spec [OF assms])
  show ?thesis
    unfolding accumrase_fn_def Let_def u(1) and_then_simps
  proof (rule ends_and_then [OF u(2)])
    fix w pos
    assume pa: "place_answer Normal_mode k t w pos"
    have same: "yields Normal_mode t w (abs_map t)"
      by (rule grown_yields [OF _ assms]) (use pa in \<open>simp add: place_answer_def\<close>)
    from pa show "ends Normal_mode t (if pos_status pos = Ok \<and> \<not> exist
        then add_to_bucket (pos_index pos) (pos_slot pos) (hv_partial (hashed_key (hash_fn t) k)) k val_or_delta w
        else if pos_status pos = Failure_key_duplicated \<and> exist then apply_erasing fn pos w else w,
        Inr (pos_status pos = Ok)) (\<lambda>u r.
          r = (abs_map t k = None) \<and>
          yields Normal_mode t u (case abs_map t k of
              None \<Rightarrow> if exist then abs_map t else (abs_map t)(k \<mapsto> val_or_delta)
            | Some v \<Rightarrow> if exist then after_erasing fn k v (abs_map t) else abs_map t))"
      by (cases rule: place_answer_cases [OF _ assms]) (auto simp: ends_def same)
  qed
qed

end
