(* ===== verification/Cuckoo_Rehash.thy ===== *)
theory Cuckoo_Rehash
  imports Cuckoo_Map_Spec
begin

text \<open>
  Construction, \<open>clear\<close>, \<open>rehash\<close> and \<open>reserve\<close>: a new table is in order and empty,
  clearing empties a table of any kind, and rebuilding one at another hashpower keeps the
  map it denotes.
\<close>

section \<open>Construction\<close>

lemma reserve_calc_loop_ge: "2 ^ reserve_calc_loop n b \<ge> n"
  by (induction n b rule: reserve_calc_loop.induct) (subst reserve_calc_loop.simps, auto)

lemma reserve_calc_loop_exact:
  assumes "b \<le> hp"
  shows "reserve_calc_loop (2 ^ hp) b = hp"
  using assms
proof (induction "2 ^ hp :: nat" b rule: reserve_calc_loop.induct)
  case (1 b)
  show ?case
  proof (cases "b = hp")
    case True
    then show ?thesis by (subst reserve_calc_loop.simps) simp
  next
    case False
    with 1 have lt: "(2::nat) ^ b < 2 ^ hp" by simp
    then have "reserve_calc_loop (2 ^ hp) (Suc b) = hp" using 1 False by simp
    with lt show ?thesis by (subst reserve_calc_loop.simps) simp
  qed
qed

lemma live_empty:
  assumes "\<And>i. i < 2 ^ hashpower t \<Longrightarrow> eff t i = empty_bucket"
  shows "live t = []"
  using assms by (simp add: live_def)

lemma new_map_spec:
  assumes "new_cuckoohash_map limit simple hf n = Inr t" "limit < 60"
  shows "ready mode t" "all_migrated t" "abs_map t = Map.empty" "hashpower t = reserve_calc n"
    "hash_fn t = hf" "is_simple t = simple" "alloc_limit t = limit"
proof -
  let ?hp = "reserve_calc n"
  have t: "t = \<lparr>hash_fn = hf, is_simple = simple, buckets = mk_container ?hp,
      old_buckets = mk_container 0, locks = replicate (min (2 ^ ?hp) kMaxNumLocks) new_spinlock,
      num_remaining = 0, minimum_load_factor = LIBCUCKOO_DEFAULT_MINIMUM_LOAD_FACTOR,
      maximum_hashpower = LIBCUCKOO_NO_MAXIMUM_HASHPOWER, max_num_worker_threads = 6,
      alloc_limit = limit\<rparr>" and le: "?hp \<le> limit"
    using assms(1) by (simp_all add: new_cuckoohash_map_def Let_def split: if_splits)
  show mig: "all_migrated t" by (simp add: all_migrated_def t new_spinlock_def)
  show hp: "hashpower t = ?hp" by (simp add: t hashpower_def mk_container_def)
  have lo: "locks_ok t" by (simp add: locks_ok_def hp) (simp add: t min.commute)
  have eff: "eff t i = empty_bucket" if "i < 2 ^ hashpower t" for i
  proof -
    have "migrated t i"
      using mig lock_ind_less_locks [OF lo that] by (simp add: migrated_def all_migrated_def)
    then show ?thesis using that hp by (simp add: eff_def t mk_container_nth)
  qed
  have live: "live t = []" by (rule live_empty) (rule eff)
  have "lazy_ok t l" if "l < length (locks t)" for l
    using mig that by (simp add: lazy_ok_def all_migrated_def)
  then have "table_struct t"
    using le assms(2) lo hp shaped_mk_container [of ?hp]
    by (simp add: table_struct_def) (simp add: t mk_container_nth)
  moreover have "sum_list (map elem_counter (locks t)) = 0"
    by (simp add: t new_spinlock_def sum_list_replicate)
  ultimately have "table_core t" by (simp add: table_core_def live)
  then show "ready mode t" by (rule all_migrated_ready [OF mig]) (simp add: t)
  show "abs_map t = Map.empty" by (simp add: abs_map_def live)
qed (use assms in \<open>auto simp: new_cuckoohash_map_def Let_def split: if_splits\<close>)

section \<open>Clearing\<close>

lemma erase_fold_bucket:
  assumes "i < length (cont_buckets c)" "n \<le> length (cont_buckets c ! i)"
  shows "fold (\<lambda>j c. if occupied (cont_buckets c ! i) j then eraseKV i j c else c) [0..<n] c
    = c\<lparr>cont_buckets := (cont_buckets c)[i := replicate n None @ drop n (cont_buckets c ! i)]\<rparr>"
  using assms(2)
proof (induction n)
  case 0
  then show ?case by simp
next
  case (Suc n)
  let ?b = "cont_buckets c ! i"
  let ?c = "c\<lparr>cont_buckets := (cont_buckets c)[i := replicate n None @ drop n ?b]\<rparr>"
  have d: "drop n ?b = ?b ! n # drop (Suc n) ?b" using Suc.prems by (simp add: Cons_nth_drop_Suc)
  have b: "cont_buckets ?c ! i = replicate n None @ ?b ! n # drop (Suc n) ?b"
    using assms(1) d by simp
  have r: "(replicate n None @ y # xs) ! n = y"
    "(replicate n None @ y # xs)[n := None] = replicate (Suc n) None @ xs"
    for y and xs :: "('a, 'b) bucket"
    by (simp_all add: nth_append list_update_append replicate_app_Cons_same)
  have "(if occupied (cont_buckets ?c ! i) n then eraseKV i n ?c else ?c)
      = c\<lparr>cont_buckets := (cont_buckets c)[i := replicate (Suc n) None @ drop (Suc n) ?b]\<rparr>"
  proof (cases "?b ! n")
    case None
    then show ?thesis
      using d r(1) [of None "drop (Suc n) ?b"] assms(1)
      by (simp add: occupied_def replicate_app_Cons_same)
  next
    case (Some e)
    have "occupied (cont_buckets ?c ! i) n" unfolding b occupied_def r(1) using Some by simp
    then have "(if occupied (cont_buckets ?c ! i) n then eraseKV i n ?c else ?c) = eraseKV i n ?c"
      by simp
    also have "\<dots> = c\<lparr>cont_buckets := (cont_buckets c)
        [i := (replicate n None @ ?b ! n # drop (Suc n) ?b)[n := None]]\<rparr>"
      unfolding eraseKV_def b by simp
    finally show ?thesis unfolding r(2) .
  qed
  moreover have "fold (\<lambda>j c. if occupied (cont_buckets c ! i) j then eraseKV i j c else c) [0..<Suc n] c
      = (if occupied (cont_buckets ?c ! i) n then eraseKV i n ?c else ?c)"
    using Suc.IH Suc.prems by simp
  ultimately show ?case by (simp only:)
qed

lemma clear_container_spec:
  assumes "shaped c"
  shows "clear_container c = mk_container (cont_hashpower c)"
proof -
  have len: "length (cont_buckets c) = 2 ^ cont_hashpower c"
    using assms by (simp add: shaped_def)
  have bucket: "length (cont_buckets c ! i) = slot_per_bucket" if "i < length (cont_buckets c)" for i
    using assms that by (simp add: shaped_def)
  let ?f = "\<lambda>i c. fold (\<lambda>j c. if occupied (cont_buckets c ! i) j then eraseKV i j c else c)
    [0..<slot_per_bucket] c"
  have "fold ?f [0..<n] c = c\<lparr>cont_buckets := replicate n empty_bucket @ drop n (cont_buckets c)\<rparr>"
    if "n \<le> length (cont_buckets c)" for n
    using that
  proof (induction n)
    case 0
    then show ?case by simp
  next
    case (Suc n)
    let ?bs = "cont_buckets c"
    let ?c = "c\<lparr>cont_buckets := replicate n empty_bucket @ drop n ?bs\<rparr>"
    have d: "drop n ?bs = ?bs ! n # drop (Suc n) ?bs" using Suc.prems by (simp add: Cons_nth_drop_Suc)
    have nth: "cont_buckets ?c ! n = ?bs ! n" "n < length (cont_buckets ?c)"
      using Suc.prems by (simp_all add: nth_append d)
    have "?f n ?c = ?c\<lparr>cont_buckets := (cont_buckets ?c)[n := empty_bucket]\<rparr>"
      using erase_fold_bucket [OF nth(2), of slot_per_bucket] nth(1) bucket [of n] Suc.prems
      by (simp add: empty_bucket_def)
    also have "(cont_buckets ?c)[n := empty_bucket] = replicate (Suc n) empty_bucket @ drop (Suc n) ?bs"
      by (simp add: d list_update_append replicate_app_Cons_same)
    finally show ?case using Suc by simp
  qed
  from this [of "length (cont_buckets c)"]
  have "clear_container c = c\<lparr>cont_buckets := replicate (2 ^ cont_hashpower c) empty_bucket\<rparr>"
    by (simp add: clear_container_def cont_size_def len)
  then show ?thesis by (simp add: mk_container_def)
qed

lemma clear_spec:
  assumes "ready mode t"
  shows "yields mode t (clear t) Map.empty" "cuckoo_size (clear t) = 0"
    "all_migrated (clear t)" "hashpower (clear t) = hashpower t"
proof -
  let ?u = "clear t"
  note core = readyD(2) [OF assms]
  have b: "buckets ?u = mk_container (hashpower t)"
    using clear_container_spec [OF table_coreD(1) [OF core]]
    by (simp add: clear_def cuckoo_clear_def Let_def hashpower_def)
  have l: "locks ?u = map (\<lambda>lk. lk\<lparr>elem_counter := 0, is_migrated := True\<rparr>) (locks t)"
    by (simp add: clear_def cuckoo_clear_def Let_def)
  have f: "hash_fn ?u = hash_fn t" "alloc_limit ?u = alloc_limit t" "num_remaining ?u = 0"
    "same_params t ?u"
    by (simp_all add: clear_def cuckoo_clear_def Let_def same_params_def)
  show hp: "hashpower ?u = hashpower t" using b by (simp add: hashpower_def mk_container_def)
  show mig: "all_migrated ?u" by (auto simp: all_migrated_def l)
  have lo: "locks_ok ?u" using table_coreD(4) [OF core] by (simp add: locks_ok_def hp l)
  have eff: "eff ?u i = empty_bucket" if "i < 2 ^ hashpower ?u" for i
  proof -
    have "migrated ?u i"
      using mig lock_ind_less_locks [OF lo that] by (simp add: migrated_def all_migrated_def)
    then show ?thesis using that hp by (simp add: eff_def b mk_container_nth)
  qed
  have live: "live ?u = []" by (rule live_empty) (rule eff)
  have sum: "sum_list (map elem_counter (locks ?u)) = 0" by (simp add: l comp_def)
  have "lazy_ok ?u m" if "m < length (locks ?u)" for m
    using mig that by (simp add: lazy_ok_def all_migrated_def)
  then have "table_struct ?u"
    using table_coreD(2,3) [OF core] lo hp f shaped_mk_container [of "hashpower t"]
    by (simp add: table_struct_def b mk_container_nth)
  then have "table_core ?u" by (simp add: table_core_def live sum)
  then have "ready mode ?u" by (rule all_migrated_ready [OF mig _ f(3)])
  then show "yields mode t ?u Map.empty" by (simp add: yields_def f(4) abs_map_def live hp)
  show "cuckoo_size ?u = 0" by (simp add: cuckoo_size_def sum)
qed

section \<open>Rebuilding at another hashpower\<close>

lemma cuckoo_map_insert_spec:
  assumes "ready Normal_mode t"
  shows "ends Normal_mode t (cuckoo_map_insert k val t) (\<lambda>u inserted.
    inserted = (abs_map t k = None) \<and>
    yields Normal_mode t u (if abs_map t k = None then (abs_map t)(k \<mapsto> val) else abs_map t))"
proof -
  have "(case abs_map t k of None \<Rightarrow> (abs_map t)(k \<mapsto> val)
        | Some v \<Rightarrow> after_erasing (\<lambda>v. (v, False)) k v (abs_map t))
      = (if abs_map t k = None then (abs_map t)(k \<mapsto> val) else abs_map t)"
    by (auto simp: after_erasing_def split: option.splits)
  then show ?thesis
    using uprase_fn_spec [OF assms, of k "\<lambda>v. (v, False)" val]
    by (simp add: cuckoo_map_insert_def upsert_def)
qed

lemma ends_mono: "ends mode t r Q \<Longrightarrow> (\<And>u a. Q u a \<Longrightarrow> Q' u a) \<Longrightarrow> ends mode t r Q'"
  unfolding ends_def by blast

lemma yields_ends:
  assumes "ends mode u r Q" "yields mode t u m" "abs_map t = m"
    "mset (live u) = mset (live t)"
  shows "ends mode t r Q"
  by (rule ends_grown [OF assms(1)]) (use assms(2-4) in \<open>auto simp: grown_def yields_def\<close>)

definition throwable :: "cuckoo_exn \<Rightarrow> bool" where
  "throwable ex \<longleftrightarrow> ex = Bad_alloc \<or> (\<exists>r. ex = Load_factor_too_low r) \<or>
     (\<exists>n. ex = Maximum_hashpower_exceeded n)"

lemma ends_throwable: "ends mode t (u, Inl ex) Q \<Longrightarrow> throwable ex"
  by (auto simp: ends_def throwable_def growth_refused_def)

text \<open>
  The entries inserted one after the other, without the table they come from: the first
  half of \<open>move_entries\<close>.
\<close>

fun insert_entries ::
  "('k, 'v) kv list \<Rightarrow> ('k, 'v) cuckoo_map \<Rightarrow> ('k, 'v) cuckoo_map \<times> (cuckoo_exn + unit)" where
  "insert_entries [] t = (t, Inr ())"
| "insert_entries (e # es) t =
     and_then (cuckoo_map_insert (kv_key e) (kv_mapped e) t) (\<lambda>_ t. insert_entries es t)"

definition entries_at :: "('k, 'v) bucket list \<Rightarrow> (nat \<times> nat) list \<Rightarrow> ('k, 'v) kv list" where
  "entries_at bs ps = concat (map (\<lambda>(i, j). case bs ! i ! j of None \<Rightarrow> [] | Some e \<Rightarrow> [e]) ps)"

lemma entries_at_simps [simp]:
  "entries_at bs [] = []"
  "entries_at bs (p # ps)
     = (case bs ! fst p ! snd p of None \<Rightarrow> [] | Some e \<Rightarrow> [e]) @ entries_at bs ps"
  "entries_at bs (ps @ qs) = entries_at bs ps @ entries_at bs qs"
  by (simp_all add: entries_at_def case_prod_unfold)

lemma leave_at_other: "(i, j) \<noteq> p \<Longrightarrow> arr (leave_at mv p t) ! i ! j = arr t ! i ! j"
proof (cases p)
  case (Pair a b)
  assume "(i, j) \<noteq> p"
  moreover have "(arr t)[a := (arr t ! a)[b := x]] ! i ! j = arr t ! i ! j"
    if "a \<noteq> i \<or> b \<noteq> j" for x
    using that by (cases "a = i"; cases "a < length (arr t)") (auto simp: list_update_beyond)
  ultimately show ?thesis using Pair by (cases "arr t ! a ! b") auto
qed

lemma leave_at_frame: "\<exists>bs. leave_at mv p t = t\<lparr>buckets := (buckets t)\<lparr>cont_buckets := bs\<rparr>\<rparr>"
proof (cases p)
  case (Pair i j)
  have "\<exists>bs. t = t\<lparr>buckets := (buckets t)\<lparr>cont_buckets := bs\<rparr>\<rparr>" by (rule exI [of _ "arr t"]) simp
  then show ?thesis unfolding Pair by (cases "arr t ! i ! j") auto
qed

lemma leave_at_id: "leave_at (\<lambda>e. e) p t = t"
proof (cases p)
  case (Pair i j)
  have "(arr t)[i := (arr t ! i)[j := arr t ! i ! j]] = arr t" by simp
  then show ?thesis unfolding Pair by (cases "arr t ! i ! j") simp_all
qed

lemma leave_all_frame: "\<exists>bs. fold (leave_at mv) qs t = t\<lparr>buckets := (buckets t)\<lparr>cont_buckets := bs\<rparr>\<rparr>"
proof (induction qs arbitrary: t)
  case Nil
  show ?case by (rule exI [of _ "arr t"]) simp
next
  case (Cons q qs)
  obtain bs where bs: "leave_at mv q t = t\<lparr>buckets := (buckets t)\<lparr>cont_buckets := bs\<rparr>\<rparr>"
    using leave_at_frame by blast
  show ?case using Cons [of "leave_at mv q t"] by (auto simp: bs)
qed

lemma leave_all_id: "fold (leave_at (\<lambda>e. e)) qs t = t"
  by (induction qs) (simp_all add: leave_at_id)

lemma leave_at_shaped:
  assumes "shaped (buckets t)"
  shows "shaped (buckets (leave_at mv p t))" "length (arr (leave_at mv p t)) = length (arr t)"
proof -
  obtain i j where p: "p = (i, j)" by fastforce
  show len: "length (arr (leave_at mv p t)) = length (arr t)"
    unfolding p by (cases "arr t ! i ! j") simp_all
  have "\<forall>b\<in>set ((arr t)[i := (arr t ! i)[j := x]]). length b = slot_per_bucket" for x
  proof (cases "i < length (arr t)")
    case True
    then have "length ((arr t ! i)[j := x]) = slot_per_bucket" using assms by (simp add: shaped_def)
    then show ?thesis
      using set_update_subset_insert [of "arr t" i "(arr t ! i)[j := x]"] assms
      unfolding shaped_def by blast
  next
    case False
    then show ?thesis using assms by (simp add: shaped_def list_update_beyond)
  qed
  then show "shaped (buckets (leave_at mv p t))"
    using assms len unfolding p by (cases "arr t ! i ! j") (simp_all add: shaped_def)
qed

text \<open>After a partial expansion every slot holds its entry, or what the move left of it.\<close>

lemma leave_all_slots:
  assumes "distinct qs" "shaped (buckets t)" "i < length (arr t)" "j < slot_per_bucket"
  shows "arr (fold (leave_at mv) qs t) ! i ! j
    = (if (i, j) \<in> set qs then map_option mv (arr t ! i ! j) else arr t ! i ! j)"
  using assms
proof (induction qs arbitrary: t)
  case Nil
  then show ?case by simp
next
  case (Cons q qs)
  obtain a b where q: "q = (a, b)" by fastforce
  have len: "length (arr t ! i) = slot_per_bucket" using Cons.prems by (simp add: shaped_def)
  have "shaped (buckets (leave_at mv q t))" "i < length (arr (leave_at mv q t))"
    using leave_at_shaped [OF Cons.prems(2), of mv q] Cons.prems(3) by simp_all
  note IH = Cons.IH [OF _ this Cons.prems(4)]
  show ?case
  proof (cases "q = (i, j)")
    case True
    then have "arr (leave_at mv q t) ! i ! j = map_option mv (arr t ! i ! j)"
      using Cons.prems(3,4) len by (auto split: option.splits)
    then show ?thesis using IH Cons.prems(1) True by simp
  next
    case False
    then have "arr (leave_at mv q t) ! i ! j = arr t ! i ! j" by (simp add: leave_at_other)
    then show ?thesis using IH Cons.prems(1) False by auto
  qed
qed

lemma move_entries_sim:
  assumes "distinct ps"
  obtains qs where "set qs \<subseteq> set ps" "distinct qs"
    "move_entries mv ps (m, t) = ((fst (insert_entries (entries_at (arr t) ps) m),
       fold (leave_at mv) qs t), snd (insert_entries (entries_at (arr t) ps) m))"
  using assms
proof (induction ps arbitrary: m t thesis)
  case Nil
  show ?case by (rule Nil(1) [of "[]"]) simp_all
next
  case (Cons p ps)
  obtain i j where p: "p = (i, j)" by fastforce
  show ?case
  proof (cases "arr t ! i ! j")
    case None
    obtain qs where "set qs \<subseteq> set ps" "distinct qs"
      "move_entries mv ps (m, t) = ((fst (insert_entries (entries_at (arr t) ps) m),
         fold (leave_at mv) qs t), snd (insert_entries (entries_at (arr t) ps) m))"
      by (rule Cons.IH) (use Cons.prems(2) in auto)
    then show ?thesis using Cons.prems(1) [of qs] None p by auto
  next
    case (Some e)
    obtain w r where w: "cuckoo_map_insert (kv_key e) (kv_mapped e) m = (w, r)" by fastforce
    show ?thesis
    proof (cases r)
      case (Inl ex)
      show ?thesis by (rule Cons.prems(1) [of "[]"]) (use Some p w Inl in simp_all)
    next
      case (Inr inserted)
      let ?t = "if inserted then leave_at mv p t else t"
      have same: "entries_at (arr ?t) ps = entries_at (arr t) ps"
      proof -
        have "arr ?t ! a ! b = arr t ! a ! b" if "(a, b) \<in> set ps" for a b
          using Cons.prems(2) that leave_at_other [of a b p] by auto
        then show ?thesis unfolding entries_at_def by (intro arg_cong [where f = concat] map_cong) auto
      qed
      obtain qs where qs: "set qs \<subseteq> set ps" "distinct qs"
        "move_entries mv ps (w, ?t) = ((fst (insert_entries (entries_at (arr ?t) ps) w),
           fold (leave_at mv) qs ?t), snd (insert_entries (entries_at (arr ?t) ps) w))"
        by (rule Cons.IH) (use Cons.prems(2) in auto)
      have "move_entries mv (p # ps) (m, t) = move_entries mv ps (w, ?t)"
        using Some w Inr unfolding p by simp
      moreover have "insert_entries (entries_at (arr t) (p # ps)) m = insert_entries (entries_at (arr t) ps) w"
        using Some w Inr unfolding p by simp
      ultimately show ?thesis
        using Cons.prems(1) [of "if inserted then p # qs else qs"] qs(1,2) Cons.prems(2) qs(3) [unfolded same]
        by (cases inserted) auto
    qed
  qed
qed

definition insert_range ::
  "(nat \<Rightarrow> nat \<Rightarrow> ('k, 'v) kv list) \<Rightarrow> nat \<times> nat \<Rightarrow> ('k, 'v) cuckoo_map \<times> (cuckoo_exn + unit)
     \<Rightarrow> ('k, 'v) cuckoo_map \<times> (cuckoo_exn + unit)" where
  "insert_range f = (\<lambda>(a, b) (s, eptr). case insert_entries (f a b) s of (s, r) \<Rightarrow>
     (s, case eptr of Inl ex \<Rightarrow> Inl ex | Inr _ \<Rightarrow> r))"

lemma insert_entries_spec:
  assumes "ready Normal_mode t" "distinct (map kv_key es)"
    and "\<forall>e\<in>set es. abs_map t (kv_key e) = None"
  shows "case insert_entries es t of
      (u, Inr _) \<Rightarrow> yields Normal_mode t u (abs_map t ++ map_of (map pair_of es))
    | (u, Inl ex) \<Rightarrow> throwable ex"
  using assms
proof (induction es arbitrary: t)
  case Nil
  then show ?case by (simp add: yields_def)
next
  case (Cons e es)
  have none: "abs_map t (kv_key e) = None" using Cons.prems(3) by simp
  from cuckoo_map_insert_spec [OF Cons.prems(1), of "kv_key e" "kv_mapped e"] show ?case
  proof (cases rule: endsE)
    case (returns u inserted)
    then have y: "yields Normal_mode t u ((abs_map t)(kv_key e \<mapsto> kv_mapped e))"
      using none by simp
    have step: "insert_entries (e # es) t = insert_entries es u" using returns(1) by simp
    have absent: "abs_map u (kv_key x) = None" if "x \<in> set es" for x
    proof -
      have "kv_key x \<noteq> kv_key e" using Cons.prems(2) that by (metis distinct.simps(2) image_eqI list.set_map list.simps(9))
      then show ?thesis using Cons.prems(3) that yieldsD(3) [OF y] by simp
    qed
    have "case insert_entries es u of
        (w, Inr _) \<Rightarrow> yields Normal_mode u w (abs_map u ++ map_of (map pair_of es))
      | (w, Inl ex) \<Rightarrow> throwable ex"
      by (rule Cons.IH) (use Cons.prems(2) yieldsD(1) [OF y] absent in simp_all)
    moreover have "(abs_map t)(kv_key e \<mapsto> kv_mapped e) ++ map_of (map pair_of es)
        = abs_map t ++ map_of (map pair_of (e # es))"
    proof -
      have "kv_key e \<notin> dom (map_of (map pair_of es))"
        using Cons.prems(2) by (auto simp: dom_map_of_conv_image_fst)
      then show ?thesis by (simp add: map_add_upd_left pair_of_def)
    qed
    ultimately show ?thesis
      unfolding step yieldsD(3) [OF y]
      by (auto split: prod.splits sum.splits intro: yields_trans [OF y])
  next
    case (refuses u ex)
    then show ?thesis by (auto simp: throwable_def growth_refused_def)
  next
    case (nomem u w)
    then show ?thesis by (simp add: throwable_def)
  qed
qed

lemma parallel_exec_Inl:
  "snd (fold (insert_range f) rs (s, Inl ex)) = Inl ex"
  by (induction rs arbitrary: s) (auto simp: insert_range_def split: prod.splits)

lemma parallel_insert_spec:
  assumes "ready Normal_mode t"
    and "distinct (map kv_key (concat (map (\<lambda>(a, b). f a b) rs)))"
    and "\<forall>e\<in>set (concat (map (\<lambda>(a, b). f a b) rs)). abs_map t (kv_key e) = None"
  shows "case fold (insert_range f) rs (t, Inr ()) of
      (u, Inr _) \<Rightarrow> yields Normal_mode t u
        (abs_map t ++ map_of (map pair_of (concat (map (\<lambda>(a, b). f a b) rs))))
    | (u, Inl ex) \<Rightarrow> throwable ex"
  using assms
proof (induction rs arbitrary: t)
  case Nil
  then show ?case by (simp add: yields_def)
next
  case (Cons r rs)
  obtain a b where r: "r = (a, b)" by fastforce
  let ?rest = "concat (map (\<lambda>(a, b). f a b) rs)"
  have head: "case insert_entries (f a b) t of
      (u, Inr _) \<Rightarrow> yields Normal_mode t u (abs_map t ++ map_of (map pair_of (f a b)))
    | (u, Inl ex) \<Rightarrow> throwable ex"
    by (rule insert_entries_spec) (use Cons.prems r in auto)
  obtain u res where u: "insert_entries (f a b) t = (u, res)" by fastforce
  show ?case
  proof (cases res)
    case (Inl ex)
    then show ?thesis
      using head u r parallel_exec_Inl [of f rs u ex]
      by (cases "fold (insert_range f) rs (u, Inl ex)") (simp add: insert_range_def)
  next
    case (Inr x)
    then have y: "yields Normal_mode t u (abs_map t ++ map_of (map pair_of (f a b)))"
      using head u by simp
    have dist: "distinct (map kv_key (f a b) @ map kv_key ?rest)"
      using Cons.prems(2) r by (simp only: list.map concat.simps map_append prod.case)
    then have "set (map kv_key (f a b)) \<inter> set (map kv_key ?rest) = {}"
      by (simp only: distinct_append)
    then have disj: "kv_key e \<notin> kv_key ` set (f a b)" if "e \<in> set ?rest" for e
      using that by (metis disjoint_iff image_eqI list.set_map)
    then have "abs_map u (kv_key e) = None" if "e \<in> set ?rest" for e
      using Cons.prems(3) r that disj [OF that] yieldsD(3) [OF y]
      by (force simp: map_add_None map_of_eq_None_iff)
    then have IH: "case fold (insert_range f) rs (u, Inr ()) of
      (w, Inr _) \<Rightarrow> yields Normal_mode u w (abs_map u ++ map_of (map pair_of ?rest))
    | (w, Inl ex) \<Rightarrow> throwable ex"
      by (intro Cons.IH) (use Cons.prems r yieldsD(1) [OF y] in auto)
    have swap: "map_of (map pair_of (f a b)) ++ map_of (map pair_of ?rest)
        = map_of (map pair_of ?rest) ++ map_of (map pair_of (f a b))"
    proof (rule map_add_comm)
      have "dom (map_of (map pair_of es)) = set (map kv_key es)" for es :: "('a, 'b) kv list"
        by (auto simp: dom_map_of_conv_image_fst image_iff)
      then show "dom (map_of (map pair_of (f a b))) \<inter> dom (map_of (map pair_of ?rest)) = {}"
        using dist by (simp only: distinct_append)
    qed
    have eq: "abs_map u ++ map_of (map pair_of ?rest)
        = abs_map t ++ map_of (map pair_of (concat (map (\<lambda>(a, b). f a b) (r # rs))))"
      using swap by (simp add: yieldsD(3) [OF y] r map_add_assoc flip: map_add_assoc)
    have step: "fold (insert_range f) (r # rs) (t, Inr ())
      = fold (insert_range f) rs (u, Inr ())"
      using u Inr r by (simp add: insert_range_def)
    show ?thesis
      unfolding step using IH unfolding eq
      by (auto split: prod.splits sum.splits intro: yields_trans [OF y])
  qed
qed

lemma reserve_calc_hashsize:
  assumes "hp < 62"
  shows "reserve_calc (hashsize hp * of_nat slot_per_bucket) = hp"
proof -
  have "(2::nat) ^ (hp + 2) \<le> 2 ^ 63" by (rule power_increasing) (use assms in simp_all)
  then have lt: "(2::nat) ^ (hp + 2) + 3 < 2 ^ 64" by simp
  have "hashsize hp * of_nat slot_per_bucket = (2 ^ (hp + 2) :: u64)"
    by (simp add: hashsize_def slot_per_bucket_def push_bit_eq_mult)
  moreover have u: "unat (2 ^ (hp + 2) :: u64) = 2 ^ (hp + 2)"
  proof -
    have "unat (of_nat (2 ^ (hp + 2)) :: u64) = 2 ^ (hp + 2) mod 2 ^ 64"
      by (simp only: unat_of_nat len_num1 len_bit0 len_bit1) simp
    also have "\<dots> = 2 ^ (hp + 2)" using lt by simp
    finally show ?thesis by simp
  qed
  have "unat (2 ^ (hp + 2) + 3 :: u64) = 2 ^ (hp + 2) + 3"
    unfolding unat_word_ariths u using lt by simp
  then have "unat ((2 ^ (hp + 2) + 3 :: u64) div 4) = (2 ^ (hp + 2) + 3) div 4"
    by (simp add: unat_div)
  moreover have "((2::nat) ^ (hp + 2) + 3) div 4 = 2 ^ hp" by (simp add: power_add)
  ultimately show ?thesis
    by (simp add: reserve_calc_def slot_per_bucket_def reserve_calc_loop_exact add_diff_eq [symmetric])
qed

definition rebuilt ::
  "table_mode \<Rightarrow> ('k, 'v) cuckoo_map \<Rightarrow> ('k, 'v) cuckoo_map \<Rightarrow> bool" where
  "rebuilt mode t u \<longleftrightarrow> ready mode u \<and> same_params t u \<and> abs_map u = abs_map t"

lemma all_migrated_live:
  assumes "all_migrated t" "table_core t"
  shows "live t = concat (map (\<lambda>i. contents (arr t ! i)) [0..<2 ^ hashpower t])"
  unfolding live_def
  by (rule arg_cong [where f = concat], rule map_cong)
    (simp_all add: all_migrated_eff [OF assms])

lemma replace_buckets:
  assumes t: "ready mode t" "all_migrated t" and m: "ready mode m" "all_migrated m"
    and "hash_fn m = hash_fn t" "alloc_limit m = alloc_limit t" "abs_map m = abs_map t"
  defines "u \<equiv> (maybe_resize_locks (bucket_count m) t)\<lparr>buckets := buckets m\<rparr>"
  shows "rebuilt mode t u" "all_migrated u" "hashpower u = hashpower m"
proof -
  note core_t = readyD(2) [OF t(1)] and core_m = readyD(2) [OF m(1)]
  obtain e where e: "maybe_resize_locks (bucket_count m) t = t\<lparr>locks := locks t @ replicate e new_spinlock\<rparr>"
    "length (locks t) \<le> kMaxNumLocks \<Longrightarrow> length (locks t) + e \<le> kMaxNumLocks"
    "min kMaxNumLocks (bucket_count m) \<le> length (locks t) + e"
    by (rule maybe_resize_locks_spec [of "bucket_count m" t]) (rule that)
  have u: "u = t\<lparr>locks := locks t @ replicate e new_spinlock, buckets := buckets m\<rparr>"
    by (simp add: u_def e(1))
  show hp: "hashpower u = hashpower m" by (simp add: u hashpower_def)
  have bc: "bucket_count m = 2 ^ hashpower m"
    by (simp add: bucket_count_def cont_size_def hashpower_def)
  have lo: "locks_ok u"
    using e(2,3) table_coreD(4) [OF core_t] hp bc by (simp add: locks_ok_def u)
  show mig: "all_migrated u" using t(2) by (auto simp: all_migrated_def u new_spinlock_def)
  have "eff u i = eff m i" if "i < 2 ^ hashpower m" for i
  proof -
    have "migrated u i"
      using mig lock_ind_less_locks [OF lo] that hp by (simp add: migrated_def all_migrated_def)
    then show ?thesis using all_migrated_eff [OF m(2) core_m that] by (simp add: eff_def u)
  qed
  then have live: "live u = live m" by (intro live_cong hp)
  then have abs: "abs_map u = abs_map t" using assms(7) by (simp add: abs_map_def)
  have "lazy_ok u l" if "l < length (locks u)" for l
    using mig that by (simp add: lazy_ok_def all_migrated_def)
  then have "table_struct u"
    using table_coreD(1,2,6) [OF core_m] table_coreD(3) [OF core_t] lo hp assms(5,6)
    by (simp add: table_struct_def) (simp add: u)
  moreover have "length (live u) = length (live t)"
  proof -
    have "length (live m) = card (dom (abs_map m))" "length (live t) = card (dom (abs_map t))"
      using card_dom_abs_map table_coreD(7) core_t core_m by metis+
    then show ?thesis using live assms(7) by simp
  qed
  moreover have "sum_list (map elem_counter (locks u)) = sum_list (map elem_counter (locks t))"
    by (simp add: u new_spinlock_def sum_list_replicate)
  ultimately have "table_core u"
    using live table_coreD(7) [OF core_m] table_coreD(8) [OF core_t] by (simp add: table_core_def)
  moreover have "num_remaining u = 0"
    using readyD(1) [OF t(1)] all_migrated_unmigrated [OF t(2)] by (simp add: table_ok_def u)
  ultimately show "rebuilt mode t u"
    using all_migrated_ready [OF mig] abs by (simp add: rebuilt_def same_params_def u)
qed

lemma rebuilt_trans: "rebuilt mode t u \<Longrightarrow> rebuilt mode u w \<Longrightarrow> rebuilt mode t w"
  by (auto simp: rebuilt_def intro: same_params_trans)

text \<open>The number of workers set in a new map changes nothing else.\<close>

lemma set_workers_frame:
  "table_core (set_max_num_worker_threads n t) = table_core t"
  "live (set_max_num_worker_threads n t) = live t"
  "hashpower (set_max_num_worker_threads n t) = hashpower t"
proof -
  let ?u = "set_max_num_worker_threads n t"
  have e: "eff ?u i = eff t i" for i
    by (simp add: set_max_num_worker_threads_def eff_def migrated_def pending_def hashpower_def Let_def)
  show hp: "hashpower ?u = hashpower t" by (simp add: set_max_num_worker_threads_def hashpower_def)
  show l: "live ?u = live t" by (simp add: live_def e hp)
  have "lazy_ok ?u l = lazy_ok t l" for l
    by (simp add: lazy_ok_def hp) (simp add: set_max_num_worker_threads_def)
  then show "table_core ?u = table_core t"
    by (simp add: table_core_def table_struct_def l hp locks_ok_def) (simp add: set_max_num_worker_threads_def)
qed

lemma set_workers_ready: "ready Normal_mode (set_max_num_worker_threads n t) = ready Normal_mode t"
  by (simp add: ready_def table_ok_def mode_ok_def unmigrated_def set_workers_frame)
    (simp add: set_max_num_worker_threads_def)

text \<open>
  The workers of an expansion read every slot of the migrated table once, and each moves
  entries out of its own slots only.
\<close>

lemma bucket_slots_product: "bucket_slots i stop = List.product [i..<stop] [0..<slot_per_bucket]"
proof -
  have "concat (map (\<lambda>i. map (Pair i) ys) xs) = List.product xs ys" for xs ys :: "nat list"
    by (induction xs) simp_all
  then show ?thesis by (simp add: bucket_slots_def)
qed

lemma work_ranges_slots:
  "concat (map (\<lambda>(i, stop). bucket_slots i stop) (work_ranges n 0 m)) = bucket_slots 0 m"
proof -
  have "concat (map (\<lambda>(i, stop). concat (map g [i..<stop])) rs)
      = concat (map g (concat (map (\<lambda>(i, stop). [i..<stop]) rs)))" for g :: "nat \<Rightarrow> (nat \<times> nat) list" and rs
    by (induction rs) auto
  then show ?thesis by (simp add: bucket_slots_def work_ranges_cover)
qed

lemma entries_at_bucket:
  assumes "length (bs ! i) = slot_per_bucket"
  shows "entries_at bs (map (Pair i) [0..<slot_per_bucket]) = contents (bs ! i)"
proof -
  have "entries_at bs (map (Pair i) [0..<n]) = contents (take n (bs ! i))"
    if "n \<le> length (bs ! i)" for n
    using that
  proof (induction n)
    case 0
    then show ?case by simp
  next
    case (Suc n)
    then show ?case
      by (cases "bs ! i ! n") (simp_all add: take_Suc_conv_app_nth contents_def)
  qed
  from this [of slot_per_bucket] assms show ?thesis by simp
qed

lemma entries_at_buckets:
  assumes "\<And>i. i \<in> set xs \<Longrightarrow> length (bs ! i) = slot_per_bucket"
  shows "entries_at bs (concat (map (\<lambda>i. map (Pair i) [0..<slot_per_bucket]) xs))
    = concat (map (\<lambda>i. contents (bs ! i)) xs)"
  using assms by (induction xs) (simp_all add: entries_at_bucket)

lemma work_ranges_live:
  assumes "all_migrated t" "table_core t"
  shows "concat (map (\<lambda>(i, stop). entries_at (arr t) (bucket_slots i stop))
    (work_ranges n 0 (2 ^ hashpower t))) = live t"
proof -
  have "concat (map (\<lambda>(i, stop). entries_at (arr t) (bucket_slots i stop)) rs)
      = entries_at (arr t) (concat (map (\<lambda>(i, stop). bucket_slots i stop) rs))" for rs
    by (induction rs) auto
  moreover have "entries_at (arr t) (bucket_slots 0 (2 ^ hashpower t)) = live t"
    unfolding bucket_slots_def all_migrated_live [OF assms]
    by (rule entries_at_buckets)
      (use table_coreD(1) [OF assms(2)] in \<open>simp add: shaped_def hashpower_def\<close>)
  ultimately show ?thesis by (simp add: work_ranges_slots)
qed

lemma move_ranges_sim:
  assumes "distinct (concat (map (\<lambda>(a, b). bucket_slots a b) rs))"
    and "\<And>p. p \<in> set (concat (map (\<lambda>(a, b). bucket_slots a b) rs)) \<Longrightarrow> arr t ! fst p ! snd p = bs ! fst p ! snd p"
  defines "g \<equiv> \<lambda>a b. entries_at bs (bucket_slots a b)"
  obtains qs where "set qs \<subseteq> set (concat (map (\<lambda>(a, b). bucket_slots a b) rs))" "distinct qs"
    "fold (\<lambda>(a, b) (s, eptr). case move_entries mv (bucket_slots a b) s of (s, r) \<Rightarrow>
         (s, case eptr of Inl ex \<Rightarrow> Inl ex | Inr _ \<Rightarrow> r)) rs ((m, t), e)
      = ((fst (fold (insert_range g) rs (m, e)), fold (leave_at mv) qs t),
         snd (fold (insert_range g) rs (m, e)))"
  using assms(1,2)
proof (induction rs arbitrary: m t e thesis)
  case Nil
  show ?case by (rule Nil(1) [of "[]"]) simp_all
next
  case (Cons r rs)
  obtain a b where r: "r = (a, b)" by fastforce
  have d: "distinct (bucket_slots a b)" "distinct (concat (map (\<lambda>(a, b). bucket_slots a b) rs))"
    "set (bucket_slots a b) \<inter> set (concat (map (\<lambda>(a, b). bucket_slots a b) rs)) = {}"
    using Cons.prems(2) r by (simp_all only: list.map concat.simps prod.case distinct_append)
  obtain ps where ps: "set ps \<subseteq> set (bucket_slots a b)" "distinct ps"
    "move_entries mv (bucket_slots a b) (m, t)
      = ((fst (insert_entries (entries_at (arr t) (bucket_slots a b)) m), fold (leave_at mv) ps t),
         snd (insert_entries (entries_at (arr t) (bucket_slots a b)) m))"
    by (rule move_entries_sim [OF d(1)])
  have g: "entries_at (arr t) (bucket_slots a b) = g a b"
    unfolding entries_at_def g_def
    by (rule arg_cong [where f = concat], rule map_cong) (use Cons.prems(3) r in force)+
  obtain w x where w: "insert_entries (g a b) m = (w, x)" by fastforce
  let ?t = "fold (leave_at mv) ps t" and ?e = "case e of Inl ex \<Rightarrow> Inl ex | Inr _ \<Rightarrow> x"
  have keep: "arr (fold (leave_at mv) ps' t') ! fst p ! snd p = arr t' ! fst p ! snd p"
    if "p \<notin> set ps'" for p ps' t'
    using that by (induction ps' arbitrary: t') (auto simp: leave_at_other)
  have "arr ?t ! fst p ! snd p = bs ! fst p ! snd p"
    if "p \<in> set (concat (map (\<lambda>(a, b). bucket_slots a b) rs))" for p
  proof -
    have "p \<notin> set ps" using ps(1) d(3) that by blast
    then show ?thesis using keep [of p ps t] Cons.prems(3) [of p] that r by simp
  qed
  then obtain qs where qs: "set qs \<subseteq> set (concat (map (\<lambda>(a, b). bucket_slots a b) rs))" "distinct qs"
    "fold (\<lambda>(a, b) (s, eptr). case move_entries mv (bucket_slots a b) s of (s, r) \<Rightarrow>
         (s, case eptr of Inl ex \<Rightarrow> Inl ex | Inr _ \<Rightarrow> r)) rs ((w, ?t), ?e)
      = ((fst (fold (insert_range g) rs (w, ?e)), fold (leave_at mv) qs ?t),
         snd (fold (insert_range g) rs (w, ?e)))"
    by (rule Cons.IH [of w ?t ?e, rotated 1, OF d(2)])
  show ?case
    by (rule Cons.prems(1) [of "ps @ qs"])
      (use ps qs d(3) w r in \<open>auto simp: g insert_range_def\<close>)
qed

text \<open>
  What an expansion that throws leaves behind: the old table, migrated, with some entries
  moved out of their slots.
\<close>

definition part_moved ::
  "(('k, 'v) kv \<Rightarrow> ('k, 'v) kv) \<Rightarrow> ('k, 'v) cuckoo_map \<Rightarrow> ('k, 'v) cuckoo_map \<Rightarrow> bool" where
  "part_moved mv t u \<longleftrightarrow> hashpower u = hashpower t \<and> cuckoo_size u = cuckoo_size t \<and>
     (\<exists>moved. \<forall>i<2 ^ hashpower t. \<forall>j < slot_per_bucket.
        eff u i ! j = (if (i, j) \<in> moved then map_option mv (eff t i ! j) else eff t i ! j))"

lemma leave_all_part_moved:
  assumes t: "all_migrated a" "table_core a" and "distinct qs"
    and "same_view t a"
  shows "part_moved mv t (fold (leave_at mv) qs a)"
proof -
  let ?u = "fold (leave_at mv) qs a"
  obtain bs where bs: "?u = a\<lparr>buckets := (buckets a)\<lparr>cont_buckets := bs\<rparr>\<rparr>"
    using leave_all_frame by blast
  have hp: "hashpower ?u = hashpower a" by (simp add: bs hashpower_def)
  have e: "eff ?u i = arr ?u ! i" if "i < 2 ^ hashpower a" for i
  proof -
    have "migrated ?u i = migrated a i" by (simp add: bs migrated_def)
    moreover have "migrated a i"
      using t(1) lock_ind_less_locks [OF table_coreD(4) [OF t(2)] that] by (simp add: migrated_def all_migrated_def)
    ultimately show ?thesis by (simp add: eff_def)
  qed
  have len: "length (arr a) = 2 ^ hashpower a" and sh: "shaped (buckets a)"
    using table_coreD(1) [OF t(2)] by (simp_all add: shaped_def hashpower_def)
  have "eff ?u i ! j = (if (i, j) \<in> set qs then map_option mv (eff t i ! j) else eff t i ! j)"
    if "i < 2 ^ hashpower t" "j < slot_per_bucket" for i j
  proof -
    have i: "i < 2 ^ hashpower a" using that(1) same_viewD(3) [OF assms(4)] by simp
    show ?thesis
      using leave_all_slots [OF assms(3) sh _ that(2), of i mv] len i e [OF i]
        all_migrated_eff [OF t i] same_viewD(7) [OF assms(4), of i] that(1) by simp
  qed
  moreover have "cuckoo_size ?u = cuckoo_size t"
    using same_viewD(10) [OF assms(4)] by (simp add: bs cuckoo_size_def)
  ultimately show ?thesis
    unfolding part_moved_def using hp same_viewD(3) [OF assms(4)] by auto
qed

lemma expand_ranges_spec:
  assumes a: "ready mode a" "all_migrated a" and m: "ready Normal_mode m" "abs_map m = Map.empty"
  obtains w qs x where "parallel_exec n 0 (2 ^ hashpower a)
      (\<lambda>i stop. move_entries mv (bucket_slots i stop)) (m, a) = ((w, fold (leave_at mv) qs a), x)"
    "distinct qs"
    "case x of Inr _ \<Rightarrow> yields Normal_mode m w (abs_map a) | Inl ex \<Rightarrow> throwable ex"
proof -
  let ?rs = "work_ranges n 0 (2 ^ hashpower a)"
  let ?g = "\<lambda>i stop. entries_at (arr a) (bucket_slots i stop)"
  note core = readyD(2) [OF a(1)]
  have all: "concat (map (\<lambda>(i, stop). ?g i stop) ?rs) = live a"
    by (rule work_ranges_live [OF a(2) core])
  have "distinct (bucket_slots 0 (2 ^ hashpower a))"
    by (simp add: bucket_slots_product distinct_product)
  then have d: "distinct (concat (map (\<lambda>(a, b). bucket_slots a b) ?rs))"
    by (simp only: work_ranges_slots)
  obtain qs where qs: "distinct qs"
    "fold (\<lambda>(a, b) (s, eptr). case move_entries mv (bucket_slots a b) s of (s, r) \<Rightarrow>
         (s, case eptr of Inl ex \<Rightarrow> Inl ex | Inr _ \<Rightarrow> r)) ?rs ((m, a), Inr ())
      = ((fst (fold (insert_range ?g) ?rs (m, Inr ())), fold (leave_at mv) qs a),
         snd (fold (insert_range ?g) ?rs (m, Inr ())))"
    by (rule move_ranges_sim [OF d, where t = a and bs = "arr a" and m = m and mv = mv and e = "Inr ()"]) simp_all
  obtain w x where w: "fold (insert_range ?g) ?rs (m, Inr ()) = (w, x)" by fastforce
  have "case (w, x) of
      (u, Inr _) \<Rightarrow> yields Normal_mode m u (abs_map m ++ map_of (map pair_of (live a)))
    | (u, Inl ex) \<Rightarrow> throwable ex"
    using parallel_insert_spec [OF m(1), of ?g ?rs] table_coreD(7) [OF core] m(2)
    unfolding all w by simp
  then show thesis
    using that [of w qs x] qs w m(2) by (auto simp: parallel_exec_def abs_map_def split: sum.splits)
qed

lemma cuckoo_expand_simple_spec:
  assumes r: "ready mode t"
  obtains (built) u where "cuckoo_expand_simple mv auto_resize new_hp t = (u, Inr Ok)"
      "rebuilt mode t u" "all_migrated u" "new_hp < 62 \<Longrightarrow> new_hp \<le> hashpower u"
  | (refused) ex where "cuckoo_expand_simple mv auto_resize new_hp t = (t, Inl ex)"
      "check_resize_validity auto_resize (hashpower t) new_hp t = (t, Inl ex)" "throwable ex"
  | (nomem) u where "cuckoo_expand_simple mv auto_resize new_hp t = (u, Inl Bad_alloc)"
      "alloc_limit t < reserve_calc (hashsize new_hp * of_nat slot_per_bucket)"
      "rebuilt mode t u" "part_moved mv t u"
  | (thrown) u ex where "cuckoo_expand_simple mv auto_resize new_hp t = (u, Inl ex)"
      "reserve_calc (hashsize new_hp * of_nat slot_per_bucket) \<le> alloc_limit t"
      "part_moved mv t u" "throwable ex" "mv = (\<lambda>e. e) \<Longrightarrow> rebuilt mode t u"
proof (cases rule: check_resize_validity_cases [of t new_hp auto_resize "hashpower t"])
  case valid
  let ?a = "rehash_with_workers t" and ?n = "hashsize new_hp * of_nat slot_per_bucket :: u64"
  note a = rehash_with_workers_spec [OF readyD(2) [OF r]]
  have ra: "rebuilt mode t ?a"
    using a(1) same_view_params [OF a(3)] same_viewD(6) [OF a(3)] by (simp add: rebuilt_def)
  have lim: "alloc_limit ?a < 60" "alloc_limit ?a = alloc_limit t"
    using table_coreD(3) [OF readyD(2) [OF a(1)]] same_viewD(4) [OF a(3)] by simp_all
  have pm: "part_moved mv t (fold (leave_at mv) qs ?a)" if "distinct qs" for qs
    by (rule leave_all_part_moved [OF a(2) readyD(2) [OF a(1)] that a(3)])
  show thesis
  proof (cases "new_cuckoohash_map (alloc_limit ?a) (is_simple ?a) (hash_fn ?a) ?n
      :: cuckoo_exn + ('a, 'b) cuckoo_map")
    case (Inl ex)
    then have "ex = Bad_alloc \<and> alloc_limit t < reserve_calc ?n"
      by (auto simp: new_cuckoohash_map_def Let_def lim(2) split: if_splits)
    moreover have "cuckoo_expand_simple mv auto_resize new_hp t = (?a, Inl ex)"
      using valid(2) Inl by (simp add: cuckoo_expand_simple_def)
    ultimately show thesis using nomem ra pm [of "[]"] by simp
  next
    case (Inr m0)
    let ?m = "set_max_num_worker_threads (max_num_worker_threads ?a) m0"
    note m0 = new_map_spec [OF Inr lim(1)]
    have fits: "reserve_calc ?n \<le> alloc_limit t"
      using Inr by (auto simp: new_cuckoohash_map_def Let_def lim(2) split: if_splits)
    have m: "ready Normal_mode ?m" "abs_map ?m = Map.empty" "hashpower ?m = reserve_calc ?n"
      "hash_fn ?m = hash_fn ?a" "alloc_limit ?m = alloc_limit ?a"
      using m0(1) [of Normal_mode] m0(3,4) by (simp_all add: set_workers_ready set_workers_frame abs_map_def)
        (use m0(5,7) in \<open>simp_all add: set_max_num_worker_threads_def\<close>)
    have hp: "hashpower ?a = hashpower t" by (rule same_viewD(3) [OF a(3)])
    obtain w qs x where w: "parallel_exec (max_num_worker_threads ?a) 0 (2 ^ hashpower t)
        (\<lambda>i stop. move_entries mv (bucket_slots i stop)) (?m, ?a) = ((w, fold (leave_at mv) qs ?a), x)"
      "distinct qs" and
      spec: "case x of Inr _ \<Rightarrow> yields Normal_mode ?m w (abs_map ?a) | Inl ex \<Rightarrow> throwable ex"
      using expand_ranges_spec [OF a(1,2) m(1,2), where n = "max_num_worker_threads ?a" and mv = mv,
        unfolded hp] by blast
    show thesis
    proof (cases x)
      case (Inl ex)
      have "cuckoo_expand_simple mv auto_resize new_hp t = (fold (leave_at mv) qs ?a, Inl ex)"
        using valid(2) Inr w Inl by (simp add: cuckoo_expand_simple_def Let_def)
      then show thesis
        by (rule thrown [OF _ fits pm [OF w(2)]]) (use spec Inl ra in \<open>simp_all add: leave_all_id\<close>)
    next
      case ok: (Inr y)
      have y: "yields Normal_mode ?m w (abs_map ?a)" using spec ok by simp
      note z = rehash_with_workers_spec [OF readyD(2) [OF yieldsD(1) [OF y]]]
      let ?w = "rehash_with_workers w"
      let ?u = "(maybe_resize_locks (bucket_count ?w) ?a)\<lparr>buckets := buckets ?w\<rparr>"
      have "hash_fn ?w = hash_fn ?a" "alloc_limit ?w = alloc_limit ?a" "abs_map ?w = abs_map ?a"
        using same_viewD(1,4,6) [OF z(3)] same_paramsD(1,3) [OF yieldsD(2) [OF y]] m(4,5)
          yieldsD(3) [OF y] by simp_all
      note u = replace_buckets [OF a(1,2) z(1) [of mode] z(2) this]
      obtain bs where bs: "fold (leave_at mv) qs ?a
          = ?a\<lparr>buckets := (buckets ?a)\<lparr>cont_buckets := bs\<rparr>\<rparr>"
        using leave_all_frame by blast
      have "(maybe_resize_locks n (fold (leave_at mv) qs ?a))\<lparr>buckets := buckets ?w\<rparr>
          = (maybe_resize_locks n ?a)\<lparr>buckets := buckets ?w\<rparr>" for n
        by (simp add: bs maybe_resize_locks_def Let_def)
      then have "cuckoo_expand_simple mv auto_resize new_hp t = (?u, Inr Ok)"
        using valid(2) Inr w ok by (simp add: cuckoo_expand_simple_def Let_def)
      moreover have "new_hp \<le> hashpower ?u" if "new_hp < 62"
        using yieldsD(4) [OF y] u(3) same_viewD(3) [OF z(3)] m(3) reserve_calc_hashsize [OF that] by simp
      ultimately show thesis
        using built [of ?u] rebuilt_trans [OF ra u(1)] u(2) by blast
    qed
  qed
next
  case exceeded
  then show thesis using refused by (simp add: cuckoo_expand_simple_def throwable_def)
next
  case low
  then show thesis using refused by (simp add: cuckoo_expand_simple_def throwable_def)
qed simp

end
