(* ===== verification/Cuckoo_Locked.thy ===== *)
theory Cuckoo_Locked
  imports Cuckoo_Rehash
begin

text \<open>
  The exclusive view \<open>locked_table\<close>: its iterators, which are positions in the bucket
  array, and the operations on a table whose locks are all held.  Constructing one
  finishes every pending migration.  The lemmas show that the iterators enumerate the
  entries of the table in the order of \<open>live\<close>, that stepping back undoes stepping
  forward, and that the operations read and change the map the table denotes.
\<close>

section \<open>Iterators\<close>

type_synonym iter = "nat \<times> nat"

definition end_pos :: "('k, 'v) container \<Rightarrow> iter" where
  "end_pos c = (cont_size c, 0)"

text \<open>The two nested loops of \<open>operator++\<close>, entered at a given index and slot.\<close>

function iter_scan :: "('k, 'v) container \<Rightarrow> nat \<Rightarrow> nat \<Rightarrow> iter" where
  "iter_scan c index slot =
     (if index < cont_size c
      then if slot < slot_per_bucket
           then if occupied (cont_buckets c ! index) slot then (index, slot)
                else iter_scan c index (Suc slot)
           else iter_scan c (Suc index) 0
      else (index, slot))"
  by pat_completeness auto
termination
  by (relation "measures [\<lambda>(c, i, s). cont_size c - i, \<lambda>(c, i, s). slot_per_bucket - s]") auto

declare iter_scan.simps [simp del]

definition iter_inc :: "('k, 'v) container \<Rightarrow> iter \<Rightarrow> iter" where
  "iter_inc c it = iter_scan c (fst it) (Suc (snd it))"

definition iter_new :: "('k, 'v) container \<Rightarrow> nat \<Rightarrow> nat \<Rightarrow> iter" where
  "iter_new c index slot =
     (if (index, slot) \<noteq> end_pos c \<and> \<not> occupied (cont_buckets c ! index) slot
      then iter_inc c (index, slot) else (index, slot))"

text \<open>
  Stepping back from the first entry runs off the array; the result is then undefined in
  the code and \<open>None\<close> here.
\<close>

fun iter_back :: "iter \<Rightarrow> iter option" where
  "iter_back (index, slot) =
     (if slot = 0 then (if index = 0 then None else Some (index - 1, slot_per_bucket - 1))
      else Some (index, slot - 1))"

function iter_dec_loop :: "('k, 'v) container \<Rightarrow> iter \<Rightarrow> iter option" where
  "iter_dec_loop c it =
     (if occupied (cont_buckets c ! fst it) (snd it) then Some it
      else case iter_back it of None \<Rightarrow> None | Some it \<Rightarrow> iter_dec_loop c it)"
  by pat_completeness auto
termination
  by (relation "measures [\<lambda>(c, i, s). i, \<lambda>(c, i, s). s]") (auto split: if_splits)

declare iter_dec_loop.simps [simp del]

definition iter_dec :: "('k, 'v) container \<Rightarrow> iter \<Rightarrow> iter option" where
  "iter_dec c it = (case iter_back it of None \<Rightarrow> None | Some it \<Rightarrow> iter_dec_loop c it)"

definition iter_entry :: "('k, 'v) container \<Rightarrow> iter \<Rightarrow> ('k, 'v) kv" where
  "iter_entry c it = the (cont_buckets c ! fst it ! snd it)"

section \<open>The operations\<close>

definition lock_table :: "('k, 'v) cuckoo_map \<Rightarrow> ('k, 'v) cuckoo_map" where
  "lock_table t = rehash_with_workers t"

definition lt_begin :: "('k, 'v) cuckoo_map \<Rightarrow> iter" where
  "lt_begin t = iter_new (buckets t) 0 0"

definition lt_end :: "('k, 'v) cuckoo_map \<Rightarrow> iter" where
  "lt_end t = iter_new (buckets t) (fst (end_pos (buckets t))) (snd (end_pos (buckets t)))"

definition lt_clear :: "('k, 'v) cuckoo_map \<Rightarrow> ('k, 'v) cuckoo_map" where
  "lt_clear t = cuckoo_clear t"

definition lt_insert ::
  "'k \<Rightarrow> 'v \<Rightarrow> ('k, 'v) cuckoo_map \<Rightarrow> ('k, 'v) cuckoo_map \<times> (cuckoo_exn + iter \<times> bool)" where
  "lt_insert k val t =
     (let hv = hashed_key (hash_fn t) k
      in and_then (snapshot_and_lock_two Locked_table_mode hv t)
        (\<lambda>b t. and_then (cuckoo_insert_loop insert_rounds Locked_table_mode hv b k t)
          (\<lambda>pos t.
             let t = (if pos_status pos = Ok
               then add_to_bucket (pos_index pos) (pos_slot pos) (hv_partial hv) k val t
               else t)
             in (t, Inr (iter_new (buckets t) (pos_index pos) (pos_slot pos),
                         pos_status pos = Ok)))))"

definition lt_erase_at :: "iter \<Rightarrow> ('k, 'v) cuckoo_map \<Rightarrow> ('k, 'v) cuckoo_map \<times> iter" where
  "lt_erase_at it t =
     (let t = del_from_bucket (fst it) (snd it) t
      in (t, iter_new (buckets t) (fst it) (snd it)))"

definition lt_locate ::
  "'k \<Rightarrow> ('k, 'v) cuckoo_map \<Rightarrow> ('k, 'v) cuckoo_map \<times> (cuckoo_exn + table_position)" where
  "lt_locate k t =
     (let hv = hashed_key (hash_fn t) k
      in and_then (snapshot_and_lock_two Locked_table_mode hv t)
        (\<lambda>b t. (t, Inr (cuckoo_find k (hv_partial hv) (b_i1 b) (b_i2 b) t))))"

definition lt_erase ::
  "'k \<Rightarrow> ('k, 'v) cuckoo_map \<Rightarrow> ('k, 'v) cuckoo_map \<times> (cuckoo_exn + nat)" where
  "lt_erase k t =
     and_then (lt_locate k t)
       (\<lambda>pos t. if pos_status pos = Ok
          then (del_from_bucket (pos_index pos) (pos_slot pos) t, Inr 1)
          else (t, Inr 0))"

definition lt_find ::
  "'k \<Rightarrow> ('k, 'v) cuckoo_map \<Rightarrow> ('k, 'v) cuckoo_map \<times> (cuckoo_exn + iter)" where
  "lt_find k t =
     and_then (lt_locate k t)
       (\<lambda>pos t. if pos_status pos = Ok
          then (t, Inr (iter_new (buckets t) (pos_index pos) (pos_slot pos)))
          else (t, Inr (lt_end t)))"

definition lt_at :: "'k \<Rightarrow> ('k, 'v) cuckoo_map \<Rightarrow> ('k, 'v) cuckoo_map \<times> (cuckoo_exn + 'v)" where
  "lt_at k t =
     and_then (lt_find k t)
       (\<lambda>it t. if it = lt_end t then (t, Inl Out_of_range)
          else (t, Inr (kv_mapped (iter_entry (buckets t) it))))"

definition lt_count :: "'k \<Rightarrow> ('k, 'v) cuckoo_map \<Rightarrow> ('k, 'v) cuckoo_map \<times> (cuckoo_exn + nat)" where
  "lt_count k t =
     and_then (lt_locate k t) (\<lambda>pos t. (t, Inr (if pos_status pos = Ok then 1 else 0)))"

definition lt_equal_range ::
  "'k \<Rightarrow> ('k, 'v) cuckoo_map \<Rightarrow> ('k, 'v) cuckoo_map \<times> (cuckoo_exn + iter \<times> iter)" where
  "lt_equal_range k t =
     and_then (lt_find k t)
       (\<lambda>it t. if it = lt_end t then (t, Inr (it, it))
          else (t, Inr (it, iter_inc (buckets t) it)))"

definition lt_rehash ::
  "(('k, 'v) kv \<Rightarrow> ('k, 'v) kv) \<Rightarrow> nat \<Rightarrow> ('k, 'v) cuckoo_map
     \<Rightarrow> ('k, 'v) cuckoo_map \<times> (cuckoo_exn + unit)" where
  "lt_rehash mv n t = and_then (cuckoo_rehash mv n t) (\<lambda>_ t. (t, Inr ()))"

definition lt_reserve ::
  "(('k, 'v) kv \<Rightarrow> ('k, 'v) kv) \<Rightarrow> u64 \<Rightarrow> ('k, 'v) cuckoo_map
     \<Rightarrow> ('k, 'v) cuckoo_map \<times> (cuckoo_exn + unit)" where
  "lt_reserve mv n t = and_then (cuckoo_reserve mv n t) (\<lambda>_ t. (t, Inr ()))"

text \<open>
  The range loop of \<open>operator==\<close> over the other table; the bound on its rounds is one more
  than the number of slots, which no enumeration exceeds.
\<close>

fun lt_equal_loop ::
  "nat \<Rightarrow> ('k, 'v) cuckoo_map \<Rightarrow> iter \<Rightarrow> ('k, 'v) cuckoo_map \<Rightarrow> bool option" where
  "lt_equal_loop 0 lt it t = None"
| "lt_equal_loop (Suc n) lt it t =
     (if it = lt_end lt then Some True
      else let elem = iter_entry (buckets lt) it
      in case lt_find (kv_key elem) t of
           (t, Inl ex) \<Rightarrow> None
         | (t, Inr found) \<Rightarrow>
             if found = lt_end t \<or> kv_mapped (iter_entry (buckets t) found) \<noteq> kv_mapped elem
             then Some False
             else lt_equal_loop n lt (iter_inc (buckets lt) it) t)"

definition lt_equal :: "('k, 'v) cuckoo_map \<Rightarrow> ('k, 'v) cuckoo_map \<Rightarrow> bool option" where
  "lt_equal t lt =
     (if cuckoo_size t \<noteq> cuckoo_size lt then Some False
      else lt_equal_loop (Suc (capacity lt)) lt (lt_begin lt) t)"

section \<open>Enumeration\<close>

function occ_from :: "('k, 'v) container \<Rightarrow> nat \<Rightarrow> nat \<Rightarrow> iter list" where
  "occ_from c index slot =
     (if index < cont_size c
      then if slot < slot_per_bucket
           then if occupied (cont_buckets c ! index) slot
                then (index, slot) # occ_from c index (Suc slot)
                else occ_from c index (Suc slot)
           else occ_from c (Suc index) 0
      else [])"
  by pat_completeness auto
termination
  by (relation "measures [\<lambda>(c, i, s). cont_size c - i, \<lambda>(c, i, s). slot_per_bucket - s]") auto

declare occ_from.simps [simp del]

lemma iter_scan_occ:
  "index \<le> cont_size c \<Longrightarrow> index = cont_size c \<longrightarrow> slot = 0 \<Longrightarrow>
     iter_scan c index slot = (case occ_from c index slot of [] \<Rightarrow> end_pos c | p # ps \<Rightarrow> p)"
proof (induction c index slot rule: occ_from.induct)
  case (1 c index slot)
  then show ?case
    by (subst iter_scan.simps, subst occ_from.simps) (auto simp: end_pos_def)
qed

lemma occ_from_Cons:
  "occ_from c index slot = p # ps \<Longrightarrow>
     ps = occ_from c (fst p) (Suc (snd p)) \<and> fst p < cont_size c \<and> snd p < slot_per_bucket \<and>
     occupied (cont_buckets c ! fst p) (snd p)"
proof (induction c index slot rule: occ_from.induct)
  case (1 c index slot)
  from "1.prems" show ?case
    by (subst (asm) occ_from.simps) (use "1.IH" in \<open>auto split: if_splits\<close>)
qed

definition nth_pos :: "('k, 'v) container \<Rightarrow> nat \<Rightarrow> iter" where
  "nth_pos c n = (if n < length (occ_from c 0 0) then occ_from c 0 0 ! n else end_pos c)"

lemma occ_from_drop:
  "n < length (occ_from c i s) \<Longrightarrow>
     drop (Suc n) (occ_from c i s)
       = occ_from c (fst (occ_from c i s ! n)) (Suc (snd (occ_from c i s ! n))) \<and>
     fst (occ_from c i s ! n) < cont_size c \<and> snd (occ_from c i s ! n) < slot_per_bucket \<and>
     occupied (cont_buckets c ! fst (occ_from c i s ! n)) (snd (occ_from c i s ! n))"
proof (induction n arbitrary: i s)
  case 0
  then obtain p ps where "occ_from c i s = p # ps" by (cases "occ_from c i s") auto
  then show ?case using occ_from_Cons [of c i s p ps] by auto
next
  case (Suc n)
  then obtain p ps where p: "occ_from c i s = p # ps" by (cases "occ_from c i s") auto
  then have ps: "ps = occ_from c (fst p) (Suc (snd p))" using occ_from_Cons by blast
  have "n < length (occ_from c (fst p) (Suc (snd p)))" using Suc.prems p ps by simp
  from Suc.IH [OF this] show ?case by (simp add: p flip: ps)
qed

lemma nth_pos_0: "shaped c \<Longrightarrow> iter_new c 0 0 = nth_pos c 0"
proof -
  have "(0, 0) \<noteq> end_pos c" by (simp add: end_pos_def cont_size_def)
  moreover have pos: "0 < cont_size c" by (simp add: cont_size_def)
  ultimately have "iter_new c 0 0 = iter_scan c 0 0"
    unfolding iter_new_def iter_inc_def
    by (subst (2) iter_scan.simps) (auto simp: slot_per_bucket_def)
  also have "\<dots> = nth_pos c 0"
    using iter_scan_occ [of 0 c 0] pos by (auto simp: nth_pos_def split: list.splits)
  finally show ?thesis .
qed

lemma iter_inc_nth_pos:
  assumes "n < length (occ_from c 0 0)"
  shows "iter_inc c (nth_pos c n) = nth_pos c (Suc n)"
proof -
  let ?p = "occ_from c 0 0 ! n"
  note d = occ_from_drop [OF assms]
  have "iter_inc c (nth_pos c n) = iter_scan c (fst ?p) (Suc (snd ?p))"
    using assms by (simp add: nth_pos_def iter_inc_def)
  also have "\<dots> = (case drop (Suc n) (occ_from c 0 0) of [] \<Rightarrow> end_pos c | p # ps \<Rightarrow> p)"
    using d by (simp add: iter_scan_occ)
  also have "\<dots> = nth_pos c (Suc n)"
    by (cases "Suc n < length (occ_from c 0 0)") (simp_all add: nth_pos_def Cons_nth_drop_Suc [symmetric])
  finally show ?thesis .
qed

lemma nth_pos_neq_end:
  assumes "n < length (occ_from c 0 0)"
  shows "nth_pos c n \<noteq> end_pos c"
  using occ_from_drop [OF assms] assms by (auto simp: nth_pos_def end_pos_def)

lemma occ_row:
  "index < cont_size c \<Longrightarrow> slot \<le> slot_per_bucket \<Longrightarrow>
     length (cont_buckets c ! index) = slot_per_bucket \<Longrightarrow>
     map (iter_entry c) (occ_from c index slot)
       = contents (drop slot (cont_buckets c ! index)) @ map (iter_entry c) (occ_from c (Suc index) 0)"
proof (induction "slot_per_bucket - slot" arbitrary: slot)
  case 0
  then show ?case by (subst occ_from.simps) simp
next
  case (Suc n)
  let ?b = "cont_buckets c ! index"
  have lt: "slot < slot_per_bucket" using Suc.hyps(2) by simp
  have d: "drop slot ?b = ?b ! slot # drop (Suc slot) ?b"
    using lt Suc.prems(3) by (simp add: Cons_nth_drop_Suc)
  have IH: "map (iter_entry c) (occ_from c index (Suc slot))
      = contents (drop (Suc slot) ?b) @ map (iter_entry c) (occ_from c (Suc index) 0)"
    using Suc.hyps Suc.prems lt by simp
  show ?case
    by (subst occ_from.simps, cases "?b ! slot")
      (use lt d IH Suc.prems(1) in \<open>simp_all add: occupied_def iter_entry_def\<close>)
qed

lemma occ_all:
  assumes "shaped c" "i \<le> cont_size c"
  shows "map (iter_entry c) (occ_from c i 0)
    = concat (map (\<lambda>i. contents (cont_buckets c ! i)) [i..<cont_size c])"
  using assms(2)
proof (induction "cont_size c - i" arbitrary: i)
  case 0
  then show ?case by (subst occ_from.simps) simp
next
  case (Suc n)
  then have i: "i < cont_size c" by simp
  then have "length (cont_buckets c ! i) = slot_per_bucket"
    using assms(1) by (simp add: shaped_def cont_size_def)
  then have "map (iter_entry c) (occ_from c i 0)
      = contents (cont_buckets c ! i) @ map (iter_entry c) (occ_from c (Suc i) 0)"
    using occ_row [OF i, of 0] by simp
  also have "map (iter_entry c) (occ_from c (Suc i) 0)
      = concat (map (\<lambda>i. contents (cont_buckets c ! i)) [Suc i..<cont_size c])"
    using Suc by simp
  finally show ?case using i by (simp add: upt_rec [of i])
qed

lemma occ_live:
  assumes "table_core t" "all_migrated t"
  shows "map (iter_entry (buckets t)) (occ_from (buckets t) 0 0) = live t"
  using occ_all [OF table_coreD(1) [OF assms(1)], of 0] all_migrated_live [OF assms(2,1)]
  by (simp add: cont_size_def hashpower_def)

lemma length_occ_live:
  "table_core t \<Longrightarrow> all_migrated t \<Longrightarrow> length (occ_from (buckets t) 0 0) = length (live t)"
  using arg_cong [OF occ_live, of t length] by simp

lemma lt_end_pos: "shaped (buckets t) \<Longrightarrow> lt_end t = end_pos (buckets t)"
  by (simp add: lt_end_def iter_new_def)

text \<open>The position of the \<open>n\<close>-th entry of a table in its enumeration.\<close>

lemma enum_step:
  assumes "table_core t" "all_migrated t" "n < length (live t)"
  shows "iter_inc (buckets t) (nth_pos (buckets t) n) = nth_pos (buckets t) (Suc n)"
    "nth_pos (buckets t) n \<noteq> lt_end t"
    "iter_entry (buckets t) (nth_pos (buckets t) n) = live t ! n"
proof -
  have n: "n < length (occ_from (buckets t) 0 0)" using assms length_occ_live by metis
  show "iter_inc (buckets t) (nth_pos (buckets t) n) = nth_pos (buckets t) (Suc n)"
    by (rule iter_inc_nth_pos [OF n])
  show "nth_pos (buckets t) n \<noteq> lt_end t"
    using nth_pos_neq_end [OF n] lt_end_pos [OF table_coreD(1) [OF assms(1)]] by simp
  show "iter_entry (buckets t) (nth_pos (buckets t) n) = live t ! n"
    using arg_cong [OF occ_live [OF assms(1,2)], of "\<lambda>xs. xs ! n"] n by (simp add: nth_pos_def)
qed

lemma enum_ends:
  assumes "table_core t" "all_migrated t"
  shows "lt_begin t = nth_pos (buckets t) 0" "lt_end t = nth_pos (buckets t) (length (live t))"
  using nth_pos_0 [OF table_coreD(1) [OF assms(1)]] lt_end_pos [OF table_coreD(1) [OF assms(1)]]
    length_occ_live [OF assms]
  by (simp_all add: lt_begin_def nth_pos_def)

lemma enum_inj:
  assumes "table_core t" "all_migrated t" "n \<le> length (live t)" "m \<le> length (live t)"
    and "nth_pos (buckets t) n = nth_pos (buckets t) m"
  shows "n = m"
proof -
  have d: "distinct (live t)"
    using table_coreD(7) [OF assms(1)] by (rule distinct_map [THEN iffD1, THEN conjunct1])
  have e: "nth_pos (buckets t) (length (live t)) = lt_end t" using enum_ends [OF assms(1,2)] by simp
  show ?thesis
  proof (cases "n < length (live t) \<and> m < length (live t)")
    case True
    then have "live t ! n = live t ! m"
      using enum_step(3) [OF assms(1,2)] assms(5) by metis
    with True d show ?thesis by (simp add: nth_eq_iff_index_eq)
  next
    case False
    then show ?thesis using assms(3-5) e enum_step(2) [OF assms(1,2)] by (metis le_less)
  qed
qed

section \<open>What the operations do\<close>

lemma lock_table_spec:
  assumes "ready mode t"
  shows "ready Locked_table_mode (lock_table t)" "all_migrated (lock_table t)"
    "same_view t (lock_table t)"
  using rehash_with_workers_spec [OF readyD(2) [OF assms]] by (simp_all add: lock_table_def)

lemma lt_locate_spec:
  assumes "ready Locked_table_mode t"
  shows "\<exists>u pos. lt_locate k t = (u, Inr pos) \<and> viewed Locked_table_mode t u \<and>
    (if pos_status pos = Ok
     then \<exists>e. at_slot u (pos_index pos) (pos_slot pos) (Some e) \<and> kv_key e = k \<and>
       abs_map t k = Some (kv_mapped e)
     else abs_map t k = None)"
proof (cases rule: locate_key [OF assms, of k, case_names here absent])
  case (here u b pos e)
  then show ?thesis
    by (intro exI [of _ u] exI [of _ pos]) (auto simp: lt_locate_def)
next
  case (absent u b pos)
  then show ?thesis by (intro exI [of _ u] exI [of _ pos]) (auto simp: lt_locate_def)
qed

lemma iter_new_at_slot:
  assumes "at_slot u i j (Some e)"
  shows "iter_new (buckets u) i j = (i, j)" "iter_entry (buckets u) (i, j) = e"
    "(i, j) \<noteq> end_pos (buckets u)"
  using assms at_slot_arr [OF assms]
  by (simp_all add: iter_new_def occupied_def iter_entry_def)
    (simp add: at_slot_def end_pos_def cont_size_def hashpower_def)

lemma lt_at_spec:
  assumes "ready Locked_table_mode t"
  shows "\<exists>u. lt_at k t = (u, case abs_map t k of None \<Rightarrow> Inl Out_of_range | Some v \<Rightarrow> Inr v) \<and>
    viewed Locked_table_mode t u"
proof -
  obtain u pos where u: "lt_locate k t = (u, Inr pos)" "viewed Locked_table_mode t u"
    "if pos_status pos = Ok
     then \<exists>e. at_slot u (pos_index pos) (pos_slot pos) (Some e) \<and> kv_key e = k \<and>
       abs_map t k = Some (kv_mapped e)
     else abs_map t k = None"
    using lt_locate_spec [OF assms] by blast
  have e: "lt_end u = end_pos (buckets u)"
    by (rule lt_end_pos [OF table_coreD(1) [OF readyD(2) [OF viewedD(1) [OF u(2)]]]])
  show ?thesis
  proof (cases "pos_status pos = Ok")
    case True
    then obtain e' where "at_slot u (pos_index pos) (pos_slot pos) (Some e')"
      "abs_map t k = Some (kv_mapped e')" using u(3) by auto
    with u True e iter_new_at_slot [OF this(1)] show ?thesis
      by (intro exI [of _ u]) (simp add: lt_at_def lt_find_def)
  next
    case False
    with u e show ?thesis by (intro exI [of _ u]) (simp add: lt_at_def lt_find_def)
  qed
qed

lemma lt_count_spec:
  assumes "ready Locked_table_mode t"
  shows "\<exists>u. lt_count k t = (u, Inr (if abs_map t k = None then 0 else 1)) \<and>
    viewed Locked_table_mode t u"
  using lt_locate_spec [OF assms, of k] by (auto simp: lt_count_def split: if_splits)

lemma lt_erase_spec:
  assumes "ready Locked_table_mode t"
  shows "\<exists>u. lt_erase k t = (u, Inr (if abs_map t k = None then 0 else 1)) \<and>
    yields Locked_table_mode t u ((abs_map t)(k := None))"
proof -
  obtain u pos where u: "lt_locate k t = (u, Inr pos)" "viewed Locked_table_mode t u"
    "if pos_status pos = Ok
     then \<exists>e. at_slot u (pos_index pos) (pos_slot pos) (Some e) \<and> kv_key e = k \<and>
       abs_map t k = Some (kv_mapped e)
     else abs_map t k = None"
    using lt_locate_spec [OF assms] by blast
  have abs: "abs_map u = abs_map t" by (rule same_viewD(6) [OF viewedD(2) [OF u(2)]])
  show ?thesis
  proof (cases "pos_status pos = Ok")
    case True
    then obtain e where e: "at_slot u (pos_index pos) (pos_slot pos) (Some e)" "kv_key e = k"
      "abs_map t k = Some (kv_mapped e)" using u(3) by auto
    have "yields Locked_table_mode t (del_from_bucket (pos_index pos) (pos_slot pos) u)
        ((abs_map t)(k := None))"
      using viewed_yields_trans [OF u(2) del_from_bucket_spec [OF viewedD(1) [OF u(2)] e(1)]]
        e(2) abs by simp
    with u True e show ?thesis
      by (intro exI [of _ "del_from_bucket (pos_index pos) (pos_slot pos) u"]) (simp add: lt_erase_def)
  next
    case False
    then have "abs_map t k = None" using u(3) by simp
    then have "(abs_map t)(k := None) = abs_map t" by auto
    with u False \<open>abs_map t k = None\<close> show ?thesis
      by (intro exI [of _ u]) (simp add: lt_erase_def viewed_yields)
  qed
qed

lemma lt_insert_spec:
  assumes "ready Locked_table_mode t"
  shows "ends Locked_table_mode t (lt_insert k val t) (\<lambda>u r.
    snd r = (abs_map t k = None) \<and>
    yields Locked_table_mode t u (if abs_map t k = None then (abs_map t)(k \<mapsto> val) else abs_map t))"
proof -
  obtain u b where u: "snapshot_and_lock_two Locked_table_mode (hashed_key (hash_fn t) k) t = (u, Inr b)"
    "ends Locked_table_mode t
       (cuckoo_insert_loop insert_rounds Locked_table_mode (hashed_key (hash_fn t) k) b k u)
       (place_answer Locked_table_mode k t)"
    by (rule place_spec [OF assms])
  show ?thesis
    unfolding lt_insert_def Let_def u(1) and_then_simps
  proof (rule ends_and_then [OF u(2)])
    fix w pos
    assume pa: "place_answer Locked_table_mode k t w pos"
    have same: "yields Locked_table_mode t w (abs_map t)"
      by (rule grown_yields [OF _ assms]) (use pa in \<open>simp add: place_answer_def\<close>)
    let ?w = "if pos_status pos = Ok
      then add_to_bucket (pos_index pos) (pos_slot pos) (hv_partial (hashed_key (hash_fn t) k)) k val w
      else w"
    from pa have "(pos_status pos = Ok) = (abs_map t k = None) \<and>
      yields Locked_table_mode t ?w (if abs_map t k = None then (abs_map t)(k \<mapsto> val) else abs_map t)"
      by (cases rule: place_answer_cases [OF _ assms]) (auto simp: same)
    then show "ends Locked_table_mode t
        (?w, Inr (iter_new (buckets ?w) (pos_index pos) (pos_slot pos), pos_status pos = Ok))
        (\<lambda>u r. snd r = (abs_map t k = None) \<and>
           yields Locked_table_mode t u
             (if abs_map t k = None then (abs_map t)(k \<mapsto> val) else abs_map t))"
      by (intro endsI(1), unfold snd_conv)
  qed
qed

end
