(* ===== verification/Kv_Store.thy ===== *)
theory Kv_Store
  imports Cuckoo_Locked
begin

text \<open>
  What the tensor operations rely on: a store of key-value pairs whose single-key
  operations each take effect as one step.  The locale \<open>kv_reader\<close> promises lookups and
  erasures, \<open>kv_store\<close> extends it by assignment and accumulation.  The client lemmas are
  about running an operation over a batch of rows in some order.
\<close>

section \<open>Batches\<close>

fun run_all :: "('a \<Rightarrow> 's \<Rightarrow> 's \<times> ('e + 'b)) \<Rightarrow> 'a list \<Rightarrow> 's \<Rightarrow> 's \<times> ('e + unit)" where
  "run_all f [] s = (s, Inr ())"
| "run_all f (x # xs) s = and_then (f x s) (\<lambda>_ s. run_all f xs s)"

lemma run_all_append:
  "run_all f (xs @ ys) s = and_then (run_all f xs s) (\<lambda>_ s. run_all f ys s)"
  by (induction xs arbitrary: s) (auto simp: and_then_def split: prod.splits sum.splits)

text \<open>
  The two outcomes that would be a defect of the hash map itself: a loop that does not end
  and the overflow of the fixed search queue.
\<close>

definition completes :: "'s \<times> (cuckoo_exn + 'a) \<Rightarrow> bool" where
  "completes r \<longleftrightarrow> snd r \<noteq> Inl Diverges \<and> snd r \<noteq> Inl Queue_overflow"

section \<open>Abstract effects\<close>

definition accum_effect ::
  "('v \<Rightarrow> 'v \<Rightarrow> 'v) \<Rightarrow> 'k \<Rightarrow> 'v \<Rightarrow> bool \<Rightarrow> ('k \<rightharpoonup> 'v) \<Rightarrow> 'k \<rightharpoonup> 'v" where
  "accum_effect addv k d exist m =
     (case m k of
        None \<Rightarrow> if exist then m else m(k \<mapsto> d)
      | Some v \<Rightarrow> if exist then m(k \<mapsto> addv v d) else m)"

lemma accum_effect_other: "k' \<noteq> k \<Longrightarrow> accum_effect addv k d exist m k' = m k'"
  by (simp add: accum_effect_def split: option.splits)

lemma accum_effect_local:
  "m k = m' k \<Longrightarrow> accum_effect addv k d exist m k = accum_effect addv k d exist m' k"
  by (simp add: accum_effect_def split: option.splits)

section \<open>The interfaces\<close>

locale kv_reader =
  fixes ok :: "'s \<Rightarrow> bool"
    and contents_of :: "'s \<Rightarrow> 'k \<rightharpoonup> 'v"
    and lookup :: "'k \<Rightarrow> 's \<Rightarrow> 's \<times> (cuckoo_exn + 'v option)"
    and remove :: "'k \<Rightarrow> 's \<Rightarrow> 's \<times> (cuckoo_exn + bool)"
  assumes lookup_law: "ok s \<Longrightarrow>
      \<exists>s'. lookup k s = (s', Inr (contents_of s k)) \<and> ok s' \<and> contents_of s' = contents_of s"
    and remove_law: "ok s \<Longrightarrow>
      \<exists>s'. remove k s = (s', Inr (contents_of s k \<noteq> None)) \<and> ok s' \<and>
        contents_of s' = (contents_of s)(k := None)"
begin

lemma remove_all:
  "ok s \<Longrightarrow> \<exists>s'. run_all remove ks s = (s', Inr ()) \<and> ok s' \<and>
     contents_of s' = contents_of s |` (- set ks)"
proof (induction ks arbitrary: s)
  case Nil
  then show ?case by (simp add: restrict_map_def)
next
  case (Cons k ks)
  obtain s1 where s1: "remove k s = (s1, Inr (contents_of s k \<noteq> None))" "ok s1"
    "contents_of s1 = (contents_of s)(k := None)" using remove_law [OF Cons.prems] by blast
  obtain s2 where s2: "run_all remove ks s1 = (s2, Inr ())" "ok s2"
    "contents_of s2 = contents_of s1 |` (- set ks)" using Cons.IH [OF s1(2)] by blast
  have "contents_of s2 = contents_of s |` (- set (k # ks))"
    using s1(3) s2(3) by (auto simp: restrict_map_def fun_eq_iff)
  with s1 s2 show ?case by simp
qed

end

locale kv_store = kv_reader ok contents_of lookup remove
  for ok :: "'s \<Rightarrow> bool" and contents_of :: "'s \<Rightarrow> 'k \<rightharpoonup> 'v"
    and lookup :: "'k \<Rightarrow> 's \<Rightarrow> 's \<times> (cuckoo_exn + 'v option)"
    and remove :: "'k \<Rightarrow> 's \<Rightarrow> 's \<times> (cuckoo_exn + bool)" +
  fixes valid :: "'v \<Rightarrow> bool"
    and addv :: "'v \<Rightarrow> 'v \<Rightarrow> 'v"
    and assign :: "'k \<Rightarrow> 'v \<Rightarrow> 's \<Rightarrow> 's \<times> (cuckoo_exn + bool)"
    and accum :: "'k \<Rightarrow> 'v \<Rightarrow> bool \<Rightarrow> 's \<Rightarrow> 's \<times> (cuckoo_exn + bool)"
  assumes assign_law: "ok s \<Longrightarrow> valid v \<Longrightarrow> assign k v s = (s', Inr b) \<Longrightarrow>
      ok s' \<and> contents_of s' = (contents_of s)(k \<mapsto> v) \<and> b = (contents_of s k = None)"
    and accum_law: "ok s \<Longrightarrow> valid v \<Longrightarrow> accum k v exist s = (s', Inr b) \<Longrightarrow>
      ok s' \<and> contents_of s' = accum_effect addv k v exist (contents_of s) \<and>
      b = (contents_of s k = None)"
    and assign_returns: "ok s \<Longrightarrow> valid v \<Longrightarrow> completes (assign k v s)"
    and accum_returns: "ok s \<Longrightarrow> valid v \<Longrightarrow> completes (accum k v exist s)"
begin

text \<open>A batch of updates is carried out to its end, or some update throws.\<close>

lemma assign_all_returns:
  "ok s \<Longrightarrow> \<forall>i\<in>set js. valid (val i) \<Longrightarrow>
     completes (run_all (\<lambda>i. assign (key i) (val i)) js s)"
proof (induction js arbitrary: s)
  case Nil
  then show ?case by (simp add: completes_def)
next
  case (Cons i js)
  from Cons.prems(2) have v: "valid (val i)" by simp
  obtain s1 r where s1: "assign (key i) (val i) s = (s1, r)" by force
  show ?case
  proof (cases r)
    case (Inl e)
    then show ?thesis using assign_returns [OF Cons.prems(1) v, of "key i"] s1 by (simp add: completes_def)
  next
    case (Inr b)
    then have "ok s1" using assign_law [OF Cons.prems(1) v] s1 by blast
    then show ?thesis using Cons.IH [of s1] Cons.prems(2) s1 Inr by simp
  qed
qed

lemma accum_all_returns:
  "ok s \<Longrightarrow> \<forall>i\<in>set js. valid (val i) \<Longrightarrow>
     completes (run_all (\<lambda>i. accum (key i) (val i) (exist i)) js s)"
proof (induction js arbitrary: s)
  case Nil
  then show ?case by (simp add: completes_def)
next
  case (Cons i js)
  from Cons.prems(2) have v: "valid (val i)" by simp
  obtain s1 r where s1: "accum (key i) (val i) (exist i) s = (s1, r)" by force
  show ?case
  proof (cases r)
    case (Inl e)
    then show ?thesis using accum_returns [OF Cons.prems(1) v, of "key i" "exist i"] s1 by (simp add: completes_def)
  next
    case (Inr b)
    then have "ok s1" using accum_law [OF Cons.prems(1) v] s1 by blast
    then show ?thesis using Cons.IH [of s1] Cons.prems(2) s1 Inr by simp
  qed
qed

lemma assign_all:
  assumes "ok s" "\<forall>i\<in>set js. valid (val i)"
    and "run_all (\<lambda>i. assign (key i) (val i)) js s = (s', Inr ())"
  shows "ok s' \<and> contents_of s' = contents_of s ++ map_of (rev (map (\<lambda>i. (key i, val i)) js))"
  using assms
proof (induction js arbitrary: s)
  case Nil
  then show ?case by simp
next
  case (Cons i js)
  from Cons.prems(3) obtain s1 b where s1: "assign (key i) (val i) s = (s1, Inr b)"
    "run_all (\<lambda>i. assign (key i) (val i)) js s1 = (s', Inr ())"
    by (auto simp: and_then_Inr_iff)
  from assign_law [OF Cons.prems(1) _ s1(1)] Cons.prems(2)
  have 1: "ok s1" "contents_of s1 = (contents_of s)(key i \<mapsto> val i)" by simp_all
  have "\<forall>i\<in>set js. valid (val i)" using Cons.prems(2) by simp
  from Cons.IH [OF 1(1) this s1(2)]
  have "ok s'" "contents_of s' = (contents_of s)(key i \<mapsto> val i) ++ map_of (rev (map (\<lambda>i. (key i, val i)) js))"
    unfolding 1(2) by blast+
  then show ?case
    by (simp only: list.map rev.simps(2) map_of_append map_add_assoc map_of.simps fst_conv snd_conv
        map_add_upd map_add_empty)
qed

text \<open>
  Every key of a batch of assignments ends with a value the batch gives it, every other key
  keeps its value; with distinct keys the order of the batch is irrelevant.
\<close>

lemma assign_all_other:
  assumes "ok s" "\<forall>i\<in>set js. valid (val i)"
    and "run_all (\<lambda>i. assign (key i) (val i)) js s = (s', Inr ())" and "k \<notin> key ` set js"
  shows "contents_of s' k = contents_of s k"
proof -
  have "dom (map_of (rev (map (\<lambda>i. (key i, val i)) js))) = key ` set js"
    by (force simp: dom_map_of_conv_image_fst)
  then show ?thesis
    using conjunct2 [OF assign_all [OF assms(1-3)]] assms(4) by (auto simp: map_add_dom_app_simps)
qed

lemma assign_all_some_row:
  assumes "ok s" "\<forall>i\<in>set js. valid (val i)"
    and "run_all (\<lambda>i. assign (key i) (val i)) js s = (s', Inr ())" and "k \<in> key ` set js"
  shows "\<exists>i\<in>set js. key i = k \<and> contents_of s' k = Some (val i)"
proof -
  have "dom (map_of (rev (map (\<lambda>i. (key i, val i)) js))) = key ` set js"
    by (force simp: dom_map_of_conv_image_fst)
  with assms(4) obtain v where v: "map_of (rev (map (\<lambda>i. (key i, val i)) js)) k = Some v" by blast
  from this have "(k, v) \<in> set (rev (map (\<lambda>i. (key i, val i)) js))" by (rule map_of_SomeD)
  with v show ?thesis using conjunct2 [OF assign_all [OF assms(1-3)]] by auto
qed

lemma assign_all_distinct:
  assumes "ok s" "\<forall>i\<in>set js. valid (val i)" "inj_on key (set js)" "i \<in> set js"
    and "run_all (\<lambda>i. assign (key i) (val i)) js s = (s', Inr ())"
  shows "contents_of s' (key i) = Some (val i)"
  using assign_all_some_row [OF assms(1,2,5), of "key i"] assms(3,4)
  by (auto simp: inj_on_def)

lemma accum_all:
  assumes "ok s" "\<forall>i\<in>set js. valid (val i)" "inj_on key (set js)" "distinct js"
    and "run_all (\<lambda>i. accum (key i) (val i) (exist i)) js s = (s', Inr ())"
  shows "ok s' \<and> (\<forall>i\<in>set js. contents_of s' (key i)
      = accum_effect addv (key i) (val i) (exist i) (contents_of s) (key i)) \<and>
    (\<forall>k. k \<notin> key ` set js \<longrightarrow> contents_of s' k = contents_of s k)"
  using assms
proof (induction js arbitrary: s)
  case Nil
  then show ?case by simp
next
  case (Cons i js)
  from Cons.prems(5) obtain s1 b where s1: "accum (key i) (val i) (exist i) s = (s1, Inr b)"
    "run_all (\<lambda>i. accum (key i) (val i) (exist i)) js s1 = (s', Inr ())"
    by (auto simp: and_then_Inr_iff)
  from accum_law [OF Cons.prems(1) _ s1(1)] Cons.prems(2)
  have 1: "ok s1" "contents_of s1 = accum_effect addv (key i) (val i) (exist i) (contents_of s)"
    by simp_all
  have other: "key j \<noteq> key i" if "j \<in> set js" for j
    using Cons.prems(3,4) that by (auto simp: inj_on_def)
  have IH: "ok s'" "\<And>j. j \<in> set js \<Longrightarrow> contents_of s' (key j)
      = accum_effect addv (key j) (val j) (exist j) (contents_of s1) (key j)"
    "\<And>k. k \<notin> key ` set js \<Longrightarrow> contents_of s' k = contents_of s1 k"
    using Cons.IH [OF 1(1) _ _ _ s1(2)] Cons.prems(2-4) by (simp_all add: inj_on_def)
  have "contents_of s' (key j) = accum_effect addv (key j) (val j) (exist j) (contents_of s) (key j)"
    if "j \<in> set js" for j
  proof -
    have "contents_of s1 (key j) = contents_of s (key j)"
      using other [OF that] by (simp add: 1(2) accum_effect_other)
    then show ?thesis unfolding IH(2) [OF that] by (rule accum_effect_local)
  qed
  moreover have "contents_of s' (key i) = contents_of s1 (key i)"
    by (rule IH(3)) (metis imageE other)
  ultimately have "\<forall>j\<in>set (i # js). contents_of s' (key j)
      = accum_effect addv (key j) (val j) (exist j) (contents_of s) (key j)"
    using 1(2) by simp
  moreover have "contents_of s' k = contents_of s k" if "k \<notin> key ` set (i # js)" for k
    using IH(3) [of k] that by (simp add: 1(2) accum_effect_other)
  ultimately show ?case using IH(1) by blast
qed

end

section \<open>The hash map provides them\<close>

definition map_ready :: "('k, 'v) cuckoo_map \<Rightarrow> bool" where
  "map_ready t \<longleftrightarrow> ready Normal_mode t"

lemma insert_or_assign_spec:
  assumes "ready Normal_mode t"
  shows "ends Normal_mode t (insert_or_assign k val t) (\<lambda>u inserted.
    inserted = (abs_map t k = None) \<and> yields Normal_mode t u ((abs_map t)(k \<mapsto> val)))"
proof -
  have "(case abs_map t k of None \<Rightarrow> (abs_map t)(k \<mapsto> val)
        | Some v \<Rightarrow> after_erasing (\<lambda>v. (val, False)) k v (abs_map t)) = (abs_map t)(k \<mapsto> val)"
    by (auto simp: after_erasing_def split: option.splits)
  then show ?thesis
    using uprase_fn_spec [OF assms, of k "\<lambda>v. (val, False)" val]
    by (simp add: insert_or_assign_def upsert_def)
qed

lemma insert_or_accum_spec:
  assumes "ready Normal_mode t"
  shows "ends Normal_mode t (insert_or_accum addv k d exist t) (\<lambda>u inserted.
    inserted = (abs_map t k = None) \<and>
    yields Normal_mode t u (accum_effect addv k d exist (abs_map t)))"
proof -
  let ?fn = "\<lambda>v. (if exist then addv v d else v, False)"
  have "(case abs_map t k of None \<Rightarrow> if exist then abs_map t else (abs_map t)(k \<mapsto> d)
        | Some v \<Rightarrow> if exist then after_erasing ?fn k v (abs_map t) else abs_map t)
      = accum_effect addv k d exist (abs_map t)"
    by (auto simp: after_erasing_def accum_effect_def split: option.splits)
  then show ?thesis
    using accumrase_fn_spec [OF assms, of k ?fn exist d]
    by (simp add: insert_or_accum_def accumrase_def)
qed

lemma erase_spec:
  assumes "ready Normal_mode t"
  shows "\<exists>u. erase k t = (u, Inr (abs_map t k \<noteq> None)) \<and>
    yields Normal_mode t u ((abs_map t)(k := None))"
proof -
  have "(case abs_map t k of None \<Rightarrow> abs_map t
        | Some v \<Rightarrow> after_erasing (\<lambda>v. (v, True)) k v (abs_map t)) = (abs_map t)(k := None)"
    by (auto simp: after_erasing_def split: option.splits)
  then show ?thesis
    using erase_fn_spec [OF assms, of k "\<lambda>v. (v, True)"] by (simp add: erase_def)
qed

lemma ends_Inr: "ends mode t (u, Inr a) Q \<Longrightarrow> Q u a"
  by (simp add: ends_def)

interpretation cm: kv_store map_ready abs_map find_fn erase "\<lambda>_. True" addv insert_or_assign
  "insert_or_accum addv" for addv :: "'v \<Rightarrow> 'v \<Rightarrow> 'v"
proof unfold_locales
  fix s :: "('a, 'b) cuckoo_map" and k v addv exist s' b
  assume ok: "map_ready s"
  then have r: "ready Normal_mode s" by (simp add: map_ready_def)
  show "\<exists>s'. find_fn k s = (s', Inr (abs_map s k)) \<and> map_ready s' \<and> abs_map s' = abs_map s"
    using find_fn_spec [OF r, of k] viewed_yields [of Normal_mode s] unfolding yields_def map_ready_def
    by blast
  show "\<exists>s'. erase k s = (s', Inr (abs_map s k \<noteq> None)) \<and> map_ready s' \<and>
      abs_map s' = (abs_map s)(k := None)"
    using erase_spec [OF r, of k] unfolding yields_def map_ready_def by blast
  show "map_ready s' \<and> abs_map s' = (abs_map s)(k \<mapsto> v) \<and> b = (abs_map s k = None)"
    if "insert_or_assign k v s = (s', Inr b)"
    using ends_Inr [OF insert_or_assign_spec [OF r, of k v, unfolded that]]
    by (simp add: yields_def map_ready_def)
  show "map_ready s' \<and> abs_map s' = accum_effect addv k v exist (abs_map s) \<and>
      b = (abs_map s k = None)"
    if "insert_or_accum addv k v exist s = (s', Inr b)"
    using ends_Inr [OF insert_or_accum_spec [OF r, of addv k v exist, unfolded that]]
    by (simp add: yields_def map_ready_def)
  show "completes (insert_or_assign k v s)"
    unfolding completes_def by (rule ends_no_Diverges [OF insert_or_assign_spec [OF r]])
  show "completes (insert_or_accum addv k v exist s)"
    unfolding completes_def by (rule ends_no_Diverges [OF insert_or_accum_spec [OF r]])
qed

end
