(* ===== verification/Table_Wrapper.thy ===== *)
theory Table_Wrapper
  imports Kv_Store
begin

text \<open>
  The table wrappers of \<open>lookup_table_op_cpu.h\<close>: value vectors, the optimized wrapper for
  a dimension fixed at compile time, the default wrapper, \<open>dump\<close>, and the choice between
  the wrappers.  A virtual call on \<open>TableWrapperBase\<close> is a case distinction on
  \<open>w_kind\<close>.  A two dimensional tensor is its data in row-major order and its number of
  columns.  Rows are copied by the element.
\<close>

section \<open>Value vectors\<close>

definition value_array_plus :: "nat \<Rightarrow> ('e \<Rightarrow> 'e \<Rightarrow> 'e) \<Rightarrow> 'e list \<Rightarrow> 'e list \<Rightarrow> 'e list" where
  "value_array_plus DIM add m rhs = map (\<lambda>i. add (m ! i) (rhs ! i)) [0..<DIM]"

definition default_value_array_plus :: "('e \<Rightarrow> 'e \<Rightarrow> 'e) \<Rightarrow> 'e list \<Rightarrow> 'e list \<Rightarrow> 'e list" where
  "default_value_array_plus add m rhs = map (\<lambda>i. add (m ! i) (rhs ! i)) [0..<length m]"

text \<open>The specialization for strings logs an error and leaves the vector alone.\<close>

definition tstring_value_array_plus :: "'e list \<Rightarrow> 'e list \<Rightarrow> 'e list" where
  "tstring_value_array_plus m rhs = m"

section \<open>Tensors and wrappers\<close>

record 'e tensor2 =
  t_cols :: nat
  t_data :: "'e list"

definition t_at :: "'e tensor2 \<Rightarrow> nat \<Rightarrow> nat \<Rightarrow> 'e" where
  "t_at tn i j = t_data tn ! (i * t_cols tn + j)"

definition t_set :: "nat \<Rightarrow> nat \<Rightarrow> 'e \<Rightarrow> 'e tensor2 \<Rightarrow> 'e tensor2" where
  "t_set i j x tn = tn\<lparr>t_data := (t_data tn)[i * t_cols tn + j := x]\<rparr>"

datatype wrapper_kind = Optimized nat | Default | Default_tstring

record ('k, 'e) table_wrapper =
  w_kind :: wrapper_kind
  w_add :: "'e \<Rightarrow> 'e \<Rightarrow> 'e"
  w_map :: "('k, 'e list) cuckoo_map"
  w_init_size :: u64

definition w_plus :: "('k, 'e) table_wrapper \<Rightarrow> 'e list \<Rightarrow> 'e list \<Rightarrow> 'e list" where
  "w_plus w = (case w_kind w of
      Optimized DIM \<Rightarrow> value_array_plus DIM (w_add w)
    | Default \<Rightarrow> default_value_array_plus (w_add w)
    | Default_tstring \<Rightarrow> tstring_value_array_plus)"

definition in_map ::
  "(('k, 'e list) cuckoo_map \<Rightarrow> ('k, 'e list) cuckoo_map \<times> (cuckoo_exn + 'a))
     \<Rightarrow> ('k, 'e) table_wrapper \<Rightarrow> ('k, 'e) table_wrapper \<times> (cuckoo_exn + 'a)" where
  "in_map f w = (case f (w_map w) of (m, r) \<Rightarrow> (w\<lparr>w_map := m\<rparr>, r))"

definition wrapper_assign_vec ::
  "'k \<Rightarrow> 'e list \<Rightarrow> ('k, 'e) table_wrapper \<Rightarrow> ('k, 'e) table_wrapper \<times> (cuckoo_exn + bool)" where
  "wrapper_assign_vec key value_vec w = in_map (insert_or_assign key value_vec) w"

text \<open>
  Each operation of the two wrapper classes, and the virtual call that chooses between them.
  The optimized class addresses the flat data with the stride \<open>value_dim\<close>; the default
  class goes through the indices of the tensor.
\<close>

definition optimized_row :: "'e tensor2 \<Rightarrow> nat \<Rightarrow> nat \<Rightarrow> 'e list" where
  "optimized_row tn value_dim index =
     map (\<lambda>j. t_data tn ! (index * value_dim + j)) [0..<value_dim]"

definition pushed_row :: "'e tensor2 \<Rightarrow> nat \<Rightarrow> nat \<Rightarrow> 'e list" where
  "pushed_row tn value_dim index = fold (\<lambda>j v. v @ [t_at tn index j]) [0..<value_dim] []"

definition optimized_insert_or_assign ::
  "'k \<Rightarrow> 'e tensor2 \<Rightarrow> nat \<Rightarrow> nat \<Rightarrow> ('k, 'e) table_wrapper
     \<Rightarrow> ('k, 'e) table_wrapper \<times> (cuckoo_exn + bool)" where
  "optimized_insert_or_assign key value_flat value_dim index w =
     (let value_vec = optimized_row value_flat value_dim index
      in wrapper_assign_vec key value_vec w)"

definition default_insert_or_assign ::
  "'k \<Rightarrow> 'e tensor2 \<Rightarrow> nat \<Rightarrow> nat \<Rightarrow> ('k, 'e) table_wrapper
     \<Rightarrow> ('k, 'e) table_wrapper \<times> (cuckoo_exn + bool)" where
  "default_insert_or_assign key value_flat value_dim index w =
     (let value_vec = pushed_row value_flat value_dim index
      in wrapper_assign_vec key value_vec w)"

definition wrapper_insert_or_assign ::
  "'k \<Rightarrow> 'e tensor2 \<Rightarrow> nat \<Rightarrow> nat \<Rightarrow> ('k, 'e) table_wrapper
     \<Rightarrow> ('k, 'e) table_wrapper \<times> (cuckoo_exn + bool)" where
  "wrapper_insert_or_assign key value_flat value_dim index w =
     (case w_kind w of
        Optimized DIM \<Rightarrow> optimized_insert_or_assign key value_flat value_dim index w
      | _ \<Rightarrow> default_insert_or_assign key value_flat value_dim index w)"

definition optimized_insert_or_assign_ptr ::
  "'k \<Rightarrow> 'e list \<Rightarrow> nat \<Rightarrow> ('k, 'e) table_wrapper \<Rightarrow> ('k, 'e) table_wrapper \<times> (cuckoo_exn + bool)"
  where
  "optimized_insert_or_assign_ptr key val value_dim w =
     wrapper_assign_vec key (take value_dim val) w"

definition default_insert_or_assign_ptr ::
  "'k \<Rightarrow> 'e list \<Rightarrow> nat \<Rightarrow> ('k, 'e) table_wrapper \<Rightarrow> ('k, 'e) table_wrapper \<times> (cuckoo_exn + bool)"
  where
  "default_insert_or_assign_ptr key val value_dim w =
     wrapper_assign_vec key (fold (\<lambda>j v. v @ [val ! j]) [0..<value_dim] []) w"

definition wrapper_insert_or_assign_ptr ::
  "'k \<Rightarrow> 'e list \<Rightarrow> nat \<Rightarrow> ('k, 'e) table_wrapper \<Rightarrow> ('k, 'e) table_wrapper \<times> (cuckoo_exn + bool)"
  where
  "wrapper_insert_or_assign_ptr key val value_dim w =
     (case w_kind w of
        Optimized DIM \<Rightarrow> optimized_insert_or_assign_ptr key val value_dim w
      | _ \<Rightarrow> default_insert_or_assign_ptr key val value_dim w)"

definition wrapper_accum_vec ::
  "'k \<Rightarrow> 'e list \<Rightarrow> bool \<Rightarrow> ('k, 'e) table_wrapper
     \<Rightarrow> ('k, 'e) table_wrapper \<times> (cuckoo_exn + bool)" where
  "wrapper_accum_vec key value_or_delta_vec exist w =
     in_map (insert_or_accum (w_plus w) key value_or_delta_vec exist) w"

definition optimized_insert_or_accum ::
  "'k \<Rightarrow> 'e tensor2 \<Rightarrow> bool \<Rightarrow> nat \<Rightarrow> nat \<Rightarrow> ('k, 'e) table_wrapper
     \<Rightarrow> ('k, 'e) table_wrapper \<times> (cuckoo_exn + bool)" where
  "optimized_insert_or_accum key value_or_delta_flat exist value_dim index w =
     (let value_or_delta_vec = optimized_row value_or_delta_flat value_dim index
      in wrapper_accum_vec key value_or_delta_vec exist w)"

definition default_insert_or_accum ::
  "'k \<Rightarrow> 'e tensor2 \<Rightarrow> bool \<Rightarrow> nat \<Rightarrow> nat \<Rightarrow> ('k, 'e) table_wrapper
     \<Rightarrow> ('k, 'e) table_wrapper \<times> (cuckoo_exn + bool)" where
  "default_insert_or_accum key value_or_delta_flat exist value_dim index w =
     (let value_or_delta_vec = pushed_row value_or_delta_flat value_dim index
      in wrapper_accum_vec key value_or_delta_vec exist w)"

definition wrapper_insert_or_accum ::
  "'k \<Rightarrow> 'e tensor2 \<Rightarrow> bool \<Rightarrow> nat \<Rightarrow> nat \<Rightarrow> ('k, 'e) table_wrapper
     \<Rightarrow> ('k, 'e) table_wrapper \<times> (cuckoo_exn + bool)" where
  "wrapper_insert_or_accum key value_or_delta_flat exist value_dim index w =
     (case w_kind w of
        Optimized DIM \<Rightarrow> optimized_insert_or_accum key value_or_delta_flat exist value_dim index w
      | _ \<Rightarrow> default_insert_or_accum key value_or_delta_flat exist value_dim index w)"

definition wrapper_lookup ::
  "'k \<Rightarrow> ('k, 'e) table_wrapper \<Rightarrow> ('k, 'e) table_wrapper \<times> (cuckoo_exn + 'e list option)" where
  "wrapper_lookup key w = in_map (find_fn key) w"

text \<open>
  Both overloads of \<open>find\<close>: a hit copies \<open>value_dim\<close> elements behind
  \<open>index * value_dim\<close>, a miss writes the default row element by element; the second
  overload also reports which of the two happened.
\<close>

definition copy_row :: "'e list \<Rightarrow> nat \<Rightarrow> nat \<Rightarrow> 'e tensor2 \<Rightarrow> 'e tensor2" where
  "copy_row value_vec value_dim index tn =
     fold (\<lambda>j tn. tn\<lparr>t_data := (t_data tn)[index * value_dim + j := value_vec ! j]\<rparr>)
       [0..<value_dim] tn"

definition default_row ::
  "'e tensor2 \<Rightarrow> nat \<Rightarrow> bool \<Rightarrow> nat \<Rightarrow> 'e tensor2 \<Rightarrow> 'e tensor2" where
  "default_row default_flat value_dim is_full_size_default index tn =
     fold (\<lambda>j tn. t_set index j
         (if is_full_size_default then t_at default_flat index j else t_at default_flat 0 j) tn)
       [0..<value_dim] tn"

definition optimized_find ::
  "'k \<Rightarrow> 'e tensor2 \<Rightarrow> 'e tensor2 \<Rightarrow> nat \<Rightarrow> bool \<Rightarrow> nat \<Rightarrow> ('k, 'e) table_wrapper
     \<Rightarrow> ('k, 'e) table_wrapper \<times> (cuckoo_exn + 'e tensor2)" where
  "optimized_find key value_flat default_flat value_dim is_full_size_default index w =
     and_then (wrapper_lookup key w)
       (\<lambda>r w. case r of
          Some value_vec \<Rightarrow> (w, Inr (copy_row value_vec value_dim index value_flat))
        | None \<Rightarrow> (w, Inr (default_row default_flat value_dim is_full_size_default index value_flat)))"

definition default_find ::
  "'k \<Rightarrow> 'e tensor2 \<Rightarrow> 'e tensor2 \<Rightarrow> nat \<Rightarrow> bool \<Rightarrow> nat \<Rightarrow> ('k, 'e) table_wrapper
     \<Rightarrow> ('k, 'e) table_wrapper \<times> (cuckoo_exn + 'e tensor2)" where
  "default_find key value_flat default_flat value_dim is_full_size_default index w =
     and_then (wrapper_lookup key w)
       (\<lambda>r w. case r of
          Some value_vec \<Rightarrow> (w, Inr (copy_row value_vec value_dim index value_flat))
        | None \<Rightarrow> (w, Inr (default_row default_flat value_dim is_full_size_default index value_flat)))"

definition wrapper_find ::
  "'k \<Rightarrow> 'e tensor2 \<Rightarrow> 'e tensor2 \<Rightarrow> nat \<Rightarrow> bool \<Rightarrow> nat \<Rightarrow> ('k, 'e) table_wrapper
     \<Rightarrow> ('k, 'e) table_wrapper \<times> (cuckoo_exn + 'e tensor2)" where
  "wrapper_find key value_flat default_flat value_dim is_full_size_default index w =
     (case w_kind w of
        Optimized DIM \<Rightarrow>
          optimized_find key value_flat default_flat value_dim is_full_size_default index w
      | _ \<Rightarrow> default_find key value_flat default_flat value_dim is_full_size_default index w)"

definition optimized_find_exists ::
  "'k \<Rightarrow> 'e tensor2 \<Rightarrow> 'e tensor2 \<Rightarrow> nat \<Rightarrow> bool \<Rightarrow> nat \<Rightarrow> ('k, 'e) table_wrapper
     \<Rightarrow> ('k, 'e) table_wrapper \<times> (cuckoo_exn + 'e tensor2 \<times> bool)" where
  "optimized_find_exists key value_flat default_flat value_dim is_full_size_default index w =
     and_then (wrapper_lookup key w)
       (\<lambda>r w. case r of
          Some value_vec \<Rightarrow> (w, Inr (copy_row value_vec value_dim index value_flat, True))
        | None \<Rightarrow> (w, Inr (default_row default_flat value_dim is_full_size_default index value_flat,
                            False)))"

definition default_find_exists ::
  "'k \<Rightarrow> 'e tensor2 \<Rightarrow> 'e tensor2 \<Rightarrow> nat \<Rightarrow> bool \<Rightarrow> nat \<Rightarrow> ('k, 'e) table_wrapper
     \<Rightarrow> ('k, 'e) table_wrapper \<times> (cuckoo_exn + 'e tensor2 \<times> bool)" where
  "default_find_exists key value_flat default_flat value_dim is_full_size_default index w =
     and_then (wrapper_lookup key w)
       (\<lambda>r w. case r of
          Some value_vec \<Rightarrow> (w, Inr (copy_row value_vec value_dim index value_flat, True))
        | None \<Rightarrow> (w, Inr (default_row default_flat value_dim is_full_size_default index value_flat,
                            False)))"

definition wrapper_find_exists ::
  "'k \<Rightarrow> 'e tensor2 \<Rightarrow> 'e tensor2 \<Rightarrow> nat \<Rightarrow> bool \<Rightarrow> nat \<Rightarrow> ('k, 'e) table_wrapper
     \<Rightarrow> ('k, 'e) table_wrapper \<times> (cuckoo_exn + 'e tensor2 \<times> bool)" where
  "wrapper_find_exists key value_flat default_flat value_dim is_full_size_default index w =
     (case w_kind w of
        Optimized DIM \<Rightarrow>
          optimized_find_exists key value_flat default_flat value_dim is_full_size_default index w
      | _ \<Rightarrow> default_find_exists key value_flat default_flat value_dim is_full_size_default index w)"

definition wrapper_size :: "('k, 'e) table_wrapper \<Rightarrow> nat" where
  "wrapper_size w = cuckoo_size (w_map w)"

definition wrapper_clear :: "('k, 'e) table_wrapper \<Rightarrow> ('k, 'e) table_wrapper" where
  "wrapper_clear w = w\<lparr>w_map := clear (w_map w)\<rparr>"

definition wrapper_erase ::
  "'k \<Rightarrow> ('k, 'e) table_wrapper \<Rightarrow> ('k, 'e) table_wrapper \<times> (cuckoo_exn + bool)" where
  "wrapper_erase key w = in_map (erase key) w"

section \<open>Dumping\<close>

fun iter_advance :: "nat \<Rightarrow> ('k, 'v) container \<Rightarrow> iter \<Rightarrow> iter" where
  "iter_advance 0 c it = it"
| "iter_advance (Suc n) c it = iter_advance n c (iter_inc c it)"

text \<open>
  The copying loop.  Its bound is one more than the number of slots of the table; running
  into it would be the iterator missing \<open>search_end\<close>, which \<open>dump_spec\<close> excludes.
\<close>

fun dump_loop ::
  "nat \<Rightarrow> ('k, 'e list) container \<Rightarrow> iter \<Rightarrow> iter \<Rightarrow> nat \<Rightarrow> ('k list \<times> 'e list) option" where
  "dump_loop 0 c it search_end value_dim = None"
| "dump_loop (Suc n) c it search_end value_dim =
     (if it = search_end then Some ([], [])
      else case dump_loop n c (iter_inc c it) search_end value_dim of
             None \<Rightarrow> None
           | Some (keys, vals) \<Rightarrow>
               let e = iter_entry c it
               in Some (kv_key e # keys, take value_dim (kv_mapped e) @ vals))"

text \<open>
  The result is what has been written behind \<open>keys\<close> and behind \<open>values\<close>; the number
  the code returns is the number of keys.  \<open>search_offset + search_length\<close> is computed in
  \<open>size_t\<close>.
\<close>

definition optimized_dump ::
  "nat \<Rightarrow> u64 \<Rightarrow> u64 \<Rightarrow> ('k, 'e) table_wrapper
     \<Rightarrow> ('k, 'e) table_wrapper \<times> (cuckoo_exn + 'k list \<times> 'e list)" where
  "optimized_dump DIM search_offset search_length w =
     (let lt = lock_table (w_map w);
          w = w\<lparr>w_map := lt\<rparr>;
          lt_size = cuckoo_size lt
      in if unat search_offset > lt_size \<or> lt_size = 0 then (w, Inr ([], []))
         else let
           c = buckets lt;
           search_begin = iter_advance (unat search_offset) c (lt_begin lt);
           search_end = (if unat (search_offset + search_length) \<ge> lt_size then lt_end lt
                         else iter_advance (unat search_length) c search_begin);
           value_dim = DIM
         in case dump_loop (Suc (capacity lt)) c search_begin search_end value_dim of
              None \<Rightarrow> (w, Inl Diverges)
            | Some r \<Rightarrow> (w, Inr r))"

definition default_dump ::
  "u64 \<Rightarrow> u64 \<Rightarrow> ('k, 'e) table_wrapper
     \<Rightarrow> ('k, 'e) table_wrapper \<times> (cuckoo_exn + 'k list \<times> 'e list)" where
  "default_dump search_offset search_length w =
     (let lt = lock_table (w_map w);
          w = w\<lparr>w_map := lt\<rparr>;
          lt_size = cuckoo_size lt
      in if unat search_offset > lt_size \<or> lt_size = 0 then (w, Inr ([], []))
         else let
           c = buckets lt;
           search_begin = iter_advance (unat search_offset) c (lt_begin lt);
           search_end = (if unat (search_offset + search_length) \<ge> lt_size then lt_end lt
                         else iter_advance (unat search_length) c search_begin);
           value_dim = length (kv_mapped (iter_entry c (lt_begin lt)))
         in case dump_loop (Suc (capacity lt)) c search_begin search_end value_dim of
              None \<Rightarrow> (w, Inl Diverges)
            | Some r \<Rightarrow> (w, Inr r))"

definition wrapper_dump ::
  "u64 \<Rightarrow> u64 \<Rightarrow> ('k, 'e) table_wrapper
     \<Rightarrow> ('k, 'e) table_wrapper \<times> (cuckoo_exn + 'k list \<times> 'e list)" where
  "wrapper_dump search_offset search_length w =
     (case w_kind w of
        Optimized DIM \<Rightarrow> optimized_dump DIM search_offset search_length w
      | _ \<Rightarrow> default_dump search_offset search_length w)"

section \<open>Choosing a wrapper\<close>

definition table_dispatcher :: "bool \<Rightarrow> bool \<Rightarrow> nat \<Rightarrow> wrapper_kind" where
  "table_dispatcher k_is_int64 v_is_tstring DIM =
     (let is_fix_range = (DIM \<le> 100);
          optimized = (is_fix_range \<and> k_is_int64 \<and> \<not> v_is_tstring)
      in if optimized then Optimized DIM
         else if v_is_tstring then Default_tstring else Default)"

definition create_branches :: "nat \<Rightarrow> nat \<Rightarrow> nat list" where
  "create_branches centile decile =
     concat (map (\<lambda>p. map (\<lambda>u. (centile * 10 + decile + p) * 10 + u + 1) [0..<10]) [0..<10])"

definition create_table_kind :: "bool \<Rightarrow> bool \<Rightarrow> nat \<Rightarrow> wrapper_kind" where
  "create_table_kind k_is_int64 v_is_tstring runtime_dim =
     (if runtime_dim \<in> set (create_branches 0 0)
      then table_dispatcher k_is_int64 v_is_tstring runtime_dim
      else if v_is_tstring then Default_tstring else Default)"

definition create_table ::
  "nat \<Rightarrow> bool \<Rightarrow> ('k \<Rightarrow> u64) \<Rightarrow> bool \<Rightarrow> bool \<Rightarrow> ('e \<Rightarrow> 'e \<Rightarrow> 'e) \<Rightarrow> u64 \<Rightarrow> nat
     \<Rightarrow> cuckoo_exn + ('k, 'e) table_wrapper" where
  "create_table limit simple hf k_is_int64 v_is_tstring add init_size runtime_dim =
     (case new_cuckoohash_map limit simple hf init_size of
        Inl ex \<Rightarrow> Inl ex
      | Inr m \<Rightarrow> Inr \<lparr>w_kind = create_table_kind k_is_int64 v_is_tstring runtime_dim,
                       w_add = add, w_map = m, w_init_size = init_size\<rparr>)"

end
