(* ===== verification/Table_Wrapper_Spec.thy ===== *)
theory Table_Wrapper_Spec
  imports Table_Wrapper
begin

text \<open>
  What the table wrappers do.  \<open>wrapper_ok\<close> says that the wrapped map is in order and that
  every row it holds has the dimension of the table.  With it the wrapper is a second
  provider of the store interface, now of rows; \<open>dump\<close> delivers a contiguous part of one
  fixed enumeration of the table; a lookup writes exactly its own row of the output.
\<close>

section \<open>The row invariant\<close>

definition wrapper_ok ::
  "wrapper_kind \<Rightarrow> ('e \<Rightarrow> 'e \<Rightarrow> 'e) \<Rightarrow> nat \<Rightarrow> ('k, 'e) table_wrapper \<Rightarrow> bool" where
  "wrapper_ok kind add rdim w \<longleftrightarrow> map_ready (w_map w) \<and> w_kind w = kind \<and> w_add w = add \<and>
     (\<forall>k v. abs_map (w_map w) k = Some v \<longrightarrow> length v = rdim) \<and>
     (\<forall>DIM. kind = Optimized DIM \<longrightarrow> DIM = rdim)"

definition table_of :: "('k, 'e) table_wrapper \<Rightarrow> 'k \<rightharpoonup> 'e list" where
  "table_of w = abs_map (w_map w)"

definition kind_plus :: "wrapper_kind \<Rightarrow> ('e \<Rightarrow> 'e \<Rightarrow> 'e) \<Rightarrow> 'e list \<Rightarrow> 'e list \<Rightarrow> 'e list" where
  "kind_plus kind add = (case kind of
      Optimized DIM \<Rightarrow> value_array_plus DIM add
    | Default \<Rightarrow> default_value_array_plus add
    | Default_tstring \<Rightarrow> tstring_value_array_plus)"

lemma w_plus_kind: "w_plus w = kind_plus (w_kind w) (w_add w)"
  by (simp add: w_plus_def kind_plus_def)

lemma length_kind_plus:
  "length v = rdim \<Longrightarrow> (\<And>DIM. kind = Optimized DIM \<Longrightarrow> DIM = rdim) \<Longrightarrow>
     length (kind_plus kind add v d) = rdim"
  by (cases kind) (auto simp: kind_plus_def value_array_plus_def default_value_array_plus_def
      tstring_value_array_plus_def)

text \<open>On rows of the right length both number wrappers add element by element.\<close>

lemma kind_plus_map2:
  "length v = rdim \<Longrightarrow> length d = rdim \<Longrightarrow> (\<And>DIM. kind = Optimized DIM \<Longrightarrow> DIM = rdim) \<Longrightarrow>
     kind \<noteq> Default_tstring \<Longrightarrow> kind_plus kind add v d = map2 add v d"
  by (cases kind) (auto simp: kind_plus_def value_array_plus_def default_value_array_plus_def
      intro!: nth_equalityI)

lemma wrapper_okD:
  assumes "wrapper_ok kind add rdim w"
  shows "map_ready (w_map w)" "w_kind w = kind" "w_add w = add"
    "table_of w k = Some v \<Longrightarrow> length v = rdim" "kind = Optimized DIM \<Longrightarrow> DIM = rdim"
  using assms unfolding wrapper_ok_def table_of_def by blast+

lemma wrapper_ok_change:
  assumes "wrapper_ok kind add rdim w" "map_ready m"
    and "\<And>k v. abs_map m k = Some v \<Longrightarrow> length v = rdim"
  shows "wrapper_ok kind add rdim (w\<lparr>w_map := m\<rparr>)"
  using assms by (simp add: wrapper_ok_def)

lemma in_map_Inr:
  "in_map f w = (w', Inr a) \<longleftrightarrow> (\<exists>m. f (w_map w) = (m, Inr a) \<and> w' = w\<lparr>w_map := m\<rparr>)"
  by (auto simp: in_map_def split: prod.splits)

lemma length_accum_effect:
  assumes "\<And>k v. m k = Some v \<Longrightarrow> length v = rdim" "length d = rdim"
    and "\<And>v. length v = rdim \<Longrightarrow> length (addv v d) = rdim"
    and "accum_effect addv k d exist m k' = Some v"
  shows "length v = rdim"
  using assms by (auto simp: accum_effect_def split: option.splits if_splits)

interpretation tw: kv_store "wrapper_ok kind add rdim" table_of wrapper_lookup wrapper_erase
  "\<lambda>v. length v = rdim" "kind_plus kind add" wrapper_assign_vec wrapper_accum_vec
  for kind :: wrapper_kind and add :: "'e \<Rightarrow> 'e \<Rightarrow> 'e" and rdim :: nat
proof unfold_locales
  fix s s' :: "('k, 'e) table_wrapper" and k :: 'k and v :: "'e list" and exist b
  assume ok: "wrapper_ok kind add rdim s"
  note d = wrapper_okD [OF ok]
  have rows: "\<And>k v. abs_map (w_map s) k = Some v \<Longrightarrow> length v = rdim"
    using d(4) by (simp add: table_of_def)
  obtain m0 where m0: "find_fn k (w_map s) = (m0, Inr (abs_map (w_map s) k))" "map_ready m0"
    "abs_map m0 = abs_map (w_map s)" using cm.lookup_law [OF d(1), of k] by blast
  have "wrapper_ok kind add rdim (s\<lparr>w_map := m0\<rparr>)"
    by (rule wrapper_ok_change [OF ok m0(2)]) (use m0(3) rows in simp)
  with m0 show "\<exists>s'. wrapper_lookup k s = (s', Inr (table_of s k)) \<and> wrapper_ok kind add rdim s' \<and>
      table_of s' = table_of s"
    by (intro exI [of _ "s\<lparr>w_map := m0\<rparr>"]) (simp add: wrapper_lookup_def in_map_Inr table_of_def)
  obtain m where m: "erase k (w_map s) = (m, Inr (abs_map (w_map s) k \<noteq> None))" "map_ready m"
    "abs_map m = (abs_map (w_map s))(k := None)" using cm.remove_law [OF d(1), of k] by blast
  have "wrapper_ok kind add rdim (s\<lparr>w_map := m\<rparr>)"
    by (rule wrapper_ok_change [OF ok m(2)]) (use m(3) rows in \<open>auto split: if_splits\<close>)
  with m show "\<exists>s'. wrapper_erase k s = (s', Inr (table_of s k \<noteq> None)) \<and>
      wrapper_ok kind add rdim s' \<and> table_of s' = (table_of s)(k := None)"
    by (intro exI [of _ "s\<lparr>w_map := m\<rparr>"]) (simp add: wrapper_erase_def in_map_Inr table_of_def)
  assume len: "length v = rdim"
  have snd_in_map: "snd (in_map f s) = snd (f (w_map s))" for f :: "('k, 'e list) cuckoo_map \<Rightarrow> _"
    by (simp add: in_map_def split: prod.splits)
  show "completes (wrapper_assign_vec k v s)"
    unfolding wrapper_assign_vec_def completes_def snd_in_map
    by (rule cm.assign_returns [OF d(1), unfolded completes_def]) simp
  show "completes (wrapper_accum_vec k v exist s)"
    unfolding wrapper_accum_vec_def completes_def snd_in_map
    by (rule cm.accum_returns [OF d(1), unfolded completes_def]) simp
  show "wrapper_ok kind add rdim s' \<and> table_of s' = (table_of s)(k \<mapsto> v) \<and> b = (table_of s k = None)"
    if asg: "wrapper_assign_vec k v s = (s', Inr b)"
  proof -
    obtain m where m: "insert_or_assign k v (w_map s) = (m, Inr b)" "s' = s\<lparr>w_map := m\<rparr>"
      using asg by (auto simp: wrapper_assign_vec_def in_map_Inr)
    from cm.assign_law [OF d(1) _ m(1)] have a: "map_ready m"
      "abs_map m = (abs_map (w_map s))(k \<mapsto> v)" "b = (abs_map (w_map s) k = None)" by blast+
    have "wrapper_ok kind add rdim s'"
      unfolding m(2) by (rule wrapper_ok_change [OF ok a(1)]) (use a(2) rows len in \<open>auto split: if_splits\<close>)
    with a m(2) show ?thesis by (simp add: table_of_def)
  qed
  show "wrapper_ok kind add rdim s' \<and>
      table_of s' = accum_effect (kind_plus kind add) k v exist (table_of s) \<and>
      b = (table_of s k = None)"
    if acc: "wrapper_accum_vec k v exist s = (s', Inr b)"
  proof -
    obtain m where m: "insert_or_accum (kind_plus kind add) k v exist (w_map s) = (m, Inr b)"
      "s' = s\<lparr>w_map := m\<rparr>"
      using acc d(2,3) by (auto simp: wrapper_accum_vec_def in_map_Inr w_plus_kind)
    from cm.accum_law [OF d(1) _ m(1)] have a: "map_ready m"
      "abs_map m = accum_effect (kind_plus kind add) k v exist (abs_map (w_map s))"
      "b = (abs_map (w_map s) k = None)" by blast+
    have "wrapper_ok kind add rdim s'"
      unfolding m(2)
      by (rule wrapper_ok_change [OF ok a(1)],
          rule length_accum_effect [OF rows len length_kind_plus [OF _ d(5)]])
        (use a(2) in simp_all)
    with a m(2) show ?thesis by (simp add: table_of_def)
  qed
qed

section \<open>Dumping\<close>

lemma iter_advance_nth:
  assumes "table_core t" "all_migrated t"
  shows "i + n \<le> length (live t) \<Longrightarrow>
    iter_advance n (buckets t) (nth_pos (buckets t) i) = nth_pos (buckets t) (i + n)"
proof (induction n arbitrary: i)
  case 0
  then show ?case by simp
next
  case (Suc n)
  then show ?case using enum_step(1) [OF assms, of i] by simp
qed

lemma dump_loop_nth:
  assumes "table_core t" "all_migrated t"
    and "\<And>e. e \<in> set (live t) \<Longrightarrow> length (kv_mapped e) = rdim"
  shows "i \<le> j \<Longrightarrow> j \<le> length (live t) \<Longrightarrow> j - i < n \<Longrightarrow>
    dump_loop n (buckets t) (nth_pos (buckets t) i) (nth_pos (buckets t) j) rdim
      = Some (map kv_key (take (j - i) (drop i (live t))),
              concat (map kv_mapped (take (j - i) (drop i (live t)))))"
proof (induction n arbitrary: i)
  case 0
  then show ?case by simp
next
  case (Suc n)
  show ?case
  proof (cases "i = j")
    case True
    then show ?thesis by simp
  next
    case False
    with Suc.prems have i: "i < length (live t)" "Suc i \<le> j" "j - Suc i < n" by simp_all
    have ne: "nth_pos (buckets t) i \<noteq> nth_pos (buckets t) j"
      using enum_inj [OF assms(1,2), of i j] Suc.prems(2) i False by auto
    have e: "iter_entry (buckets t) (nth_pos (buckets t) i) = live t ! i"
      by (rule enum_step(3) [OF assms(1,2) i(1)])
    have len: "length (kv_mapped (live t ! i)) = rdim"
      by (rule assms(3)) (use i in simp)
    have "take (j - i) (drop i (live t)) = live t ! i # take (j - Suc i) (drop (Suc i) (live t))"
      using i by (simp add: Cons_nth_drop_Suc [symmetric] take_Cons' Suc_diff_Suc [symmetric] del: Suc_diff_Suc)
    then show ?thesis
      using Suc.IH [OF i(2) Suc.prems(2) i(3)] ne e len
      by (simp add: enum_step(1) [OF assms(1,2) i(1)] Let_def)
  qed
qed

lemma length_contents_le: "length (contents b) \<le> length b"
  by (simp add: contents_def)

lemma length_concat_le:
  "(\<And>x. x \<in> set xs \<Longrightarrow> length (f x) \<le> n) \<Longrightarrow> length (concat (map f xs)) \<le> length xs * n"
  by (induction xs) (fastforce simp: add_mono)+

lemma length_live_capacity:
  assumes "table_core t" "all_migrated t"
  shows "length (live t) \<le> capacity t"
proof -
  have len: "length (contents (cont_buckets (buckets t) ! i)) \<le> slot_per_bucket"
    if "i \<in> set [0..<2 ^ hashpower t]" for i
    using length_contents_le [of "cont_buckets (buckets t) ! i"] table_coreD(1) [OF assms(1)] that
    by (auto simp: shaped_def hashpower_def dest: nth_mem [of i "cont_buckets (buckets t)"])
  show ?thesis
    unfolding all_migrated_live [OF assms(2,1)]
    using length_concat_le [of "[0..<2 ^ hashpower t]", OF len]
    by (simp add: capacity_def bucket_count_def cont_size_def hashpower_def)
qed

text \<open>What a dump of \<open>len\<close> entries from the offset \<open>off\<close> on must deliver.\<close>

definition dump_part :: "nat \<Rightarrow> nat \<Rightarrow> ('k, 'e) table_wrapper \<Rightarrow> ('k, 'e list) kv list" where
  "dump_part off len w = take len (drop off (live (w_map w)))"

definition dump_dim :: "('k, 'e) table_wrapper \<Rightarrow> ('k, 'e list) cuckoo_map \<Rightarrow> nat" where
  "dump_dim w lt = (case w_kind w of Optimized DIM \<Rightarrow> DIM
     | _ \<Rightarrow> length (kv_mapped (iter_entry (buckets lt) (lt_begin lt))))"

lemma wrapper_dump_unfold:
  "wrapper_dump off len w =
     (let lt = lock_table (w_map w); w' = w\<lparr>w_map := lt\<rparr>
      in if unat off > cuckoo_size lt \<or> cuckoo_size lt = 0 then (w', Inr ([], []))
         else case dump_loop (Suc (capacity lt)) (buckets lt)
             (iter_advance (unat off) (buckets lt) (lt_begin lt))
             (if unat (off + len) \<ge> cuckoo_size lt then lt_end lt
              else iter_advance (unat len) (buckets lt)
                (iter_advance (unat off) (buckets lt) (lt_begin lt)))
             (dump_dim w lt) of
           None \<Rightarrow> (w', Inl Diverges) | Some r \<Rightarrow> (w', Inr r))"
  by (simp add: wrapper_dump_def optimized_dump_def default_dump_def dump_dim_def Let_def
      split: wrapper_kind.splits)

lemma wrapper_dump_spec:
  assumes ok: "wrapper_ok kind add rdim w"
    and no_wrap: "unat off + unat len < 2 ^ 64"
  shows "wrapper_dump off len w =
     (w\<lparr>w_map := lock_table (w_map w)\<rparr>,
      Inr (map kv_key (dump_part (unat off) (unat len) w),
           concat (map kv_mapped (dump_part (unat off) (unat len) w))))"
    and "wrapper_ok kind add rdim (w\<lparr>w_map := lock_table (w_map w)\<rparr>)"
    and "live (lock_table (w_map w)) = live (w_map w)"
proof -
  let ?t = "lock_table (w_map w)"
  have r: "ready Normal_mode (w_map w)" using wrapper_okD(1) [OF ok] by (simp add: map_ready_def)
  note lt = lock_table_spec [OF r]
  note core = readyD(2) [OF lt(1)]
  show live: "live ?t = live (w_map w)" by (rule same_viewD(5) [OF lt(3)])
  have abs: "abs_map ?t = abs_map (w_map w)" by (rule same_viewD(6) [OF lt(3)])
  have "map_ready ?t" using readyD(1) [OF lt(1)] by (simp add: map_ready_def ready_def mode_ok_def)
  then show "wrapper_ok kind add rdim (w\<lparr>w_map := ?t\<rparr>)"
    by (rule wrapper_ok_change [OF ok]) (use abs wrapper_okD(4) [OF ok] in \<open>simp add: table_of_def\<close>)
  have rows: "length (kv_mapped e) = rdim" if "e \<in> set (live ?t)" for e
    using abs_map_SomeI [OF core that] wrapper_okD(4) [OF ok] abs by (simp add: table_of_def)
  have size: "cuckoo_size ?t = length (live ?t)"
    by (simp add: cuckoo_size_def table_coreD(8) [OF core])
  have sum: "unat (off + len) = unat off + unat len"
    using no_wrap by (simp add: unat_plus_if_size word_size)
  note ends = enum_ends [OF core lt(2)]
  show "wrapper_dump off len w = (w\<lparr>w_map := ?t\<rparr>,
      Inr (map kv_key (dump_part (unat off) (unat len) w),
           concat (map kv_mapped (dump_part (unat off) (unat len) w))))"
  proof (cases "unat off > cuckoo_size ?t \<or> cuckoo_size ?t = 0")
    case True
    then have "drop (unat off) (live ?t) = []" using size by auto
    with True show ?thesis by (simp add: wrapper_dump_unfold dump_part_def flip: live)
  next
    case False
    then have off: "unat off \<le> length (live ?t)" "0 < length (live ?t)" using size by auto
    let ?j = "min (unat off + unat len) (length (live ?t))"
    have b: "iter_advance (unat off) (buckets ?t) (lt_begin ?t) = nth_pos (buckets ?t) (unat off)"
      using iter_advance_nth [OF core lt(2), of 0 "unat off"] off(1) ends(1) by simp
    have e: "(if cuckoo_size ?t \<le> unat (off + len) then lt_end ?t
        else iter_advance (unat len) (buckets ?t) (nth_pos (buckets ?t) (unat off)))
        = nth_pos (buckets ?t) ?j"
      using iter_advance_nth [OF core lt(2), of "unat off" "unat len"] ends(2) sum size by simp
    have "iter_entry (buckets ?t) (lt_begin ?t) \<in> set (live ?t)"
      using enum_step(3) [OF core lt(2) off(2)] ends(1) off(2) by simp
    then have v: "dump_dim w ?t = rdim"
      using rows wrapper_okD(2,5) [OF ok] by (simp add: dump_dim_def split: wrapper_kind.splits)
    have "dump_loop (Suc (capacity ?t)) (buckets ?t) (nth_pos (buckets ?t) (unat off))
        (nth_pos (buckets ?t) ?j) rdim
      = Some (map kv_key (take (?j - unat off) (drop (unat off) (live ?t))),
          concat (map kv_mapped (take (?j - unat off) (drop (unat off) (live ?t)))))"
      by (rule dump_loop_nth [OF core lt(2) rows])
        (use off length_live_capacity [OF core lt(2)] in auto)
    moreover have "take (?j - unat off) (drop (unat off) (live ?t)) = dump_part (unat off) (unat len) w"
      unfolding dump_part_def live [symmetric]
      by (cases "unat off + unat len \<le> length (live ?t)") (simp_all add: min_def)
    ultimately show ?thesis
      using False unfolding wrapper_dump_unfold Let_def b e v by (simp del: dump_loop.simps)
  qed
qed

section \<open>Rows of the output\<close>

definition row_of :: "nat \<Rightarrow> 'e tensor2 \<Rightarrow> nat \<Rightarrow> 'e list" where
  "row_of value_dim tn index = map (\<lambda>j. t_data tn ! (index * value_dim + j)) [0..<value_dim]"

lemma length_row_of [simp]: "length (row_of value_dim tn index) = value_dim"
  by (simp add: row_of_def)

lemma fold_write:
  "length (fold (\<lambda>j xs. xs[b + j := f j]) [0..<n] xs) = length xs"
  "p < length xs \<Longrightarrow> fold (\<lambda>j xs. xs[b + j := f j]) [0..<n] xs ! p
     = (if b \<le> p \<and> p < b + n then f (p - b) else xs ! p)"
  by (induction n) (auto simp: nth_list_update less_Suc_eq)

lemma fold_write_data:
  "t_data (fold (\<lambda>j tn. tn\<lparr>t_data := (t_data tn)[b + j := f j]\<rparr>) js tn)
     = fold (\<lambda>j xs. xs[b + j := f j]) js (t_data tn)"
  "t_cols (fold (\<lambda>j tn. tn\<lparr>t_data := (t_data tn)[b + j := f j]\<rparr>) js tn) = t_cols tn"
  by (induction js arbitrary: tn) simp_all

lemma fold_t_set:
  "t_cols tn = c \<Longrightarrow> fold (\<lambda>j tn. t_set i j (f j) tn) js tn
     = fold (\<lambda>j tn. tn\<lparr>t_data := (t_data tn)[i * c + j := f j]\<rparr>) js tn"
  by (induction js arbitrary: tn) (simp_all add: t_set_def)

lemma row_index_bound:
  fixes i j n d :: nat
  assumes "i < n" "j < d"
  shows "i * d + j < n * d"
proof -
  have "i * d + j < Suc i * d" using assms(2) by simp
  also have "\<dots> \<le> n * d" using assms(1) by (intro mult_le_mono1) simp
  finally show ?thesis .
qed

lemma row_index_disjoint:
  fixes i i' d p :: nat
  assumes "i \<noteq> i'" "p < d"
  shows "\<not> (i * d \<le> i' * d + p \<and> i' * d + p < i * d + d)"
proof
  assume "i * d \<le> i' * d + p \<and> i' * d + p < i * d + d"
  then have "i * d < Suc i' * d" "i' * d < Suc i * d" using assms(2) by simp_all
  then have "i < Suc i'" "i' < Suc i" using mult_less_cancel2 by blast+
  with assms(1) show False by simp
qed

lemma written_rows:
  assumes "length (t_data tn) = n * d" "index < n"
    and t': "t_data tn' = fold (\<lambda>j xs. xs[index * d + j := f j]) [0..<d] (t_data tn)"
  shows "length (t_data tn') = n * d"
    "i < n \<Longrightarrow> row_of d tn' i = (if i = index then map f [0..<d] else row_of d tn i)"
proof -
  show "length (t_data tn') = n * d" by (simp add: t' fold_write assms(1))
  assume i: "i < n"
  have "t_data tn' ! (i * d + j) = (if i = index then f j else t_data tn ! (i * d + j))"
    if j: "j < d" for j
    using row_index_disjoint [of index i j d] j row_index_bound [OF i j]
    by (cases "i = index") (auto simp add: t' fold_write assms(1))
  then show "row_of d tn' i = (if i = index then map f [0..<d] else row_of d tn i)"
    by (auto simp: row_of_def)
qed

lemma copy_row_spec:
  assumes "length (t_data tn) = n * d" "index < n" "length v = d"
  shows "t_cols (copy_row v d index tn) = t_cols tn"
    "length (t_data (copy_row v d index tn)) = n * d"
    "i < n \<Longrightarrow> row_of d (copy_row v d index tn) i = (if i = index then v else row_of d tn i)"
proof -
  have t: "t_data (copy_row v d index tn)
      = fold (\<lambda>j xs. xs[index * d + j := v ! j]) [0..<d] (t_data tn)"
    by (simp add: copy_row_def fold_write_data)
  show "t_cols (copy_row v d index tn) = t_cols tn" by (simp add: copy_row_def fold_write_data)
  show "length (t_data (copy_row v d index tn)) = n * d" by (rule written_rows(1) [OF assms(1,2) t])
  have "map ((!) v) [0..<d] = v" using map_nth [of v] assms(3) by simp
  then show "i < n \<Longrightarrow>
      row_of d (copy_row v d index tn) i = (if i = index then v else row_of d tn i)"
    using written_rows(2) [OF assms(1,2) t] by simp
qed

definition default_for :: "'e tensor2 \<Rightarrow> nat \<Rightarrow> bool \<Rightarrow> nat \<Rightarrow> 'e list" where
  "default_for default_flat value_dim is_full index
     = row_of value_dim default_flat (if is_full then index else 0)"

lemma default_row_spec:
  assumes "length (t_data tn) = n * d" "index < n" "t_cols tn = d" "t_cols default_flat = d"
  shows "t_cols (default_row default_flat d full index tn) = t_cols tn"
    "length (t_data (default_row default_flat d full index tn)) = n * d"
    "i < n \<Longrightarrow> row_of d (default_row default_flat d full index tn) i
       = (if i = index then default_for default_flat d full index else row_of d tn i)"
proof -
  let ?f = "\<lambda>j. if full then t_at default_flat index j else t_at default_flat 0 j"
  have eq: "default_row default_flat d full index tn
      = fold (\<lambda>j tn. tn\<lparr>t_data := (t_data tn)[index * d + j := ?f j]\<rparr>) [0..<d] tn"
    unfolding default_row_def by (rule fold_t_set [OF assms(3)])
  then have t: "t_data (default_row default_flat d full index tn)
      = fold (\<lambda>j xs. xs[index * d + j := ?f j]) [0..<d] (t_data tn)"
    by (simp only: fold_write_data)
  show "t_cols (default_row default_flat d full index tn) = t_cols tn"
    unfolding eq by (rule fold_write_data(2))
  show "length (t_data (default_row default_flat d full index tn)) = n * d"
    by (rule written_rows(1) [OF assms(1,2) t])
  have "map ?f [0..<d] = default_for default_flat d full index"
    by (auto simp: default_for_def row_of_def t_at_def assms(4))
  then show "i < n \<Longrightarrow> row_of d (default_row default_flat d full index tn) i
      = (if i = index then default_for default_flat d full index else row_of d tn i)"
    using written_rows(2) [OF assms(1,2) t] by simp
qed

text \<open>The row a lookup writes.\<close>

definition found_row ::
  "('k \<rightharpoonup> 'e list) \<Rightarrow> 'e tensor2 \<Rightarrow> nat \<Rightarrow> bool \<Rightarrow> 'k \<Rightarrow> nat \<Rightarrow> 'e list" where
  "found_row m default_flat value_dim is_full key index =
     (case m key of Some v \<Rightarrow> v | None \<Rightarrow> default_for default_flat value_dim is_full index)"

lemma wrapper_find_lookup:
  "wrapper_find_exists key tn default_flat d full index w =
     and_then (wrapper_lookup key w)
       (\<lambda>r w. case r of Some v \<Rightarrow> (w, Inr (copy_row v d index tn, True))
          | None \<Rightarrow> (w, Inr (default_row default_flat d full index tn, False)))"
  "wrapper_find key tn default_flat d full index w =
     and_then (wrapper_lookup key w)
       (\<lambda>r w. case r of Some v \<Rightarrow> (w, Inr (copy_row v d index tn))
          | None \<Rightarrow> (w, Inr (default_row default_flat d full index tn)))"
  by (simp_all add: wrapper_find_exists_def wrapper_find_def optimized_find_def default_find_def
      optimized_find_exists_def default_find_exists_def split: wrapper_kind.splits)

lemma wrapper_find_exists_spec:
  assumes ok: "wrapper_ok kind add d w"
    and tn: "length (t_data tn) = n * d" "t_cols tn = d" "t_cols default_flat = d" "index < n"
  shows "\<exists>w' tn'. wrapper_find_exists key tn default_flat d full index w
      = (w', Inr (tn', table_of w key \<noteq> None)) \<and>
    wrapper_find key tn default_flat d full index w = (w', Inr tn') \<and>
    wrapper_ok kind add d w' \<and> table_of w' = table_of w \<and>
    t_cols tn' = d \<and> length (t_data tn') = n * d \<and>
    (\<forall>i<n. row_of d tn' i =
       (if i = index then found_row (table_of w) default_flat d full key index else row_of d tn i))"
proof -
  obtain w' where w': "wrapper_lookup key w = (w', Inr (table_of w key))"
    "wrapper_ok kind add d w'" "table_of w' = table_of w"
    using tw.lookup_law [OF ok, of key] by blast
  show ?thesis
  proof (cases "table_of w key")
    case None
    with w' default_row_spec [OF tn(1,4,2,3)] show ?thesis
      by (intro exI [of _ w'] exI [of _ "default_row default_flat d full index tn"])
        (simp add: wrapper_find_lookup found_row_def tn(2))
  next
    case (Some v)
    with w' copy_row_spec [OF tn(1,4) wrapper_okD(4) [OF ok Some]] show ?thesis
      by (intro exI [of _ w'] exI [of _ "copy_row v d index tn"])
        (simp add: wrapper_find_lookup found_row_def tn(2))
  qed
qed

end
