(* ===== verification/Tensors.thy ===== *)
theory Tensors
  imports Prelude
begin

text \<open>
  What the kernels use of the framework's tensors: a shape and the elements in row major
  order, the prefix test on shapes, the bounds check, and the view of a tensor as a matrix
  whose rows are written one at a time.
\<close>

record 'e tensor =
  shape_of :: "nat list"
  flat :: "'e list"

text \<open>A status of the framework: None for OK, otherwise the message.\<close>

type_synonym status = "string option"

text \<open>The status of a call that makes several others and stops at the first that fails.\<close>

fun first_status :: "status list \<Rightarrow> status" where
  "first_status [] = None"
| "first_status (None # sts) = first_status sts"
| "first_status (Some msg # sts) = Some msg"

text \<open>A size that the code keeps in an \<open>int32\<close> keeps its value.\<close>

definition fits_int32 :: "nat \<Rightarrow> bool" where
  "fits_int32 n \<longleftrightarrow> n < 2 ^ 31"

lemma fits_int32_code [code]: "fits_int32 n \<longleftrightarrow> int n < 2147483648"
  by (auto simp: fits_int32_def)

definition num_elements :: "'e tensor \<Rightarrow> nat" where
  "num_elements t = length (flat t)"

definition well_shaped :: "'e tensor \<Rightarrow> bool" where
  "well_shaped t \<longleftrightarrow> length (flat t) = prod_list (shape_of t)"

definition starts_with :: "nat list \<Rightarrow> nat list \<Rightarrow> bool" where
  "starts_with shape prefix \<longleftrightarrow>
     length prefix \<le> length shape \<and> take (length prefix) shape = prefix"

definition fast_bounds_check :: "int \<Rightarrow> int \<Rightarrow> bool" where
  "fast_bounds_check index limit \<longleftrightarrow> 0 \<le> index \<and> index < limit"

definition row_view :: "nat \<Rightarrow> nat \<Rightarrow> 'e list \<Rightarrow> 'e list list" where
  "row_view slice_size n xs = map (\<lambda>i. take slice_size (drop (i * slice_size) xs)) [0..<n]"

section \<open>Facts about views\<close>

lemma length_row_view [simp]: "length (row_view s n xs) = n"
  by (simp add: row_view_def)

lemma nth_row_view: "i < n \<Longrightarrow> row_view s n xs ! i = take s (drop (i * s) xs)"
  by (simp add: row_view_def)

lemma concat_row_view: "length xs = n * s \<Longrightarrow> concat (row_view s n xs) = xs"
proof (induction n arbitrary: xs)
  case 0
  then show ?case by (simp add: row_view_def)
next
  case (Suc n)
  have "row_view s (Suc n) xs = take s xs # row_view s n (drop s xs)"
    by (simp add: row_view_def upt_conv_Cons map_Suc_upt [symmetric] comp_def add.commute del: upt_Suc)
  with Suc show ?case by simp
qed

lemma length_row_view_rows: "length xs = n * s \<Longrightarrow> r \<in> set (row_view s n xs) \<Longrightarrow> length r = s"
proof -
  assume len: "length xs = n * s" and r: "r \<in> set (row_view s n xs)"
  then obtain i where i: "i < n" "r = take s (drop (i * s) xs)" by (auto simp: row_view_def)
  have "Suc i * s \<le> n * s" using i(1) by (intro mult_le_mono1) simp
  with len i(2) show "length r = s" by simp
qed

lemma row_view_concat:
  "\<forall>r\<in>set rs. length r = s \<Longrightarrow> row_view s (length rs) (concat rs) = rs"
proof (induction rs)
  case Nil
  then show ?case by (simp add: row_view_def)
next
  case (Cons r rs)
  have "row_view s (Suc (length rs)) (concat (r # rs)) = r # row_view s (length rs) (concat rs)"
    using Cons.prems by (simp add: row_view_def upt_conv_Cons map_Suc_upt [symmetric] comp_def del: upt_Suc)
  then show ?case using Cons by simp
qed

lemma starts_withE:
  assumes "starts_with shape prefix"
  obtains rest where "shape = prefix @ rest" "drop (length prefix) shape = rest"
  using assms unfolding starts_with_def by (metis append_take_drop_id)

lemma starts_with_append: "starts_with (p @ r) p"
  by (simp add: starts_with_def)

end
