(* ===== verification/Cuckoo_Table_Op.thy ===== *)
theory Cuckoo_Table_Op
  imports Table_Wrapper_Spec Tensors
begin

text \<open>
  The tensor operations of \<open>cuckoo_hashtable_op.cc\<close>: the launchers that spread the rows of a
  batch over the CPU workers, the class \<open>CuckooHashTableOfTensors\<close> and the kernels that
  check their inputs and call it.

  The thread pool is not part of the repository.  A call of \<open>Shard\<close> is the parameter
  \<open>shard\<close> of the device: the row numbers in the order in which the workers get to them.
  Each row is one operation of the concurrent table and takes effect at once.  What the
  framework decides (resource lookup, signature and shape checks, output allocation) are the
  statuses of \<open>op_context\<close>.
\<close>

section \<open>Views, devices and exceptions\<close>

definition flat_inner_dims :: "'e tensor \<Rightarrow> 'e tensor2" where
  "flat_inner_dims t =
     \<lparr>t_cols = (if shape_of t = [] then 1 else last (shape_of t)), t_data = flat t\<rparr>"

record cpu_device =
  num_threads :: int
  shard :: "int \<Rightarrow> int \<Rightarrow> int \<Rightarrow> nat list"
  insert_threads_env :: "int option"

text \<open>
  A call of the framework's interface ends with an exception, with a status other than OK, or
  in behaviour that the language leaves undefined.
\<close>

datatype op_exn = Thrown cuckoo_exn | Failed string | Undefined

fun lift_exn :: "'s \<times> (cuckoo_exn + 'a) \<Rightarrow> 's \<times> (op_exn + 'a)" where
  "lift_exn (s, Inl ex) = (s, Inl (Thrown ex))"
| "lift_exn (s, Inr a) = (s, Inr a)"

fun require :: "status \<Rightarrow> ('s \<Rightarrow> 's \<times> (op_exn + 'a)) \<Rightarrow> 's \<Rightarrow> 's \<times> (op_exn + 'a)" where
  "require None f s = f s"
| "require (Some msg) f s = (s, Inl (Failed msg))"

section \<open>The launchers\<close>

definition find_row ::
  "'k list \<Rightarrow> 'e tensor2 \<Rightarrow> nat \<Rightarrow> bool \<Rightarrow> nat \<Rightarrow> ('k, 'e) table_wrapper \<times> 'e tensor2
     \<Rightarrow> (('k, 'e) table_wrapper \<times> 'e tensor2) \<times> (cuckoo_exn + unit)" where
  "find_row key_flat default_flat value_dim is_full_default i =
     (\<lambda>(w, value_flat).
        case wrapper_find (key_flat ! i) value_flat default_flat value_dim is_full_default i w of
          (w, Inl ex) \<Rightarrow> ((w, value_flat), Inl ex)
        | (w, Inr value_flat) \<Rightarrow> ((w, value_flat), Inr ()))"

definition launch_tensors_find ::
  "cpu_device \<Rightarrow> nat \<Rightarrow> 'k tensor \<Rightarrow> 'e tensor \<Rightarrow> 'e tensor \<Rightarrow> ('k, 'e) table_wrapper
     \<Rightarrow> ('k, 'e) table_wrapper \<times> (cuckoo_exn + 'e tensor)" where
  "launch_tensors_find dev value_dim key value default_value w =
     (let value_flat = flat_inner_dims value;
          default_flat = flat_inner_dims default_value;
          total = length (t_data value_flat);
          default_total = length (t_data default_flat);
          is_full_default = (total = default_total);
          num_keys = length (flat key);
          slices = int total div num_threads dev + 1
      in case run_all (find_row (flat key) default_flat value_dim is_full_default)
                (shard dev (num_threads dev) (int num_keys) slices) (w, value_flat) of
           ((w, value_flat), Inl ex) \<Rightarrow> (w, Inl ex)
         | ((w, value_flat), Inr _) \<Rightarrow> (w, Inr (value\<lparr>flat := t_data value_flat\<rparr>)))"

definition find_exists_row ::
  "'k list \<Rightarrow> 'e tensor2 \<Rightarrow> nat \<Rightarrow> bool \<Rightarrow> nat \<Rightarrow> ('k, 'e) table_wrapper \<times> 'e tensor2 \<times> bool list
     \<Rightarrow> (('k, 'e) table_wrapper \<times> 'e tensor2 \<times> bool list) \<times> (cuckoo_exn + unit)" where
  "find_exists_row key_flat default_flat value_dim is_full_default i =
     (\<lambda>(w, value_flat, exists_flat).
        case wrapper_find_exists (key_flat ! i) value_flat default_flat value_dim
               is_full_default i w of
          (w, Inl ex) \<Rightarrow> ((w, value_flat, exists_flat), Inl ex)
        | (w, Inr (value_flat, exist)) \<Rightarrow> ((w, value_flat, exists_flat[i := exist]), Inr ()))"

definition launch_tensors_find_with_exists ::
  "cpu_device \<Rightarrow> nat \<Rightarrow> 'k tensor \<Rightarrow> 'e tensor \<Rightarrow> 'e tensor \<Rightarrow> bool tensor
     \<Rightarrow> ('k, 'e) table_wrapper \<Rightarrow> ('k, 'e) table_wrapper \<times> (cuckoo_exn + 'e tensor \<times> bool tensor)"
  where
  "launch_tensors_find_with_exists dev value_dim key value default_value exists w =
     (let value_flat = flat_inner_dims value;
          default_flat = flat_inner_dims default_value;
          total = length (t_data value_flat);
          default_total = length (t_data default_flat);
          is_full_default = (total = default_total);
          num_keys = length (flat key);
          slices = int total div num_threads dev + 1
      in case run_all (find_exists_row (flat key) default_flat value_dim is_full_default)
                (shard dev (num_threads dev) (int num_keys) slices)
                (w, value_flat, flat exists) of
           ((w, value_flat, exists_flat), Inl ex) \<Rightarrow> (w, Inl ex)
         | ((w, value_flat, exists_flat), Inr _) \<Rightarrow>
             (w, Inr (value\<lparr>flat := t_data value_flat\<rparr>, exists\<lparr>flat := exists_flat\<rparr>)))"

definition insert_worker_threads :: "cpu_device \<Rightarrow> int" where
  "insert_worker_threads dev =
     (let num_worker_threads = (case insert_threads_env dev of None \<Rightarrow> -1 | Some n \<Rightarrow> n)
      in if num_worker_threads \<le> 0 \<or> num_worker_threads > num_threads dev
         then num_threads dev else num_worker_threads)"

definition launch_tensors_insert ::
  "cpu_device \<Rightarrow> nat \<Rightarrow> 'k tensor \<Rightarrow> 'e tensor \<Rightarrow> ('k, 'e) table_wrapper
     \<Rightarrow> ('k, 'e) table_wrapper \<times> (cuckoo_exn + unit)" where
  "launch_tensors_insert dev value_dim keys values w =
     (let key_flat = flat keys;
          total = length key_flat;
          value_flat = flat_inner_dims values;
          slices = int total div num_threads dev + 1
      in run_all (\<lambda>i w. and_then (wrapper_insert_or_assign (key_flat ! i) value_flat value_dim i w)
                          (\<lambda>_ w. (w, Inr ())))
           (shard dev (insert_worker_threads dev) (int total) slices) w)"

definition launch_tensors_accum ::
  "cpu_device \<Rightarrow> nat \<Rightarrow> 'k tensor \<Rightarrow> 'e tensor \<Rightarrow> bool tensor \<Rightarrow> ('k, 'e) table_wrapper
     \<Rightarrow> ('k, 'e) table_wrapper \<times> (cuckoo_exn + unit)" where
  "launch_tensors_accum dev value_dim keys values_or_deltas exists w =
     (let key_flat = flat keys;
          total = length key_flat;
          values_or_deltas_flat = flat_inner_dims values_or_deltas;
          exist_flat = flat exists;
          slices = int total div num_threads dev + 1
      in run_all (\<lambda>i w. and_then (wrapper_insert_or_accum (key_flat ! i) values_or_deltas_flat
                            (exist_flat ! i) value_dim i w) (\<lambda>_ w. (w, Inr ())))
           (shard dev (num_threads dev) (int total) slices) w)"

section \<open>The table of tensors\<close>

record ('k, 'e) cuckoo_table =
  value_shape :: "nat list"
  runtime_dim :: nat
  table_ptr :: "('k, 'e) table_wrapper"
  init_size :: u64

definition new_cuckoo_table ::
  "nat \<Rightarrow> bool \<Rightarrow> ('k \<Rightarrow> u64) \<Rightarrow> bool \<Rightarrow> bool \<Rightarrow> ('e \<Rightarrow> 'e \<Rightarrow> 'e) \<Rightarrow> int option
     \<Rightarrow> nat list option \<Rightarrow> int option \<Rightarrow> op_exn + ('k, 'e) cuckoo_table" where
  "new_cuckoo_table limit simple hf k_is_int64 v_is_tstring add env_init value_shape_attr init_size_attr =
     (case value_shape_attr of
        None \<Rightarrow> Inl (Failed ''value_shape'')
      | Some shape \<Rightarrow>
        (case init_size_attr of
           None \<Rightarrow> Inl (Failed ''init_size'')
         | Some n \<Rightarrow>
           if length shape \<noteq> 1 then Inl (Failed ''Default value must be a vector, got shape '')
           else let size = (word_of_int n :: u64);
                    size = (if size = 0
                            then word_of_int (case env_init of None \<Rightarrow> 8192 | Some e \<Rightarrow> e) else size);
                    rdim = shape ! 0
                in case create_table limit simple hf k_is_int64 v_is_tstring add size rdim of
                     Inl ex \<Rightarrow> Inl (Thrown ex)
                   | Inr w \<Rightarrow> Inr \<lparr>value_shape = shape, runtime_dim = rdim, table_ptr = w,
                                   init_size = size\<rparr>))"

definition in_table ::
  "(('k, 'e) table_wrapper \<Rightarrow> ('k, 'e) table_wrapper \<times> (cuckoo_exn + 'a))
     \<Rightarrow> ('k, 'e) cuckoo_table \<Rightarrow> ('k, 'e) cuckoo_table \<times> (op_exn + 'a)" where
  "in_table f t = (case f (table_ptr t) of (w, r) \<Rightarrow> lift_exn (t\<lparr>table_ptr := w\<rparr>, r))"

definition ct_size :: "('k, 'e) cuckoo_table \<Rightarrow> nat" where
  "ct_size t = wrapper_size (table_ptr t)"

definition ct_find ::
  "cpu_device \<Rightarrow> 'k tensor \<Rightarrow> 'e tensor \<Rightarrow> 'e tensor \<Rightarrow> ('k, 'e) cuckoo_table
     \<Rightarrow> ('k, 'e) cuckoo_table \<times> (op_exn + 'e tensor)" where
  "ct_find dev key value default_value t =
     in_table (launch_tensors_find dev (value_shape t ! 0) key value default_value) t"

definition ct_find_with_exists ::
  "cpu_device \<Rightarrow> 'k tensor \<Rightarrow> 'e tensor \<Rightarrow> 'e tensor \<Rightarrow> bool tensor \<Rightarrow> ('k, 'e) cuckoo_table
     \<Rightarrow> ('k, 'e) cuckoo_table \<times> (op_exn + 'e tensor \<times> bool tensor)" where
  "ct_find_with_exists dev key value default_value exists t =
     in_table
       (launch_tensors_find_with_exists dev (value_shape t ! 0) key value default_value exists) t"

definition ct_clear :: "('k, 'e) cuckoo_table \<Rightarrow> ('k, 'e) cuckoo_table" where
  "ct_clear t = t\<lparr>table_ptr := wrapper_clear (table_ptr t)\<rparr>"

definition do_insert ::
  "bool \<Rightarrow> cpu_device \<Rightarrow> 'k tensor \<Rightarrow> 'e tensor \<Rightarrow> ('k, 'e) cuckoo_table
     \<Rightarrow> ('k, 'e) cuckoo_table \<times> (op_exn + unit)" where
  "do_insert clr dev keys values t =
     (let value_dim = value_shape t ! 0;
          t = (if clr then t\<lparr>table_ptr := wrapper_clear (table_ptr t)\<rparr> else t)
      in in_table (launch_tensors_insert dev value_dim keys values) t)"

definition do_accum ::
  "bool \<Rightarrow> cpu_device \<Rightarrow> 'k tensor \<Rightarrow> 'e tensor \<Rightarrow> bool tensor \<Rightarrow> ('k, 'e) cuckoo_table
     \<Rightarrow> ('k, 'e) cuckoo_table \<times> (op_exn + unit)" where
  "do_accum clr dev keys values_or_deltas exists t =
     (let value_dim = value_shape t ! 0;
          t = (if clr then t\<lparr>table_ptr := wrapper_clear (table_ptr t)\<rparr> else t)
      in in_table (launch_tensors_accum dev value_dim keys values_or_deltas exists) t)"

definition ct_insert ::
  "cpu_device \<Rightarrow> 'k tensor \<Rightarrow> 'e tensor \<Rightarrow> ('k, 'e) cuckoo_table
     \<Rightarrow> ('k, 'e) cuckoo_table \<times> (op_exn + unit)" where
  "ct_insert dev keys values t = do_insert False dev keys values t"

definition ct_remove ::
  "'k tensor \<Rightarrow> ('k, 'e) cuckoo_table \<Rightarrow> ('k, 'e) cuckoo_table \<times> (op_exn + unit)" where
  "ct_remove keys t = in_table (run_all wrapper_erase (flat keys)) t"

definition ct_accum ::
  "cpu_device \<Rightarrow> 'k tensor \<Rightarrow> 'e tensor \<Rightarrow> bool tensor \<Rightarrow> ('k, 'e) cuckoo_table
     \<Rightarrow> ('k, 'e) cuckoo_table \<times> (op_exn + unit)" where
  "ct_accum dev keys values_or_deltas exists t = do_accum False dev keys values_or_deltas exists t"

definition ct_import_values ::
  "cpu_device \<Rightarrow> 'k tensor \<Rightarrow> 'e tensor \<Rightarrow> ('k, 'e) cuckoo_table
     \<Rightarrow> ('k, 'e) cuckoo_table \<times> (op_exn + unit)" where
  "ct_import_values dev keys values t = do_insert True dev keys values t"

text \<open>
  The outputs are allocated for the size read first; \<open>dump\<close> then overwrites a prefix of the
  memory, whose initial content is \<open>k0\<close> and \<open>e0\<close>.
\<close>

definition overwrite :: "'a list \<Rightarrow> 'a list \<Rightarrow> 'a list" where
  "overwrite mem xs = xs @ drop (length xs) mem"

definition ct_export_values ::
  "status \<Rightarrow> status \<Rightarrow> 'k \<Rightarrow> 'e \<Rightarrow> ('k, 'e) cuckoo_table
     \<Rightarrow> ('k, 'e) cuckoo_table \<times> (op_exn + 'k tensor \<times> 'e tensor)" where
  "ct_export_values keys_status values_status k0 e0 t =
     (let table_size = ct_size t
      in require keys_status
        (require values_status
          (in_table
            (\<lambda>w. and_then (wrapper_dump 0 (of_nat table_size) w)
               (\<lambda>(ks, vs) w.
                  (w, Inr (\<lparr>shape_of = [table_size], flat = overwrite (replicate table_size k0) ks\<rparr>,
                           \<lparr>shape_of = [table_size, runtime_dim t],
                            flat = overwrite (replicate (table_size * runtime_dim t) e0) vs\<rparr>))))))
        t)"

definition memory_used :: "u64 \<Rightarrow> ('k, 'e) cuckoo_table \<Rightarrow> int" where
  "memory_used object_size t = sint (object_size + of_nat (ct_size t))"

section \<open>The kernels\<close>

record op_context =
  ctx_get_table :: status
  ctx_match_signature :: status
  ctx_check_tensors :: status
  ctx_allocate_output :: status
  ctx_allocate_exists :: status
  ctx_track_allocations :: bool
  ctx_object_size :: u64
  ctx_device :: cpu_device

text \<open>
  The accounting around an update: the difference of the memory used is recorded when
  allocations are tracked.  The import kernel keeps the earlier figure in an \<open>int\<close>.
\<close>

definition tracked ::
  "op_context \<Rightarrow> (('k, 'e) cuckoo_table \<Rightarrow> ('k, 'e) cuckoo_table \<times> (op_exn + unit))
     \<Rightarrow> ('k, 'e) cuckoo_table \<Rightarrow> ('k, 'e) cuckoo_table \<times> (op_exn + int option)" where
  "tracked ctx f t =
     (let memory_used_before =
        (if ctx_track_allocations ctx then memory_used (ctx_object_size ctx) t else 0)
      in and_then (f t)
        (\<lambda>_ t. (t, Inr (if ctx_track_allocations ctx
                       then Some (memory_used (ctx_object_size ctx) t - memory_used_before)
                       else None))))"

definition find_op ::
  "op_context \<Rightarrow> 'e \<Rightarrow> 'k tensor \<Rightarrow> 'e tensor \<Rightarrow> ('k, 'e) cuckoo_table
     \<Rightarrow> ('k, 'e) cuckoo_table \<times> (op_exn + 'e tensor)" where
  "find_op ctx e0 key default_value =
     require (ctx_get_table ctx)
       (require (ctx_match_signature ctx)
         (\<lambda>t. let output_shape = shape_of key @ value_shape t;
                  out = \<lparr>shape_of = output_shape, flat = replicate (prod_list output_shape) e0\<rparr>
              in require (ctx_allocate_output ctx)
                   (ct_find (ctx_device ctx) key out default_value) t))"

definition find_with_exists_op ::
  "op_context \<Rightarrow> 'e \<Rightarrow> bool \<Rightarrow> 'k tensor \<Rightarrow> 'e tensor \<Rightarrow> ('k, 'e) cuckoo_table
     \<Rightarrow> ('k, 'e) cuckoo_table \<times> (op_exn + 'e tensor \<times> bool tensor)" where
  "find_with_exists_op ctx e0 b0 key default_value =
     require (ctx_get_table ctx)
       (require (ctx_match_signature ctx)
         (\<lambda>t. let output_shape = shape_of key @ value_shape t;
                  values = \<lparr>shape_of = output_shape, flat = replicate (prod_list output_shape) e0\<rparr>;
                  exists = \<lparr>shape_of = shape_of key,
                            flat = replicate (prod_list (shape_of key)) b0\<rparr>
              in require (ctx_allocate_output ctx)
                   (require (ctx_allocate_exists ctx)
                     (ct_find_with_exists (ctx_device ctx) key values default_value exists)) t))"

definition insert_op ::
  "op_context \<Rightarrow> 'k tensor \<Rightarrow> 'e tensor \<Rightarrow> ('k, 'e) cuckoo_table
     \<Rightarrow> ('k, 'e) cuckoo_table \<times> (op_exn + int option)" where
  "insert_op ctx keys values =
     require (ctx_get_table ctx)
       (require (ctx_match_signature ctx)
         (require (ctx_check_tensors ctx)
           (tracked ctx (ct_insert (ctx_device ctx) keys values))))"

definition remove_op ::
  "op_context \<Rightarrow> 'k tensor \<Rightarrow> ('k, 'e) cuckoo_table
     \<Rightarrow> ('k, 'e) cuckoo_table \<times> (op_exn + int option)" where
  "remove_op ctx key =
     require (ctx_get_table ctx)
       (require (ctx_match_signature ctx)
         (require (ctx_check_tensors ctx) (tracked ctx (ct_remove key))))"

definition clear_op ::
  "op_context \<Rightarrow> ('k, 'e) cuckoo_table \<Rightarrow> ('k, 'e) cuckoo_table \<times> (op_exn + int option)" where
  "clear_op ctx = require (ctx_get_table ctx) (tracked ctx (\<lambda>t. (ct_clear t, Inr ())))"

definition accum_op ::
  "op_context \<Rightarrow> bool \<Rightarrow> 'k tensor \<Rightarrow> 'e tensor \<Rightarrow> bool tensor \<Rightarrow> ('k, 'e) cuckoo_table
     \<Rightarrow> ('k, 'e) cuckoo_table \<times> (op_exn + int option)" where
  "accum_op ctx v_is_tstring keys values_or_deltas exists =
     require (ctx_get_table ctx)
       (require (ctx_match_signature ctx)
         (require (if v_is_tstring then Some ''AccumOP is not supporting tstring value type!'' else None)
           (require (ctx_check_tensors ctx)
             (tracked ctx (ct_accum (ctx_device ctx) keys values_or_deltas exists)))))"

definition size_op ::
  "op_context \<Rightarrow> ('k, 'e) cuckoo_table \<Rightarrow> ('k, 'e) cuckoo_table \<times> (op_exn + int tensor)" where
  "size_op ctx =
     require (ctx_get_table ctx)
       (require (ctx_allocate_output ctx)
         (\<lambda>t. (t, Inr \<lparr>shape_of = [], flat = [int (ct_size t)]\<rparr>)))"

definition export_op ::
  "op_context \<Rightarrow> 'k \<Rightarrow> 'e \<Rightarrow> ('k, 'e) cuckoo_table
     \<Rightarrow> ('k, 'e) cuckoo_table \<times> (op_exn + 'k tensor \<times> 'e tensor)" where
  "export_op ctx k0 e0 =
     require (ctx_get_table ctx)
       (ct_export_values (ctx_allocate_output ctx) (ctx_allocate_exists ctx) k0 e0)"

definition import_op ::
  "op_context \<Rightarrow> 'k tensor \<Rightarrow> 'e tensor \<Rightarrow> ('k, 'e) cuckoo_table
     \<Rightarrow> ('k, 'e) cuckoo_table \<times> (op_exn + int option)" where
  "import_op ctx keys values =
     require (ctx_get_table ctx)
       (require (ctx_match_signature ctx)
         (require (ctx_check_tensors ctx)
           (\<lambda>t. let memory_used_before =
                  (if ctx_track_allocations ctx
                   then signed_take_bit 31 (memory_used (ctx_object_size ctx) t) else 0)
                in and_then (ct_import_values (ctx_device ctx) keys values t)
                  (\<lambda>_ t. (t, Inr (if ctx_track_allocations ctx
                     then Some (memory_used (ctx_object_size ctx) t - memory_used_before)
                     else None))))))"

end
