(* ===== verification/Cuckoo_Table_Op_Spec.thy ===== *)
theory Cuckoo_Table_Op_Spec
  imports Cuckoo_Table_Op
begin

text \<open>
  What the tensor operations do to the table and to their outputs, for every order in which
  the workers get to the rows, provided each row is run exactly once.
\<close>

section \<open>The assumptions on the framework\<close>

definition fair_shard :: "cpu_device \<Rightarrow> bool" where
  "fair_shard dev \<longleftrightarrow> (\<forall>workers n cost.
     mset (shard dev workers (int n) cost) = mset [0..<n])"

lemma fair_shardD:
  assumes "fair_shard dev"
  shows "set (shard dev workers (int n) cost) = {0..<n}"
    "distinct (shard dev workers (int n) cost)"
  using assms unfolding fair_shard_def
  by (metis mset_eq_setD atLeastLessThan_upt) (metis assms fair_shard_def mset_eq_imp_distinct_iff distinct_upt)

text \<open>
  A batch of rows of dimension \<open>rdim\<close>, as \<open>CheckKeyAndValueTensorsForInsert\<close> demands it.
\<close>

definition batch :: "nat \<Rightarrow> 'k tensor \<Rightarrow> 'e tensor \<Rightarrow> bool" where
  "batch rdim keys values \<longleftrightarrow> shape_of values = shape_of keys @ [rdim] \<and>
     length (flat keys) = prod_list (shape_of keys) \<and>
     length (flat values) = prod_list (shape_of values)"

lemma batchD:
  assumes "batch rdim keys values"
  shows "t_cols (flat_inner_dims values) = rdim"
    "length (t_data (flat_inner_dims values)) = length (flat keys) * rdim"
  using assms by (simp_all add: batch_def flat_inner_dims_def)

definition table_ready ::
  "wrapper_kind \<Rightarrow> ('e \<Rightarrow> 'e \<Rightarrow> 'e) \<Rightarrow> nat \<Rightarrow> ('k, 'e) cuckoo_table \<Rightarrow> bool" where
  "table_ready kind add rdim t \<longleftrightarrow> wrapper_ok kind add rdim (table_ptr t) \<and>
     value_shape t = [rdim] \<and> runtime_dim t = rdim"

definition rows_of :: "('k, 'e) cuckoo_table \<Rightarrow> 'k \<rightharpoonup> 'e list" where
  "rows_of t = table_of (table_ptr t)"

text \<open>The row \<open>i\<close> of a tensor of values.\<close>

definition tensor_row :: "nat \<Rightarrow> 'e tensor \<Rightarrow> nat \<Rightarrow> 'e list" where
  "tensor_row rdim t i = row_of rdim (flat_inner_dims t) i"

section \<open>Running rows\<close>

lemma run_all_forget:
  "run_all (\<lambda>x s. and_then (f x s) (\<lambda>_ s. (s, Inr ()))) xs s = run_all f xs s"
  by (induction xs arbitrary: s) (auto simp: and_then_def split: prod.splits sum.splits)

lemma fold_snoc: "fold (\<lambda>j v. v @ [f j]) js v = v @ map f js"
  by (induction js arbitrary: v) simp_all

lemma wrapper_update_row_of:
  assumes "t_cols tn = d"
  shows "wrapper_insert_or_assign key tn d i = wrapper_assign_vec key (row_of d tn i)"
    "wrapper_insert_or_accum key tn exist d i = wrapper_accum_vec key (row_of d tn i) exist"
proof -
  have "optimized_row tn d i = row_of d tn i" "pushed_row tn d i = row_of d tn i"
    using assms by (simp_all add: optimized_row_def pushed_row_def row_of_def fold_snoc t_at_def)
  then show "wrapper_insert_or_assign key tn d i = wrapper_assign_vec key (row_of d tn i)"
    "wrapper_insert_or_accum key tn exist d i = wrapper_accum_vec key (row_of d tn i) exist"
    by (simp_all add: fun_eq_iff wrapper_insert_or_assign_def optimized_insert_or_assign_def
        default_insert_or_assign_def wrapper_insert_or_accum_def optimized_insert_or_accum_def
        default_insert_or_accum_def split: wrapper_kind.splits)
qed

lemma launch_insert_run:
  assumes "batch rdim keys values"
  shows "launch_tensors_insert dev rdim keys values w =
    run_all (\<lambda>i. wrapper_assign_vec (flat keys ! i) (tensor_row rdim values i))
      (shard dev (insert_worker_threads dev) (int (length (flat keys)))
         (int (length (flat keys)) div num_threads dev + 1)) w"
  by (simp add: launch_tensors_insert_def Let_def run_all_forget tensor_row_def
      wrapper_update_row_of(1) [OF batchD(1) [OF assms]])

lemma launch_accum_run:
  assumes "batch rdim keys values"
  shows "launch_tensors_accum dev rdim keys values exists w =
    run_all (\<lambda>i. wrapper_accum_vec (flat keys ! i) (tensor_row rdim values i) (flat exists ! i))
      (shard dev (num_threads dev) (int (length (flat keys)))
         (int (length (flat keys)) div num_threads dev + 1)) w"
  by (simp add: launch_tensors_accum_def Let_def run_all_forget tensor_row_def
      wrapper_update_row_of(2) [OF batchD(1) [OF assms]])

lemma lift_exn_Inr: "lift_exn p = (s, Inr a) \<longleftrightarrow> p = (s, Inr a)"
  by (cases p rule: lift_exn.cases) auto

lemma lift_exn_snd: "snd (lift_exn p) = Inl (Thrown ex) \<longleftrightarrow> snd p = Inl ex"
  by (cases p rule: lift_exn.cases) auto

lemma in_table_Inr:
  "in_table f t = (t', Inr a) \<longleftrightarrow>
     (\<exists>w. f (table_ptr t) = (w, Inr a) \<and> t' = t\<lparr>table_ptr := w\<rparr>)"
  by (auto simp: in_table_def lift_exn_Inr split: prod.splits)

lemma in_table_throws:
  "snd (in_table f t) = Inl (Thrown ex) \<longleftrightarrow> snd (f (table_ptr t)) = Inl ex"
  by (auto simp: in_table_def lift_exn_snd split: prod.splits)

lemma wrapper_clear_ok:
  assumes "wrapper_ok kind add rdim w"
  shows "wrapper_ok kind add rdim (wrapper_clear w)" "table_of (wrapper_clear w) = Map.empty"
proof -
  have "ready Normal_mode (w_map w)" using wrapper_okD(1) [OF assms] by (simp add: map_ready_def)
  from yieldsD [OF clear_spec(1) [OF this]]
  have c: "map_ready (clear (w_map w))" "abs_map (clear (w_map w)) = Map.empty"
    by (simp_all add: map_ready_def)
  from c show "wrapper_ok kind add rdim (wrapper_clear w)"
    unfolding wrapper_clear_def by (intro wrapper_ok_change [OF assms]) simp_all
  from c show "table_of (wrapper_clear w) = Map.empty" by (simp add: wrapper_clear_def table_of_def)
qed

section \<open>Updates\<close>

text \<open>What a table holds after the rows of a batch have been assigned in some order.\<close>

definition assigned ::
  "nat \<Rightarrow> 'k tensor \<Rightarrow> 'e tensor \<Rightarrow> ('k \<rightharpoonup> 'e list) \<Rightarrow> ('k \<rightharpoonup> 'e list) \<Rightarrow> bool" where
  "assigned rdim keys values m m' \<longleftrightarrow>
     (\<forall>k. if k \<in> set (flat keys)
          then \<exists>i<length (flat keys). flat keys ! i = k \<and> m' k = Some (tensor_row rdim values i)
          else m' k = m k)"

lemma launch_insert_spec:
  assumes ok: "wrapper_ok kind add rdim w" and fair: "fair_shard dev"
    and b: "batch rdim keys values"
  shows "completes (launch_tensors_insert dev rdim keys values w)"
    and "launch_tensors_insert dev rdim keys values w = (w', Inr ()) \<Longrightarrow>
      wrapper_ok kind add rdim w' \<and> assigned rdim keys values (table_of w) (table_of w')"
proof -
  let ?js = "shard dev (insert_worker_threads dev) (int (length (flat keys)))
      (int (length (flat keys)) div num_threads dev + 1)"
  note js = fair_shardD(1) [OF fair, of "insert_worker_threads dev" "length (flat keys)"
      "int (length (flat keys)) div num_threads dev + 1"]
  have len: "\<forall>i\<in>set ?js. length (tensor_row rdim values i) = rdim"
    by (simp add: tensor_row_def)
  show "completes (launch_tensors_insert dev rdim keys values w)"
    unfolding launch_insert_run [OF b] by (rule tw.assign_all_returns [OF ok len])
  assume "launch_tensors_insert dev rdim keys values w = (w', Inr ())"
  note run = this [unfolded launch_insert_run [OF b]]
  note a = tw.assign_all [OF ok len run]
  have img: "(!) (flat keys) ` set ?js = set (flat keys)"
    unfolding js by (auto simp: set_conv_nth)
  have "assigned rdim keys values (table_of w) (table_of w')"
    unfolding assigned_def
  proof (rule allI)
    fix k
    consider (given) i where "i < length (flat keys)" "flat keys ! i = k"
        "table_of w' k = Some (tensor_row rdim values i)" "k \<in> set (flat keys)"
      | (other) "k \<notin> set (flat keys)" "table_of w' k = table_of w k"
      using tw.assign_all_some_row [OF ok len run, of k] tw.assign_all_other [OF ok len run, of k]
      unfolding img unfolding js by (metis atLeastLessThan_iff)
    then show "if k \<in> set (flat keys)
          then \<exists>i<length (flat keys). flat keys ! i = k \<and> table_of w' k = Some (tensor_row rdim values i)
          else table_of w' k = table_of w k"
      by cases (auto intro!: exI)
  qed
  with a show "wrapper_ok kind add rdim w' \<and> assigned rdim keys values (table_of w) (table_of w')"
    by blast
qed

lemma launch_accum_spec:
  assumes ok: "wrapper_ok kind add rdim w" and fair: "fair_shard dev"
    and b: "batch rdim keys values" and d: "distinct (flat keys)"
  shows "completes (launch_tensors_accum dev rdim keys values exists w)"
    and "launch_tensors_accum dev rdim keys values exists w = (w', Inr ()) \<Longrightarrow>
      wrapper_ok kind add rdim w' \<and>
      (\<forall>i<length (flat keys). table_of w' (flat keys ! i)
         = accum_effect (kind_plus kind add) (flat keys ! i) (tensor_row rdim values i)
             (flat exists ! i) (table_of w) (flat keys ! i)) \<and>
      (\<forall>k. k \<notin> set (flat keys) \<longrightarrow> table_of w' k = table_of w k)"
proof -
  let ?js = "shard dev (num_threads dev) (int (length (flat keys)))
      (int (length (flat keys)) div num_threads dev + 1)"
  note js = fair_shardD [OF fair, of "num_threads dev" "length (flat keys)"
      "int (length (flat keys)) div num_threads dev + 1"]
  have len: "\<forall>i\<in>set ?js. length (tensor_row rdim values i) = rdim"
    by (simp add: tensor_row_def)
  have inj: "inj_on ((!) (flat keys)) (set ?js)"
    unfolding js(1) using d by (auto simp: inj_on_def nth_eq_iff_index_eq)
  have img: "(!) (flat keys) ` set ?js = set (flat keys)"
    unfolding js by (auto simp: set_conv_nth)
  show "completes (launch_tensors_accum dev rdim keys values exists w)"
    unfolding launch_accum_run [OF b] by (rule tw.accum_all_returns [OF ok len])
  assume "launch_tensors_accum dev rdim keys values exists w = (w', Inr ())"
  note run = this [unfolded launch_accum_run [OF b]]
  from tw.accum_all [OF ok len inj js(2) run]
  show "wrapper_ok kind add rdim w' \<and>
      (\<forall>i<length (flat keys). table_of w' (flat keys ! i)
         = accum_effect (kind_plus kind add) (flat keys ! i) (tensor_row rdim values i)
             (flat exists ! i) (table_of w) (flat keys ! i)) \<and>
      (\<forall>k. k \<notin> set (flat keys) \<longrightarrow> table_of w' k = table_of w k)"
    unfolding img unfolding js(1) by simp
qed

section \<open>Lookups\<close>

definition rows_found ::
  "('k \<rightharpoonup> 'e list) \<Rightarrow> 'k list \<Rightarrow> 'e tensor2 \<Rightarrow> nat \<Rightarrow> bool \<Rightarrow> nat set \<Rightarrow> 'e tensor2 \<Rightarrow> 'e tensor2
     \<Rightarrow> bool" where
  "rows_found m keys dflt d full js tn tn' \<longleftrightarrow>
     t_cols tn' = d \<and> length (t_data tn') = length keys * d \<and>
     (\<forall>i<length keys. row_of d tn' i
        = (if i \<in> js then found_row m dflt d full (keys ! i) i else row_of d tn i))"

lemma find_rows_spec:
  assumes "t_cols dflt = d"
  shows "wrapper_ok kind add d w \<Longrightarrow> t_cols tn = d \<Longrightarrow> length (t_data tn) = length keys * d \<Longrightarrow>
    length ex = length keys \<Longrightarrow> set js \<subseteq> {0..<length keys} \<Longrightarrow>
    \<exists>w' tn' ex'. run_all (find_exists_row keys dflt d full) js (w, tn, ex) = ((w', tn', ex'), Inr ()) \<and>
      run_all (find_row keys dflt d full) js (w, tn) = ((w', tn'), Inr ()) \<and>
      wrapper_ok kind add d w' \<and> table_of w' = table_of w \<and>
      rows_found (table_of w) keys dflt d full (set js) tn tn' \<and> length ex' = length keys \<and>
      (\<forall>i<length keys. ex' ! i = (if i \<in> set js then table_of w (keys ! i) \<noteq> None else ex ! i))"
proof (induction js arbitrary: w tn ex)
  case Nil
  then show ?case by (simp add: rows_found_def)
next
  case (Cons j js)
  have j: "j < length keys" using Cons.prems(5) by simp
  obtain w1 tn1 where 1: "wrapper_find_exists (keys ! j) tn dflt d full j w
      = (w1, Inr (tn1, table_of w (keys ! j) \<noteq> None))"
    "wrapper_find (keys ! j) tn dflt d full j w = (w1, Inr tn1)"
    "wrapper_ok kind add d w1" "table_of w1 = table_of w" "t_cols tn1 = d"
    "length (t_data tn1) = length keys * d"
    and rows1: "\<And>i. i < length keys \<Longrightarrow> row_of d tn1 i
      = (if i = j then found_row (table_of w) dflt d full (keys ! j) j else row_of d tn i)"
    using wrapper_find_exists_spec [OF Cons.prems(1,3,2) assms j, of "keys ! j" full] by blast
  let ?ex1 = "ex[j := table_of w (keys ! j) \<noteq> None]"
  have len: "length ?ex1 = length keys" "set js \<subseteq> {0..<length keys}" using Cons.prems by simp_all
  obtain w' tn' ex' where 2:
    "run_all (find_exists_row keys dflt d full) js (w1, tn1, ?ex1) = ((w', tn', ex'), Inr ())"
    "run_all (find_row keys dflt d full) js (w1, tn1) = ((w', tn'), Inr ())"
    "wrapper_ok kind add d w'" "table_of w' = table_of w1"
    "rows_found (table_of w1) keys dflt d full (set js) tn1 tn'" "length ex' = length keys"
    and ex2: "\<And>i. i < length keys \<Longrightarrow>
      ex' ! i = (if i \<in> set js then table_of w1 (keys ! i) \<noteq> None else ?ex1 ! i)"
    using Cons.IH [OF 1(3,5,6) len] by blast
  have "rows_found (table_of w) keys dflt d full (set (j # js)) tn tn'"
    using 2(5) rows1 1(4) by (auto simp: rows_found_def)
  moreover have "find_exists_row keys dflt d full j (w, tn, ex) = ((w1, tn1, ?ex1), Inr ())"
    "find_row keys dflt d full j (w, tn) = ((w1, tn1), Inr ())"
    using 1(1,2) by (simp_all add: find_exists_row_def find_row_def)
  moreover have "ex' ! i = (if i \<in> set (j # js) then table_of w (keys ! i) \<noteq> None else ex ! i)"
    if "i < length keys" for i
    using ex2 [OF that] 1(4) that Cons.prems(4) by (simp add: nth_list_update)
  ultimately show ?case
    using 2 1(4) by (intro exI [of _ w'] exI [of _ tn'] exI [of _ ex']) simp
qed

text \<open>
  The default of row \<open>i\<close>: its own row of the default tensor when that has the size of the
  output, the first row otherwise.
\<close>

definition lookup_row ::
  "nat \<Rightarrow> ('k \<rightharpoonup> 'e list) \<Rightarrow> 'k tensor \<Rightarrow> 'e tensor \<Rightarrow> nat \<Rightarrow> 'e list" where
  "lookup_row d m key default_value i =
     (case m (flat key ! i) of
        Some v \<Rightarrow> v
      | None \<Rightarrow> tensor_row d default_value
          (if length (flat default_value) = length (flat key) * d then i else 0))"

lemma found_row_lookup_row:
  "found_row m (flat_inner_dims dv) d (length (flat key) * d = length (flat dv)) (flat key ! i) i
     = lookup_row d m key dv i"
  by (auto simp: found_row_def lookup_row_def default_for_def tensor_row_def split: option.splits)

lemma launch_find_spec:
  assumes ok: "wrapper_ok kind add d w" and fair: "fair_shard dev"
    and b: "batch d key value" and dv: "t_cols (flat_inner_dims dv) = d"
    and ex: "length (flat exists) = length (flat key)"
  shows "\<exists>w' value' exists'.
    launch_tensors_find_with_exists dev d key value dv exists w = (w', Inr (value', exists')) \<and>
    launch_tensors_find dev d key value dv w = (w', Inr value') \<and>
    wrapper_ok kind add d w' \<and> table_of w' = table_of w \<and>
    shape_of value' = shape_of value \<and> length (flat value') = length (flat value) \<and>
    shape_of exists' = shape_of exists \<and>
    (\<forall>i<length (flat key). tensor_row d value' i = lookup_row d (table_of w) key dv i) \<and>
    flat exists' = map (\<lambda>k. table_of w k \<noteq> None) (flat key)"
proof -
  let ?full = "length (flat key) * d = length (flat dv)"
  let ?js = "shard dev (num_threads dev) (int (length (flat key)))
      (int (length (flat key) * d) div num_threads dev + 1)"
  have vlen: "length (flat value) = length (flat key) * d"
    using batchD(2) [OF b] by (simp add: flat_inner_dims_def)
  have js: "set ?js = {0..<length (flat key)}" by (rule fair_shardD(1) [OF fair])
  obtain w' tn' ex' where run:
    "run_all (find_exists_row (flat key) (flat_inner_dims dv) d ?full) ?js
       (w, flat_inner_dims value, flat exists) = ((w', tn', ex'), Inr ())"
    "run_all (find_row (flat key) (flat_inner_dims dv) d ?full) ?js (w, flat_inner_dims value)
       = ((w', tn'), Inr ())"
    "wrapper_ok kind add d w'" "table_of w' = table_of w"
    "rows_found (table_of w) (flat key) (flat_inner_dims dv) d ?full (set ?js)
       (flat_inner_dims value) tn'" "length ex' = length (flat key)"
    and ex': "\<And>i. i < length (flat key) \<Longrightarrow>
      ex' ! i = (if i \<in> set ?js then table_of w (flat key ! i) \<noteq> None else flat exists ! i)"
    using find_rows_spec [OF dv ok batchD [OF b] ex equalityD1 [OF js], of ?full] by blast
  let ?value' = "value\<lparr>flat := t_data tn'\<rparr>" and ?exists' = "exists\<lparr>flat := ex'\<rparr>"
  have d: "t_cols (flat_inner_dims ?value') = d"
    using batchD(1) [OF b] by (simp add: flat_inner_dims_def split: if_splits)
  have rows: "tensor_row d ?value' i = lookup_row d (table_of w) key dv i"
    if "i < length (flat key)" for i
  proof -
    have "tensor_row d ?value' i = row_of d tn' i"
      by (simp add: tensor_row_def row_of_def flat_inner_dims_def)
    also have "\<dots> = lookup_row d (table_of w) key dv i"
      using run(5) that js by (simp add: rows_found_def found_row_lookup_row)
    finally show ?thesis .
  qed
  have "flat ?exists' = map (\<lambda>k. table_of w k \<noteq> None) (flat key)"
    using run(6) ex' js by (auto intro!: nth_equalityI)
  moreover have "length (flat ?value') = length (flat value)"
    using run(5) vlen by (simp add: rows_found_def)
  ultimately show ?thesis
    using run rows vlen
    by (intro exI [of _ w'] exI [of _ ?value'] exI [of _ ?exists'])
      (simp add: launch_tensors_find_with_exists_def launch_tensors_find_def Let_def
        flat_inner_dims_def)
qed

section \<open>The whole table\<close>

lemma table_readyD:
  assumes "table_ready kind add rdim t"
  shows "wrapper_ok kind add rdim (table_ptr t)" "value_shape t ! 0 = rdim"
    "value_shape t = [rdim]" "runtime_dim t = rdim"
  using assms by (simp_all add: table_ready_def)

lemma table_ready_change:
  "table_ready kind add rdim t \<Longrightarrow> wrapper_ok kind add rdim w \<Longrightarrow>
     table_ready kind add rdim (t\<lparr>table_ptr := w\<rparr>) \<and> rows_of (t\<lparr>table_ptr := w\<rparr>) = table_of w"
  by (simp add: table_ready_def rows_of_def)

lemma do_insert_spec:
  assumes ok: "table_ready kind add rdim t" and fair: "fair_shard dev" and b: "batch rdim keys values"
  shows "snd (do_insert clr dev keys values t) \<noteq> Inl (Thrown Diverges)"
    and "do_insert clr dev keys values t = (t', Inr ()) \<Longrightarrow>
      table_ready kind add rdim t' \<and>
      assigned rdim keys values (if clr then Map.empty else rows_of t) (rows_of t')"
proof -
  let ?w = "if clr then wrapper_clear (table_ptr t) else table_ptr t"
  have w: "wrapper_ok kind add rdim ?w" "table_of ?w = (if clr then Map.empty else rows_of t)"
    using wrapper_clear_ok [OF table_readyD(1) [OF ok]] table_readyD(1) [OF ok]
    by (simp_all add: rows_of_def)
  have eq: "do_insert clr dev keys values t
      = in_table (launch_tensors_insert dev rdim keys values) (t\<lparr>table_ptr := ?w\<rparr>)"
    by (simp add: do_insert_def table_readyD(2) [OF ok])
  show "snd (do_insert clr dev keys values t) \<noteq> Inl (Thrown Diverges)"
    using launch_insert_spec(1) [OF w(1) fair b]
    by (simp add: eq in_table_throws completes_def)
  assume "do_insert clr dev keys values t = (t', Inr ())"
  then obtain w' where w': "launch_tensors_insert dev rdim keys values ?w = (w', Inr ())"
    "t' = t\<lparr>table_ptr := w'\<rparr>" by (auto simp: eq in_table_Inr)
  from launch_insert_spec(2) [OF w(1) fair b w'(1)] table_ready_change [OF ok, of w'] w(2) w'(2)
  show "table_ready kind add rdim t' \<and>
      assigned rdim keys values (if clr then Map.empty else rows_of t) (rows_of t')" by simp
qed

lemma ct_remove_spec:
  assumes ok: "table_ready kind add rdim t"
  shows "\<exists>t'. ct_remove keys t = (t', Inr ()) \<and> table_ready kind add rdim t' \<and>
    rows_of t' = rows_of t |` (- set (flat keys))"
proof -
  obtain w' where "run_all wrapper_erase (flat keys) (table_ptr t) = (w', Inr ())"
    "wrapper_ok kind add rdim w'" "table_of w' = table_of (table_ptr t) |` (- set (flat keys))"
    using tw.remove_all [OF table_readyD(1) [OF ok]] by blast
  with table_ready_change [OF ok, of w'] show ?thesis
    by (intro exI [of _ "t\<lparr>table_ptr := w'\<rparr>"]) (simp add: ct_remove_def in_table_Inr rows_of_def)
qed

lemma ct_clear_spec:
  assumes "table_ready kind add rdim t"
  shows "table_ready kind add rdim (ct_clear t)" "rows_of (ct_clear t) = Map.empty"
  using wrapper_clear_ok [OF table_readyD(1) [OF assms]]
    table_ready_change [OF assms, of "wrapper_clear (table_ptr t)"]
  by (simp_all add: ct_clear_def)

section \<open>Export and import\<close>

lemma concat_nth:
  "(\<And>e. e \<in> set es \<Longrightarrow> length (f e) = d) \<Longrightarrow> i < length es \<Longrightarrow> j < d \<Longrightarrow>
     concat (map f es) ! (i * d + j) = f (es ! i) ! j"
proof (induction es arbitrary: i)
  case Nil
  then show ?case by simp
next
  case (Cons e es)
  have e: "length (f e) = d" using Cons.prems(1) by simp
  show ?case
  proof (cases i)
    case 0
    then show ?thesis using e Cons.prems(3) by (simp add: nth_append)
  next
    case (Suc n)
    then have "concat (map f es) ! (n * d + j) = f (es ! n) ! j"
      using Cons.prems by (intro Cons.IH) simp_all
    then show ?thesis using e Suc by (simp add: nth_append)
  qed
qed

lemma length_concat_const:
  "(\<And>e. e \<in> set es \<Longrightarrow> length (f e) = d) \<Longrightarrow> length (concat (map f es)) = length es * d"
  by (induction es) simp_all

text \<open>The tensors \<open>ks\<close> and \<open>vs\<close> list the rows of a table, each key once.\<close>

definition lists_rows :: "nat \<Rightarrow> 'k tensor \<Rightarrow> 'e tensor \<Rightarrow> ('k \<rightharpoonup> 'e list) \<Rightarrow> bool" where
  "lists_rows d ks vs m \<longleftrightarrow> batch d ks vs \<and> distinct (flat ks) \<and> set (flat ks) = dom m \<and>
     (\<forall>i<length (flat ks). m (flat ks ! i) = Some (tensor_row d vs i))"

lemma size_bound:
  assumes "ready Normal_mode t"
  shows "length (live t) < 2 ^ 62"
proof -
  note lt = lock_table_spec [OF assms]
  note core = readyD(2) [OF lt(1)]
  have hp: "hashpower (lock_table t) < 60"
    using table_structD(2,3) [OF table_core_struct [OF core]] by simp
  have "length (live t) \<le> 2 ^ hashpower (lock_table t) * slot_per_bucket"
    using length_live_capacity [OF core lt(2)] same_viewD(5) [OF lt(3)]
    by (simp add: capacity_def bucket_count_def cont_size_def hashpower_def)
  also have "\<dots> < 2 ^ 60 * slot_per_bucket"
    using hp by (intro mult_strict_right_mono power_strict_increasing) (simp_all add: slot_per_bucket_def)
  finally show ?thesis by (simp add: slot_per_bucket_def)
qed

lemma lists_rows_live:
  assumes core: "table_core t" and rows: "\<And>k v. abs_map t k = Some v \<Longrightarrow> length v = d"
  shows "lists_rows d \<lparr>shape_of = [length (live t)], flat = map kv_key (live t)\<rparr>
    \<lparr>shape_of = [length (live t), d], flat = concat (map kv_mapped (live t))\<rparr> (abs_map t)"
proof -
  have len: "length (kv_mapped e) = d" if "e \<in> set (live t)" for e
    using abs_map_SomeI [OF core that] rows by blast
  let ?vs = "\<lparr>shape_of = [length (live t), d], flat = concat (map kv_mapped (live t))\<rparr>"
  have row: "tensor_row d ?vs i = kv_mapped (live t ! i)" if "i < length (live t)" for i
    using concat_nth [of "live t" kv_mapped d i, OF len that] len [OF nth_mem [OF that]]
    by (auto simp: tensor_row_def row_of_def flat_inner_dims_def intro!: nth_equalityI)
  have dom: "kv_key ` set (live t) = dom (abs_map t)"
  proof (rule set_eqI)
    fix k
    show "k \<in> kv_key ` set (live t) \<longleftrightarrow> k \<in> dom (abs_map t)"
      by (simp only: domIff abs_map_None_iff not_not)
  qed
  show ?thesis
    using table_coreD(7) [OF core] dom length_concat_const [of "live t" kv_mapped d, OF len] row
      abs_map_SomeI [OF core nth_mem]
    by (simp add: lists_rows_def batch_def)
qed

lemma ct_export_spec:
  assumes ok: "table_ready kind add rdim t"
  shows "\<exists>t' ks vs. ct_export_values None None k0 e0 t = (t', Inr (ks, vs)) \<and>
    table_ready kind add rdim t' \<and> rows_of t' = rows_of t \<and> lists_rows rdim ks vs (rows_of t)"
proof -
  let ?w = "table_ptr t" let ?m = "w_map ?w"
  have wok: "wrapper_ok kind add rdim ?w" by (rule table_readyD(1) [OF ok])
  have r: "ready Normal_mode ?m" using wrapper_okD(1) [OF wok] by (simp add: map_ready_def)
  note core = readyD(2) [OF r]
  have size: "ct_size t = length (live ?m)"
    by (simp add: ct_size_def wrapper_size_def cuckoo_size_def table_coreD(8) [OF core])
  have small: "unat (of_nat (length (live ?m)) :: u64) = length (live ?m)"
    using size_bound [OF r] by (simp add: unat_of_nat take_bit_nat_eq_self)
  have nowrap: "unat (0 :: u64) + unat (of_nat (length (live ?m)) :: u64) < 2 ^ 64"
    using size_bound [OF r] small by simp
  note dump = wrapper_dump_spec [OF wok nowrap]
  have part: "dump_part (unat (0 :: u64)) (unat (of_nat (length (live ?m)) :: u64)) ?w = live ?m"
    by (simp add: dump_part_def small)
  have rows: "lists_rows rdim \<lparr>shape_of = [length (live ?m)], flat = map kv_key (live ?m)\<rparr>
    \<lparr>shape_of = [length (live ?m), rdim], flat = concat (map kv_mapped (live ?m))\<rparr> (rows_of t)"
    unfolding rows_of_def table_of_def
    by (rule lists_rows_live [OF core]) (use wrapper_okD(4) [OF wok] in \<open>simp add: table_of_def\<close>)
  have vlen: "length (concat (map kv_mapped (live ?m))) = length (live ?m) * rdim"
    using rows by (simp add: lists_rows_def batch_def)
  let ?w' = "?w\<lparr>w_map := lock_table ?m\<rparr>"
  have "rows_of (t\<lparr>table_ptr := ?w'\<rparr>) = rows_of t"
    using same_viewD(6) [OF lock_table_spec(3) [OF r]] by (simp add: rows_of_def table_of_def)
  moreover have "ct_export_values None None k0 e0 t = (t\<lparr>table_ptr := ?w'\<rparr>,
      Inr (\<lparr>shape_of = [length (live ?m)], flat = map kv_key (live ?m)\<rparr>,
           \<lparr>shape_of = [length (live ?m), rdim], flat = concat (map kv_mapped (live ?m))\<rparr>))"
    using vlen
    by (simp add: ct_export_values_def size in_table_Inr dump(1) part [simplified] overwrite_def
        table_readyD(4) [OF ok] Let_def)
  ultimately show ?thesis
    using table_ready_change [OF ok dump(2)] rows by blast
qed

lemma assigned_lists_rows:
  assumes "lists_rows d ks vs m" "assigned d ks vs Map.empty m'"
  shows "m' = m"
proof
  fix k
  show "m' k = m k"
  proof (cases "k \<in> set (flat ks)")
    case True
    then obtain i where "i < length (flat ks)" "flat ks ! i = k" "m' k = Some (tensor_row d vs i)"
      using assms(2) True unfolding assigned_def by metis
    then show ?thesis using assms(1) by (auto simp: lists_rows_def)
  next
    case False
    then have "m k = None" using assms(1) by (auto simp: lists_rows_def)
    moreover have "m' k = None" using assms(2) False by (auto simp: assigned_def)
    ultimately show ?thesis by simp
  qed
qed

end
