(* ===== verification/Samples.thy ===== *)
theory Samples
  imports Cuckoo_Table_Op_Spec
begin

text \<open>
  Small concrete tables, on which the properties with hypotheses are exercised: the map the
  constructor builds for four elements, and the same map after one insertion.
\<close>

definition sample_map :: "(nat, 'v) cuckoo_map" where
  "sample_map = \<lparr>hash_fn = of_nat, is_simple = True, buckets = mk_container 0,
     old_buckets = mk_container 0, locks = [new_spinlock], num_remaining = 0,
     minimum_load_factor = LIBCUCKOO_DEFAULT_MINIMUM_LOAD_FACTOR,
     maximum_hashpower = LIBCUCKOO_NO_MAXIMUM_HASHPOWER, max_num_worker_threads = 6,
     alloc_limit = 20\<rparr>"

lemma reserve_calc_4: "reserve_calc 4 = 0"
  by (simp add: reserve_calc_def slot_per_bucket_def reserve_calc_loop.simps)

lemma sample_map_new: "new_cuckoohash_map 20 True of_nat 4 = Inr sample_map"
  by (simp add: new_cuckoohash_map_def reserve_calc_4 sample_map_def kMaxNumLocks_def)

lemma sample_map_ready: "ready mode sample_map" "map_ready sample_map"
  "abs_map sample_map = Map.empty" "hashpower sample_map = 0" "all_migrated sample_map"
  using new_map_spec [OF sample_map_new] by (simp_all add: map_ready_def reserve_calc_4)

definition sample_one :: "(nat, nat list) cuckoo_map" where
  "sample_one = add_to_bucket 0 3 (partial_key (of_nat 5)) 5 [50, 51] sample_map"

lemma home_0: "home 0 h i \<longleftrightarrow> i = 0"
  using index_hash_less [of 0 h] alt_index_less [of 0 "partial_key h" "index_hash 0 h"]
  by (auto simp: home_def)

lemma sample_map_migrated: "migrated sample_map 0"
  using sample_map_ready(5) by (simp add: migrated_def all_migrated_def lock_ind_def sample_map_def)

lemma eff_sample_map: "eff sample_map 0 = replicate 4 None"
  by (simp only: eff_def sample_map_migrated if_True)
    (simp add: sample_map_def mk_container_def empty_bucket_def slot_per_bucket_def)

lemma sample_one_yields: "yields mode sample_map sample_one [5 \<mapsto> [50, 51]]"
proof -
  have at: "at_slot (sample_map :: (nat, nat list) cuckoo_map) 0 3 None"
    by (simp add: at_slot_def eff_sample_map sample_map_migrated sample_map_ready slot_per_bucket_def)
  show ?thesis
    using add_to_bucket_spec [OF sample_map_ready(1) at, of "5 :: nat" mode "[50, 51]"]
    by (simp add: home_0 sample_map_ready sample_one_def) (simp add: sample_map_def)
qed

lemma sample_one_ready: "ready mode sample_one" "map_ready sample_one"
  "abs_map sample_one = [5 \<mapsto> [50, 51]]"
  using sample_one_yields by (simp_all add: yields_def map_ready_def)

lemma sample_one_hash: "hash_fn sample_one = of_nat"
  by (simp add: sample_one_def add_to_bucket_def) (simp add: sample_map_def)

text \<open>Accumulating onto the present key never has to grow the table.\<close>

lemma sample_one_accum:
  "\<exists>u. insert_or_accum addv 5 d True sample_one = (u, Inr False)"
proof -
  have r: "ready Normal_mode sample_one" by (rule sample_one_ready)
  obtain u b where u: "snapshot_and_lock_two Normal_mode (hashed_key (hash_fn sample_one) 5) sample_one = (u, Inr b)"
    "viewed Normal_mode sample_one u" "candidates u 5 b" "hash_fn u = hash_fn sample_one"
    by (rule snapshot_candidates [OF r])
  have ru: "ready Normal_mode u" by (rule viewedD(1) [OF u(2)])
  obtain w pos where w: "cuckoo_insert Normal_mode (hashed_key (hash_fn u) 5) b 5 u = (w, Inr pos)"
    "insert_answer Normal_mode 5 b u w pos" by (rule cuckoo_insert_spec [OF ru u(3)])
  have "abs_map u 5 = Some [50, 51]"
    using same_viewD(6) [OF viewedD(2) [OF u(2)]] by (simp add: sample_one_ready)
  with w(2) have "pos_status pos = Failure_key_duplicated" by (auto simp: insert_answer_def)
  then show ?thesis
    using u(1,4) w(1)
    by (simp add: insert_or_accum_def accumrase_def accumrase_fn_def Let_def insert_rounds_def
        cuckoo_insert_loop.simps(2) [of 63, simplified])
qed

end
