(* ===== verification/Cuckoo_Run.thy ===== *)
theory Cuckoo_Run
  imports Kv_Store
begin

text \<open>
  Histories of the concurrent map as a step relation: each step is one call of a client
  that returned, was refused growth or, for an explicit resize, threw.  Two kinds of call
  end a history: an insertion that ended with \<open>std::bad_alloc\<close>, because the table may then
  be left without its old buckets, and a resize that threw for entries a move changes,
  because some of them are then moved out of the table.
\<close>

inductive map_step :: "('k, 'v) cuckoo_map \<Rightarrow> ('k, 'v) cuckoo_map \<Rightarrow> bool" where
  found: "find_fn k t = (u, r) \<Longrightarrow> map_step t u"
| updated: "update_fn k fn t = (u, r) \<Longrightarrow> map_step t u"
| erased: "erase_fn k efn t = (u, r) \<Longrightarrow> map_step t u"
| upserted: "uprase_fn k efn v t = (u, Inr b) \<Longrightarrow> map_step t u"
| accumulated: "accumrase_fn k efn exist v t = (u, Inr b) \<Longrightarrow> map_step t u"
| refused: "uprase_fn k efn v t = (u, Inl ex) \<Longrightarrow> ex \<noteq> Bad_alloc \<Longrightarrow> map_step t u"
| accum_refused: "accumrase_fn k efn exist v t = (u, Inl ex) \<Longrightarrow> ex \<noteq> Bad_alloc \<Longrightarrow> map_step t u"
| cleared: "map_step t (clear t)"
| rehashed: "cuckoo_rehash mv n t = (u, Inr b) \<Longrightarrow> map_step t u"
| reserved: "cuckoo_reserve mv m t = (u, Inr b) \<Longrightarrow> map_step t u"
| rehash_threw: "cuckoo_rehash (\<lambda>e. e) n t = (u, Inl ex) \<Longrightarrow> map_step t u"
| reserve_threw: "cuckoo_reserve (\<lambda>e. e) m t = (u, Inl ex) \<Longrightarrow> map_step t u"
| locked: "map_step t (lock_table t)"

inductive_cases map_stepE: "map_step t u"

lemma ends_Inl:
  "ends mode t (u, Inl ex) Q \<Longrightarrow> ex \<noteq> Bad_alloc \<Longrightarrow> grown mode t u"
  by (auto simp: ends_def)

lemma expand_ready:
  assumes "ready mode t"
  shows "cuckoo_expand_simple mv False n t = (u, Inr st) \<Longrightarrow> ready mode u \<and> abs_map u = abs_map t"
    and "cuckoo_expand_simple (\<lambda>e. e) False n t = (u, Inl ex) \<Longrightarrow> ready mode u \<and> abs_map u = abs_map t"
proof -
  show "cuckoo_expand_simple mv False n t = (u, Inr st) \<Longrightarrow> ready mode u \<and> abs_map u = abs_map t"
    by (cases rule: cuckoo_expand_simple_spec [OF assms, of mv False n]) (simp_all add: rebuilt_def)
  show "cuckoo_expand_simple (\<lambda>e. e) False n t = (u, Inl ex) \<Longrightarrow> ready mode u \<and> abs_map u = abs_map t"
    by (cases rule: cuckoo_expand_simple_spec [OF assms, of "\<lambda>e. e" False n])
      (use assms in \<open>auto simp: rebuilt_def\<close>)
qed

lemma rehash_ready:
  assumes "ready mode t"
  shows "cuckoo_rehash mv n t = (u, Inr b) \<Longrightarrow> ready mode u \<and> abs_map u = abs_map t"
    and "cuckoo_reserve mv m t = (u, Inr b) \<Longrightarrow> ready mode u \<and> abs_map u = abs_map t"
    and "cuckoo_rehash (\<lambda>e. e) n t = (u, Inl ex) \<Longrightarrow> ready mode u \<and> abs_map u = abs_map t"
    and "cuckoo_reserve (\<lambda>e. e) m t = (u, Inl ex) \<Longrightarrow> ready mode u \<and> abs_map u = abs_map t"
  using assms expand_ready [OF assms]
  by (auto simp: cuckoo_rehash_def cuckoo_reserve_def Let_def and_then_Inr_iff and_then_Inl_iff
      split: if_splits)

lemma map_step_ready:
  assumes "map_step t u" "map_ready t"
  shows "map_ready u"
  using assms
proof (induction rule: map_step.induct)
  case (found k t u r)
  then show ?case using cm.lookup_law [of t k] by auto
next
  case (updated k fn t u r)
  then show ?case
    using update_fn_spec [of t k fn] by (auto simp: map_ready_def yields_def)
next
  case (erased k efn t u r)
  then show ?case
    using erase_fn_spec [of t k efn] by (auto simp: map_ready_def yields_def)
next
  case (upserted k efn v t u b)
  then have "ready Normal_mode t" by (simp add: map_ready_def)
  from ends_Inr [OF uprase_fn_spec [OF this, of k efn v, unfolded upserted(1)]]
  show ?case by (auto simp: map_ready_def yields_def)
next
  case (accumulated k efn exist v t u b)
  then have "ready Normal_mode t" by (simp add: map_ready_def)
  from ends_Inr [OF accumrase_fn_spec [OF this, of k efn exist v, unfolded accumulated(1)]]
  show ?case by (auto simp: map_ready_def yields_def)
next
  case (refused k efn v t u ex)
  then have "ready Normal_mode t" by (simp add: map_ready_def)
  from ends_Inl [OF uprase_fn_spec [OF this, of k efn v, unfolded refused(1)] refused(2)]
  show ?case by (simp add: map_ready_def grown_def)
next
  case (accum_refused k efn exist v t u ex)
  then have "ready Normal_mode t" by (simp add: map_ready_def)
  from ends_Inl [OF accumrase_fn_spec [OF this, of k efn exist v, unfolded accum_refused(1)] accum_refused(2)]
  show ?case by (simp add: map_ready_def grown_def)
next
  case (cleared t)
  then show ?case
    using yieldsD(1) [OF clear_spec(1) [of Normal_mode t]] by (simp add: map_ready_def)
next
  case (rehashed mv n t u b)
  then show ?case using rehash_ready(1) [of Normal_mode t mv n u b] by (simp add: map_ready_def)
next
  case (reserved mv m t u b)
  then show ?case using rehash_ready(2) [of Normal_mode t mv m u b] by (simp add: map_ready_def)
next
  case (rehash_threw n t u ex)
  then show ?case using rehash_ready(3) [of Normal_mode t n u ex] by (simp add: map_ready_def)
next
  case (reserve_threw m t u ex)
  then show ?case using rehash_ready(4) [of Normal_mode t m u ex] by (simp add: map_ready_def)
next
  case (locked t)
  then show ?case
    using lock_table_spec(1) [of Normal_mode t] by (simp add: map_ready_def ready_def mode_ok_def)
qed

lemma map_steps_ready:
  "map_step\<^sup>*\<^sup>* t u \<Longrightarrow> map_ready t \<Longrightarrow> map_ready u"
  by (induction rule: rtranclp_induct) (auto intro: map_step_ready)

end
