(* ===== verification/Cuckoo_Lock_Order.thy ===== *)
theory Cuckoo_Lock_Order
  imports Cuckoo_Search
begin

text \<open>
  How calls on several threads wait for each other's spinlocks.  A thread is given by the locks
  it holds and by what is left of the steps of its call; the calls are \<open>lock_one\<close>, \<open>lock_two\<close>,
  \<open>lock_three\<close> and \<open>lock_all\<close>, and every one gives back what it took before the thread makes
  the next.  All calls work on one array of locks.
\<close>

section \<open>Threads and locks\<close>

text \<open>The locks a sequence of steps takes.\<close>

fun taken :: "lock_step list \<Rightarrow> nat list" where
  "taken [] = []"
| "taken (Lock l # steps) = l # taken steps"
| "taken (Check l # steps) = taken steps"
| "taken (Migrate l # steps) = taken steps"

definition lock_all_steps :: "nat \<Rightarrow> lock_step list" where
  "lock_all_steps num_locks = map Lock [0..<num_locks]"

record locker =
  held :: "nat list"
  todo :: "lock_step list"

definition idle :: locker where
  "idle = \<lparr>held = [], todo = []\<rparr>"

definition free_lock :: "nat \<Rightarrow> locker list \<Rightarrow> bool" where
  "free_lock l ths \<longleftrightarrow> (\<forall>th\<in>set ths. l \<notin> set (held th))"

text \<open>
  What a thread can do by itself: take a lock that nobody holds, pass a step that does not
  wait, leave when the hashpower has changed, and give back its locks at the end.
\<close>

inductive lock_move :: "locker list \<Rightarrow> locker list \<Rightarrow> bool" where
  take_lock: "i < length ths \<Longrightarrow> todo (ths ! i) = Lock l # steps \<Longrightarrow> free_lock l ths \<Longrightarrow>
    lock_move ths (ths[i := \<lparr>held = l # held (ths ! i), todo = steps\<rparr>])"
| pass_check: "i < length ths \<Longrightarrow> todo (ths ! i) = Check l # steps \<Longrightarrow>
    lock_move ths (ths[i := (ths ! i)\<lparr>todo := steps\<rparr>])"
| changed: "i < length ths \<Longrightarrow> todo (ths ! i) = Check l # steps \<Longrightarrow> lock_move ths (ths[i := idle])"
| migrate: "i < length ths \<Longrightarrow> todo (ths ! i) = Migrate l # steps \<Longrightarrow>
    lock_move ths (ths[i := (ths ! i)\<lparr>todo := steps\<rparr>])"
| unlock: "i < length ths \<Longrightarrow> todo (ths ! i) = [] \<Longrightarrow> held (ths ! i) \<noteq> [] \<Longrightarrow>
    lock_move ths (ths[i := idle])"

inductive lock_call :: "locker list \<Rightarrow> locker list \<Rightarrow> bool" where
  call: "i < length ths \<Longrightarrow> ths ! i = idle \<Longrightarrow>
    steps \<in> {lock_one_steps i1, lock_two_steps i1 i2, lock_three_steps i1 i2 i3, lock_all_steps n} \<Longrightarrow>
    lock_call ths (ths[i := idle\<lparr>todo := steps\<rparr>])"

definition lock_history :: "locker list \<Rightarrow> locker list \<Rightarrow> bool" where
  "lock_history = (\<lambda>ths ths'. lock_move ths ths' \<or> lock_call ths ths')\<^sup>*\<^sup>*"

section \<open>Locks are taken in ascending order\<close>

lemma taken_append [simp]: "taken (xs @ ys) = taken xs @ taken ys"
  by (induction xs rule: taken.induct) simp_all

lemma taken_lock_all: "taken (lock_all_steps n) = [0..<n]"
proof -
  have "taken (map Lock xs) = xs" for xs by (induction xs) simp_all
  then show ?thesis by (simp add: lock_all_steps_def)
qed

lemma taken_ascending:
  "sorted_wrt (<) (taken (lock_one_steps i1))" "set (taken (lock_one_steps i1)) = {lock_ind i1}"
  "sorted_wrt (<) (taken (lock_two_steps i1 i2))"
  "set (taken (lock_two_steps i1 i2)) = {lock_ind i1, lock_ind i2}"
  "sorted_wrt (<) (taken (lock_three_steps i1 i2 i3))"
  "set (taken (lock_three_steps i1 i2 i3)) = {lock_ind i1, lock_ind i2, lock_ind i3}"
  by (auto simp: lock_one_steps_def lock_two_steps_def lock_three_steps_def sort_locks_three_def Let_def)

text \<open>What a thread still has to take lies above what it holds.\<close>

definition ascending :: "locker \<Rightarrow> bool" where
  "ascending th \<longleftrightarrow> sorted_wrt (<) (taken (todo th)) \<and> (\<forall>h\<in>set (held th). \<forall>l\<in>set (taken (todo th)). h < l)"

lemma ascending_idle [simp]: "ascending idle"
  by (simp add: ascending_def idle_def)

lemma lock_move_ascending: "lock_move ths ths' \<Longrightarrow> \<forall>th\<in>set ths. ascending th \<Longrightarrow> \<forall>th\<in>set ths'. ascending th"
proof (induction rule: lock_move.induct)
  case (take_lock i ths l steps)
  have "ascending (ths ! i)" using take_lock by simp
  then have "ascending \<lparr>held = l # held (ths ! i), todo = steps\<rparr>"
    using take_lock(2) by (auto simp: ascending_def)
  then show ?case using take_lock.prems by (auto elim: set_list_updateE)
next
  case (pass_check i ths l steps)
  then have "ascending (ths ! i)" by simp
  then have "ascending ((ths ! i)\<lparr>todo := steps\<rparr>)" using pass_check(2) by (simp add: ascending_def)
  then show ?case using pass_check.prems by (auto elim: set_list_updateE)
next
  case (migrate i ths l steps)
  then have "ascending (ths ! i)" by simp
  then have "ascending ((ths ! i)\<lparr>todo := steps\<rparr>)" using migrate(2) by (simp add: ascending_def)
  then show ?case using migrate.prems by (auto elim: set_list_updateE)
qed (auto elim: set_list_updateE)

lemma lock_call_ascending: "lock_call ths ths' \<Longrightarrow> \<forall>th\<in>set ths. ascending th \<Longrightarrow> \<forall>th\<in>set ths'. ascending th"
proof (induction rule: lock_call.induct)
  case (call i ths steps i1 i2 i3 n)
  have "sorted_wrt (<) (taken steps)" using call(3) taken_ascending(1,3,5) by (auto simp: taken_lock_all)
  then have "ascending (idle\<lparr>todo := steps\<rparr>)" by (simp add: ascending_def idle_def)
  then show ?case using call.prems by (auto elim: set_list_updateE)
qed

lemma lock_history_ascending:
  "lock_history (replicate n idle) ths \<Longrightarrow> \<forall>th\<in>set ths. ascending th"
  unfolding lock_history_def
  by (induction rule: rtranclp_induct) (auto dest: lock_move_ascending lock_call_ascending)

section \<open>No deadlock\<close>

text \<open>
  A thread that cannot move waits for a lock that another one holds.  Among the waiting threads
  take one that waits for the highest lock: its holder waits for a higher one.
\<close>

lemma stuck_waits:
  assumes "\<nexists>ths'. lock_move ths ths'" "th \<in> set ths" "th \<noteq> idle"
  obtains l steps th' where "todo th = Lock l # steps" "th' \<in> set ths" "l \<in> set (held th')"
proof -
  obtain i where i: "i < length ths" "th = ths ! i" using assms(2) by (auto simp: in_set_conv_nth)
  show thesis
  proof (cases "todo th")
    case Nil
    then have "held th \<noteq> []" using assms(3) by (auto simp: idle_def)
    then show thesis using assms(1) lock_move.unlock [of i ths] i Nil by auto
  next
    case (Cons s steps)
    show thesis
    proof (cases s)
      case (Lock l)
      then have "\<not> free_lock l ths" using assms(1) lock_move.take_lock [of i ths l steps] i Cons by auto
      then show thesis using that [of l steps] Cons Lock by (auto simp: free_lock_def)
    qed (use assms(1) lock_move.pass_check [of i ths] lock_move.migrate [of i ths] i Cons in auto)
  qed
qed

lemma ascending_not_stuck:
  assumes asc: "\<forall>th\<in>set ths. ascending th" and busy: "\<exists>th\<in>set ths. th \<noteq> idle"
  shows "\<exists>ths'. lock_move ths ths'"
proof (rule ccontr)
  assume stuck: "\<nexists>ths'. lock_move ths ths'"
  let ?W = "{l. \<exists>th\<in>set ths. \<exists>steps. todo th = Lock l # steps}"
  have "?W \<subseteq> (\<Union>th\<in>set ths. set (taken (todo th)))" by force
  then have fin: "finite ?W" by (rule finite_subset) simp
  moreover have "?W \<noteq> {}" using busy stuck_waits [OF stuck] by blast
  ultimately have "Max ?W \<in> ?W" by (rule Max_in)
  then obtain th steps where th: "th \<in> set ths" "todo th = Lock (Max ?W) # steps" by blast
  then have "th \<noteq> idle" by (auto simp: idle_def)
  from stuck_waits [OF stuck th(1) this] th(2)
  obtain th' where th': "th' \<in> set ths" "Max ?W \<in> set (held th')" by auto
  then have "th' \<noteq> idle" by (auto simp: idle_def)
  then obtain l steps' where l: "todo th' = Lock l # steps'" using stuck_waits [OF stuck th'(1)] by metis
  then have "Max ?W < l" using asc th' by (auto simp: ascending_def)
  moreover have "l \<le> Max ?W" using fin l th'(1) by (intro Max_ge) auto
  ultimately show False by simp
qed

end
