(* ===== verification/Map_Properties.thy ===== *)
theory Map_Properties
  imports Samples Cuckoo_Run Cuckoo_Lock_Order
begin

text \<open>
  The properties of the hash map, each with a witness on the sample tables.
\<close>

section \<open>Histories and single operations\<close>

text \<open>
  C1. Take a map built by the constructor (with an allocation bound below 2 to the 60
  buckets) through any sequence of lookups, updates, erasures, insertions and accumulations
  that return or are refused growth, clears, resizes and exclusive locks.  Then its
  representation invariant holds, \<open>size\<close> is the number of keys it denotes, and every entry
  lies in one of the two buckets of its key.  A sequence ends, and nothing is claimed
  afterwards, with an insertion that throws \<open>std::bad_alloc\<close> and with an explicit resize that
  throws when the entries are of a type that a move changes; a resize that throws for other
  entries is a step like any other.
\<close>

theorem map_history_ok:
  assumes "new_cuckoohash_map limit simple hf n = Inr t" "limit < 60" "map_step\<^sup>*\<^sup>* t u"
  shows "table_ok u \<and> cuckoo_size u = card (dom (abs_map u)) \<and>
    (\<forall>i<2 ^ hashpower u. \<forall>e\<in>set (contents (eff u i)).
       home (hashpower u) (hash_fn u (kv_key e)) i)"
proof -
  have "map_ready u"
    using map_steps_ready [OF assms(3)] new_map_spec(1) [OF assms(1,2)] by (simp add: map_ready_def)
  then have ok: "table_ok u" and core: "table_core u"
    by (simp_all add: map_ready_def readyD)
  have "home (hashpower u) (hash_fn u (kv_key e)) i"
    if "i < 2 ^ hashpower u" "e \<in> set (contents (eff u i))" for i e
    using eff_placed [OF table_core_struct [OF core] that(1)] that(2) by (simp add: placed_def)
  with ok cuckoo_size_card [OF core] show ?thesis by blast
qed

theorem map_history_ok_witness:
  "table_ok (clear (sample_map :: (nat, nat) cuckoo_map)) \<and>
   cuckoo_size (clear (sample_map :: (nat, nat) cuckoo_map)) = 0"
proof -
  have "map_step\<^sup>*\<^sup>* sample_map (clear (sample_map :: (nat, nat) cuckoo_map))"
    by (rule r_into_rtranclp [of map_step]) (rule cleared)
  moreover have "(20 :: nat) < 60" by simp
  ultimately have "table_ok (clear (sample_map :: (nat, nat) cuckoo_map))"
    using map_history_ok [OF sample_map_new, of "clear (sample_map :: (nat, nat) cuckoo_map)"] by blast
  with clear_spec(2) [OF sample_map_ready(1)]
  show ?thesis by blast
qed

text \<open>
  C2. A lookup answers with what the map denotes for the key, whether or not buckets still
  wait to be migrated, and does not change the map.
\<close>

theorem find_refines:
  assumes "map_ready t"
  shows "\<exists>u. find_fn k t = (u, Inr (abs_map t k)) \<and> map_ready u \<and> abs_map u = abs_map t"
  by (rule cm.lookup_law [OF assms])

theorem find_refines_witness:
  "\<exists>u. find_fn 5 sample_one = (u, Inr (Some [50, 51]))"
  using find_refines [OF sample_one_ready(2), of 5] by (auto simp: sample_one_ready)

text \<open>
  C3. \<open>insert_or_assign\<close> maps the key to the value and reports whether it was new.  When it
  throws, it was refused permission to grow and the map is what it was, or memory ran out.
\<close>

theorem insert_or_assign_refines:
  assumes "map_ready t"
  shows "case insert_or_assign k v t of
      (u, Inr inserted) \<Rightarrow> map_ready u \<and> abs_map u = (abs_map t)(k \<mapsto> v) \<and>
        inserted = (abs_map t k = None)
    | (u, Inl ex) \<Rightarrow> ex = Bad_alloc \<or>
        (growth_refused u ex \<and> map_ready u \<and> abs_map u = abs_map t)"
proof -
  have r: "ready Normal_mode t" using assms by (simp add: map_ready_def)
  show ?thesis
  proof (cases rule: endsE [OF insert_or_assign_spec [OF r, of k v], case_names a b c])
    case (a u x)
    then show ?thesis by (simp add: yields_def map_ready_def)
  next
    case (b u ex)
    then show ?thesis using grown_abs_map [OF b(2) r] grownD(1) [OF b(2)] by (simp add: map_ready_def)
  next
    case (c u w)
    then show ?thesis by simp
  qed
qed

theorem insert_or_assign_refines_witness:
  "case insert_or_assign 5 [7] sample_one of
      (u, Inr inserted) \<Rightarrow> abs_map u 5 = Some [7] \<and> \<not> inserted
    | (u, Inl ex) \<Rightarrow> ex = Bad_alloc \<or> abs_map u 5 = Some [50, 51]"
  using insert_or_assign_refines [OF sample_one_ready(2), of 5 "[7]"]
  by (auto simp: sample_one_ready split: prod.splits sum.splits)

text \<open>
  C4. \<open>insert_or_accum\<close> adds the delta to the value of a present key the caller expected to
  be present, inserts the value of an absent key the caller expected to be absent, and
  leaves the map alone when the expectation fails.
\<close>

theorem insert_or_accum_refines:
  assumes "map_ready t" "insert_or_accum addv k d exist t = (u, Inr inserted)"
  shows "map_ready u \<and> inserted = (abs_map t k = None) \<and>
    abs_map u = (case abs_map t k of
        None \<Rightarrow> if exist then abs_map t else (abs_map t)(k \<mapsto> d)
      | Some v \<Rightarrow> if exist then (abs_map t)(k \<mapsto> addv v d) else abs_map t)"
  using cm.accum_law [OF assms(1) TrueI assms(2)] by (simp add: accum_effect_def)

theorem insert_or_accum_refines_witness:
  "\<exists>u. insert_or_accum (map2 (+)) 5 [1, 1] True sample_one = (u, Inr False) \<and>
     abs_map u 5 = Some [51, 52]"
proof -
  obtain u where u: "insert_or_accum (map2 (+)) 5 [1, 1] True sample_one = (u, Inr False)"
    using sample_one_accum by blast
  from insert_or_accum_refines [OF sample_one_ready(2) this] u show ?thesis
    by (intro exI [of _ u]) (simp add: sample_one_ready)
qed

text \<open>C5. \<open>erase\<close> removes the key and reports whether it was there; it never throws.\<close>

theorem erase_refines:
  assumes "map_ready t"
  shows "\<exists>u. erase k t = (u, Inr (abs_map t k \<noteq> None)) \<and> map_ready u \<and>
    abs_map u = (abs_map t)(k := None)"
  by (rule cm.remove_law [OF assms])

theorem erase_refines_witness:
  "\<exists>u. erase 5 sample_one = (u, Inr True) \<and> abs_map u = Map.empty"
  using erase_refines [OF sample_one_ready(2), of 5] by (auto simp: sample_one_ready)



section \<open>Searching and displacing\<close>

text \<open>
  C7. The breadth first search never overflows its queue.  The slot it finds is free and
  ends a shortest displacement path from one of the two buckets; if it finds none, all
  buckets within four displacements are full.
\<close>

theorem search_shortest:
  assumes "ready mode t" "i1 < 2 ^ hashpower t" "i2 < 2 ^ hashpower t"
  shows "\<exists>u x. slot_search mode (hashpower t) i1 i2 t = (u, Inr x) \<and> abs_map u = abs_map t \<and>
    (if bs_depth x = -1
     then \<forall>k<MAX_BFS_PATH_LEN. \<forall>b. reach (eff t) (hashpower t) i1 i2 k b \<longrightarrow> full_bucket (eff t b)
     else \<exists>b. reach (eff t) (hashpower t) i1 i2 (nat (bs_depth x)) b \<and>
            eff t b ! (bs_pathcode x mod slot_per_bucket) = None \<and>
            (\<forall>k<nat (bs_depth x). \<forall>b. reach (eff t) (hashpower t) i1 i2 k b \<longrightarrow>
               full_bucket (eff t b)))"
proof -
  obtain u x where u: "slot_search mode (hashpower t) i1 i2 t = (u, Inr x)" "viewed mode t u"
    "search_answer (eff t) (hashpower t) i1 i2 x"
    by (rule slot_search_spec [OF assms])
  have "if bs_depth x = -1
     then \<forall>k<MAX_BFS_PATH_LEN. \<forall>b. reach (eff t) (hashpower t) i1 i2 k b \<longrightarrow> full_bucket (eff t b)
     else \<exists>b. reach (eff t) (hashpower t) i1 i2 (nat (bs_depth x)) b \<and>
            eff t b ! (bs_pathcode x mod slot_per_bucket) = None \<and>
            (\<forall>k<nat (bs_depth x). \<forall>b. reach (eff t) (hashpower t) i1 i2 k b \<longrightarrow>
               full_bucket (eff t b))"
  proof (cases "bs_depth x = -1")
    case True
    then show ?thesis using u(3) by (auto simp: search_answer_def)
  next
    case False
    then obtain st ss s where f: "found_trail (eff t) (hashpower t) i1 i2 st ss s"
      "bs_depth x = int (length ss)" "bs_pathcode x = encode st (ss @ [s])"
      using u(3) by (auto simp: search_answer_def)
    let ?st = "if st = 0 then i1 else i2"
    have "reach (eff t) (hashpower t) i1 i2 (length ss) (walk (eff t) (hashpower t) ?st ss)"
      unfolding reach_def
      by (rule exI [of _ ?st], rule exI [of _ ss]) (use f(1) in \<open>simp add: found_trail_def\<close>)
    moreover have "bs_pathcode x mod slot_per_bucket = s"
      using f(1,3) by (simp add: found_trail_def)
    ultimately show ?thesis using f(1,2) False by (auto simp: found_trail_def)
  qed
  with u(1) same_viewD(6) [OF viewedD(2) [OF u(2)]] show ?thesis by blast
qed

theorem search_shortest_witness:
  "\<exists>u x. slot_search Normal_mode 0 0 0 (sample_map :: (nat, nat) cuckoo_map) = (u, Inr x) \<and>
     abs_map u = Map.empty"
  using search_shortest [OF sample_map_ready(1), of 0 0 Normal_mode] by (auto simp: sample_map_ready)

text \<open>
  C8. Displacing entries keeps the map and the size.  It ends with a free slot in one of the
  two buckets, or reports failure, and then no bucket within four displacements had room.
\<close>

theorem displacement_keeps_map:
  assumes "ready mode t" "b_i1 b < 2 ^ hashpower t" "b_i2 b < 2 ^ hashpower t"
  shows "\<exists>u st i j. run_cuckoo mode b t = (u, Inr (st, i, j)) \<and> ready mode u \<and>
    abs_map u = abs_map t \<and> cuckoo_size u = cuckoo_size t \<and>
    ((st = Ok \<and> i \<in> {b_i1 b, b_i2 b} \<and> j < slot_per_bucket \<and> eff u i ! j = None) \<or>
     (st = Failure \<and> no_room t (b_i1 b) (b_i2 b)))"
proof (cases rule: run_cuckoo_spec [OF assms, case_names failed freed])
  case (failed u)
  then show ?thesis
    using viewedD(1) [OF failed(2)] same_viewD(6,10) [OF viewedD(2) [OF failed(2)]]
    by (intro exI [of _ u] exI [of _ Failure] exI [of _ 0]) simp
next
  case (freed u i j)
  have "abs_map u = abs_map t"
    by (rule grown_abs_map [OF moved_grown [OF freed(2)] assms(1)])
  moreover have "cuckoo_size u = cuckoo_size t"
    using freed(2) by (simp add: moved_def cuckoo_size_def)
  moreover have "ready mode u" using freed(2) by (simp add: moved_def)
  ultimately show ?thesis
    using freed by (intro exI [of _ u] exI [of _ Ok] exI [of _ i] exI [of _ j]) simp
qed

theorem displacement_keeps_map_witness:
  "\<exists>u st i j. run_cuckoo Normal_mode \<lparr>b_i1 = 0, b_i2 = 0\<rparr> sample_one = (u, Inr (st, i, j)) \<and>
     abs_map u = [5 \<mapsto> [50, 51]]"
  using displacement_keeps_map [OF sample_one_ready(1), of "\<lparr>b_i1 = 0, b_i2 = 0\<rparr>" Normal_mode]
  by (auto simp: sample_one_ready)

section \<open>Migration and growth\<close>

text \<open>
  C9. Migration cannot be observed, neither the lazy one of the buckets of one lock nor the
  one of all locks at once by the workers: the invariant, the map, the size and the bucket
  every reader finds are the same afterwards.  The lazy one leaves its lock migrated, the
  other one every lock.
\<close>

theorem lazy_migration_invisible:
  assumes "table_ok t" "l < length (locks t)"
  shows "table_ok (rehash_lock True l t) \<and> abs_map (rehash_lock True l t) = abs_map t \<and>
    cuckoo_size (rehash_lock True l t) = cuckoo_size t \<and>
    is_migrated (locks (rehash_lock True l t) ! l) \<and>
    (\<forall>i<2 ^ hashpower t. eff (rehash_lock True l t) i = eff t i) \<and>
    table_ok (rehash_with_workers t) \<and> abs_map (rehash_with_workers t) = abs_map t \<and>
    cuckoo_size (rehash_with_workers t) = cuckoo_size t \<and>
    all_migrated (rehash_with_workers t) \<and>
    (\<forall>i<2 ^ hashpower t. eff (rehash_with_workers t) i = eff t i)"
proof -
  note w = rehash_with_workers_spec [OF table_ok_core [OF assms(1)]]
  have bulk: "table_ok (rehash_with_workers t)" "abs_map (rehash_with_workers t) = abs_map t"
    "cuckoo_size (rehash_with_workers t) = cuckoo_size t" "all_migrated (rehash_with_workers t)"
    "\<forall>i<2 ^ hashpower t. eff (rehash_with_workers t) i = eff t i"
    using readyD(1) [OF w(1)] same_viewD(6,7,10) [OF w(3)] w(2) by auto
  have lazy: "is_migrated (locks (rehash_lock True l t) ! l)"
    using assms(2) by (simp add: rehash_lock_locks)
  show ?thesis
    using rehash_lock_ok [OF assms] same_viewD(6,7,10) [OF rehash_lock_view [OF assms]] bulk lazy
    by blast
qed

theorem lazy_migration_invisible_witness:
  "abs_map (rehash_lock True 0 sample_one) = [5 \<mapsto> [50, 51]] \<and>
   abs_map (rehash_with_workers sample_one) = [5 \<mapsto> [50, 51]]"
proof -
  have "0 < length (locks sample_one)" by (simp add: sample_one_def add_to_bucket_def) (simp add: sample_map_def)
  from lazy_migration_invisible [OF readyD(1) [OF sample_one_ready(1)] this] show ?thesis
    by (simp add: sample_one_ready)
qed

text \<open>
  C10. Doubling a table in order, at its own hashpower, is refused by the maximum hashpower
  if one is set and would be exceeded, else, for an automatic resize only, by the minimum
  load factor, and a refusal changes nothing.  Else it ends with \<open>std::bad_alloc\<close> when the
  new buckets cannot be allocated; nothing is claimed of the table then, which has lost its
  old buckets.  Else it adds one to the hashpower and keeps the map.
\<close>

theorem doubling_keeps_map:
  assumes "ready mode t"
  shows "if maximum_hashpower t \<noteq> LIBCUCKOO_NO_MAXIMUM_HASHPOWER \<and>
       Suc (hashpower t) > maximum_hashpower t
    then cuckoo_fast_double mode auto (hashpower t) t
      = (t, Inl (Maximum_hashpower_exceeded (Suc (hashpower t))))
    else if auto \<and> load_factor t < minimum_load_factor t
    then cuckoo_fast_double mode auto (hashpower t) t
      = (t, Inl (Load_factor_too_low (minimum_load_factor t)))
    else if alloc_limit t \<le> hashpower t
    then \<exists>u. cuckoo_fast_double mode auto (hashpower t) t = (u, Inl Bad_alloc)
    else \<exists>u. cuckoo_fast_double mode auto (hashpower t) t = (u, Inr Ok) \<and> ready mode u \<and>
      abs_map u = abs_map t \<and> hashpower u = Suc (hashpower t)"
proof -
  let ?d = "cuckoo_fast_double mode auto (hashpower t) t"
  let ?max = "maximum_hashpower t \<noteq> LIBCUCKOO_NO_MAXIMUM_HASHPOWER \<and>
    Suc (hashpower t) > maximum_hashpower t"
  let ?low = "auto \<and> load_factor t < minimum_load_factor t"
  consider (max) "?max" | (low) "\<not> ?max" "?low" | (pass) "\<not> ?max" "\<not> ?low" by blast
  then show ?thesis
  proof cases
    case max
    then show ?thesis by (simp add: cuckoo_fast_double_def check_resize_validity_def)
  next
    case low
    then show ?thesis by (auto simp: cuckoo_fast_double_def check_resize_validity_def)
  next
    case pass
    then have "check_resize_validity auto (hashpower t) (hashpower t + 1) t = (t, Inr Ok)"
      by (auto simp: check_resize_validity_def Let_def)
    from cuckoo_fast_double_result [OF assms this]
    obtain u where u: "?d = (u, if alloc_limit t \<le> hashpower t then Inl Bad_alloc else Inr Ok)" by blast
    have "ready mode u \<and> abs_map u = abs_map t \<and> hashpower u = Suc (hashpower t)"
      if "\<not> alloc_limit t \<le> hashpower t"
    proof (cases rule: cuckoo_fast_double_spec [OF assms, of auto, case_names grew max low nomem])
      case (grew w)
      then show ?thesis using u that grown_abs_map [OF grew(2) assms] grownD(1) [OF grew(2)] by simp
    qed (use u that in simp_all)
    with u show ?thesis
      unfolding if_not_P [OF pass(1)] if_not_P [OF pass(2)] by simp
  qed
qed

theorem doubling_keeps_map_witness:
  "\<exists>u. cuckoo_fast_double Normal_mode False 0 sample_one = (u, Inr Ok) \<and>
     abs_map u = [5 \<mapsto> [50, 51]] \<and> hashpower u = 1"
proof -
  have "hashpower sample_one = 0"
    by (simp add: sample_one_def add_to_bucket_def) (simp add: hashpower_def sample_map_def mk_container_def setKV_def)
  moreover have "maximum_hashpower sample_one = LIBCUCKOO_NO_MAXIMUM_HASHPOWER" "alloc_limit sample_one = 20"
    by (simp_all add: sample_one_def add_to_bucket_def) (simp_all add: sample_map_def)
  ultimately show ?thesis
    using doubling_keeps_map [OF sample_one_ready(1), of Normal_mode False]
    by (auto simp: sample_one_ready)
qed

text \<open>
  C11. An explicit resize that returns has built a table with the same map, no pending
  migration and, for a wanted hashpower below 62, at least that hashpower.  When a resize
  check refuses it, nothing has changed; when the new table cannot be allocated, the map has
  not.  When it throws later, the number of entries \<open>size\<close> reports has not changed, but
  entries that were inserted into the new table are moved-from in the old one: every slot
  holds its entry or what the move left of it.  For entries that a move leaves as they are
  the map is then the one before, too.
\<close>

theorem expansion_keeps_map:
  assumes "ready mode t"
  shows "case cuckoo_expand_simple mv auto new_hp t of
      (u, Inr st) \<Rightarrow> st = Ok \<and> ready mode u \<and> abs_map u = abs_map t \<and> all_migrated u \<and>
        (new_hp < 62 \<longrightarrow> new_hp \<le> hashpower u)
    | (u, Inl ex) \<Rightarrow> throwable ex \<and> cuckoo_size u = cuckoo_size t \<and>
        (check_resize_validity auto (hashpower t) new_hp t = (t, Inl ex) \<and> u = t \<or>
         check_resize_validity auto (hashpower t) new_hp t = (t, Inr Ok) \<and> part_moved mv t u \<and>
           (alloc_limit t < reserve_calc (hashsize new_hp * of_nat slot_per_bucket) \<or> mv = (\<lambda>e. e) \<longrightarrow>
              ready mode u \<and> abs_map u = abs_map t))"
proof -
  have same: "cuckoo_size u = cuckoo_size t" if "part_moved mv t u" for u
    using that by (simp add: part_moved_def)
  show ?thesis
  proof (cases rule: cuckoo_expand_simple_spec [OF assms, where mv = mv and auto_resize = auto and new_hp = new_hp])
    case (1 u)
    then show ?thesis by (simp add: rebuilt_def)
  next
    case (2 ex)
    then show ?thesis by simp
  next
    case (3 u)
    then have "check_resize_validity auto (hashpower t) new_hp t = (t, Inr Ok)"
      by (cases rule: check_resize_validity_cases [of t new_hp auto "hashpower t"])
        (auto simp: cuckoo_expand_simple_def)
    then show ?thesis using 3 same [OF 3(4)] by (simp add: rebuilt_def throwable_def)
  next
    case (4 u ex)
    show ?thesis
    proof (cases rule: check_resize_validity_cases [of t new_hp auto "hashpower t", case_names max low changed valid])
      case valid
      then show ?thesis using 4 same [OF 4(3)] by (simp add: rebuilt_def)
    next
      case max
      then show ?thesis using 4 by (simp add: cuckoo_expand_simple_def throwable_def)
    next
      case low
      then show ?thesis using 4 by (auto simp: cuckoo_expand_simple_def throwable_def)
    qed simp
  qed
qed

theorem expansion_keeps_map_witness:
  "case cuckoo_expand_simple (\<lambda>e. e\<lparr>kv_mapped := []\<rparr>) False 3 sample_one of
      (u, Inr st) \<Rightarrow> abs_map u = [5 \<mapsto> [50, 51]] \<and> 3 \<le> hashpower u
    | (u, Inl ex) \<Rightarrow> cuckoo_size u = cuckoo_size sample_one"
  using expansion_keeps_map [OF sample_one_ready(1), where mode = Normal_mode and auto = False
      and new_hp = 3 and mv = "\<lambda>e. e\<lparr>kv_mapped := []\<rparr>"]
  by (auto simp: sample_one_ready split: prod.splits sum.splits)

text \<open>A new table denotes the empty map, is in order, and has room for the elements asked for.\<close>

theorem new_table_empty:
  assumes "new_cuckoohash_map limit simple hf n = Inr t" "limit < 60"
  shows "map_ready t \<and> abs_map t = Map.empty \<and> cuckoo_size t = 0 \<and>
    (unat n + 3 < 2 ^ 64 \<longrightarrow> unat n \<le> capacity t)"
proof -
  note new = new_map_spec [OF assms]
  have "cuckoo_size t = 0"
    using cuckoo_size_card [OF readyD(2) [OF new(1)]] new(3) by simp
  moreover have "unat n \<le> capacity t" if "unat n + 3 < 2 ^ 64"
  proof -
    have "unat (n + of_nat slot_per_bucket - 1) = unat n + 3"
      using that by (simp add: slot_per_bucket_def unat_plus_if_size word_size)
    then have "unat ((n + of_nat slot_per_bucket - 1) div of_nat slot_per_bucket) = (unat n + 3) div 4"
      by (simp add: unat_div slot_per_bucket_def)
    then have "(unat n + 3) div 4 \<le> 2 ^ hashpower t"
      using reserve_calc_loop_ge [of "(unat n + 3) div 4" 0] new(4) by (simp add: reserve_calc_def)
    then show ?thesis
      by (simp add: capacity_def bucket_count_def cont_size_def slot_per_bucket_def
          flip: hashpower_def)
  qed
  ultimately show ?thesis using new by (simp add: map_ready_def)
qed

theorem new_table_empty_witness: "4 \<le> capacity (sample_map :: (nat, nat) cuckoo_map)"
proof -
  let ?t = "sample_map :: (nat, nat) cuckoo_map"
  have "map_ready ?t \<and> abs_map ?t = Map.empty \<and> cuckoo_size ?t = 0 \<and>
      (unat (4 :: u64) + 3 < 2 ^ 64 \<longrightarrow> unat (4 :: u64) \<le> capacity ?t)"
    by (rule new_table_empty [OF sample_map_new]) simp
  then show ?thesis by simp
qed

text \<open>\<open>clear\<close> empties the table without shrinking it, and leaves nothing to migrate.\<close>

theorem clear_empties:
  assumes "ready mode t"
  shows "ready mode (clear t) \<and> abs_map (clear t) = Map.empty \<and> cuckoo_size (clear t) = 0 \<and>
    hashpower (clear t) = hashpower t \<and> all_migrated (clear t)"
  using clear_spec [OF assms] by (simp add: yields_def)

theorem clear_empties_witness: "abs_map (clear sample_one) = Map.empty"
  using clear_empties [OF sample_one_ready(1), of Normal_mode] by simp

section \<open>Hashing, locks and iterators\<close>

text \<open>The integer mixers map no two keys to the same hash value.\<close>

theorem hashes_injective: "inj hybrid_hash_int64 \<and> inj hash_of_int32_key"
  using hybrid_hash_int64_inj hash_of_int32_key_inj by (auto intro!: injI)

text \<open>
  C12. The two buckets of a key are each other's alternative, and doubling the table adds one
  bit on top of both, so that an entry stays or moves up by the old number of buckets.
\<close>

theorem buckets_of_key:
  assumes "hp < 64" "home (Suc hp) h i"
  shows "i < 2 ^ Suc hp \<and> home hp h (i mod 2 ^ hp) \<and>
    home (Suc hp) h (alt_index (Suc hp) (partial_key h) i) \<and>
    alt_index (Suc hp) (partial_key h) (alt_index (Suc hp) (partial_key h) i) = i"
  using home_less [OF assms(2)] home_grow [OF assms(2)] home_alt [OF assms(2)]
    alt_index_involution [of i "Suc hp" "partial_key h"] assms(1) by simp

theorem buckets_of_key_witness: "home 3 7 (index_hash 4 7 mod 2 ^ 3)"
  using buckets_of_key [of 3 7 "index_hash 4 7"] by (simp add: home_def)

text \<open>
  C13. \<open>lock_one\<close>, \<open>lock_two\<close> and \<open>lock_three\<close> run through steps that take the spinlocks of
  their buckets, and no others, each once and in strictly ascending order.  Threads that
  make these calls and \<open>lock_all\<close>, on one array of locks and each giving its locks back before
  its next call, cannot deadlock: whenever one of them is within a call or holds a lock,
  some thread can go on.
\<close>

theorem locks_taken_ascending:
  "sorted_wrt (<) (taken (lock_one_steps i1)) \<and> set (taken (lock_one_steps i1)) = {lock_ind i1} \<and>
   sorted_wrt (<) (taken (lock_two_steps i1 i2)) \<and>
   set (taken (lock_two_steps i1 i2)) = {lock_ind i1, lock_ind i2} \<and>
   sorted_wrt (<) (taken (lock_three_steps i1 i2 i3)) \<and>
   set (taken (lock_three_steps i1 i2 i3)) = {lock_ind i1, lock_ind i2, lock_ind i3} \<and>
   (lock_history (replicate n idle) ths \<longrightarrow> (\<exists>th\<in>set ths. th \<noteq> idle) \<longrightarrow> (\<exists>ths'. lock_move ths ths'))"
  using taken_ascending ascending_not_stuck [OF lock_history_ascending] by blast

theorem locks_taken_ascending_witness:
  "lock_history (replicate 2 idle) [\<lparr>held = [], todo = lock_two_steps 3 1\<rparr>, idle] \<and>
   (\<exists>ths'. lock_move [\<lparr>held = [], todo = lock_two_steps 3 1\<rparr>, idle] ths')"
proof -
  let ?ths = "[\<lparr>held = [], todo = lock_two_steps 3 1\<rparr>, idle]"
  have "lock_call (replicate 2 idle) ((replicate 2 idle)[0 := idle\<lparr>todo := lock_two_steps 3 1\<rparr>])"
    by (rule lock_call.call [of 0 _ _ 3 1]) simp_all
  then have "lock_call (replicate 2 idle) ?ths" by (simp add: idle_def numeral_2_eq_2)
  then have h: "lock_history (replicate 2 idle) ?ths"
    unfolding lock_history_def by (intro r_into_rtranclp) simp
  have "\<lparr>held = [], todo = lock_two_steps 3 1\<rparr> \<noteq> idle"
    by (simp add: idle_def lock_two_steps_def Let_def)
  with h show ?thesis using locks_taken_ascending [of 0 0 0 2 ?ths] by auto
qed

text \<open>
  C14. The iterators of a locked table go through its entries: as many steps as the table
  has entries lead from \<open>begin\<close> to \<open>end\<close>, none of the positions before is the end, and the
  pairs at them are exactly those of the map.
\<close>

theorem iterators_enumerate:
  assumes "map_ready m"
  defines "t \<equiv> lock_table m"
  defines "at_step \<equiv> (\<lambda>n. iter_advance n (buckets t) (lt_begin t))"
  shows "at_step (cuckoo_size t) = lt_end t \<and> (\<forall>n<cuckoo_size t. at_step n \<noteq> lt_end t) \<and>
    (\<forall>k v. abs_map m k = Some v \<longleftrightarrow> (\<exists>n<cuckoo_size t. iter_entry (buckets t) (at_step n)
       = \<lparr>kv_partial = partial_key (hash_fn m k), kv_key = k, kv_mapped = v\<rparr>))"
proof -
  have r: "ready Normal_mode m" using assms(1) by (simp add: map_ready_def)
  note lt = lock_table_spec [OF r, folded t_def]
  note core = readyD(2) [OF lt(1)]
  have size: "cuckoo_size t = length (live t)"
    by (simp add: cuckoo_size_def table_coreD(8) [OF core])
  have step: "at_step n = nth_pos (buckets t) n" if "n \<le> length (live t)" for n
    using iter_advance_nth [OF core lt(2), of 0 n] that enum_ends(1) [OF core lt(2)]
    by (simp add: at_step_def)
  have e: "iter_entry (buckets t) (at_step n) = live t ! n" if "n < length (live t)" for n
    using enum_step(3) [OF core lt(2) that] step [of n] that by simp
  have abs: "abs_map m k = Some v \<longleftrightarrow> (\<exists>n<cuckoo_size t. iter_entry (buckets t) (at_step n)
       = \<lparr>kv_partial = partial_key (hash_fn m k), kv_key = k, kv_mapped = v\<rparr>)" for k v
  proof
    assume "abs_map m k = Some v"
    then have "abs_map t k = Some v" using same_viewD(6) [OF lt(3)] by simp
    from abs_map_SomeD [OF this] obtain en
      where en: "en \<in> set (live t)" "kv_key en = k" "kv_mapped en = v"
      by (elim bexE conjE) (rule that)
    from live_partial [OF core en(1)] have "kv_partial en = partial_key (hash_fn m k)"
      using same_viewD(1) [OF lt(3)] en(2) by simp
    then have "en = \<lparr>kv_partial = partial_key (hash_fn m k), kv_key = k, kv_mapped = v\<rparr>"
      using en(2,3) by simp
    moreover obtain n where "n < length (live t)" "live t ! n = en"
      using en(1) by (auto simp: in_set_conv_nth)
    ultimately show "\<exists>n<cuckoo_size t. iter_entry (buckets t) (at_step n)
       = \<lparr>kv_partial = partial_key (hash_fn m k), kv_key = k, kv_mapped = v\<rparr>"
      using e size by auto
  next
    assume "\<exists>n<cuckoo_size t. iter_entry (buckets t) (at_step n)
       = \<lparr>kv_partial = partial_key (hash_fn m k), kv_key = k, kv_mapped = v\<rparr>"
    then obtain n where n: "n < length (live t)"
      "live t ! n = \<lparr>kv_partial = partial_key (hash_fn m k), kv_key = k, kv_mapped = v\<rparr>"
      using e size by auto
    then have "abs_map t k = Some v" using abs_map_SomeI [OF core nth_mem [OF n(1)]] by simp
    then show "abs_map m k = Some v" using same_viewD(6) [OF lt(3)] by simp
  qed
  have last: "at_step (cuckoo_size t) = lt_end t"
    using step [of "length (live t)"] size enum_ends(2) [OF core lt(2)] by simp
  have "\<forall>n<cuckoo_size t. at_step n \<noteq> lt_end t"
    using enum_step(2) [OF core lt(2)] step size by simp
  then show ?thesis by (intro conjI last) (assumption, intro allI abs)
qed

theorem iterators_enumerate_witness:
  "\<exists>n. iter_entry (buckets (lock_table sample_one))
     (iter_advance n (buckets (lock_table sample_one)) (lt_begin (lock_table sample_one)))
   = \<lparr>kv_partial = partial_key (of_nat 5), kv_key = 5, kv_mapped = [50, 51]\<rparr>"
proof -
  have "abs_map sample_one 5 = Some [50, 51]" by (simp add: sample_one_ready)
  with iterators_enumerate [OF sample_one_ready(2), THEN conjunct2, THEN conjunct2, rule_format,
      of 5 "[50, 51]"]
  show ?thesis unfolding sample_one_hash by blast
qed

text \<open>
  C15. On a locked table \<open>at\<close> and \<open>erase\<close> answer and act as the map does, and
  \<open>insert\<close> never overwrites: it adds an absent key and leaves a present one alone.
\<close>

theorem locked_table_refines:
  assumes "ready Locked_table_mode t"
  shows "(\<exists>u. lt_at k t = (u, case abs_map t k of None \<Rightarrow> Inl Out_of_range | Some v \<Rightarrow> Inr v) \<and>
      abs_map u = abs_map t) \<and>
    (\<exists>u. lt_erase k t = (u, Inr (if abs_map t k = None then 0 else 1)) \<and>
      ready Locked_table_mode u \<and> abs_map u = (abs_map t)(k := None)) \<and>
    (\<forall>u it inserted. lt_insert k v t = (u, Inr (it, inserted)) \<longrightarrow>
      ready Locked_table_mode u \<and> inserted = (abs_map t k = None) \<and>
      abs_map u = (if abs_map t k = None then (abs_map t)(k \<mapsto> v) else abs_map t))"
proof (intro conjI allI impI)
  show "\<exists>u. lt_at k t = (u, case abs_map t k of None \<Rightarrow> Inl Out_of_range | Some v \<Rightarrow> Inr v) \<and>
      abs_map u = abs_map t"
    using lt_at_spec [OF assms, of k] same_viewD(6) [OF viewedD(2)] by blast
  show "\<exists>u. lt_erase k t = (u, Inr (if abs_map t k = None then 0 else 1)) \<and>
      ready Locked_table_mode u \<and> abs_map u = (abs_map t)(k := None)"
    using lt_erase_spec [OF assms, of k] unfolding yields_def by blast
next
  fix u it inserted
  assume "lt_insert k v t = (u, Inr (it, inserted))"
  from ends_Inr [OF lt_insert_spec [OF assms, of k v, unfolded this]]
  show "ready Locked_table_mode u" "inserted = (abs_map t k = None)"
    "abs_map u = (if abs_map t k = None then (abs_map t)(k \<mapsto> v) else abs_map t)"
    by (simp_all add: yields_def)
qed

theorem locked_table_refines_witness:
  "(\<exists>u. lt_at 5 sample_one = (u, Inr [50, 51])) \<and> (\<exists>u. lt_at 6 sample_one = (u, Inl Out_of_range))"
proof
  show "\<exists>u. lt_at 5 sample_one = (u, Inr [50, 51])"
    using locked_table_refines [OF sample_one_ready(1), of 5 "[]", THEN conjunct1]
    by (auto simp: sample_one_ready)
  show "\<exists>u. lt_at 6 sample_one = (u, Inl Out_of_range)"
    using locked_table_refines [OF sample_one_ready(1), of 6 "[]", THEN conjunct1]
    by (auto simp: sample_one_ready)
qed

text \<open>
  Doing a range of buckets by worker threads covers each bucket of the range once, in
  order, for every number of extra threads.
\<close>

theorem workers_cover_range:
  assumes "start \<le> stop"
  shows "concat (map (\<lambda>(a, b). [a..<b]) (work_ranges n start stop)) = [start..<stop] \<and>
    parallel_exec_noexcept n start stop (\<lambda>a b. fold f [a..<b]) s = fold f [start..<stop] s"
  by (intro conjI work_ranges_cover [OF assms] parallel_exec_noexcept_fold [OF assms])

theorem workers_cover_range_witness:
  "concat (map (\<lambda>(a, b). [a..<b]) (work_ranges 6 3 30)) = [3..<30]"
  using workers_cover_range [of 3 30 6, THEN conjunct1] by simp

end
