(* ===== verification/Tensor_Properties.thy ===== *)
theory Tensor_Properties
  imports Samples
begin

text \<open>
  The properties of the CPU tables of tensors, each with a witness on a table of one row and
  a device whose two workers take the rows of a batch in descending order.
\<close>

section \<open>Sample table, device and context\<close>

definition sample_table :: "(nat, nat) cuckoo_table" where
  "sample_table = \<lparr>value_shape = [2], runtime_dim = 2,
     table_ptr = \<lparr>w_kind = Optimized 2, w_add = (+), w_map = sample_one, w_init_size = 4\<rparr>,
     init_size = 4\<rparr>"

definition sample_device :: cpu_device where
  "sample_device = \<lparr>num_threads = 2, shard = (\<lambda>workers n cost. rev [0..<nat n]),
     insert_threads_env = None\<rparr>"

definition sample_context :: op_context where
  "sample_context = \<lparr>ctx_get_table = None, ctx_match_signature = None, ctx_check_tensors = None,
     ctx_allocate_output = None, ctx_allocate_exists = None, ctx_track_allocations = True,
     ctx_object_size = 64, ctx_device = sample_device\<rparr>"

lemma sample_device_fair: "fair_shard sample_device"
  by (simp add: fair_shard_def sample_device_def)

lemma sample_table_ready: "table_ready (Optimized 2) (+) 2 sample_table"
  "rows_of sample_table = [5 \<mapsto> [50, 51]]"
  using sample_one_ready(2,3)
  by (simp_all add: table_ready_def wrapper_ok_def sample_table_def rows_of_def table_of_def)

text \<open>The framework let the kernel through to the table.\<close>

definition admitted :: "op_context \<Rightarrow> bool" where
  "admitted ctx \<longleftrightarrow> ctx_get_table ctx = None \<and> ctx_match_signature ctx = None \<and>
     ctx_check_tensors ctx = None \<and> ctx_allocate_output ctx = None \<and>
     ctx_allocate_exists ctx = None \<and> fair_shard (ctx_device ctx)"

lemma sample_context_admitted: "admitted sample_context"
  by (simp add: admitted_def sample_context_def sample_device_fair)

lemma tracked_Inr:
  "tracked ctx f t = (t', Inr m) \<Longrightarrow> f t = (t', Inr ())"
  by (auto simp: tracked_def Let_def and_then_Inr_iff)

section \<open>Lookups\<close>

text \<open>
  C16. Whatever the order in which the workers get to the keys, the find kernels return for
  each key its row of the table, or its default row, in the position of the key, report
  which keys are present, and leave the rows of the table alone.
\<close>

theorem find_kernels_rows:
  assumes ok: "table_ready kind add d t" and ctx: "admitted ctx"
    and key: "length (flat key) = prod_list (shape_of key)"
    and dv: "shape_of dv \<noteq> []" "last (shape_of dv) = d"
  shows "\<exists>t' values exists. find_with_exists_op ctx e0 b0 key dv t = (t', Inr (values, exists)) \<and>
    find_op ctx e0 key dv t = (t', Inr values) \<and>
    table_ready kind add d t' \<and> rows_of t' = rows_of t \<and>
    shape_of values = shape_of key @ [d] \<and> shape_of exists = shape_of key \<and>
    (\<forall>i<length (flat key). tensor_row d values i = lookup_row d (rows_of t) key dv i) \<and>
    flat exists = map (\<lambda>k. rows_of t k \<noteq> None) (flat key)"
proof -
  let ?sh = "shape_of key @ [d]"
  let ?v = "\<lparr>shape_of = ?sh, flat = replicate (prod_list ?sh) e0\<rparr>"
  let ?e = "\<lparr>shape_of = shape_of key, flat = replicate (prod_list (shape_of key)) b0\<rparr>"
  have b: "batch d key ?v" using key by (simp add: batch_def)
  have dvc: "t_cols (flat_inner_dims dv) = d" using dv by (simp add: flat_inner_dims_def)
  have e: "length (flat ?e) = length (flat key)" using key by simp
  have fair: "fair_shard (ctx_device ctx)" using ctx by (simp add: admitted_def)
  obtain w' vs ex where w':
    "launch_tensors_find_with_exists (ctx_device ctx) d key ?v dv ?e (table_ptr t) = (w', Inr (vs, ex))"
    "launch_tensors_find (ctx_device ctx) d key ?v dv (table_ptr t) = (w', Inr vs)"
    "wrapper_ok kind add d w'" "table_of w' = table_of (table_ptr t)"
    "shape_of vs = ?sh" "shape_of ex = shape_of key"
    "\<forall>i<length (flat key). tensor_row d vs i = lookup_row d (table_of (table_ptr t)) key dv i"
    "flat ex = map (\<lambda>k. table_of (table_ptr t) k \<noteq> None) (flat key)"
    using launch_find_spec [OF table_readyD(1) [OF ok] fair b dvc e] by auto
  let ?t' = "t\<lparr>table_ptr := w'\<rparr>"
  have "ct_find_with_exists (ctx_device ctx) key ?v dv ?e t = (?t', Inr (vs, ex))"
    "ct_find (ctx_device ctx) key ?v dv t = (?t', Inr vs)"
    using w'(1,2) by (simp_all add: ct_find_with_exists_def ct_find_def in_table_Inr table_readyD(2) [OF ok])
  then have "find_with_exists_op ctx e0 b0 key dv t = (?t', Inr (vs, ex))"
    "find_op ctx e0 key dv t = (?t', Inr vs)"
    using ctx table_readyD(3) [OF ok]
    by (simp_all add: find_with_exists_op_def find_op_def admitted_def Let_def)
  with w' table_ready_change [OF ok w'(3)] show ?thesis
    by (intro exI [of _ ?t'] exI [of _ vs] exI [of _ ex]) (simp add: rows_of_def)
qed

theorem find_kernels_rows_witness:
  "\<exists>t' values exists. find_with_exists_op sample_context 0 True \<lparr>shape_of = [2], flat = [9, 5]\<rparr>
      \<lparr>shape_of = [1, 2], flat = [0, 7]\<rparr> sample_table = (t', Inr (values, exists)) \<and>
    tensor_row 2 values 0 = [0, 7] \<and> tensor_row 2 values 1 = [50, 51] \<and> flat exists = [False, True]"
proof -
  let ?key = "\<lparr>shape_of = [2], flat = [9, 5 :: nat]\<rparr>"
  let ?dv = "\<lparr>shape_of = [1, 2], flat = [0, 7 :: nat]\<rparr>"
  have "length (flat ?key) = prod_list (shape_of ?key)" "shape_of ?dv \<noteq> []" "last (shape_of ?dv) = 2"
    by simp_all
  from find_kernels_rows [OF sample_table_ready(1) sample_context_admitted this, of 0 True]
  obtain t' vs ex where *: "find_with_exists_op sample_context 0 True ?key ?dv sample_table = (t', Inr (vs, ex))"
    "\<forall>i<length (flat ?key). tensor_row 2 vs i = lookup_row 2 (rows_of sample_table) ?key ?dv i"
    "flat ex = map (\<lambda>k. rows_of sample_table k \<noteq> None) (flat ?key)" by blast
  have "tensor_row 2 vs 0 = [0, 7]" "tensor_row 2 vs 1 = [50, 51]"
    using *(2) [rule_format, of 0] *(2) [rule_format, of 1]
    by (simp_all add: lookup_row_def sample_table_ready(2) tensor_row_def row_of_def flat_inner_dims_def
        upt_rec)
  with *(1,3) show ?thesis by (auto simp: sample_table_ready(2))
qed

section \<open>Updates\<close>

text \<open>
  C17. An insertion kernel that reports success has given every key of the batch the value
  row of one of its occurrences, and no other key has changed.  The batch never hangs.
\<close>

theorem insert_kernel_assigns:
  assumes "table_ready kind add d t" "admitted ctx" "batch d keys values"
  shows "snd (insert_op ctx keys values t) \<noteq> Inl (Thrown Diverges) \<and>
    (\<forall>t' m. insert_op ctx keys values t = (t', Inr m) \<longrightarrow>
      table_ready kind add d t' \<and>
      (\<forall>k. if k \<in> set (flat keys)
           then \<exists>i<length (flat keys). flat keys ! i = k \<and> rows_of t' k = Some (tensor_row d values i)
           else rows_of t' k = rows_of t k))"
proof -
  have eq: "insert_op ctx keys values t = tracked ctx (do_insert False (ctx_device ctx) keys values) t"
    using assms(2) by (simp add: insert_op_def admitted_def ct_insert_def [abs_def])
  have fair: "fair_shard (ctx_device ctx)" using assms(2) by (simp add: admitted_def)
  note spec = do_insert_spec [OF assms(1) fair assms(3), of False]
  have "snd (insert_op ctx keys values t) \<noteq> Inl (Thrown Diverges)"
    using spec(1) unfolding eq tracked_def Let_def
    by (cases "do_insert False (ctx_device ctx) keys values t" rule: prod.exhaust)
      (auto simp: and_then_def split: sum.splits)
  moreover have "table_ready kind add d t' \<and> assigned d keys values (rows_of t) (rows_of t')"
    if "insert_op ctx keys values t = (t', Inr m)" for t' m
    using spec(2) [OF tracked_Inr [OF that [unfolded eq]]] by simp
  ultimately show ?thesis unfolding assigned_def by blast
qed

theorem insert_kernel_assigns_witness:
  "snd (insert_op sample_context \<lparr>shape_of = [1], flat = [6]\<rparr> \<lparr>shape_of = [1, 2], flat = [1, 2]\<rparr>
      sample_table) \<noteq> Inl (Thrown Diverges)"
proof -
  have "batch 2 \<lparr>shape_of = [1], flat = [6 :: nat]\<rparr> \<lparr>shape_of = [1, 2], flat = [1, 2 :: nat]\<rparr>"
    by (simp add: batch_def)
  from insert_kernel_assigns [OF sample_table_ready(1) sample_context_admitted this] show ?thesis
    by (rule conjunct1)
qed

text \<open>
  C18. A successful accumulation of distinct keys adds the delta element by element where
  the caller expected the key and it was there, inserts where it was expected absent and
  was, and changes nothing else.
\<close>

theorem accum_kernel_adds:
  assumes "table_ready kind add d t" "admitted ctx" "batch d keys deltas" "distinct (flat keys)"
    and "kind \<noteq> Default_tstring" "accum_op ctx False keys deltas exists t = (t', Inr m)"
  shows "table_ready kind add d t' \<and>
    (\<forall>i<length (flat keys). rows_of t' (flat keys ! i) =
       (case rows_of t (flat keys ! i) of
          None \<Rightarrow> if flat exists ! i then None else Some (tensor_row d deltas i)
        | Some v \<Rightarrow> Some (if flat exists ! i then map2 add v (tensor_row d deltas i) else v))) \<and>
    (\<forall>k. k \<notin> set (flat keys) \<longrightarrow> rows_of t' k = rows_of t k)"
proof -
  have eq: "accum_op ctx False keys deltas exists t
      = tracked ctx (do_accum False (ctx_device ctx) keys deltas exists) t"
    using assms(2) by (simp add: accum_op_def admitted_def ct_accum_def [abs_def])
  have fair: "fair_shard (ctx_device ctx)" using assms(2) by (simp add: admitted_def)
  note w = table_readyD(1) [OF assms(1)]
  have "do_accum False (ctx_device ctx) keys deltas exists t = (t', Inr ())"
    using tracked_Inr [OF assms(6) [unfolded eq]] .
  then obtain w' where w': "launch_tensors_accum (ctx_device ctx) d keys deltas exists (table_ptr t) = (w', Inr ())"
    "t' = t\<lparr>table_ptr := w'\<rparr>"
    by (auto simp: do_accum_def in_table_Inr table_readyD(2) [OF assms(1)])
  note spec = launch_accum_spec(2) [OF w fair assms(3,4) w'(1)]
  have rows: "rows_of t' = table_of w'" "rows_of t = table_of (table_ptr t)"
    using w'(2) by (simp_all add: rows_of_def)
  have plus: "kind_plus kind add v (tensor_row d deltas i) = map2 add v (tensor_row d deltas i)"
    if "rows_of t k = Some v" for k v i
    by (rule kind_plus_map2)
      (use wrapper_okD(4,5) [OF w] that assms(5) in \<open>simp_all add: rows_of_def tensor_row_def\<close>)
  have each: "accum_effect (kind_plus kind add) k (tensor_row d deltas i) x (rows_of t) k =
      (case rows_of t k of None \<Rightarrow> if x then None else Some (tensor_row d deltas i)
       | Some v \<Rightarrow> Some (if x then map2 add v (tensor_row d deltas i) else v))" for k i x
    by (cases "rows_of t k") (simp_all add: accum_effect_def plus)
  show ?thesis
  proof (intro conjI allI impI)
    show "table_ready kind add d t'" using spec table_ready_change [OF assms(1), of w'] w'(2) by simp
    fix i
    assume "i < length (flat keys)"
    then have "rows_of t' (flat keys ! i) = accum_effect (kind_plus kind add) (flat keys ! i)
        (tensor_row d deltas i) (flat exists ! i) (rows_of t) (flat keys ! i)"
      using spec by (simp add: rows)
    then show "rows_of t' (flat keys ! i) =
       (case rows_of t (flat keys ! i) of
          None \<Rightarrow> if flat exists ! i then None else Some (tensor_row d deltas i)
        | Some v \<Rightarrow> Some (if flat exists ! i then map2 add v (tensor_row d deltas i) else v))"
      unfolding each .
  next
    fix k
    assume "k \<notin> set (flat keys)"
    then show "rows_of t' k = rows_of t k" using spec by (simp add: rows)
  qed
qed

theorem accum_kernel_adds_witness:
  "\<exists>t' m. accum_op sample_context False \<lparr>shape_of = [1], flat = [5]\<rparr> \<lparr>shape_of = [1, 2], flat = [1, 1]\<rparr>
      \<lparr>shape_of = [1], flat = [True]\<rparr> sample_table = (t', Inr m) \<and> rows_of t' 5 = Some [51, 52]"
proof -
  let ?ks = "\<lparr>shape_of = [1], flat = [5 :: nat]\<rparr>"
  let ?ds = "\<lparr>shape_of = [1, 2], flat = [1, 1 :: nat]\<rparr>"
  let ?ex = "\<lparr>shape_of = [1], flat = [True]\<rparr>"
  have b: "batch 2 ?ks ?ds" by (simp add: batch_def)
  have row: "tensor_row 2 ?ds 0 = [1, 1]"
    by (simp add: tensor_row_def row_of_def flat_inner_dims_def upt_rec)
  have shard: "shard sample_device a 1 c = [0]" for a c by (simp add: sample_device_def)
  obtain u where u: "insert_or_accum (w_plus (table_ptr sample_table)) 5 [1, 1] True sample_one = (u, Inr False)"
    using sample_one_accum by blast
  have "wrapper_accum_vec 5 [1, 1] True (table_ptr sample_table)
      = ((table_ptr sample_table)\<lparr>w_map := u\<rparr>, Inr False)"
    using u by (simp add: wrapper_accum_vec_def in_map_Inr) (simp add: sample_table_def)
  then have l: "launch_tensors_accum sample_device 2 ?ks ?ds ?ex (table_ptr sample_table)
      = ((table_ptr sample_table)\<lparr>w_map := u\<rparr>, Inr ())"
    unfolding launch_accum_run [OF b] by (simp add: shard row [simplified])
  have "value_shape sample_table ! 0 = 2" "ctx_device sample_context = sample_device"
    by (simp_all add: sample_table_def sample_context_def)
  with l have "do_accum False (ctx_device sample_context) ?ks ?ds ?ex sample_table
      = (sample_table\<lparr>table_ptr := (table_ptr sample_table)\<lparr>w_map := u\<rparr>\<rparr>, Inr ())"
    by (simp add: do_accum_def in_table_Inr)
  then obtain m where m: "accum_op sample_context False ?ks ?ds ?ex sample_table
      = (sample_table\<lparr>table_ptr := (table_ptr sample_table)\<lparr>w_map := u\<rparr>\<rparr>, Inr m)"
    using sample_context_admitted
    by (auto simp: accum_op_def admitted_def ct_accum_def tracked_def Let_def)
  have "distinct (flat ?ks)" "Optimized 2 \<noteq> Default_tstring" by simp_all
  from accum_kernel_adds [OF sample_table_ready(1) sample_context_admitted b this m] m show ?thesis
    by (auto simp: sample_table_ready(2) row [simplified])
qed

text \<open>C19. The remove kernel takes exactly the keys of its input out of the table and never throws.\<close>

theorem remove_kernel_removes:
  assumes "table_ready kind add d t" "admitted ctx"
  shows "\<exists>t' m. remove_op ctx keys t = (t', Inr m) \<and> table_ready kind add d t' \<and>
    (\<forall>k. rows_of t' k = (if k \<in> set (flat keys) then None else rows_of t k))"
proof -
  obtain t' where t': "ct_remove keys t = (t', Inr ())" "table_ready kind add d t'"
    "rows_of t' = rows_of t |` (- set (flat keys))" using ct_remove_spec [OF assms(1)] by blast
  then show ?thesis
    using assms(2)
    by (auto simp: remove_op_def admitted_def tracked_def Let_def restrict_map_def)
qed

theorem remove_kernel_removes_witness:
  "\<exists>t' m. remove_op sample_context \<lparr>shape_of = [2], flat = [5, 8]\<rparr> sample_table = (t', Inr m) \<and>
     rows_of t' 5 = None"
  using remove_kernel_removes [OF sample_table_ready(1) sample_context_admitted,
      of "\<lparr>shape_of = [2], flat = [5, 8]\<rparr>"] by auto

section \<open>Export, import and dump\<close>

text \<open>
  C20. Exporting lists each row of the table once.  Importing the two tensors into any table
  of the same dimension, whatever it held, leaves that table with exactly the exported rows,
  provided that the import completes.
\<close>

theorem export_import_roundtrip:
  assumes "table_ready kind add d t" "admitted ctx"
  shows "\<exists>t1 ks vs. export_op ctx k0 e0 t = (t1, Inr (ks, vs)) \<and> rows_of t1 = rows_of t \<and>
    distinct (flat ks) \<and> set (flat ks) = dom (rows_of t) \<and>
    (\<forall>i<length (flat ks). rows_of t (flat ks ! i) = Some (tensor_row d vs i)) \<and>
    (\<forall>u u' m. table_ready kind add d u \<longrightarrow> import_op ctx ks vs u = (u', Inr m) \<longrightarrow>
       table_ready kind add d u' \<and> rows_of u' = rows_of t)"
proof -
  have fair: "fair_shard (ctx_device ctx)" using assms(2) by (simp add: admitted_def)
  obtain t1 ks vs where e: "ct_export_values None None k0 e0 t = (t1, Inr (ks, vs))"
    "rows_of t1 = rows_of t" "lists_rows d ks vs (rows_of t)"
    using ct_export_spec [OF assms(1), of k0 e0] by blast
  then have b: "batch d ks vs" by (simp add: lists_rows_def)
  have op: "export_op ctx k0 e0 t = (t1, Inr (ks, vs))"
    using e(1) assms(2) by (simp add: export_op_def admitted_def)
  have "table_ready kind add d u' \<and> rows_of u' = rows_of t"
    if "table_ready kind add d u" "import_op ctx ks vs u = (u', Inr m)" for u u' m
  proof -
    have "do_insert True (ctx_device ctx) ks vs u = (u', Inr ())"
      using that(2) assms(2)
      by (auto simp: import_op_def admitted_def ct_import_values_def Let_def and_then_Inr_iff)
    from do_insert_spec(2) [OF that(1) fair b this] assigned_lists_rows [OF e(3)] show ?thesis by simp
  qed
  with op e(2,3) show ?thesis
    by (intro exI [of _ t1] exI [of _ ks] exI [of _ vs]) (auto simp: lists_rows_def)
qed

theorem export_import_roundtrip_witness:
  "\<exists>t1 ks vs. export_op sample_context 0 0 sample_table = (t1, Inr (ks, vs)) \<and> flat ks = [5]"
proof -
  obtain t1 ks vs where *: "export_op sample_context 0 0 sample_table = (t1, Inr (ks, vs))"
    "distinct (flat ks)" "set (flat ks) = {5}"
    using export_import_roundtrip [OF sample_table_ready(1) sample_context_admitted, of 0 0]
    unfolding sample_table_ready(2) by auto
  then have "length (flat ks) = 1" using distinct_card by fastforce
  with *(3) have "flat ks = [5]" by (cases "flat ks") auto
  with * show ?thesis by blast
qed

text \<open>
  A dump delivers the part of one fixed enumeration of the table that its offset and
  length name, so that dumps of consecutive ranges put together give the whole table; the
  copying loop ends at the iterator it looks for.
\<close>

theorem dump_delivers_range:
  assumes "wrapper_ok kind add d w" "unat off + unat len < 2 ^ 64"
  shows "\<exists>w'. wrapper_dump off len w = (w', Inr
      (take (unat len) (drop (unat off) (map kv_key (live (w_map w)))),
       concat (take (unat len) (drop (unat off) (map kv_mapped (live (w_map w))))))) \<and>
    wrapper_ok kind add d w' \<and> live (w_map w') = live (w_map w)"
  using wrapper_dump_spec [OF assms] by (auto simp: dump_part_def take_map drop_map)

theorem dump_delivers_range_witness:
  "\<exists>w'. wrapper_dump 1 7 (table_ptr sample_table) = (w', Inr ([], []))"
proof -
  have ok: "wrapper_ok (Optimized 2) (+) 2 (table_ptr sample_table)"
    using sample_table_ready(1) by (simp add: table_ready_def)
  have "length (live (w_map (table_ptr sample_table))) = 1"
    using card_dom_abs_map [OF table_coreD(7) [OF readyD(2) [OF sample_one_ready(1)]]]
    by (simp add: sample_one_ready sample_table_def)
  moreover have "unat (1 :: u64) + unat (7 :: u64) < 2 ^ 64" by simp
  ultimately show ?thesis using dump_delivers_range [OF ok, of 1 7] by auto
qed

section \<open>Failures and choices\<close>

lemma lift_exn_not_failed: "snd (lift_exn p) \<noteq> Inl (Failed msg)"
  by (cases p rule: lift_exn.cases) simp_all

lemma in_table_not_failed: "snd (in_table f t) \<noteq> Inl (Failed msg)"
  by (simp add: in_table_def lift_exn_not_failed split: prod.splits)

text \<open>An operation that ends with a status of the framework leaves the table as it was.\<close>

definition failure_keeps :: "('t \<Rightarrow> 't \<times> (op_exn + 'a)) \<Rightarrow> 't \<Rightarrow> bool" where
  "failure_keeps f t \<longleftrightarrow> (\<forall>msg. snd (f t) = Inl (Failed msg) \<longrightarrow> fst (f t) = t)"

text \<open>
  C21. Each of the nine kernels (find, find with exists, insert, remove, accum, clear, size,
  export and import) that ends with a status of the framework, be it a table that is not
  found, a signature or a shape that does not match, or, for the four of them that allocate
  outputs, an output that cannot be allocated, leaves the table as it was.  An exception
  thrown by the table is not such a status, and nothing is claimed of it here.
\<close>

theorem failed_kernels_keep_table:
  "failure_keeps (find_op ctx e0 keys values) t \<and>
   failure_keeps (find_with_exists_op ctx e0 b0 keys values) t \<and>
   failure_keeps (insert_op ctx keys values) t \<and>
   failure_keeps (remove_op ctx keys) t \<and>
   failure_keeps (accum_op ctx tstr keys values exists) t \<and>
   failure_keeps (clear_op ctx) t \<and>
   failure_keeps (size_op ctx) t \<and>
   failure_keeps (export_op ctx k0 e0) t \<and>
   failure_keeps (import_op ctx keys values) t"
proof -
  have tr: "snd (tracked ctx f t) \<noteq> Inl (Failed msg)"
    if "\<forall>msg. snd (f t) \<noteq> Inl (Failed msg)" for f msg
    using that by (auto simp: tracked_def Let_def and_then_def split: prod.splits sum.splits)
  have ups: "snd (ct_insert dev keys values t) \<noteq> Inl (Failed msg)" "snd (ct_remove keys t) \<noteq> Inl (Failed msg)"
    "snd (ct_import_values dev keys values t) \<noteq> Inl (Failed msg)"
    "snd (ct_accum dev keys values exists t) \<noteq> Inl (Failed msg)"
    "snd (ct_find dev keys out values t) \<noteq> Inl (Failed msg)"
    "snd (ct_find_with_exists dev keys out values found t) \<noteq> Inl (Failed msg)" for dev msg out found
    by (simp_all add: ct_insert_def ct_remove_def ct_import_values_def ct_accum_def do_insert_def
        do_accum_def ct_find_def ct_find_with_exists_def Let_def in_table_not_failed)
  have after: "snd (and_then (ct_import_values dev keys values t) (\<lambda>_ t. (t, Inr (g t)))) \<noteq> Inl (Failed msg)"
    for dev msg and g :: "_ \<Rightarrow> int option"
    using ups(3) [of dev msg] by (auto simp: and_then_def split: prod.splits sum.splits)
  have imp: "failure_keeps (import_op ctx keys values) t"
    unfolding import_op_def failure_keeps_def
    by (cases "ctx_get_table ctx"; cases "ctx_match_signature ctx"; cases "ctx_check_tensors ctx";
        simp add: Let_def after)
  have reads: "failure_keeps (find_op ctx e0 keys values) t"
    "failure_keeps (find_with_exists_op ctx e0 b0 keys values) t"
    unfolding find_op_def find_with_exists_op_def failure_keeps_def
    by (cases "ctx_get_table ctx"; cases "ctx_match_signature ctx"; cases "ctx_allocate_output ctx";
        cases "ctx_allocate_exists ctx"; simp add: Let_def ups)+
  have outs: "failure_keeps (size_op ctx) t" "failure_keeps (export_op ctx k0 e0) t"
    unfolding size_op_def export_op_def ct_export_values_def failure_keeps_def
    by (cases "ctx_get_table ctx"; cases "ctx_allocate_output ctx"; cases "ctx_allocate_exists ctx";
        simp add: Let_def in_table_not_failed)+
  have "failure_keeps (insert_op ctx keys values) t" "failure_keeps (remove_op ctx keys) t"
    "failure_keeps (accum_op ctx tstr keys values exists) t" "failure_keeps (clear_op ctx) t"
    unfolding insert_op_def remove_op_def accum_op_def clear_op_def failure_keeps_def
    by (cases "ctx_get_table ctx"; cases "ctx_match_signature ctx"; cases "ctx_check_tensors ctx"; cases tstr;
        simp add: tr ups)+
  with imp reads outs show ?thesis by blast
qed

text \<open>
  The wrapper with compile time dimension is chosen exactly for the dimensions 1 to 100
  of tables with \<open>int64\<close> keys and number values, and then with that very dimension.
\<close>

theorem wrapper_choice:
  "create_table_kind int64_key tstring_value n = Optimized m \<longleftrightarrow>
     m = n \<and> 1 \<le> n \<and> n \<le> 100 \<and> int64_key \<and> \<not> tstring_value"
proof -
  have "create_branches 0 0 = [1..<101]" by code_simp
  then have "n \<in> set (create_branches 0 0) \<longleftrightarrow> 1 \<le> n \<and> n \<le> 100" by auto
  then show ?thesis by (auto simp: create_table_kind_def table_dispatcher_def)
qed

text \<open>The number of insertion workers is at least one and at most that of the thread pool.\<close>

theorem insert_workers_bounded:
  assumes "1 \<le> num_threads dev"
  shows "1 \<le> insert_worker_threads dev \<and> insert_worker_threads dev \<le> num_threads dev"
  using assms by (auto simp: insert_worker_threads_def Let_def split: option.splits)

theorem insert_workers_bounded_witness:
  "insert_worker_threads (sample_device\<lparr>insert_threads_env := Some 9\<rparr>) \<le> 2"
  using insert_workers_bounded [of "sample_device\<lparr>insert_threads_env := Some 9\<rparr>"]
  by (simp add: sample_device_def)

end
