(* ===== verification/Cuckoo_Checkpoint.thy ===== *)
theory Cuckoo_Checkpoint
  imports Cuckoo_Table_Op_Spec "HOL-Library.Char_ord" "HOL-Library.List_Lexorder"
begin

text \<open>
  Saving a table to files and loading it back: \<open>SaveToFileSystem\<close> and \<open>LoadFromFileSystem\<close> of
  \<open>CuckooHashTableOfTensors\<close> and their kernels.

  The file system is the framework's and not part of the repository: the operations the code
  calls are the fields of \<open>file_system\<close>, over a state \<open>'fs\<close>.  A writer or reader is named by
  the path it was opened for.  The code moves keys and values between memory and files by
  reinterpreting pointers; how an object is represented in bytes is its \<open>layout\<close>.
\<close>

section \<open>Files and layouts\<close>

type_synonym bytes = "u8 list"

record 'a layout =
  size_of :: nat
  to_bytes :: "'a \<Rightarrow> bytes"
  of_bytes :: "bytes \<Rightarrow> 'a"

record 'fs file_system =
  join_path :: "string \<Rightarrow> string \<Rightarrow> string"
  dirname :: "string \<Rightarrow> string"
  file_system_for_file :: "string \<Rightarrow> status"
  has_atomic_move :: "string \<Rightarrow> 'fs \<Rightarrow> bool \<times> status"
  create_dir :: "string \<Rightarrow> 'fs \<Rightarrow> 'fs \<times> status"
  new_appendable :: "string \<Rightarrow> 'fs \<Rightarrow> 'fs \<times> status"
  new_writable :: "string \<Rightarrow> 'fs \<Rightarrow> 'fs \<times> status"
  append_file :: "string \<Rightarrow> bytes \<Rightarrow> 'fs \<Rightarrow> 'fs \<times> status"
  flush_file :: "string \<Rightarrow> 'fs \<Rightarrow> 'fs \<times> status"
  sync_file :: "string \<Rightarrow> 'fs \<Rightarrow> 'fs \<times> status"
  file_exists :: "string \<Rightarrow> 'fs \<Rightarrow> status"
  rename_file :: "string \<Rightarrow> string \<Rightarrow> 'fs \<Rightarrow> 'fs \<times> status"
  new_random_access :: "string \<Rightarrow> 'fs \<Rightarrow> status"
  get_file_size :: "string \<Rightarrow> 'fs \<Rightarrow> string + nat"
  read_n_bytes :: "string \<Rightarrow> nat \<Rightarrow> nat \<Rightarrow> 'fs \<Rightarrow> string + bytes"
  matching_paths :: "string \<Rightarrow> 'fs \<Rightarrow> string + string list"

text \<open>
  Steps on the files and on the table.  \<open>on_files\<close> and \<open>ask_files\<close> are calls under
  \<open>TF_RETURN_IF_ERROR\<close>.
\<close>

definition on_files ::
  "('fs \<Rightarrow> 'fs \<times> status) \<Rightarrow> 'fs \<times> 't \<Rightarrow> ('fs \<times> 't) \<times> (op_exn + unit)" where
  "on_files f = (\<lambda>(fs, t). case f fs of
     (fs, None) \<Rightarrow> ((fs, t), Inr ()) | (fs, Some msg) \<Rightarrow> ((fs, t), Inl (Failed msg)))"

definition check_files ::
  "('fs \<Rightarrow> status) \<Rightarrow> 'fs \<times> 't \<Rightarrow> ('fs \<times> 't) \<times> (op_exn + unit)" where
  "check_files f = on_files (\<lambda>fs. (fs, f fs))"

definition ask_files ::
  "('fs \<Rightarrow> string + 'a) \<Rightarrow> 'fs \<times> 't \<Rightarrow> ('fs \<times> 't) \<times> (op_exn + 'a)" where
  "ask_files f = (\<lambda>(fs, t). ((fs, t), case f fs of Inl msg \<Rightarrow> Inl (Failed msg) | Inr a \<Rightarrow> Inr a))"

definition on_table ::
  "('t \<Rightarrow> 't \<times> (op_exn + 'a)) \<Rightarrow> 'fs \<times> 't \<Rightarrow> ('fs \<times> 't) \<times> (op_exn + 'a)" where
  "on_table f = (\<lambda>(fs, t). case f t of (t, r) \<Rightarrow> ((fs, t), r))"

section \<open>Saving\<close>

text \<open>
  The two buffers persist between rounds; a dump writes to their front, and the bytes
  appended are the first \<open>key_offset\<close> and \<open>value_offset\<close> of them.  Both offsets are zero
  again at the end of a round, so the code behind the loop that appends a rest never runs.
  The loop would not end with an empty buffer; the bound on its rounds is the table size.
\<close>

fun save_loop ::
  "'fs file_system \<Rightarrow> 'k layout \<Rightarrow> 'e layout \<Rightarrow> nat \<Rightarrow> u64 \<Rightarrow> nat \<Rightarrow> string \<Rightarrow> string
     \<Rightarrow> nat \<Rightarrow> nat \<Rightarrow> bytes \<Rightarrow> bytes \<Rightarrow> 'fs \<times> ('k, 'e) cuckoo_table
     \<Rightarrow> ('fs \<times> ('k, 'e) cuckoo_table) \<times> (op_exn + unit)" where
  "save_loop F kl vl value_len buffer_size table_size key_path value_path 0 search_offset kb vb s
     = (s, Inl (Thrown Diverges))"
| "save_loop F kl vl value_len buffer_size table_size key_path value_path (Suc n) search_offset kb vb s =
     (if search_offset < table_size
      then and_then (on_table (in_table (wrapper_dump (of_nat search_offset) buffer_size)) s)
        (\<lambda>(ks, vs) s.
           let dump_counter = length ks;
               kb = overwrite kb (concat (map (to_bytes kl) ks));
               vb = overwrite vb (concat (map (to_bytes vl) vs));
               key_offset = dump_counter * size_of kl;
               value_offset = dump_counter * value_len
           in and_then (on_files (append_file F key_path (take key_offset kb)) s)
             (\<lambda>_ s. and_then (on_files (append_file F value_path (take value_offset vb)) s)
               (\<lambda>_ s. save_loop F kl vl value_len buffer_size table_size key_path value_path n
                        (search_offset + dump_counter) kb vb s)))
      else (s, Inr ()))"

definition save_to_file_system_impl ::
  "'fs file_system \<Rightarrow> 'k layout \<Rightarrow> 'e layout \<Rightarrow> nat \<Rightarrow> string \<Rightarrow> u64 \<Rightarrow> bool
     \<Rightarrow> 'fs \<times> ('k, 'e) cuckoo_table \<Rightarrow> ('fs \<times> ('k, 'e) cuckoo_table) \<times> (op_exn + unit)" where
  "save_to_file_system_impl F kl vl value_dim filepath buffer_size append_to_file s =
     (let key_filepath = filepath @ ''-keys'';
          value_filepath = filepath @ ''-values'';
          (atomic, st) = has_atomic_move F filepath (fst s);
          need_tmp_file = (\<not> atomic \<or> st \<noteq> None);
          key_tmpfilepath = (if need_tmp_file then filepath @ ''-keys.tmp'' else key_filepath);
          value_tmpfilepath = (if need_tmp_file then filepath @ ''-values.tmp'' else value_filepath);
          open_file = (if append_to_file then new_appendable F else new_writable F);
          value_len = size_of vl * value_dim;
          key_buffer = replicate (unat buffer_size * size_of kl) 0;
          value_buffer = replicate (unat buffer_size * value_len) 0
      in and_then (on_files (create_dir F (dirname F filepath)) s) (\<lambda>_ s.
         and_then (on_files (open_file key_tmpfilepath) s) (\<lambda>_ s.
         and_then (on_files (open_file value_tmpfilepath) s) (\<lambda>_ s.
         let table_size = ct_size (snd s) in
         and_then (save_loop F kl vl value_len buffer_size table_size key_tmpfilepath
                     value_tmpfilepath (Suc table_size) 0 key_buffer value_buffer s) (\<lambda>_ s.
         and_then (on_files (flush_file F key_tmpfilepath) s) (\<lambda>_ s.
         and_then (on_files (flush_file F value_tmpfilepath) s) (\<lambda>_ s.
         and_then (on_files (sync_file F key_tmpfilepath) s) (\<lambda>_ s.
         and_then (on_files (sync_file F value_tmpfilepath) s) (\<lambda>_ s.
         if need_tmp_file
         then and_then (check_files (file_exists F key_tmpfilepath) s) (\<lambda>_ s.
              and_then (on_files (rename_file F key_tmpfilepath key_filepath) s) (\<lambda>_ s.
              and_then (check_files (file_exists F value_tmpfilepath) s) (\<lambda>_ s.
              on_files (rename_file F value_tmpfilepath value_filepath) s)))
         else (s, Inr ()))))))))))"

definition save_to_file_system ::
  "'fs file_system \<Rightarrow> 'k layout \<Rightarrow> 'e layout \<Rightarrow> string \<Rightarrow> string \<Rightarrow> u64 \<Rightarrow> bool
     \<Rightarrow> 'fs \<times> ('k, 'e) cuckoo_table \<Rightarrow> ('fs \<times> ('k, 'e) cuckoo_table) \<times> (op_exn + unit)" where
  "save_to_file_system F kl vl dirpath file_name buffer_size append_to_file s =
     (let filepath = join_path F dirpath file_name
      in require (file_system_for_file F filepath)
           (\<lambda>s. let value_dim = value_shape (snd s) ! 0
                in save_to_file_system_impl F kl vl value_dim filepath buffer_size append_to_file s)
           s)"

section \<open>Loading\<close>

text \<open>
  Both readers are streams: a read starts where the last one ended.  The keys are counted by
  the bytes read, and the loop would not end for keys of size zero.
\<close>

definition read_row :: "'e layout \<Rightarrow> nat \<Rightarrow> bytes \<Rightarrow> 'e list" where
  "read_row vl d bs = map (\<lambda>j. of_bytes vl (take (size_of vl) (drop (j * size_of vl) bs))) [0..<d]"

fun load_loop ::
  "'fs file_system \<Rightarrow> 'k layout \<Rightarrow> 'e layout \<Rightarrow> nat \<Rightarrow> string \<Rightarrow> string \<Rightarrow> nat
     \<Rightarrow> nat \<Rightarrow> nat \<Rightarrow> nat \<Rightarrow> 'fs \<times> ('k, 'e) cuckoo_table
     \<Rightarrow> ('fs \<times> ('k, 'e) cuckoo_table) \<times> (op_exn + unit)" where
  "load_loop F kl vl value_dim key_path value_path key_file_size 0 key_pos value_pos s
     = (s, Inl (Thrown Diverges))"
| "load_loop F kl vl value_dim key_path value_path key_file_size (Suc n) key_pos value_pos s =
     (if key_pos < key_file_size
      then and_then (ask_files (read_n_bytes F key_path key_pos (size_of kl)) s) (\<lambda>key_buffer s.
           let value_len = size_of vl * value_dim in
           and_then (ask_files (read_n_bytes F value_path value_pos value_len) s) (\<lambda>value_buffer s.
           and_then (on_table (\<lambda>t. in_table
               (wrapper_insert_or_assign_ptr (of_bytes kl key_buffer)
                  (read_row vl value_dim value_buffer) (runtime_dim t)) t) s)
             (\<lambda>_ s. load_loop F kl vl value_dim key_path value_path key_file_size n
                      (key_pos + size_of kl) (value_pos + value_len) s)))
      else (s, Inr ()))"

definition load_from_file_system_impl ::
  "'fs file_system \<Rightarrow> 'k layout \<Rightarrow> 'e layout \<Rightarrow> nat \<Rightarrow> string \<Rightarrow> 'fs \<times> ('k, 'e) cuckoo_table
     \<Rightarrow> ('fs \<times> ('k, 'e) cuckoo_table) \<times> (op_exn + unit)" where
  "load_from_file_system_impl F kl vl value_dim filepath s =
     (let key_filepath = filepath @ ''-keys'';
          value_filepath = filepath @ ''-values'';
          value_len = size_of vl * value_dim
      in and_then (check_files (file_exists F key_filepath) s) (\<lambda>_ s.
         and_then (check_files (new_random_access F key_filepath) s) (\<lambda>_ s.
         and_then (check_files (file_exists F value_filepath) s) (\<lambda>_ s.
         and_then (check_files (new_random_access F value_filepath) s) (\<lambda>_ s.
         and_then (ask_files (get_file_size F key_filepath) s) (\<lambda>key_file_size s.
         and_then (ask_files (get_file_size F value_filepath) s) (\<lambda>value_file_size s.
         if value_len = 0 then (s, Inl Undefined)
         else if key_file_size div size_of kl \<noteq> value_file_size div value_len
         then (s, Inl (Failed (''the keys number in file '' @ key_filepath @
                 '' is not equal to the value vectors number in file '' @ value_filepath @ ''.'')))
         else load_loop F kl vl value_dim key_filepath value_filepath key_file_size
                (Suc key_file_size) 0 0 s)))))))"

text \<open>
  \<open>rfind\<close> of the standard library, with None for \<open>npos\<close>.  The code stores the result in an
  \<open>int\<close>, where \<open>npos\<close> becomes \<open>-1\<close>, and passes it on to \<open>substr\<close>.
\<close>

definition rfind :: "string \<Rightarrow> string \<Rightarrow> nat option" where
  "rfind pat str =
     (case rev (filter (\<lambda>i. take (length pat) (drop i str) = pat) [0..<Suc (length str)]) of
        [] \<Rightarrow> None | i # _ \<Rightarrow> Some i)"

definition file_pattern :: "'fs file_system \<Rightarrow> string \<Rightarrow> string \<Rightarrow> string" where
  "file_pattern F dirpath file_name =
     (let separator = ''_mht_'';
          separator_pos = (case rfind separator file_name of None \<Rightarrow> -1 | Some i \<Rightarrow> int i)
      in join_path F dirpath
           (take (nat (separator_pos + int (length separator))) file_name) @ ''*'')"

definition delete_postfix :: "string \<Rightarrow> string" where
  "delete_postfix p = (case rfind ''-'' p of None \<Rightarrow> p | Some kv_separator_pos \<Rightarrow> take kv_separator_pos p)"

fun load_paths ::
  "'fs file_system \<Rightarrow> 'k layout \<Rightarrow> 'e layout \<Rightarrow> nat \<Rightarrow> string list \<Rightarrow> 'fs \<times> ('k, 'e) cuckoo_table
     \<Rightarrow> ('fs \<times> ('k, 'e) cuckoo_table) \<times> (op_exn + unit)" where
  "load_paths F kl vl value_dim [] s = (s, Inr ())"
| "load_paths F kl vl value_dim (fp # fps) s =
     and_then (load_from_file_system_impl F kl vl value_dim fp s)
       (\<lambda>_ s. load_paths F kl vl value_dim fps s)"

definition load_from_file_system ::
  "'fs file_system \<Rightarrow> 'k layout \<Rightarrow> 'e layout \<Rightarrow> string \<Rightarrow> string \<Rightarrow> bool
     \<Rightarrow> 'fs \<times> ('k, 'e) cuckoo_table \<Rightarrow> ('fs \<times> ('k, 'e) cuckoo_table) \<times> (op_exn + unit)" where
  "load_from_file_system F kl vl dirpath file_name load_entire_dir s =
     require (file_system_for_file F dirpath)
       (\<lambda>s. let value_dim = value_shape (snd s) ! 0
            in if load_entire_dir
               then and_then (ask_files (matching_paths F (file_pattern F dirpath file_name)) s)
                 (\<lambda>all_filepath s.
                    let all_filepath = remdups_adj (sort (map delete_postfix all_filepath))
                    in load_paths F kl vl value_dim all_filepath s)
               else load_from_file_system_impl F kl vl value_dim (join_path F dirpath file_name) s)
       s"

section \<open>The kernels\<close>

text \<open>
  The directory comes from an environment variable when that is set (to anything but the
  default the code asks for), and from the input tensor otherwise.  Converting the tensor's
  string through \<open>data()\<close> ends it at the first zero character.
\<close>

definition c_string :: "string \<Rightarrow> string" where
  "c_string str = takeWhile (\<lambda>c. c \<noteq> CHR 0x00) str"

definition with_scalar ::
  "string \<Rightarrow> string tensor \<Rightarrow> (string \<Rightarrow> 's \<Rightarrow> 's \<times> (op_exn + 'a)) \<Rightarrow> 's \<Rightarrow> 's \<times> (op_exn + 'a)" where
  "with_scalar msg tn f =
     require (if shape_of tn = [] then None else Some msg) (f (c_string (flat tn ! 0)))"

definition with_dirpath ::
  "(string \<Rightarrow> string option) \<Rightarrow> string \<Rightarrow> string tensor
     \<Rightarrow> (string \<Rightarrow> 's \<Rightarrow> 's \<times> (op_exn + 'a)) \<Rightarrow> 's \<Rightarrow> 's \<times> (op_exn + 'a)" where
  "with_dirpath env dirpath_env dir_tensor f =
     (let dirpath = (case env dirpath_env of None \<Rightarrow> ''NotFound'' | Some v \<Rightarrow> v)
      in if dirpath \<noteq> ''NotFound'' then f dirpath
         else with_scalar ''directory path must be scalar.'' dir_tensor f)"

definition save_op ::
  "op_context \<Rightarrow> 'fs file_system \<Rightarrow> (string \<Rightarrow> string option) \<Rightarrow> 'k layout \<Rightarrow> 'e layout
     \<Rightarrow> string \<Rightarrow> bool \<Rightarrow> int \<Rightarrow> string tensor \<Rightarrow> string tensor
     \<Rightarrow> 'fs \<times> ('k, 'e) cuckoo_table \<Rightarrow> ('fs \<times> ('k, 'e) cuckoo_table) \<times> (op_exn + unit)" where
  "save_op ctx F env kl vl dirpath_env append_to_file signed_buffer_size dir_tensor fname_tensor =
     (let buffer_size = (word_of_int signed_buffer_size :: u64)
      in require (ctx_get_table ctx)
        (with_dirpath env dirpath_env dir_tensor (\<lambda>dirpath.
           with_scalar ''file name must be scalar.'' fname_tensor (\<lambda>file_name.
             save_to_file_system F kl vl dirpath file_name buffer_size append_to_file))))"

definition load_op ::
  "op_context \<Rightarrow> 'fs file_system \<Rightarrow> (string \<Rightarrow> string option) \<Rightarrow> 'k layout \<Rightarrow> 'e layout
     \<Rightarrow> string \<Rightarrow> bool \<Rightarrow> string tensor \<Rightarrow> string tensor
     \<Rightarrow> 'fs \<times> ('k, 'e) cuckoo_table \<Rightarrow> ('fs \<times> ('k, 'e) cuckoo_table) \<times> (op_exn + unit)" where
  "load_op ctx F env kl vl dirpath_env load_entire_dir dir_tensor fname_tensor =
     require (ctx_get_table ctx)
       (with_dirpath env dirpath_env dir_tensor (\<lambda>dirpath.
          with_scalar ''file name must be scalar.'' fname_tensor (\<lambda>file_name.
            load_from_file_system F kl vl dirpath file_name load_entire_dir)))"

end
