(* ===== verification/Cuckoo_Checkpoint_Spec.thy ===== *)
theory Cuckoo_Checkpoint_Spec
  imports Cuckoo_Checkpoint
begin

text \<open>
  What saving writes and what loading makes of it, on a file system that does what its
  operations are documented to do.
\<close>

section \<open>Assumptions\<close>

text \<open>
  \<open>content\<close> gives the bytes a reader of a path finds.  Each operation succeeds and changes the
  paths it is given as its name says.
\<close>

definition reliable :: "'fs file_system \<Rightarrow> ('fs \<Rightarrow> string \<rightharpoonup> bytes) \<Rightarrow> bool" where
  "reliable F content \<longleftrightarrow>
     (\<forall>p. file_system_for_file F p = None) \<and>
     (\<forall>p fs. snd (create_dir F p fs) = None \<and> content (fst (create_dir F p fs)) = content fs) \<and>
     (\<forall>p fs. snd (new_writable F p fs) = None \<and>
        content (fst (new_writable F p fs)) = (content fs)(p \<mapsto> [])) \<and>
     (\<forall>p fs. snd (new_appendable F p fs) = None \<and>
        content (fst (new_appendable F p fs))
          = (content fs)(p \<mapsto> (case content fs p of None \<Rightarrow> [] | Some b \<Rightarrow> b))) \<and>
     (\<forall>p b old fs. content fs p = Some old \<longrightarrow> snd (append_file F p b fs) = None \<and>
        content (fst (append_file F p b fs)) = (content fs)(p \<mapsto> old @ b)) \<and>
     (\<forall>p fs. snd (flush_file F p fs) = None \<and> content (fst (flush_file F p fs)) = content fs) \<and>
     (\<forall>p fs. snd (sync_file F p fs) = None \<and> content (fst (sync_file F p fs)) = content fs) \<and>
     (\<forall>p fs. (file_exists F p fs = None) = (content fs p \<noteq> None)) \<and>
     (\<forall>src dst b fs. content fs src = Some b \<longrightarrow> snd (rename_file F src dst fs) = None \<and>
        content (fst (rename_file F src dst fs)) = (content fs)(src := None, dst \<mapsto> b)) \<and>
     (\<forall>p fs. content fs p \<noteq> None \<longrightarrow> new_random_access F p fs = None) \<and>
     (\<forall>p b fs. content fs p = Some b \<longrightarrow> get_file_size F p fs = Inr (length b)) \<and>
     (\<forall>p b pos n fs. content fs p = Some b \<longrightarrow> pos + n \<le> length b \<longrightarrow>
        read_n_bytes F p pos n fs = Inr (take n (drop pos b)))"

definition layout_ok :: "'a layout \<Rightarrow> 'a set \<Rightarrow> bool" where
  "layout_ok l A \<longleftrightarrow> 0 < size_of l \<and>
     (\<forall>a\<in>A. length (to_bytes l a) = size_of l \<and> of_bytes l (to_bytes l a) = a)"

text \<open>The elements the rows of a table consist of.\<close>

definition elements :: "('k \<rightharpoonup> 'e list) \<Rightarrow> 'e set" where
  "elements m = (\<Union>v\<in>ran m. set v)"

definition key_bytes :: "'k layout \<Rightarrow> ('k, 'e list) kv list \<Rightarrow> bytes" where
  "key_bytes kl es = concat (map (\<lambda>e. to_bytes kl (kv_key e)) es)"

definition row_bytes :: "'e layout \<Rightarrow> 'e list \<Rightarrow> bytes" where
  "row_bytes vl v = concat (map (to_bytes vl) v)"

definition value_bytes :: "'e layout \<Rightarrow> ('k, 'e list) kv list \<Rightarrow> bytes" where
  "value_bytes vl es = concat (map (\<lambda>e. row_bytes vl (kv_mapped e)) es)"

lemma bytes_append:
  "key_bytes kl (xs @ ys) = key_bytes kl xs @ key_bytes kl ys"
  "value_bytes vl (xs @ ys) = value_bytes vl xs @ value_bytes vl ys"
  by (simp_all add: key_bytes_def value_bytes_def)

lemma bytes_Nil [simp]: "key_bytes kl [] = []" "value_bytes vl [] = []"
  by (simp_all add: key_bytes_def value_bytes_def)

lemma reliable_on_files:
  assumes "reliable F content"
  shows "file_system_for_file F p = None"
    and "\<exists>fs'. on_files (create_dir F p) (fs, t) = ((fs', t), Inr ()) \<and> content fs' = content fs"
    and "\<exists>fs'. on_files (new_writable F p) (fs, t) = ((fs', t), Inr ()) \<and>
      content fs' = (content fs)(p \<mapsto> [])"
    and "\<exists>fs'. on_files (new_appendable F p) (fs, t) = ((fs', t), Inr ()) \<and>
      content fs' = (content fs)(p \<mapsto> (case content fs p of None \<Rightarrow> [] | Some b \<Rightarrow> b))"
    and "content fs p = Some old \<Longrightarrow>
      \<exists>fs'. on_files (append_file F p b) (fs, t) = ((fs', t), Inr ()) \<and>
        content fs' = (content fs)(p \<mapsto> old @ b)"
    and "\<exists>fs'. on_files (flush_file F p) (fs, t) = ((fs', t), Inr ()) \<and> content fs' = content fs"
    and "\<exists>fs'. on_files (sync_file F p) (fs, t) = ((fs', t), Inr ()) \<and> content fs' = content fs"
    and "content fs p = Some b \<Longrightarrow> check_files (file_exists F p) (fs, t) = ((fs, t), Inr ())"
    and "content fs p = Some b \<Longrightarrow>
      \<exists>fs'. on_files (rename_file F p q) (fs, t) = ((fs', t), Inr ()) \<and>
        content fs' = (content fs)(p := None, q \<mapsto> b)"
    and "content fs p = Some b \<Longrightarrow> check_files (new_random_access F p) (fs, t) = ((fs, t), Inr ())"
    and "content fs p = Some b \<Longrightarrow> ask_files (get_file_size F p) (fs, t) = ((fs, t), Inr (length b))"
    and "content fs p = Some b \<Longrightarrow> pos + n \<le> length b \<Longrightarrow>
      ask_files (read_n_bytes F p pos n) (fs, t) = ((fs, t), Inr (take n (drop pos b)))"
proof -
  have step: "\<exists>fs'. on_files f (fs, t) = ((fs', t), Inr ()) \<and> content fs' = c"
    if "snd (f fs) = None" "content (fst (f fs)) = c" for f c
    using that by (cases "f fs") (simp add: on_files_def)
  note r = assms [unfolded reliable_def]
  show "file_system_for_file F p = None" using r by simp
  show "\<exists>fs'. on_files (create_dir F p) (fs, t) = ((fs', t), Inr ()) \<and> content fs' = content fs"
    by (rule step) (use r in simp)+
  show "\<exists>fs'. on_files (new_writable F p) (fs, t) = ((fs', t), Inr ()) \<and>
      content fs' = (content fs)(p \<mapsto> [])"
    by (rule step) (use r in simp)+
  show "\<exists>fs'. on_files (new_appendable F p) (fs, t) = ((fs', t), Inr ()) \<and>
      content fs' = (content fs)(p \<mapsto> (case content fs p of None \<Rightarrow> [] | Some b \<Rightarrow> b))"
    by (rule step) (use r in simp)+
  show "\<exists>fs'. on_files (flush_file F p) (fs, t) = ((fs', t), Inr ()) \<and> content fs' = content fs"
    by (rule step) (use r in simp)+
  show "\<exists>fs'. on_files (sync_file F p) (fs, t) = ((fs', t), Inr ()) \<and> content fs' = content fs"
    by (rule step) (use r in simp)+
  show "\<exists>fs'. on_files (append_file F p b) (fs, t) = ((fs', t), Inr ()) \<and>
        content fs' = (content fs)(p \<mapsto> old @ b)" if "content fs p = Some old"
    by (rule step) (use r that in simp)+
  show "check_files (file_exists F p) (fs, t) = ((fs, t), Inr ())" if "content fs p = Some b"
  proof -
    have "file_exists F p fs = None" using r that by simp
    then show ?thesis by (simp add: check_files_def on_files_def)
  qed
  show "\<exists>fs'. on_files (rename_file F p q) (fs, t) = ((fs', t), Inr ()) \<and>
        content fs' = (content fs)(p := None, q \<mapsto> b)" if "content fs p = Some b"
    by (rule step) (use r that in simp)+
  show "check_files (new_random_access F p) (fs, t) = ((fs, t), Inr ())" if "content fs p = Some b"
  proof -
    have "new_random_access F p fs = None" using r that by simp
    then show ?thesis by (simp add: check_files_def on_files_def)
  qed
  show "ask_files (get_file_size F p) (fs, t) = ((fs, t), Inr (length b))" if "content fs p = Some b"
  proof -
    have "get_file_size F p fs = Inr (length b)" using r that by simp
    then show ?thesis by (simp add: ask_files_def)
  qed
  show "ask_files (read_n_bytes F p pos n) (fs, t) = ((fs, t), Inr (take n (drop pos b)))"
    if "content fs p = Some b" "pos + n \<le> length b"
  proof -
    have "read_n_bytes F p pos n fs = Inr (take n (drop pos b))" using r that by simp
    then show ?thesis by (simp add: ask_files_def)
  qed
qed

section \<open>Bytes\<close>

lemma take_drop_concat:
  "(\<And>e. e \<in> set es \<Longrightarrow> length (f e) = d) \<Longrightarrow> i < length es \<Longrightarrow>
     take d (drop (i * d) (concat (map f es))) = f (es ! i)"
proof (induction es arbitrary: i)
  case Nil
  then show ?case by simp
next
  case (Cons e es)
  have e: "length (f e) = d" using Cons.prems(1) by simp
  show ?case
  proof (cases i)
    case 0
    then show ?thesis using e by simp
  next
    case (Suc j)
    then have "take d (drop (j * d) (concat (map f es))) = f (es ! j)"
      using Cons.prems by (intro Cons.IH) simp_all
    then show ?thesis using e Suc by simp
  qed
qed

lemma concat_map_concat: "concat (map f (concat xss)) = concat (map (\<lambda>xs. concat (map f xs)) xss)"
  by (induction xss) simp_all

lemma length_row_bytes:
  assumes "layout_ok vl A" "set v \<subseteq> A"
  shows "length (row_bytes vl v) = size_of vl * length v"
  unfolding row_bytes_def using assms
  by (subst length_concat_const [where d = "size_of vl"]) (auto simp: layout_ok_def)

lemma read_row_bytes:
  assumes "layout_ok vl A" "set v \<subseteq> A"
  shows "read_row vl (length v) (row_bytes vl v) = v"
proof (rule nth_equalityI)
  fix j
  assume "j < length (read_row vl (length v) (row_bytes vl v))"
  then have j: "j < length v" by (simp add: read_row_def)
  have "length (to_bytes vl e) = size_of vl" if "e \<in> set v" for e
    using assms that by (auto simp: layout_ok_def)
  note chunk = take_drop_concat [of v "to_bytes vl", OF this j]
  have "v ! j \<in> A" using assms(2) j by auto
  with chunk show "read_row vl (length v) (row_bytes vl v) ! j = v ! j"
    using assms(1) j by (simp add: read_row_def row_bytes_def layout_ok_def)
qed (simp add: read_row_def)

text \<open>The entries of a table, seen as records of a key and a value file.\<close>

definition records_ok :: "'k layout \<Rightarrow> 'e layout \<Rightarrow> nat \<Rightarrow> ('k, 'e list) kv list \<Rightarrow> bool" where
  "records_ok kl vl d es \<longleftrightarrow> layout_ok kl (kv_key ` set es) \<and>
     layout_ok vl (\<Union>e\<in>set es. set (kv_mapped e)) \<and> (\<forall>e\<in>set es. length (kv_mapped e) = d)"

lemma records_okD:
  assumes "records_ok kl vl d es" "e \<in> set es"
  shows "length (to_bytes kl (kv_key e)) = size_of kl" "of_bytes kl (to_bytes kl (kv_key e)) = kv_key e"
    "length (row_bytes vl (kv_mapped e)) = size_of vl * d"
    "read_row vl d (row_bytes vl (kv_mapped e)) = kv_mapped e"
proof -
  show "length (to_bytes kl (kv_key e)) = size_of kl" "of_bytes kl (to_bytes kl (kv_key e)) = kv_key e"
    using assms by (auto simp: records_ok_def layout_ok_def)
  have l: "layout_ok vl (\<Union>e\<in>set es. set (kv_mapped e))" "length (kv_mapped e) = d"
    using assms by (auto simp: records_ok_def)
  have sub: "set (kv_mapped e) \<subseteq> (\<Union>e\<in>set es. set (kv_mapped e))" using assms(2) by blast
  show "length (row_bytes vl (kv_mapped e)) = size_of vl * d"
    using length_row_bytes [OF l(1) sub] l(2) by simp
  show "read_row vl d (row_bytes vl (kv_mapped e)) = kv_mapped e"
    using read_row_bytes [OF l(1) sub] l(2) by simp
qed

lemma length_bytes:
  assumes "records_ok kl vl d es" "set fs \<subseteq> set es"
  shows "length (key_bytes kl fs) = length fs * size_of kl"
    "length (value_bytes vl fs) = length fs * (size_of vl * d)"
proof -
  show "length (key_bytes kl fs) = length fs * size_of kl"
    unfolding key_bytes_def
    by (rule length_concat_const) (use records_okD(1) [OF assms(1)] assms(2) in blast)
  show "length (value_bytes vl fs) = length fs * (size_of vl * d)"
    unfolding value_bytes_def
    by (rule length_concat_const) (use records_okD(3) [OF assms(1)] assms(2) in blast)
qed

section \<open>Saving\<close>

lemma on_table_in_table:
  "f (table_ptr t) = (w, Inr a) \<Longrightarrow> on_table (in_table f) (fs, t) = ((fs, t\<lparr>table_ptr := w\<rparr>), Inr a)"
  by (simp add: on_table_def in_table_def)

lemma table_ready_core:
  assumes "table_ready kind add d t"
  shows "ready Normal_mode (w_map (table_ptr t))"
    "ct_size t = length (live (w_map (table_ptr t)))"
    "length (live (w_map (table_ptr t))) < 2 ^ 62"
proof -
  show r: "ready Normal_mode (w_map (table_ptr t))"
    using wrapper_okD(1) [OF table_readyD(1) [OF assms]] by (simp add: map_ready_def)
  show "ct_size t = length (live (w_map (table_ptr t)))"
    by (simp add: ct_size_def wrapper_size_def cuckoo_size_def table_coreD(8) [OF readyD(2) [OF r]])
  show "length (live (w_map (table_ptr t))) < 2 ^ 62" by (rule size_bound [OF r])
qed

abbreviation entries_of :: "('k, 'e) cuckoo_table \<Rightarrow> ('k, 'e list) kv list" where
  "entries_of t \<equiv> live (w_map (table_ptr t))"

lemma dump_step:
  assumes ok: "table_ready kind add d t" and len: "unat len < 2 ^ 63"
    and off: "off \<le> length (entries_of t)"
  shows "\<exists>t'. on_table (in_table (wrapper_dump (of_nat off) len)) (fs, t) = ((fs, t'),
      Inr (map kv_key (take (unat len) (drop off (entries_of t))),
           concat (map kv_mapped (take (unat len) (drop off (entries_of t)))))) \<and>
    table_ready kind add d t' \<and> entries_of t' = entries_of t \<and> rows_of t' = rows_of t"
proof -
  let ?w = "table_ptr t" let ?w' = "?w\<lparr>w_map := lock_table (w_map ?w)\<rparr>"
  note c = table_ready_core [OF ok]
  have u: "unat (of_nat off :: u64) = off"
    using off c(3) by (simp add: unat_of_nat take_bit_nat_eq_self)
  have nowrap: "unat (of_nat off :: u64) + unat len < 2 ^ 64"
    using off c(3) len by (simp add: u)
  note dump = wrapper_dump_spec [OF table_readyD(1) [OF ok] nowrap]
  have "rows_of (t\<lparr>table_ptr := ?w'\<rparr>) = rows_of t"
    using same_viewD(6) [OF lock_table_spec(3) [OF c(1)]] by (simp add: rows_of_def table_of_def)
  with on_table_in_table [where f = "wrapper_dump (of_nat off) len", OF dump(1)] dump(3) table_ready_change [OF ok dump(2)] show ?thesis
    by (intro exI [of _ "t\<lparr>table_ptr := ?w'\<rparr>"]) (simp add: dump_part_def u)
qed

lemma twice:
  "p \<noteq> q \<Longrightarrow> ((f :: 'p \<rightharpoonup> 'b)(p \<mapsto> a, q \<mapsto> b))(p \<mapsto> a', q \<mapsto> b') = f(p \<mapsto> a', q \<mapsto> b')"
  by (auto simp: fun_eq_iff)

text \<open>
  Each round appends the bytes of a further part of the enumeration, so the loop writes all
  of it and ends when the buffer has room for at least one entry.
\<close>

lemma save_loop_spec:
  assumes F: "reliable F content" and paths: "kp \<noteq> vp"
    and bs: "1 \<le> unat bs" "unat bs < 2 ^ 63" and recs: "records_ok kl vl d es"
  shows "table_ready kind add d t \<Longrightarrow> entries_of t = es \<Longrightarrow> off \<le> length es \<Longrightarrow>
    length es - off < n \<Longrightarrow> content fs kp = Some kold \<Longrightarrow> content fs vp = Some vold \<Longrightarrow>
    \<exists>fs' t'. save_loop F kl vl (size_of vl * d) bs (length es) kp vp n off kb vb (fs, t)
        = ((fs', t'), Inr ()) \<and>
      table_ready kind add d t' \<and> rows_of t' = rows_of t \<and>
      content fs' = (content fs)(kp \<mapsto> kold @ key_bytes kl (drop off es),
                                 vp \<mapsto> vold @ value_bytes vl (drop off es))"
proof (induction n arbitrary: off kb vb fs t kold vold)
  case 0
  then show ?case by simp
next
  case (Suc n)
  show ?case
  proof (cases "off < length es")
    case False
    then have done_eq: "content fs = (content fs)(kp \<mapsto> kold @ key_bytes kl (drop off es),
        vp \<mapsto> vold @ value_bytes vl (drop off es))"
      using Suc.prems(5,6) by (auto simp: fun_eq_iff)
    have "save_loop F kl vl (size_of vl * d) bs (length es) kp vp (Suc n) off kb vb (fs, t) = ((fs, t), Inr ())"
      using False by simp
    with done_eq Suc.prems(1) show ?thesis by blast
  next
    case True
    let ?part = "take (unat bs) (drop off es)"
    have sub: "set ?part \<subseteq> set es" by (meson set_drop_subset set_take_subset subset_trans)
    note len = length_bytes [OF recs sub]
    have off: "off \<le> length (entries_of t)" using Suc.prems(2,3) by simp
    obtain t1 where t1: "on_table (in_table (wrapper_dump (of_nat off) bs)) (fs, t) = ((fs, t1),
        Inr (map kv_key ?part, concat (map kv_mapped ?part)))"
      "table_ready kind add d t1" "entries_of t1 = es" "rows_of t1 = rows_of t"
      using dump_step [OF Suc.prems(1) bs(2) off, of fs] Suc.prems(2) by auto
    let ?kb = "overwrite kb (concat (map (to_bytes kl) (map kv_key ?part)))"
    let ?vb = "overwrite vb (concat (map (to_bytes vl) (concat (map kv_mapped ?part))))"
    have kbytes: "take (length ?part * size_of kl) ?kb = key_bytes kl ?part"
      using len(1) by (simp add: overwrite_def key_bytes_def comp_def)
    have vbytes: "take (length ?part * (size_of vl * d)) ?vb = value_bytes vl ?part"
      using len(2) by (simp add: overwrite_def value_bytes_def row_bytes_def concat_map_concat comp_def)
    obtain fs1 where fs1: "on_files (append_file F kp (key_bytes kl ?part)) (fs, t1) = ((fs1, t1), Inr ())"
      "content fs1 = (content fs)(kp \<mapsto> kold @ key_bytes kl ?part)"
      using reliable_on_files(5) [OF F Suc.prems(5), of "key_bytes kl ?part" t1] by (elim exE conjE)
    have "content fs1 vp = Some vold" using fs1(2) paths Suc.prems(6) by simp
    note vp = reliable_on_files(5) [OF F this, of "value_bytes vl ?part" t1]
    obtain fs2 where fs2: "on_files (append_file F vp (value_bytes vl ?part)) (fs1, t1) = ((fs2, t1), Inr ())"
      "content fs2 = (content fs1)(vp \<mapsto> vold @ value_bytes vl ?part)"
      using vp by (elim exE conjE)
    let ?off = "off + length ?part"
    have pos: "0 < length ?part" using True bs(1) by simp
    have "?off \<le> length es" "length es - ?off < n" using True pos Suc.prems(4) by simp_all
    moreover have "content fs2 kp = Some (kold @ key_bytes kl ?part)"
      "content fs2 vp = Some (vold @ value_bytes vl ?part)" using fs1(2) fs2(2) paths by simp_all
    ultimately obtain fs' t' where IH:
      "save_loop F kl vl (size_of vl * d) bs (length es) kp vp n ?off ?kb ?vb (fs2, t1) = ((fs', t'), Inr ())"
      "table_ready kind add d t'" "rows_of t' = rows_of t1"
      "content fs' = (content fs2)(kp \<mapsto> (kold @ key_bytes kl ?part) @ key_bytes kl (drop ?off es),
                                  vp \<mapsto> (vold @ value_bytes vl ?part) @ value_bytes vl (drop ?off es))"
      using Suc.IH [OF t1(2,3)] by blast
    have "drop (unat bs) (drop off es) = drop ?off es"
      using True by (cases "unat bs \<le> length es - off") (simp_all add: add.commute min_def)
    then have split: "drop off es = ?part @ drop ?off es" by (metis append_take_drop_id)
    have more: "key_bytes kl (drop off es) = key_bytes kl ?part @ key_bytes kl (drop ?off es)"
      "value_bytes vl (drop off es) = value_bytes vl ?part @ value_bytes vl (drop ?off es)"
      unfolding bytes_append [symmetric] split [symmetric] by (rule refl)+
    have "save_loop F kl vl (size_of vl * d) bs (length es) kp vp (Suc n) off kb vb (fs, t)
        = ((fs', t'), Inr ())"
      using True IH(1) by (simp add: t1(1) Let_def kbytes [simplified] vbytes [simplified] fs1(1) fs2(1))
    moreover have "content fs' = (content fs)(kp \<mapsto> kold @ key_bytes kl (drop off es),
        vp \<mapsto> vold @ value_bytes vl (drop off es))"
      unfolding IH(4) fs2(2) fs1(2) more twice [OF paths] append_assoc ..
    moreover have "rows_of t' = rows_of t" using IH(3) t1(4) by simp
    ultimately show ?thesis using IH(2) by blast
  qed
qed

declare save_loop.simps [simp del] load_loop.simps [simp del]

text \<open>
  The files of a finished save.  \<open>written\<close> is what was in the file before an append.  With
  temporary files that is the temporary file, whose place the result takes afterwards.
\<close>

definition save_files :: "'fs file_system \<Rightarrow> string \<Rightarrow> 'fs \<Rightarrow> string \<times> string" where
  "save_files F filepath fs =
     (if has_atomic_move F filepath fs = (True, None)
      then (filepath @ ''-keys'', filepath @ ''-values'')
      else (filepath @ ''-keys.tmp'', filepath @ ''-values.tmp''))"

definition written :: "('fs \<Rightarrow> string \<rightharpoonup> bytes) \<Rightarrow> bool \<Rightarrow> 'fs \<Rightarrow> string \<Rightarrow> bytes" where
  "written content append_to_file fs p =
     (if append_to_file then (case content fs p of None \<Rightarrow> [] | Some b \<Rightarrow> b) else [])"

lemma reliable_open:
  assumes "reliable F content"
  shows "\<exists>fs'. on_files ((if append_to_file then new_appendable F else new_writable F) p) (fs, t)
      = ((fs', t), Inr ()) \<and> content fs' = (content fs)(p \<mapsto> written content append_to_file fs p)"
  using reliable_on_files(3,4) [OF assms, of p fs t] by (cases append_to_file) (simp_all add: written_def)

text \<open>
  Written files are flushed and synchronised, and temporary ones take the place of the files
  they were written for.
\<close>

lemma flushed_files:
  assumes F: "reliable F content"
  shows "\<exists>fs'. and_then (on_files (flush_file F kp) (fs, t)) (\<lambda>_ s. and_then (on_files (flush_file F vp) s) (\<lambda>_ s.
      and_then (on_files (sync_file F kp) s) (\<lambda>_ s. and_then (on_files (sync_file F vp) s) f))) = f () (fs', t) \<and>
    content fs' = content fs"
proof -
  note R = reliable_on_files [OF F]
  obtain f1 where f1: "on_files (flush_file F kp) (fs, t) = ((f1, t), Inr ())" "content f1 = content fs"
    using R(6) [of kp fs t] by (elim exE conjE)
  obtain f2 where f2: "on_files (flush_file F vp) (f1, t) = ((f2, t), Inr ())" "content f2 = content f1"
    using R(6) [of vp f1 t] by (elim exE conjE)
  obtain f3 where f3: "on_files (sync_file F kp) (f2, t) = ((f3, t), Inr ())" "content f3 = content f2"
    using R(7) [of kp f2 t] by (elim exE conjE)
  obtain f4 where f4: "on_files (sync_file F vp) (f3, t) = ((f4, t), Inr ())" "content f4 = content f3"
    using R(7) [of vp f3 t] by (elim exE conjE)
  show ?thesis using f1 f2 f3 f4 by (intro exI [of _ f4]) simp
qed

lemma renamed_files:
  assumes F: "reliable F content" and c: "content fs kp = Some kb" "content fs vp = Some vb"
    and ne: "vp \<notin> {kp, k}" "k \<noteq> v"
  shows "\<exists>fs'. and_then (check_files (file_exists F kp) (fs, t)) (\<lambda>_ s. and_then (on_files (rename_file F kp k) s) (\<lambda>_ s.
      and_then (check_files (file_exists F vp) s) (\<lambda>_ s. on_files (rename_file F vp v) s))) = ((fs', t), Inr ()) \<and>
    content fs' k = Some kb \<and> content fs' v = Some vb"
proof -
  note R = reliable_on_files [OF F]
  obtain f1 where f1: "on_files (rename_file F kp k) (fs, t) = ((f1, t), Inr ())"
    "content f1 = (content fs)(kp := None, k \<mapsto> kb)" using R(9) [OF c(1), of k t] by (elim exE conjE)
  have c1: "content f1 vp = Some vb" using f1(2) c(2) ne by simp
  obtain f2 where f2: "on_files (rename_file F vp v) (f1, t) = ((f2, t), Inr ())"
    "content f2 = (content f1)(vp := None, v \<mapsto> vb)" using R(9) [OF c1, of v t] by (elim exE conjE)
  show ?thesis
    using f1 f2 R(8) [OF c(1), of t] R(8) [OF c1, of t] ne by (intro exI [of _ f2]) auto
qed

lemma save_to_file_system_impl_spec:
  assumes F: "reliable F content" and ok: "table_ready kind add d t"
    and bs: "1 \<le> unat bs" "unat bs < 2 ^ 63" and recs: "records_ok kl vl d (entries_of t)"
  shows "\<exists>fs' t'. save_to_file_system_impl F kl vl d filepath bs append_to_file (fs, t) = ((fs', t'), Inr ()) \<and>
    table_ready kind add d t' \<and> rows_of t' = rows_of t \<and>
    content fs' (filepath @ ''-keys'') = Some (written content append_to_file fs (fst (save_files F filepath fs))
        @ key_bytes kl (entries_of t)) \<and>
    content fs' (filepath @ ''-values'') = Some (written content append_to_file fs (snd (save_files F filepath fs))
        @ value_bytes vl (entries_of t))"
proof -
  obtain kp vp where p: "save_files F filepath fs = (kp, vp)" by force
  have ne: "kp \<noteq> vp" using p by (auto simp: save_files_def split: if_splits)
  note R = reliable_on_files [OF F]
  obtain atomic st where at: "has_atomic_move F filepath fs = (atomic, st)" by force
  let ?need = "\<not> atomic \<or> st \<noteq> None"
  have files: "(if ?need then filepath @ ''-keys.tmp'' else filepath @ ''-keys'') = kp"
    "(if ?need then filepath @ ''-values.tmp'' else filepath @ ''-values'') = vp"
    using p at by (auto simp: save_files_def split: if_splits)
  obtain f1 where f1: "on_files (create_dir F (dirname F filepath)) (fs, t) = ((f1, t), Inr ())"
    "content f1 = content fs" using R(2) [of "dirname F filepath" fs t] by (elim exE conjE)
  obtain f2 where f2: "on_files ((if append_to_file then new_appendable F else new_writable F) kp) (f1, t)
      = ((f2, t), Inr ())" "content f2 = (content f1)(kp \<mapsto> written content append_to_file f1 kp)"
    using reliable_open [OF F, of append_to_file kp f1 t] by (elim exE conjE)
  obtain f3 where f3: "on_files ((if append_to_file then new_appendable F else new_writable F) vp) (f2, t)
      = ((f3, t), Inr ())" "content f3 = (content f2)(vp \<mapsto> written content append_to_file f2 vp)"
    using reliable_open [OF F, of append_to_file vp f2 t] by (elim exE conjE)
  let ?k = "written content append_to_file fs kp" and ?v = "written content append_to_file fs vp"
  have c3: "content f3 kp = Some ?k" "content f3 vp = Some ?v"
    using f3(2) f2(2) f1(2) ne by (simp_all add: written_def)
  have z: "0 \<le> length (entries_of t)" "length (entries_of t) - 0 < Suc (length (entries_of t))" by simp_all
  note loop = save_loop_spec [OF F ne bs recs ok refl z c3, of "replicate (unat bs * size_of kl) 0"
      "replicate (unat bs * (size_of vl * d)) 0", unfolded drop_0]
  obtain f4 t' where f4: "save_loop F kl vl (size_of vl * d) bs (length (entries_of t)) kp vp
      (Suc (length (entries_of t))) 0 (replicate (unat bs * size_of kl) 0)
      (replicate (unat bs * (size_of vl * d)) 0) (f3, t) = ((f4, t'), Inr ())"
    "table_ready kind add d t'" "rows_of t' = rows_of t"
    and c4: "content f4 = (content f3)(kp \<mapsto> ?k @ key_bytes kl (entries_of t),
        vp \<mapsto> ?v @ value_bytes vl (entries_of t))"
    using loop by (elim exE conjE)
  note run = f1(1) f2(1) f3(1) f4(1) table_ready_core(2) [OF ok]
  let ?last = "\<lambda>_ s. if ?need
    then and_then (check_files (file_exists F kp) s) (\<lambda>_ s.
      and_then (on_files (rename_file F kp (filepath @ ''-keys'')) s) (\<lambda>_ s.
      and_then (check_files (file_exists F vp) s) (\<lambda>_ s. on_files (rename_file F vp (filepath @ ''-values'')) s)))
    else (s, Inr ())"
  obtain f5 where f5: "and_then (on_files (flush_file F kp) (f4, t')) (\<lambda>_ s. and_then (on_files (flush_file F vp) s)
      (\<lambda>_ s. and_then (on_files (sync_file F kp) s) (\<lambda>_ s. and_then (on_files (sync_file F vp) s) ?last))) = ?last () (f5, t')"
    "content f5 = content f4"
    using flushed_files [OF F, of kp f4 t' vp ?last] by (elim exE conjE) (rule that)
  have c5: "content f5 kp = Some (?k @ key_bytes kl (entries_of t))"
    "content f5 vp = Some (?v @ value_bytes vl (entries_of t))" using f5(2) c4 ne by simp_all
  have "\<exists>fs'. ?last () (f5, t') = ((fs', t'), Inr ()) \<and>
    content fs' (filepath @ ''-keys'') = Some (?k @ key_bytes kl (entries_of t)) \<and>
    content fs' (filepath @ ''-values'') = Some (?v @ value_bytes vl (entries_of t))"
  proof (cases ?need)
    case True
    then have "vp \<notin> {kp, filepath @ ''-keys''}" "filepath @ ''-keys'' \<noteq> filepath @ ''-values''"
      using files by auto
    from renamed_files [OF F c5 this, of t'] True show ?thesis by simp
  next
    case False
    then show ?thesis using c5 files by auto
  qed
  then obtain fs' where "?last () (f5, t') = ((fs', t'), Inr ())"
    "content fs' (filepath @ ''-keys'') = Some (?k @ key_bytes kl (entries_of t))"
    "content fs' (filepath @ ''-values'') = Some (?v @ value_bytes vl (entries_of t))" by blast
  moreover from this(1) f5(1)
  have "save_to_file_system_impl F kl vl d filepath bs append_to_file (fs, t) = ((fs', t'), Inr ())"
    unfolding save_to_file_system_impl_def at Let_def prod.case fst_conv files
    by (simp only: run and_then_simps snd_conv)
  ultimately show ?thesis using f4(2,3) p by auto
qed

section \<open>Loading\<close>

lemma insert_ptr_row:
  assumes "length v = d"
  shows "wrapper_insert_or_assign_ptr k v d = wrapper_assign_vec k v"
  using assms fold_snoc [of "\<lambda>j. v ! j" "[0..<d]" "[]"]
  by (auto simp: fun_eq_iff wrapper_insert_or_assign_ptr_def optimized_insert_or_assign_ptr_def
      default_insert_or_assign_ptr_def map_nth split: wrapper_kind.splits)

text \<open>Reading the files of a list of entries assigns them one by one.\<close>

lemma load_loop_spec:
  assumes F: "reliable F content" and recs: "records_ok kl vl d es"
    and files: "content fs kp = Some (key_bytes kl es)" "content fs vp = Some (value_bytes vl es)"
  shows "i \<le> length es \<Longrightarrow> length es - i < n \<Longrightarrow> runtime_dim t = d \<Longrightarrow>
    load_loop F kl vl d kp vp (length es * size_of kl) n (i * size_of kl) (i * (size_of vl * d)) (fs, t)
      = on_table (in_table (run_all (\<lambda>e. wrapper_assign_vec (kv_key e) (kv_mapped e)) (drop i es))) (fs, t)"
proof (induction n arbitrary: i t)
  case 0
  then show ?case by simp
next
  case (Suc n)
  have sk: "0 < size_of kl" using recs by (simp add: records_ok_def layout_ok_def)
  show ?case
  proof (cases "i < length es")
    case False
    then show ?thesis using Suc.prems(1) sk
      by (simp add: load_loop.simps on_table_def in_table_def)
  next
    case True
    let ?e = "es ! i"
    have e: "?e \<in> set es" using True by simp
    note rec = records_okD [OF recs e]
    note len = length_bytes [OF recs order_refl]
    have end_pos: "i * size_of kl + size_of kl \<le> length (key_bytes kl es)"
      "i * (size_of vl * d) + size_of vl * d \<le> length (value_bytes vl es)"
    proof -
      have "Suc i * m \<le> length es * m" for m using True by (intro mult_le_mono1) simp
      then show "i * size_of kl + size_of kl \<le> length (key_bytes kl es)"
        "i * (size_of vl * d) + size_of vl * d \<le> length (value_bytes vl es)"
        unfolding len by (simp_all add: add.commute)
    qed
    have bytes: "take (size_of kl) (drop (i * size_of kl) (key_bytes kl es)) = to_bytes kl (kv_key ?e)"
      "take (size_of vl * d) (drop (i * (size_of vl * d)) (value_bytes vl es)) = row_bytes vl (kv_mapped ?e)"
      unfolding key_bytes_def value_bytes_def
      by (rule take_drop_concat [OF _ True]; use records_okD(1,3) [OF recs] in simp)+
    note reads = reliable_on_files(12) [OF F files(1) end_pos(1), unfolded bytes, of t]
      reliable_on_files(12) [OF F files(2) end_pos(2), unfolded bytes, of t]
    have lv: "length (kv_mapped ?e) = d" using recs e by (simp add: records_ok_def)
    obtain w r where w: "wrapper_assign_vec (kv_key ?e) (kv_mapped ?e) (table_ptr t) = (w, r)" by force
    have drop: "drop i es = ?e # drop (Suc i) es" using True by (simp add: Cons_nth_drop_Suc)
    have lt: "i * size_of kl < length es * size_of kl" using True sk by simp
    have next_pos: "i * size_of kl + size_of kl = Suc i * size_of kl"
      "i * (size_of vl * d) + size_of vl * d = Suc i * (size_of vl * d)" by simp_all
    show ?thesis
    proof (cases r)
      case (Inl ex)
      then show ?thesis using lt w Suc.prems(3)
        by (simp add: load_loop.simps Let_def reads rec insert_ptr_row [OF lv] drop on_table_def
            in_table_def)
    next
      case (Inr b)
      have "Suc i \<le> length es" "length es - Suc i < n" using True Suc.prems(2) by simp_all
      from Suc.IH [OF this, of "t\<lparr>table_ptr := w\<rparr>"] Inr lt w Suc.prems(3) show ?thesis
        by (simp add: load_loop.simps Let_def reads rec insert_ptr_row [OF lv] drop on_table_def
            in_table_def next_pos)
    qed
  qed
qed

lemma load_from_file_system_impl_spec:
  assumes F: "reliable F content" and ok: "table_ready kind add d t" and d: "0 < d"
    and recs: "records_ok kl vl d es"
    and files: "content fs (filepath @ ''-keys'') = Some (key_bytes kl es)"
      "content fs (filepath @ ''-values'') = Some (value_bytes vl es)"
  shows "load_from_file_system_impl F kl vl d filepath (fs, t)
    = on_table (in_table (run_all (\<lambda>e. wrapper_assign_vec (kv_key e) (kv_mapped e)) es)) (fs, t)"
proof -
  note R = reliable_on_files [OF F]
  note len = length_bytes [OF recs order_refl]
  have pos: "0 < size_of kl" "0 < size_of vl" using recs by (simp_all add: records_ok_def layout_ok_def)
  note loop = load_loop_spec [where content = content and fs = fs and kp = "filepath @ ''-keys''"
      and vp = "filepath @ ''-values''", OF F recs files, of 0 "Suc (length es * size_of kl)" t]
  have "length es < Suc (length es * size_of kl)" using pos by (cases "size_of kl") simp_all
  with loop table_readyD(4) [OF ok]
  have "load_loop F kl vl d (filepath @ ''-keys'') (filepath @ ''-values'') (length es * size_of kl)
      (Suc (length es * size_of kl)) 0 0 (fs, t)
    = on_table (in_table (run_all (\<lambda>e. wrapper_assign_vec (kv_key e) (kv_mapped e)) es)) (fs, t)"
    by simp
  then show ?thesis
    using R(8) [OF files(1), of t] R(8) [OF files(2), of t] R(10) [OF files(1), of t]
      R(10) [OF files(2), of t] R(11) [OF files(1), of t] R(11) [OF files(2), of t] pos d
    by (simp add: load_from_file_system_impl_def Let_def len)
qed

lemma entries_map:
  assumes "table_ready kind add d t"
  shows "distinct (map kv_key (entries_of t))"
    "map_of (map (\<lambda>e. (kv_key e, kv_mapped e)) (entries_of t)) = rows_of t"
    "kv_key ` set (entries_of t) = dom (rows_of t)"
    "(\<Union>e\<in>set (entries_of t). set (kv_mapped e)) = elements (rows_of t)"
    "e \<in> set (entries_of t) \<Longrightarrow> length (kv_mapped e) = d"
proof -
  note core = readyD(2) [OF table_ready_core(1) [OF assms]]
  show dist: "distinct (map kv_key (entries_of t))" by (rule table_coreD(7) [OF core])
  have row: "rows_of t (kv_key e) = Some (kv_mapped e)" if "e \<in> set (entries_of t)" for e
    using abs_map_SomeI [OF core that] by (simp add: rows_of_def table_of_def)
  have dom: "kv_key ` set (entries_of t) = dom (rows_of t)"
  proof (rule set_eqI)
    fix k
    show "k \<in> kv_key ` set (entries_of t) \<longleftrightarrow> k \<in> dom (rows_of t)"
      by (simp only: domIff abs_map_None_iff not_not rows_of_def table_of_def)
  qed
  show "kv_key ` set (entries_of t) = dom (rows_of t)" by (rule dom)
  show "map_of (map (\<lambda>e. (kv_key e, kv_mapped e)) (entries_of t)) = rows_of t"
  proof
    fix k
    show "map_of (map (\<lambda>e. (kv_key e, kv_mapped e)) (entries_of t)) k = rows_of t k"
    proof (cases "k \<in> kv_key ` set (entries_of t)")
      case True
      then obtain e where e: "e \<in> set (entries_of t)" "k = kv_key e" by blast
      have "(kv_key e, kv_mapped e) \<in> set (map (\<lambda>e. (kv_key e, kv_mapped e)) (entries_of t))"
        using e(1) by simp
      moreover have "distinct (map fst (map (\<lambda>e. (kv_key e, kv_mapped e)) (entries_of t)))"
        using dist by (simp add: comp_def)
      ultimately show ?thesis using row [OF e(1)] e(2) by (simp only: map_of_eq_Some_iff)
    next
      case False
      then have "rows_of t k = None" using dom by blast
      moreover have "map_of (map (\<lambda>e. (kv_key e, kv_mapped e)) (entries_of t)) k = None"
        using False by (force simp: map_of_eq_None_iff)
      ultimately show ?thesis by simp
    qed
  qed
  show "length (kv_mapped e) = d" if "e \<in> set (entries_of t)"
    using wrapper_okD(4) [OF table_readyD(1) [OF assms]] row [OF that] by (simp add: rows_of_def)
  show "(\<Union>e\<in>set (entries_of t). set (kv_mapped e)) = elements (rows_of t)"
  proof -
    have "ran (rows_of t) = kv_mapped ` set (entries_of t)"
    proof (intro equalityI subsetI)
      fix v
      assume "v \<in> ran (rows_of t)"
      then obtain k where k: "rows_of t k = Some v" by (auto simp: ran_def)
      then have "k \<in> kv_key ` set (entries_of t)" using dom by blast
      with row k show "v \<in> kv_mapped ` set (entries_of t)" by force
    qed (use row in \<open>auto simp: ran_def\<close>)
    then show ?thesis by (simp add: elements_def)
  qed
qed

end
