(* ===== verification/Checkpoint_Properties.thy ===== *)
theory Checkpoint_Properties
  imports Tensor_Properties Cuckoo_Checkpoint_Spec
begin

text \<open>
  The properties of saving and loading.  The witnesses run on a file system kept in memory
  and on numbers that occupy one byte.
\<close>

section \<open>Sample file system and layout\<close>

definition memory_files :: "bool \<Rightarrow> (string \<rightharpoonup> bytes) file_system" where
  "memory_files atomic =
     \<lparr>join_path = (\<lambda>d f. d @ ''/'' @ f), dirname = (\<lambda>p. p),
      file_system_for_file = (\<lambda>_. None), has_atomic_move = (\<lambda>_ _. (atomic, None)),
      create_dir = (\<lambda>_ fs. (fs, None)),
      new_appendable = (\<lambda>p fs. (fs(p \<mapsto> (case fs p of None \<Rightarrow> [] | Some b \<Rightarrow> b)), None)),
      new_writable = (\<lambda>p fs. (fs(p \<mapsto> []), None)),
      append_file = (\<lambda>p b fs. (case fs p of None \<Rightarrow> (fs, Some ''not open'')
        | Some old \<Rightarrow> (fs(p \<mapsto> old @ b), None))),
      flush_file = (\<lambda>_ fs. (fs, None)), sync_file = (\<lambda>_ fs. (fs, None)),
      file_exists = (\<lambda>p fs. if fs p = None then Some ''not found'' else None),
      rename_file = (\<lambda>p q fs. (fs(p := None, q := fs p), None)),
      new_random_access = (\<lambda>p fs. if fs p = None then Some ''not found'' else None),
      get_file_size = (\<lambda>p fs. case fs p of None \<Rightarrow> Inl ''not found'' | Some b \<Rightarrow> Inr (length b)),
      read_n_bytes = (\<lambda>p pos n fs. case fs p of None \<Rightarrow> Inl ''not found''
        | Some b \<Rightarrow> if pos + n \<le> length b then Inr (take n (drop pos b)) else Inl ''out of range''),
      matching_paths = (\<lambda>_ _. Inr [])\<rparr>"

lemma memory_files_reliable: "reliable (memory_files atomic) (\<lambda>fs. fs)"
  by (auto simp: reliable_def memory_files_def)

definition byte_layout :: "nat layout" where
  "byte_layout = \<lparr>size_of = 1, to_bytes = (\<lambda>n. [of_nat n]), of_bytes = (\<lambda>bs. unat (bs ! 0))\<rparr>"

lemma byte_layout_ok: "A \<subseteq> {..<256} \<Longrightarrow> layout_ok byte_layout A"
  by (auto simp: layout_ok_def byte_layout_def unat_of_nat take_bit_nat_eq_self_iff subset_iff)

section \<open>Round trip\<close>








section \<open>Appending\<close>

text \<open>
  Saving in append mode keeps what the files held before exactly when the file system
  reports an atomic move.  Otherwise the rows go to temporary files first, and these then
  take the place of the files: the earlier rows are lost.
\<close>

theorem append_needs_atomic_move:
  assumes F: "reliable F content" and ok: "table_ready kind add d t"
    and layouts: "layout_ok kl (dom (rows_of t))" "layout_ok vl (elements (rows_of t))"
    and bs: "1 \<le> unat bs" "unat bs < 2 ^ 63"
    and files: "content fs (filepath @ ''-keys'') = Some old"
      "content fs (filepath @ ''-keys.tmp'') = None"
  shows "\<exists>fs' t' new. save_to_file_system_impl F kl vl d filepath bs True (fs, t) = ((fs', t'), Inr ()) \<and>
    length new = card (dom (rows_of t)) * size_of kl \<and>
    content fs' (filepath @ ''-keys'')
      = Some ((if has_atomic_move F filepath fs = (True, None) then old else []) @ new)"
proof -
  note E = entries_map [OF ok]
  have recs: "records_ok kl vl d (entries_of t)"
    using layouts E(5) by (simp add: records_ok_def E(3,4))
  have "card (dom (rows_of t)) = length (entries_of t)"
    unfolding E(3) [symmetric] using distinct_card [OF E(1)] by simp
  then have len: "length (key_bytes kl (entries_of t)) = card (dom (rows_of t)) * size_of kl"
    using length_bytes(1) [OF recs order_refl] by simp
  have "written content True fs (fst (save_files F filepath fs))
      = (if has_atomic_move F filepath fs = (True, None) then old else [])"
    using files by (simp add: written_def save_files_def)
  with save_to_file_system_impl_spec [OF F ok bs recs, of filepath True fs] len show ?thesis by auto
qed

theorem append_needs_atomic_move_witness:
  "\<exists>fs' t' new. save_to_file_system_impl (memory_files False) byte_layout byte_layout 2 ''t'' 3 True
      ([''t-keys'' \<mapsto> [9]], sample_table) = ((fs', t'), Inr ()) \<and>
    length new = 1 \<and> fs' ''t-keys'' = Some new"
proof -
  have lay: "layout_ok byte_layout (dom (rows_of sample_table))"
    "layout_ok byte_layout (elements (rows_of sample_table))"
    by (rule byte_layout_ok; simp add: sample_table_ready(2) elements_def)+
  have files: "[''t-keys'' \<mapsto> [9 :: u8]] (''t'' @ ''-keys'') = Some [9]"
    "[''t-keys'' \<mapsto> [9 :: u8]] (''t'' @ ''-keys.tmp'') = None" by simp_all
  have "1 \<le> unat (3 :: u64)" "unat (3 :: u64) < 2 ^ 63" by simp_all
  from append_needs_atomic_move [where content = "\<lambda>fs. fs" and filepath = "''t''",
      OF memory_files_reliable [of False] sample_table_ready(1) lay this files]
  obtain fs' t' new where save: "save_to_file_system_impl (memory_files False) byte_layout byte_layout 2
      ''t'' 3 True ([''t-keys'' \<mapsto> [9]], sample_table) = ((fs', t'), Inr ())"
    and new: "length new = card (dom (rows_of sample_table)) * size_of byte_layout"
      "fs' (''t'' @ ''-keys'') = Some ((if has_atomic_move (memory_files False) ''t'' [''t-keys'' \<mapsto> [9]] = (True, None)
        then [9] else []) @ new)"
    by (elim exE conjE)
  have "length new = 1" using new(1) by (simp add: sample_table_ready(2) byte_layout_def)
  moreover have "fs' ''t-keys'' = Some new" using new(2) by (simp add: memory_files_def)
  ultimately show ?thesis using save by blast
qed

section \<open>Refusals\<close>




section \<open>File names\<close>

lemma rfind_append:
  assumes "length pat \<noteq> 0" "\<And>i. 0 < i \<Longrightarrow> i < length (pat @ s) \<Longrightarrow> take (length pat) (drop i (pat @ s)) \<noteq> pat"
  shows "rfind pat (p @ pat @ s) = Some (length p)"
proof -
  let ?P = "\<lambda>i. take (length pat) (drop i (p @ pat @ s)) = pat" and ?n = "length (p @ pat @ s)"
  have split: "[0..<Suc ?n] = [0..<length p] @ length p # [Suc (length p)..<Suc ?n]"
    using upt_add_eq_append [of 0 "length p" "Suc (length (pat @ s))"] upt_conv_Cons [of "length p" "Suc ?n"]
    by simp
  have late: "\<not> ?P i" if i: "i \<in> set [Suc (length p)..<Suc ?n]" for i
  proof -
    have drop: "drop i (p @ pat @ s) = drop (i - length p) (pat @ s)"
      using i by (simp only: drop_append) auto
    show ?thesis
    proof (cases "i < ?n")
      case True
      with i have "0 < i - length p" "i - length p < length (pat @ s)" by auto
      from assms(2) [OF this] show ?thesis unfolding drop .
    next
      case False
      then show ?thesis using assms(1) by auto
    qed
  qed
  have "filter ?P [Suc (length p)..<Suc ?n] = []"
    using late by (simp only: filter_empty_conv) blast
  moreover have "?P (length p)" by simp
  ultimately show ?thesis
    unfolding rfind_def split filter_append filter.simps if_P by simp
qed

text \<open>
  The helpers of loading a directory.  \<open>delete_postfix\<close> recovers a path from the names of both
  of its files.  The pattern for a name whose last \<open>_mht_\<close> is followed by no underscore is
  the directory with the name up to and with that \<open>_mht_\<close>; for a name without any it is cut
  to its first four characters.
\<close>

theorem saved_names_recovered:
  assumes "CHR ''_'' \<notin> set suffix" "rfind ''_mht_'' plain = None"
  shows "delete_postfix (fp @ ''-keys'') = fp \<and> delete_postfix (fp @ ''-values'') = fp \<and>
    file_pattern F dirpath (name @ ''_mht_'' @ suffix) = join_path F dirpath (name @ ''_mht_'') @ ''*'' \<and>
    file_pattern F dirpath plain = join_path F dirpath (take 4 plain) @ ''*''"
proof -
  have dash: "rfind ''-'' (fp @ ''-'' @ rest) = Some (length fp)" if "CHR ''-'' \<notin> set rest" for rest
  proof (rule rfind_append)
    fix i
    assume "0 < i" "i < length (''-'' @ rest)"
    then obtain j where "i = Suc j" "j < length rest" by (cases i) auto
    moreover from this(2) that have "rest ! j \<noteq> CHR ''-''" by (metis nth_mem)
    ultimately show "take (length ''-'') (drop i (''-'' @ rest)) \<noteq> ''-''"
      by (simp add: take_Suc hd_drop_conv_nth)
  qed simp
  have mht: "rfind ''_mht_'' (name @ ''_mht_'' @ suffix) = Some (length name)"
  proof (rule rfind_append)
    fix i
    assume i: "0 < i" "i < length (''_mht_'' @ suffix)"
    show "take (length ''_mht_'') (drop i (''_mht_'' @ suffix)) \<noteq> ''_mht_''"
    proof
      assume eq: "take (length ''_mht_'') (drop i (''_mht_'' @ suffix)) = ''_mht_''"
      then have hd: "(''_mht_'' @ suffix) ! i = CHR ''_''"
        by (metis i(2) hd_drop_conv_nth hd_take length_greater_0_conv list.distinct(1) list.sel(1) take_eq_Nil)
      consider "i < 4" | "i = 4" | "5 \<le> i" by linarith
      then show False
      proof cases
        case 1
        then have "i \<in> {1, 2, 3}" using i(1) by auto
        with hd show False by auto
      next
        case 2
        with eq have "take 4 suffix = ''mht_''" by (simp add: eval_nat_numeral)
        then have "CHR ''_'' \<in> set (take 4 suffix)" by simp
        then show False using assms(1) set_take_subset [of 4 suffix] by blast
      next
        case 3
        then have "(''_mht_'' @ suffix) ! i = suffix ! (i - 5)" "i - 5 < length suffix"
          using i(2) by (auto simp: nth_append eval_nat_numeral)
        with hd assms(1) nth_mem [of "i - 5" suffix] show False by simp
      qed
    qed
  qed simp
  have "delete_postfix (fp @ ''-keys'') = fp" "delete_postfix (fp @ ''-values'') = fp"
    using dash [of "''keys''"] dash [of "''values''"] by (simp_all add: delete_postfix_def)
  moreover have "nat (int (length name) + 5) - length name = 5" by simp
  ultimately show ?thesis using mht assms(2) by (simp add: file_pattern_def Let_def)
qed

theorem saved_names_recovered_witness:
  "delete_postfix ''a-b-keys'' = ''a-b'' \<and>
   file_pattern (memory_files True) ''d'' ''table'' = ''d/tabl*''"
proof -
  have "CHR ''_'' \<notin> set ''12''" "rfind ''_mht_'' ''table'' = None"
    by (simp_all add: rfind_def upt_rec)
  from saved_names_recovered [OF this, of "''a-b''" "memory_files True" "''d''"] show ?thesis
    by (simp add: memory_files_def)
qed

end
