(* ===== verification/Dynamic_Partition.thy ===== *)
theory Dynamic_Partition
  imports Tensors
begin

text \<open>
  \<open>DynamicPartition\<close>: the rows of a tensor are dealt out to numbered outputs.
  \<open>dynamic_partition_op.cc\<close> counts and copies on the CPU.  \<open>dynamic_partition_op_gpu.cu.cc\<close>
  sorts the row numbers by their partition and gathers.  Sorting and reducing are calls of
  the CUB library, and so parameters here.  A CUDA kernel that writes one element per thread
  is a map or a fold over its index range.  \<open>alloc p\<close> is the status of allocating output
  \<open>p\<close>, and \<open>e0\<close> the content of memory that has not been written.
\<close>

section \<open>CPU\<close>

fun count_partitions :: "nat \<Rightarrow> int list \<Rightarrow> nat list \<Rightarrow> string + nat list" where
  "count_partitions np [] partition_count = Inr partition_count"
| "count_partitions np (p # ps) partition_count =
     (if \<not> fast_bounds_check p (int np) then Inl ''partitions is not in [0, num_partitions)''
      else count_partitions np ps
             (partition_count[nat p := Suc (partition_count ! nat p)]))"

definition allocate_outputs ::
  "(nat \<Rightarrow> status) \<Rightarrow> nat list \<Rightarrow> nat list \<Rightarrow> string + nat list list" where
  "allocate_outputs alloc partition_count inner =
     (case List.find (\<lambda>p. alloc p \<noteq> None) [0..<length partition_count] of
        Some p \<Rightarrow> Inl (the (alloc p))
      | None \<Rightarrow> Inr (map (\<lambda>n. n # inner) partition_count))"

definition validate_and_allocate_outputs ::
  "(nat \<Rightarrow> status) \<Rightarrow> nat \<Rightarrow> 'e tensor \<Rightarrow> int tensor \<Rightarrow> string + nat list list" where
  "validate_and_allocate_outputs alloc np data partitions =
     (if \<not> starts_with (shape_of data) (shape_of partitions)
      then Inl ''data.shape must start with partitions.shape''
      else case count_partitions np (flat partitions) (replicate np 0) of
             Inl msg \<Rightarrow> Inl msg
           | Inr partition_count \<Rightarrow>
               allocate_outputs alloc partition_count
                 (drop (length (shape_of partitions)) (shape_of data)))"

text \<open>
  The loop of both copying branches, on elements in one and on rows in the other.
  \<open>outs ! p\<close> is output \<open>p\<close> and \<open>output_index ! p\<close> the next free position of it.
\<close>

fun copy_loop ::
  "string \<Rightarrow> string \<Rightarrow> nat \<Rightarrow> 'r list \<Rightarrow> int list \<Rightarrow> nat \<Rightarrow> 'r list list \<Rightarrow> nat list
     \<Rightarrow> string + 'r list list" where
  "copy_loop msg1 msg2 np rows [] i outs output_index = Inr outs"
| "copy_loop msg1 msg2 np rows (p # ps) i outs output_index =
     (if \<not> fast_bounds_check p (int np) then Inl msg1
      else let oi = output_index ! nat p
        in if \<not> oi < length (outs ! nat p) then Inl msg2
           else copy_loop msg1 msg2 np rows ps (Suc i)
                  (outs[nat p := (outs ! nat p)[oi := rows ! i]])
                  (output_index[nat p := Suc oi]))"

definition copy_elements ::
  "'e \<Rightarrow> nat \<Rightarrow> 'e tensor \<Rightarrow> int tensor \<Rightarrow> nat list list \<Rightarrow> string + 'e tensor list" where
  "copy_elements e0 np data partitions shapes =
     (case copy_loop ''indices is out of range'' ''size is not LTE output_index'' np
             (flat data) (flat partitions) 0
             (map (\<lambda>s. replicate (prod_list s) e0) shapes) (replicate np 0) of
        Inl msg \<Rightarrow> Inl msg
      | Inr outs \<Rightarrow> Inr (map2 (\<lambda>s out. \<lparr>shape_of = s, flat = out\<rparr>) shapes outs))"

definition copy_slices ::
  "'e \<Rightarrow> nat \<Rightarrow> 'e tensor \<Rightarrow> int tensor \<Rightarrow> nat list list \<Rightarrow> string + 'e tensor list" where
  "copy_slices e0 np data partitions shapes =
     (let N = num_elements partitions;
          slice_size = num_elements data div N
      in case copy_loop ''indices has been asynchronously overwritten and is no longer in range!''
               ''Size of output_index is no longer in range.'' np
               (row_view slice_size N (flat data)) (flat partitions) 0
               (map (\<lambda>s. replicate (hd s) (replicate (prod_list (tl s)) e0)) shapes)
               (replicate np 0) of
           Inl msg \<Rightarrow> Inl msg
         | Inr outs \<Rightarrow> Inr (map2 (\<lambda>s out. \<lparr>shape_of = s, flat = concat out\<rparr>) shapes outs))"

definition dynamic_partition ::
  "(nat \<Rightarrow> status) \<Rightarrow> 'e \<Rightarrow> nat \<Rightarrow> 'e tensor \<Rightarrow> int tensor \<Rightarrow> string + 'e tensor list" where
  "dynamic_partition alloc e0 np data partitions =
     (case validate_and_allocate_outputs alloc np data partitions of
        Inl msg \<Rightarrow> Inl msg
      | Inr shapes \<Rightarrow>
          if np = 0 \<or> num_elements data = 0
          then Inr (map (\<lambda>s. \<lparr>shape_of = s, flat = replicate (prod_list s) e0\<rparr>) shapes)
          else if length (shape_of partitions) = length (shape_of data)
          then copy_elements e0 np data partitions shapes
          else copy_slices e0 np data partitions shapes)"

section \<open>GPU\<close>

definition range_init :: "int \<Rightarrow> int \<Rightarrow> nat \<Rightarrow> int list" where
  "range_init start delta n = map (\<lambda>i. start + int i * delta) [0..<n]"

definition move_values :: "int list \<Rightarrow> int list \<Rightarrow> nat \<Rightarrow> nat \<Rightarrow> int list \<Rightarrow> int list" where
  "move_values keys values num_runs out_size out =
     fold (\<lambda>i out. let key = keys ! i; value = values ! i
             in if fast_bounds_check key (int out_size) then out[nat key := value] else out)
       [0..<min num_runs out_size] out"

text \<open>Writing through a \<open>BoundedOutputIterator\<close>: what lies behind the limit is dropped.\<close>

definition bounded_write :: "nat \<Rightarrow> 'a list \<Rightarrow> 'a list \<Rightarrow> 'a list" where
  "bounded_write limit mem xs = (let ys = take limit xs in ys @ drop (length ys) mem)"

text \<open>
  What the kernel asks for before it allocates the outputs, in this order: the temporary
  tensors and the storage of the two library calls, the stream of the device, and the copy of
  the counts to the host.  For an empty list of partition numbers it asks for the counts only.
\<close>

record partition_resources =
  st_partition_count :: status
  st_indices_in :: status
  st_partitions_out :: status
  st_indices_out :: status
  st_sort_storage :: status
  st_aggregates_out :: status
  st_num_runs :: status
  st_reduce_storage :: status
  st_stream :: status
  st_cpu_tensor :: status
  st_memcpy :: status

definition allocate_temp_space :: "partition_resources \<Rightarrow> status" where
  "allocate_temp_space st = first_status [st_indices_in st, st_partitions_out st, st_indices_out st]"

text \<open>
  \<open>sort_pairs ks vs\<close> stands for \<open>DeviceRadixSort::SortPairs\<close>; \<open>reduce_by_key ks vs\<close> for
  \<open>DeviceReduce::ReduceByKey\<close> with the sum, whose result lists the keys of the runs and
  their sums.
\<close>

definition radix_sort ::
  "partition_resources \<Rightarrow> (int list \<Rightarrow> int list \<Rightarrow> int list \<times> int list) \<Rightarrow> int tensor
     \<Rightarrow> string + int list \<times> int list \<times> int list" where
  "radix_sort st sort_pairs partitions =
     (let indices_in = range_init 0 1 (num_elements partitions)
      in case st_sort_storage st of
           Some msg \<Rightarrow> Inl msg
         | None \<Rightarrow> Inr (indices_in, sort_pairs (flat partitions) indices_in))"

definition count_and_sort_parts ::
  "partition_resources \<Rightarrow> (int list \<Rightarrow> int list \<Rightarrow> int list \<times> int list)
     \<Rightarrow> (int list \<Rightarrow> int list \<Rightarrow> int list \<times> int list)
     \<Rightarrow> nat \<Rightarrow> int tensor \<Rightarrow> string + int list \<times> int list" where
  "count_and_sort_parts st sort_pairs reduce_by_key np partitions =
     (let N = num_elements partitions
      in case allocate_temp_space st of
           Some msg \<Rightarrow> Inl msg
         | None \<Rightarrow>
       (case radix_sort st sort_pairs partitions of
          Inl msg \<Rightarrow> Inl msg
        | Inr (indices_in, partitions_out, indices_out) \<Rightarrow>
            let partition_count = replicate np 0
            in case first_status [st_aggregates_out st, st_num_runs st, st_reduce_storage st] of
                 Some msg \<Rightarrow> Inl msg
               | None \<Rightarrow>
                   let (unique, aggregates) = reduce_by_key partitions_out (replicate N 1);
                       unique_out = bounded_write np (indices_in @ replicate (np - N) 0) unique;
                       aggregates_out = bounded_write np (replicate np 0) aggregates;
                       num_runs = length unique
                   in Inr (move_values unique_out aggregates_out num_runs np partition_count,
                           indices_out)))"

fun gather_slices :: "'e list list \<Rightarrow> int list \<Rightarrow> nat list list \<Rightarrow> 'e tensor list" where
  "gather_slices rows ind_base [] = []"
| "gather_slices rows ind_base (shape # shapes) =
     (let indices_size = hd shape;
          out_size = prod_list shape;
          out = (if out_size > 0
                 then concat (map (\<lambda>j. rows ! nat (ind_base ! j)) [0..<indices_size]) else [])
      in \<lparr>shape_of = shape, flat = out\<rparr> # gather_slices rows (drop indices_size ind_base) shapes)"

text \<open>
  The number of partition numbers is an \<open>int32\<close> in the kernel: for more of them, which is None
  here, it counts and sorts another number of rows.  A launch that fails aborts the process
  and is not modelled.
\<close>

definition dynamic_partition_gpu ::
  "partition_resources \<Rightarrow> (int list \<Rightarrow> int list \<Rightarrow> int list \<times> int list)
     \<Rightarrow> (int list \<Rightarrow> int list \<Rightarrow> int list \<times> int list)
     \<Rightarrow> (nat \<Rightarrow> status) \<Rightarrow> nat \<Rightarrow> 'e tensor \<Rightarrow> int tensor \<Rightarrow> (string + 'e tensor list) option" where
  "dynamic_partition_gpu st sort_pairs reduce_by_key alloc np data partitions =
     (let inner = drop (length (shape_of partitions)) (shape_of data)
      in if \<not> starts_with (shape_of data) (shape_of partitions)
         then Some (Inl ''data.shape must start with partitions.shape'')
         else case st_partition_count st of
                Some msg \<Rightarrow> Some (Inl msg)
              | None \<Rightarrow>
         if num_elements partitions = 0
         then Some (case allocate_outputs alloc (replicate np 0) inner of
                      Inl msg \<Rightarrow> Inl msg
                    | Inr shapes \<Rightarrow> Inr (map (\<lambda>s. \<lparr>shape_of = s, flat = []\<rparr>) shapes))
         else if \<not> fits_int32 (num_elements partitions) then None
         else Some (case count_and_sort_parts st sort_pairs reduce_by_key np partitions of
                Inl msg \<Rightarrow> Inl msg
              | Inr (partition_count, indices_out) \<Rightarrow>
                (case first_status [st_stream st, st_cpu_tensor st, st_memcpy st] of
                   Some msg \<Rightarrow> Inl msg
                 | None \<Rightarrow>
                  (case allocate_outputs alloc (map nat partition_count) inner of
                     Inl msg \<Rightarrow> Inl msg
                   | Inr shapes \<Rightarrow>
                       let N = num_elements partitions;
                           slice_size = num_elements data div N
                       in Inr (gather_slices (row_view slice_size N (flat data)) indices_out shapes)))))"

end
