(* ===== verification/Dynamic_Partition_Spec.thy ===== *)
theory Dynamic_Partition_Spec
  imports Dynamic_Partition
begin

text \<open>
  Both implementations of \<open>DynamicPartition\<close> deal out the rows in their order:
  \<open>dealt q ps rs\<close> are the rows of \<open>rs\<close> whose partition number is \<open>q\<close>.
\<close>

definition dealt :: "int \<Rightarrow> int list \<Rightarrow> 'r list \<Rightarrow> 'r list" where
  "dealt q ps rs = map snd (filter (\<lambda>(p, r). p = q) (zip ps rs))"

lemma dealt_filter:
  fixes rs :: "'r list"
  shows "dealt q ps rs = map snd (filter (\<lambda>x. fst x = q) (zip ps rs))"
proof -
  have "(\<lambda>(p, r :: 'r). p = q) = (\<lambda>x. fst x = q)" by auto
  then show ?thesis by (simp only: dealt_def)
qed

lemma dealt_simps [simp]:
  "dealt q [] rs = []"
  "dealt q (p # ps) (r # rs) = (if p = q then r # dealt q ps rs else dealt q ps rs)"
  by (simp_all add: dealt_def)

lemma length_dealt: "length ps \<le> length rs \<Longrightarrow> length (dealt q ps rs) = count_list ps q"
proof (induction ps arbitrary: rs)
  case Nil
  then show ?case by simp
next
  case (Cons p ps)
  then show ?case by (cases rs) auto
qed

lemma dealt_map: "dealt q ps (map f rs) = map f (dealt q ps rs)"
  by (induction ps rs rule: list_induct2') (simp_all add: dealt_def)

lemma set_dealt: "set (dealt q ps rs) \<subseteq> set rs"
  by (auto simp: dealt_def dest: set_zip_rightD)

definition in_range :: "nat \<Rightarrow> int list \<Rightarrow> bool" where
  "in_range np ps \<longleftrightarrow> (\<forall>p\<in>set ps. 0 \<le> p \<and> p < int np)"

section \<open>Counting\<close>

lemma count_partitions_spec:
  "length c = np \<Longrightarrow> count_partitions np ps c =
     (if in_range np ps then Inr (map (\<lambda>q. c ! q + count_list ps (int q)) [0..<np])
      else Inl ''partitions is not in [0, num_partitions)'')"
proof (induction ps arbitrary: c)
  case Nil
  then show ?case by (auto simp: in_range_def intro!: nth_equalityI)
next
  case (Cons p ps)
  show ?case
  proof (cases "fast_bounds_check p (int np)")
    case False
    then show ?thesis by (auto simp: fast_bounds_check_def in_range_def)
  next
    case True
    then have p: "0 \<le> p" "nat p < np" by (auto simp: fast_bounds_check_def)
    have len: "length (c[nat p := Suc (c ! nat p)]) = np" using Cons.prems by simp
    have "in_range np (p # ps) = in_range np ps"
      using True by (auto simp: in_range_def fast_bounds_check_def)
    moreover have "map (\<lambda>q. c[nat p := Suc (c ! nat p)] ! q + count_list ps (int q)) [0..<np]
        = map (\<lambda>q. c ! q + count_list (p # ps) (int q)) [0..<np]"
      using p Cons.prems by (auto simp: nth_list_update)
    ultimately show ?thesis using True Cons.IH [OF len] by simp
  qed
qed

lemma sum_counts: "in_range np ps \<Longrightarrow> (\<Sum>q<np. count_list ps (int q)) = length ps"
proof (induction ps)
  case Nil
  then show ?case by simp
next
  case (Cons p ps)
  then have p: "0 \<le> p" "nat p < np" and ps: "in_range np ps" by (auto simp: in_range_def)
  have "(\<Sum>q<np. count_list (p # ps) (int q)) = (\<Sum>q<np. count_list ps (int q) + (if q = nat p then 1 else 0))"
    using p(1) by (intro sum.cong) auto
  also have "\<dots> = (\<Sum>q<np. count_list ps (int q)) + 1"
    using p(2) by (simp add: sum.distrib)
  finally show ?case using Cons.IH [OF ps] by simp
qed

section \<open>Copying\<close>

lemma copy_loop_spec:
  "in_range np ps \<Longrightarrow> length outs = np \<Longrightarrow> length idx = np \<Longrightarrow> i + length ps \<le> length rows \<Longrightarrow>
   (\<And>q. q < np \<Longrightarrow> idx ! q + count_list ps (int q) = length (outs ! q)) \<Longrightarrow>
   copy_loop m1 m2 np rows ps i outs idx
     = Inr (map (\<lambda>q. take (idx ! q) (outs ! q) @ dealt (int q) ps (drop i rows)) [0..<np])"
proof (induction ps arbitrary: i outs idx)
  case Nil
  then show ?case by (auto intro!: nth_equalityI)
next
  case (Cons p ps)
  then have p: "0 \<le> p" "nat p < np" and ps: "in_range np ps" by (auto simp: in_range_def)
  let ?q = "nat p"
  have pi: "int ?q = p" using p(1) by simp
  have room: "idx ! ?q < length (outs ! ?q)"
    using Cons.prems(5) [OF p(2)] pi by simp
  let ?outs = "outs[?q := (outs ! ?q)[idx ! ?q := rows ! i]]"
  let ?idx = "idx[?q := Suc (idx ! ?q)]"
  have i: "i < length rows" using Cons.prems(4) by simp
  have drop: "drop i rows = rows ! i # drop (Suc i) rows" using i by (simp add: Cons_nth_drop_Suc)
  have step: "copy_loop m1 m2 np rows (p # ps) i outs idx = copy_loop m1 m2 np rows ps (Suc i) ?outs ?idx"
  proof -
    have "fast_bounds_check p (int np)" using p by (simp add: fast_bounds_check_def)
    with room show ?thesis by (simp add: Let_def)
  qed
  have counts: "?idx ! q + count_list ps (int q) = length (?outs ! q)" if "q < np" for q
    using Cons.prems(5) [OF that] that Cons.prems(2,3) p pi by (cases "q = ?q") auto
  have "copy_loop m1 m2 np rows (p # ps) i outs idx
      = Inr (map (\<lambda>q. take (?idx ! q) (?outs ! q) @ dealt (int q) ps (drop (Suc i) rows)) [0..<np])"
    unfolding step by (rule Cons.IH [OF ps]) (use Cons.prems(2-4) counts in simp_all)
  also have "map (\<lambda>q. take (?idx ! q) (?outs ! q) @ dealt (int q) ps (drop (Suc i) rows)) [0..<np]
      = map (\<lambda>q. take (idx ! q) (outs ! q) @ dealt (int q) (p # ps) (drop i rows)) [0..<np]"
  proof (rule map_cong [OF refl])
    fix q
    assume "q \<in> set [0..<np]"
    then have q: "q < np" by simp
    show "take (?idx ! q) (?outs ! q) @ dealt (int q) ps (drop (Suc i) rows)
        = take (idx ! q) (outs ! q) @ dealt (int q) (p # ps) (drop i rows)"
    proof (cases "q = ?q")
      case True
      then have "take (?idx ! q) (?outs ! q) = take (idx ! q) (outs ! q) @ [rows ! i]"
        using room Cons.prems(2,3) p(2) by (simp add: take_Suc_conv_app_nth)
      then show ?thesis using True pi drop by simp
    next
      case False
      then have "p \<noteq> int q" using pi by auto
      then show ?thesis using False drop by simp
    qed
  qed
  finally show ?case .
qed

section \<open>Sorting\<close>

text \<open>What the CUB library documents of its two algorithms, on the values used here.\<close>

definition sorts_pairs :: "(int list \<Rightarrow> int list \<Rightarrow> int list \<times> int list) \<Rightarrow> bool" where
  "sorts_pairs sort_pairs \<longleftrightarrow> (\<forall>ks vs. length ks = length vs \<longrightarrow>
     sort_pairs ks vs = (map fst (sort_key fst (zip ks vs)), map snd (sort_key fst (zip ks vs))))"

fun run_lengths :: "int list \<Rightarrow> (int \<times> nat) list" where
  "run_lengths [] = []"
| "run_lengths (x # xs) =
     (case run_lengths xs of
        [] \<Rightarrow> [(x, 1)]
      | (y, n) # rs \<Rightarrow> if x = y then (x, Suc n) # rs else (x, 1) # (y, n) # rs)"

definition reduces_by_key :: "(int list \<Rightarrow> int list \<Rightarrow> int list \<times> int list) \<Rightarrow> bool" where
  "reduces_by_key reduce_by_key \<longleftrightarrow> (\<forall>ks. reduce_by_key ks (replicate (length ks) 1)
     = (map fst (run_lengths ks), map (int \<circ> snd) (run_lengths ks)))"

lemma run_lengths_hd: "xs \<noteq> [] \<Longrightarrow> \<exists>n rs. run_lengths xs = (hd xs, n) # rs"
  by (cases xs) (auto split: list.splits)

lemma run_lengths_sorted:
  "sorted xs \<Longrightarrow> distinct (map fst (run_lengths xs)) \<and> fst ` set (run_lengths xs) = set xs \<and>
     (\<forall>(k, n)\<in>set (run_lengths xs). n = count_list xs k)"
proof (induction xs)
  case Nil
  then show ?case by simp
next
  case (Cons x xs)
  then have IH: "distinct (map fst (run_lengths xs))" "fst ` set (run_lengths xs) = set xs"
    "\<forall>(k, n)\<in>set (run_lengths xs). n = count_list xs k" and le: "\<forall>y\<in>set xs. x \<le> y" by auto
  show ?case
  proof (cases "run_lengths xs")
    case Nil
    then have "xs = []" using IH(2) by simp
    then show ?thesis by simp
  next
    case (Cons r rs)
    obtain y n where r: "r = (y, n)" by force
    have set: "insert y (fst ` set rs) = set xs" using IH(2) Cons r by simp
    show ?thesis
    proof (cases "x = y")
      case True
      have "k \<noteq> x" if "(k, m) \<in> set rs" for k m
        using IH(1) that Cons r True by force
      moreover have "n = count_list xs y" "\<forall>(k, m)\<in>set rs. m = count_list xs k"
        using IH(3) Cons r by auto
      moreover have "run_lengths (x # xs) = (x, Suc n) # rs" using Cons r True by simp
      moreover have "distinct (map fst ((x, Suc n) # rs))" using IH(1) Cons r True by simp
      moreover have "fst ` set ((x, Suc n) # rs) = set (x # xs)" using set True by auto
      ultimately show ?thesis using True by fastforce
    next
      case False
      obtain m rs' where "run_lengths xs = (hd xs, m) # rs'" "xs \<noteq> []"
        using run_lengths_hd [of xs] Cons by (cases xs) auto
      then have "y = hd xs" using Cons r by simp
      with False le \<open>xs \<noteq> []\<close> Cons.prems have "x \<notin> set xs"
        by (cases xs) auto
      moreover have "run_lengths (x # xs) = (x, 1) # run_lengths xs" using Cons r False by simp
      moreover have "\<forall>(k, m)\<in>set (run_lengths xs). k \<in> set xs" using IH(2) by force
      ultimately show ?thesis using IH by fastforce
    qed
  qed
qed

lemma sorted_groups:
  fixes f :: "'a \<Rightarrow> int"
  assumes "sorted (map f xs)" "\<forall>x\<in>set xs. 0 \<le> f x"
  shows "filter (\<lambda>x. f x < int n) xs = concat (map (\<lambda>q. filter (\<lambda>x. f x = int q) xs) [0..<n])"
proof (induction n)
  case 0
  show ?case using assms(2) by (auto simp: filter_empty_conv)
next
  case (Suc n)
  have "filter (\<lambda>x. f x < int (Suc n)) xs = filter (\<lambda>x. f x < int n) xs @ filter (\<lambda>x. f x = int n) xs"
    using assms(1)
  proof (induction xs)
    case Nil
    then show ?case by simp
  next
    case (Cons x xs)
    then have le: "\<forall>y\<in>set xs. f x \<le> f y" by simp
    have "filter (\<lambda>x. f x < int n) xs = []" if "f x = int n"
      using le that by (auto simp: filter_empty_conv)
    then show ?case using Cons by auto
  qed
  with Suc.IH show ?case by simp
qed

section \<open>The CPU kernel\<close>

definition inner_shape :: "'e tensor \<Rightarrow> int tensor \<Rightarrow> nat list" where
  "inner_shape data partitions = drop (length (shape_of partitions)) (shape_of data)"

definition data_rows :: "'e tensor \<Rightarrow> int tensor \<Rightarrow> 'e list list" where
  "data_rows data partitions =
     row_view (num_elements data div num_elements partitions) (num_elements partitions) (flat data)"

text \<open>What both kernels compute: the partition counts decide the shapes, the rows are dealt out.\<close>

definition partitioned ::
  "(nat \<Rightarrow> status) \<Rightarrow> nat \<Rightarrow> 'e tensor \<Rightarrow> int tensor \<Rightarrow> string + 'e tensor list" where
  "partitioned alloc np data partitions =
     (case allocate_outputs alloc (map (\<lambda>q. count_list (flat partitions) (int q)) [0..<np])
             (inner_shape data partitions) of
        Inl msg \<Rightarrow> Inl msg
      | Inr shapes \<Rightarrow>
          Inr (map (\<lambda>q. \<lparr>shape_of = count_list (flat partitions) (int q) # inner_shape data partitions,
                  flat = concat (dealt (int q) (flat partitions) (data_rows data partitions))\<rparr>) [0..<np]))"

lemma allocate_outputs_Inr:
  "allocate_outputs alloc counts inner = Inr shapes \<Longrightarrow> shapes = map (\<lambda>n. n # inner) counts"
  by (auto simp: allocate_outputs_def split: option.splits)

lemma well_shaped_split:
  assumes "well_shaped data" "well_shaped partitions"
    "starts_with (shape_of data) (shape_of partitions)"
  shows "num_elements data = num_elements partitions * prod_list (inner_shape data partitions)"
proof -
  have "shape_of data = shape_of partitions @ inner_shape data partitions"
    using assms(3) by (metis append_take_drop_id inner_shape_def starts_with_def)
  then have "prod_list (shape_of data)
      = prod_list (shape_of partitions) * prod_list (inner_shape data partitions)"
    by (metis prod_list.append)
  then show ?thesis using assms(1,2) by (simp add: well_shaped_def num_elements_def)
qed

lemma data_rows_width:
  assumes "well_shaped data" "well_shaped partitions"
    "starts_with (shape_of data) (shape_of partitions)" "r \<in> set (data_rows data partitions)"
  shows "length r = prod_list (inner_shape data partitions)"
proof -
  let ?N = "num_elements partitions"
  have split: "num_elements data = ?N * prod_list (inner_shape data partitions)"
    by (rule well_shaped_split [OF assms(1-3)])
  have "?N \<noteq> 0" using assms(4) by (auto simp: data_rows_def row_view_def)
  then have "num_elements data div ?N = prod_list (inner_shape data partitions)"
    using split by simp
  then show ?thesis
    using assms(4) split length_row_view_rows [of "flat data" ?N "prod_list (inner_shape data partitions)" r]
    unfolding data_rows_def num_elements_def by metis
qed

lemma concat_empty_rows: "\<forall>r\<in>set rs. length r = 0 \<Longrightarrow> concat rs = []"
  by simp

lemma row_view_one: "length xs = n \<Longrightarrow> row_view 1 n xs = map (\<lambda>x. [x]) xs"
proof (rule nth_equalityI)
  fix i
  assume "length xs = n" "i < length (row_view 1 n xs)"
  then have i: "i < n" "length xs = n" by simp_all
  then have "drop i xs = xs ! i # drop (Suc i) xs" by (simp add: Cons_nth_drop_Suc)
  with i show "row_view 1 n xs ! i = map (\<lambda>x. [x]) xs ! i" by (simp add: nth_row_view)
qed simp

lemma dealt_empty: "\<forall>r\<in>set rs. length r = 0 \<Longrightarrow> concat (dealt q ps rs) = []"
  using set_dealt [of q ps rs] by (intro concat_empty_rows ballI) (metis subsetD)

lemma copy_loop_fresh:
  assumes "in_range np ps" "length ps \<le> length rows"
  shows "copy_loop m1 m2 np rows ps 0
      (map (\<lambda>q. replicate (count_list ps (int q)) z) [0..<np]) (replicate np 0)
    = Inr (map (\<lambda>q. dealt (int q) ps rows) [0..<np])"
  by (subst copy_loop_spec [OF assms(1)]) (use assms(2) in simp_all)

lemma copy_elements_spec:
  assumes "in_range np (flat partitions)" "num_elements data = num_elements partitions"
  shows "copy_elements e0 np data partitions (map (\<lambda>q. [count_list (flat partitions) (int q)]) [0..<np])
    = Inr (map (\<lambda>q. \<lparr>shape_of = [count_list (flat partitions) (int q)],
          flat = dealt (int q) (flat partitions) (flat data)\<rparr>) [0..<np])"
  using copy_loop_fresh [OF assms(1), of "flat data" _ _ e0] assms(2)
  by (simp add: copy_elements_def num_elements_def comp_def zip_map_map zip_same_conv_map)

lemma copy_slices_spec:
  assumes "in_range np (flat partitions)"
  shows "copy_slices e0 np data partitions
      (map (\<lambda>q. count_list (flat partitions) (int q) # inner) [0..<np])
    = Inr (map (\<lambda>q. \<lparr>shape_of = count_list (flat partitions) (int q) # inner,
          flat = concat (dealt (int q) (flat partitions) (data_rows data partitions))\<rparr>) [0..<np])"
  using copy_loop_fresh [OF assms, of "data_rows data partitions" _ _ "replicate (prod_list inner) e0"]
  by (simp add: copy_slices_def data_rows_def num_elements_def comp_def zip_map_map zip_same_conv_map Let_def)

lemma dealt_no_elements:
  assumes "well_shaped data" "well_shaped partitions"
    "starts_with (shape_of data) (shape_of partitions)" "num_elements data = 0"
  shows "concat (dealt q (flat partitions) (data_rows data partitions)) = []"
proof (rule dealt_empty, rule ballI)
  fix r
  assume r: "r \<in> set (data_rows data partitions)"
  then have "num_elements partitions \<noteq> 0" by (auto simp: data_rows_def row_view_def)
  then show "length r = 0"
    using data_rows_width [OF assms(1-3) r] well_shaped_split [OF assms(1-3)] assms(4) by simp
qed

lemma dynamic_partition_spec:
  assumes ws: "well_shaped data" "well_shaped partitions"
    and pre: "starts_with (shape_of data) (shape_of partitions)"
    and rng: "in_range np (flat partitions)"
  shows "dynamic_partition alloc e0 np data partitions = partitioned alloc np data partitions"
proof -
  let ?counts = "map (\<lambda>q. count_list (flat partitions) (int q)) [0..<np]"
  let ?inner = "inner_shape data partitions"
  have counts: "count_partitions np (flat partitions) (replicate np 0) = Inr ?counts"
    using count_partitions_spec [of "replicate np 0" np "flat partitions"] rng by simp
  have validate: "validate_and_allocate_outputs alloc np data partitions = allocate_outputs alloc ?counts ?inner"
    by (simp add: validate_and_allocate_outputs_def pre counts inner_shape_def)
  show ?thesis
  proof (cases "allocate_outputs alloc ?counts ?inner")
    case (Inl msg)
    then show ?thesis by (simp add: dynamic_partition_def partitioned_def validate)
  next
    case (Inr shapes)
    have shapes: "shapes = map (\<lambda>q. count_list (flat partitions) (int q) # ?inner) [0..<np]"
      using allocate_outputs_Inr [OF Inr] by (simp add: comp_def)
    let ?N = "num_elements partitions"
    have split: "num_elements data = ?N * prod_list ?inner" by (rule well_shaped_split [OF ws pre])
    consider "np = 0" | "num_elements data = 0" "np \<noteq> 0"
      | "num_elements data \<noteq> 0" "np \<noteq> 0" "length (shape_of partitions) = length (shape_of data)"
      | "num_elements data \<noteq> 0" "np \<noteq> 0" "length (shape_of partitions) \<noteq> length (shape_of data)"
      by blast
    then show ?thesis
    proof cases
      case 1
      then show ?thesis using Inr shapes validate by (simp add: dynamic_partition_def partitioned_def)
    next
      case 2
      have "count_list (flat partitions) (int q) * prod_list ?inner = 0" for q
      proof (cases "prod_list ?inner = 0")
        case False
        then have "flat partitions = []" using 2 split by (simp add: num_elements_def)
        then show ?thesis by simp
      qed simp
      then have "replicate (count_list (flat partitions) (int q) * prod_list ?inner) e0
          = concat (dealt (int q) (flat partitions) (data_rows data partitions))" for q
        unfolding dealt_no_elements [OF ws pre 2(1)] by simp
      then show ?thesis using 2 Inr shapes
        by (simp add: dynamic_partition_def partitioned_def validate comp_def del: mult_eq_0_iff)
    next
      case 3
      have inner: "?inner = []" using 3(3) by (simp add: inner_shape_def)
      have one: "num_elements data = ?N" using split inner by simp
      have "data_rows data partitions = map (\<lambda>x. [x]) (flat data)"
        using one 3(1) row_view_one [of "flat data"] by (simp add: data_rows_def num_elements_def)
      then have "concat (dealt q (flat partitions) (data_rows data partitions))
          = dealt q (flat partitions) (flat data)" for q
        by (simp add: dealt_map)
      then show ?thesis using 3 Inr shapes inner copy_elements_spec [OF rng one, of e0]
        by (simp add: dynamic_partition_def partitioned_def validate)
    next
      case 4
      then show ?thesis using Inr shapes copy_slices_spec [OF rng, of e0 data ?inner]
        by (simp add: dynamic_partition_def partitioned_def validate)
    qed
  qed
qed

lemma dynamic_partition_out_of_range:
  "starts_with (shape_of data) (shape_of partitions) \<Longrightarrow> \<not> in_range np (flat partitions) \<Longrightarrow>
   dynamic_partition alloc e0 np data partitions = Inl ''partitions is not in [0, num_partitions)''"
  by (simp add: dynamic_partition_def validate_and_allocate_outputs_def count_partitions_spec)

section \<open>The GPU kernel\<close>

lemma move_values_spec:
  assumes "length keys = length vals" "distinct keys" "in_range np keys" "length out = np"
    "length keys \<le> np" "q < np"
  shows "move_values keys vals (length keys) np out ! q
    = (case map_of (zip keys vals) (int q) of None \<Rightarrow> out ! q | Some v \<Rightarrow> v)"
proof -
  let ?step = "\<lambda>out (k, v). if fast_bounds_check k (int np) then out[nat k := v] else out"
  have eq: "move_values keys vals (length keys) np out = foldl ?step out (zip keys vals)"
  proof -
    have "zip keys vals = map (\<lambda>i. (keys ! i, vals ! i)) [0..<length keys]"
      using assms(1) by (auto intro!: nth_equalityI)
    then show ?thesis using assms(5)
      by (simp add: move_values_def foldl_conv_fold fold_map comp_def Let_def min_def)
  qed
  have "foldl ?step out (zip keys vals) ! q
      = (case map_of (zip keys vals) (int q) of None \<Rightarrow> out ! q | Some v \<Rightarrow> v)"
    using assms(1-4)
  proof (induction keys vals arbitrary: out rule: list_induct2)
    case Nil
    then show ?case by simp
  next
    case (Cons k keys v vals)
    have k: "0 \<le> k" "nat k < np" using Cons.prems by (auto simp: in_range_def)
    have "fast_bounds_check k (int np)" using k by (simp add: fast_bounds_check_def)
    moreover have "foldl ?step (out[nat k := v]) (zip keys vals) ! q
        = (case map_of (zip keys vals) (int q) of None \<Rightarrow> out[nat k := v] ! q | Some v \<Rightarrow> v)"
      by (rule Cons.IH) (use Cons.prems in \<open>auto simp: in_range_def\<close>)
    moreover have "map_of (zip keys vals) (int q) = None" if "k = int q"
      using Cons.prems(1) that Cons.hyps by (auto simp: map_of_zip_is_None)
    ultimately show ?case
      using k Cons.prems(3) assms(6) by (auto split: option.splits simp: nth_list_update)
  qed
  then show ?thesis using eq by simp
qed

lemma gather_slices_spec:
  assumes "\<forall>r\<in>set rows. length r = prod_list inner" "\<forall>g\<in>set gs. \<forall>j\<in>set g. nat j < length rows"
  shows "gather_slices rows (concat gs @ rest) (map (\<lambda>g. length g # inner) gs)
    = map (\<lambda>g. \<lparr>shape_of = length g # inner, flat = concat (map (\<lambda>j. rows ! nat j) g)\<rparr>) gs"
  using assms(2)
proof (induction gs)
  case Nil
  then show ?case by simp
next
  case (Cons g gs)
  have nth: "map (\<lambda>j. rows ! nat ((g @ concat gs @ rest) ! j)) [0..<length g] = map (\<lambda>j. rows ! nat j) g"
    by (auto intro!: nth_equalityI simp: nth_append)
  have "concat (map (\<lambda>j. rows ! nat j) g) = []" if "length g * prod_list inner = 0"
  proof (cases "g = []")
    case False
    then have "\<forall>r\<in>set (map (\<lambda>j. rows ! nat j) g). length r = 0"
      using that assms(1) Cons.prems by auto
    then show ?thesis by (rule concat_empty_rows)
  qed simp
  then show ?case using Cons nth by (auto simp: Let_def)
qed

lemma count_list_mset: "count_list xs k = count (mset xs) k"
  by (induction xs) auto

lemma in_range_distinct_length: "in_range np keys \<Longrightarrow> distinct keys \<Longrightarrow> length keys \<le> np"
proof -
  assume rng: "in_range np keys" and dist: "distinct keys"
  have "length keys = card (set keys)" using dist by (simp add: distinct_card)
  also have "\<dots> \<le> card {0..<int np}"
    by (rule card_mono) (use rng in \<open>auto simp: in_range_def\<close>)
  finally show ?thesis by simp
qed

lemma bounded_write_all: "length xs \<le> np \<Longrightarrow> bounded_write np mem xs = xs @ drop (length xs) mem"
  by (simp add: bounded_write_def Let_def)

lemma move_values_prefix:
  assumes "length vals = length keys" "length keys \<le> np"
  shows "move_values (keys @ ks) (vals @ vs) (length keys) np out = move_values keys vals (length keys) np out"
  unfolding move_values_def
proof (rule fold_cong [OF refl refl])
  fix i
  assume "i \<in> set [0..<min (length keys) np]"
  then have "i < length keys" by simp
  then show "(\<lambda>out. let key = (keys @ ks) ! i; value = (vals @ vs) ! i
        in if fast_bounds_check key (int np) then out[nat key := value] else out)
      = (\<lambda>out. let key = keys ! i; value = vals ! i
        in if fast_bounds_check key (int np) then out[nat key := value] else out)"
    using assms(1) by (simp add: nth_append)
qed

lemma move_values_length [simp]: "length (move_values keys vals n np out) = length out"
proof -
  have "length (fold (\<lambda>i out. let key = keys ! i; value = vals ! i
      in if fast_bounds_check key (int np) then out[nat key := value] else out) is out) = length out" for "is"
    by (induction "is" arbitrary: out) (auto simp: Let_def)
  then show ?thesis by (simp add: move_values_def)
qed

text \<open>The counts of the sorted partition numbers, collected from their runs.\<close>

lemma counts_from_runs:
  assumes "sorted ks" "in_range np ks"
  shows "move_values (bounded_write np mem1 (map fst (run_lengths ks)))
      (bounded_write np mem2 (map (int \<circ> snd) (run_lengths ks))) (length (run_lengths ks)) np (replicate np 0)
    = map (\<lambda>q. int (count_list ks (int q))) [0..<np]"
proof (rule nth_equalityI)
  let ?rs = "run_lengths ks" let ?keys = "map fst ?rs" let ?vals = "map (int \<circ> snd) ?rs"
  have runs: "distinct ?keys" "fst ` set ?rs = set ks" "\<forall>(k, n)\<in>set ?rs. n = count_list ks k"
    using run_lengths_sorted [OF assms(1)] by auto
  then have rng: "in_range np ?keys" using assms(2) by (auto simp: in_range_def)
  have le: "length ?rs \<le> np" using in_range_distinct_length [OF rng runs(1)] by simp
  fix q
  assume "q < length (move_values (bounded_write np mem1 ?keys) (bounded_write np mem2 ?vals)
      (length ?rs) np (replicate np (0::int)))"
  then have q: "q < np" by simp
  have "move_values (bounded_write np mem1 ?keys) (bounded_write np mem2 ?vals) (length ?rs) np (replicate np 0)
      = move_values ?keys ?vals (length ?keys) np (replicate np 0)"
    using le move_values_prefix [of ?vals ?keys np] by (simp add: bounded_write_all)
  also have "\<dots> ! q = (case map_of (zip ?keys ?vals) (int q) of None \<Rightarrow> replicate np 0 ! q | Some v \<Rightarrow> v)"
    by (rule move_values_spec) (use runs(1) rng le q in simp_all)
  also have "\<dots> = int (count_list ks (int q))"
  proof (cases "map_of (zip ?keys ?vals) (int q)")
    case None
    then have "int q \<notin> set ks" using runs(2) by (auto simp: map_of_zip_is_None)
    then have "count_list ks (int q) = 0" by (simp add: count_notin)
    then show ?thesis unfolding None using q by simp
  next
    case (Some v)
    then have "(int q, v) \<in> set (zip ?keys ?vals)" by (rule map_of_SomeD)
    then obtain i where "i < length ?rs" "fst (?rs ! i) = int q" "v = int (snd (?rs ! i))"
      by (auto simp: in_set_zip)
    then show ?thesis using Some runs(3) nth_mem [of i ?rs] by (auto simp: case_prod_beta)
  qed
  finally show "move_values (bounded_write np mem1 ?keys) (bounded_write np mem2 ?vals) (length ?rs) np
      (replicate np 0) ! q = map (\<lambda>q. int (count_list ks (int q))) [0..<np] ! q"
    using q by simp
qed simp

lemma sorted_numbers:
  assumes "in_range np ps" "length vs = length ps"
  shows "map snd (sort_key fst (zip ps vs)) = concat (map (\<lambda>q. dealt (int q) ps vs) [0..<np])"
proof -
  let ?S = "sort_key fst (zip ps vs)"
  have ps: "fst x \<in> set ps" if "x \<in> set ?S" for x
  proof -
    have "x \<in> set (zip ps vs)" using that by simp
    then show ?thesis by (metis prod.collapse set_zip_leftD)
  qed
  have "?S = filter (\<lambda>x. fst x < int np) ?S"
    using assms(1) ps by (intro filter_True [symmetric]) (auto simp: in_range_def)
  also have "\<dots> = concat (map (\<lambda>q. filter (\<lambda>x. fst x = int q) ?S) [0..<np])"
    by (rule sorted_groups) (use assms(1) ps in \<open>auto simp: in_range_def\<close>)
  also have "\<dots> = concat (map (\<lambda>q. filter (\<lambda>x. fst x = int q) (zip ps vs)) [0..<np])"
    by (simp add: sort_key_stable)
  finally show ?thesis
    by (simp add: map_concat comp_def dealt_filter)
qed

text \<open>All that the kernel asks for before it allocates the outputs.\<close>

definition gpu_requests :: "partition_resources \<Rightarrow> nat \<Rightarrow> status list" where
  "gpu_requests st n =
     (if n = 0 then [st_partition_count st]
      else [st_partition_count st, st_indices_in st, st_partitions_out st, st_indices_out st,
            st_sort_storage st, st_aggregates_out st, st_num_runs st, st_reduce_storage st,
            st_stream st, st_cpu_tensor st, st_memcpy st])"

lemma first_status_append:
  "first_status (xs @ ys) = (case first_status xs of None \<Rightarrow> first_status ys | Some msg \<Rightarrow> Some msg)"
  by (induction xs rule: first_status.induct) simp_all

lemma count_and_sort_parts_spec:
  assumes "sorts_pairs sort_pairs" "reduces_by_key reduce_by_key" "in_range np (flat partitions)"
  shows "count_and_sort_parts st sort_pairs reduce_by_key np partitions
    = (case first_status [st_indices_in st, st_partitions_out st, st_indices_out st, st_sort_storage st,
           st_aggregates_out st, st_num_runs st, st_reduce_storage st] of
         Some msg \<Rightarrow> Inl msg
       | None \<Rightarrow> Inr (map (\<lambda>q. int (count_list (flat partitions) (int q))) [0..<np],
           concat (map (\<lambda>q. dealt (int q) (flat partitions) (map int [0..<num_elements partitions])) [0..<np])))"
proof -
  let ?ps = "flat partitions" let ?N = "num_elements partitions"
  let ?idx = "map int [0..<?N]" let ?ks = "map fst (sort_key fst (zip ?ps ?idx))"
  have idx: "range_init 0 1 ?N = ?idx" by (simp add: range_init_def)
  have sorted: "sort_pairs ?ps ?idx = (?ks, map snd (sort_key fst (zip ?ps ?idx)))"
  proof -
    have "length ?ps = length ?idx" by (simp add: num_elements_def)
    with assms(1) show ?thesis unfolding sorts_pairs_def by blast
  qed
  have len: "length ?ks = ?N" by (simp add: num_elements_def)
  have reduced: "reduce_by_key ?ks (replicate ?N 1) = (map fst (run_lengths ?ks), map (int \<circ> snd) (run_lengths ?ks))"
  proof -
    have "reduce_by_key ?ks (replicate (length ?ks) 1)
        = (map fst (run_lengths ?ks), map (int \<circ> snd) (run_lengths ?ks))"
      using assms(2) unfolding reduces_by_key_def by blast
    then show ?thesis by (simp only: len)
  qed
  have "mset ?ks = mset (map fst (zip ?ps ?idx))" by (simp only: mset_map mset_sort)
  then have mset: "mset ?ks = mset ?ps" by (simp add: num_elements_def)
  then have rng: "in_range np ?ks" using assms(3) mset_eq_setD [OF mset] by (simp add: in_range_def)
  have counts: "count_list ?ks k = count_list ?ps k" for k by (simp only: count_list_mset mset)
  have counted: "move_values (bounded_write np mem1 (map fst (run_lengths ?ks)))
      (bounded_write np mem2 (map (int \<circ> snd) (run_lengths ?ks))) (length (run_lengths ?ks)) np (replicate np 0)
    = map (\<lambda>q. int (count_list ?ps (int q))) [0..<np]" for mem1 mem2
    using counts_from_runs [OF sorted_sort_key rng] counts by simp
  have numbers: "map snd (sort_key fst (zip ?ps ?idx)) = concat (map (\<lambda>q. dealt (int q) ?ps ?idx) [0..<np])"
    by (rule sorted_numbers [OF assms(3)]) (simp add: num_elements_def)
  let ?mem = "?idx @ replicate (np - ?N) 0"
  have parts: "count_and_sort_parts st sort_pairs reduce_by_key np partitions
    = Inr (move_values (bounded_write np ?mem (map fst (run_lengths ?ks)))
             (bounded_write np (replicate np 0) (map (int \<circ> snd) (run_lengths ?ks)))
             (length (run_lengths ?ks)) np (replicate np 0), map snd (sort_key fst (zip ?ps ?idx)))"
    if "allocate_temp_space st = None" "st_sort_storage st = None"
      "first_status [st_aggregates_out st, st_num_runs st, st_reduce_storage st] = None"
    by (simp only: count_and_sort_parts_def radix_sort_def that option.case sum.case
        idx sorted Let_def prod.case reduced length_map)
  show ?thesis
  proof (cases "allocate_temp_space st")
    case temp: None
    show ?thesis
    proof (cases "st_sort_storage st")
      case sort: None
      show ?thesis
      proof (cases "first_status [st_aggregates_out st, st_num_runs st, st_reduce_storage st]")
        case None
        with temp sort show ?thesis
          using parts [unfolded counted numbers] first_status_append
            [of "[st_indices_in st, st_partitions_out st, st_indices_out st, st_sort_storage st]"
              "[st_aggregates_out st, st_num_runs st, st_reduce_storage st]"]
          by (cases "st_indices_in st"; cases "st_partitions_out st"; cases "st_indices_out st")
            (simp_all add: allocate_temp_space_def)
      next
        case (Some msg)
        with temp sort show ?thesis
          by (cases "st_indices_in st"; cases "st_partitions_out st"; cases "st_indices_out st")
            (simp_all add: allocate_temp_space_def count_and_sort_parts_def radix_sort_def Let_def
              split: prod.split)
      qed
    next
      case (Some msg)
      with temp show ?thesis
        by (cases "st_indices_in st"; cases "st_partitions_out st"; cases "st_indices_out st")
          (simp_all add: allocate_temp_space_def count_and_sort_parts_def radix_sort_def Let_def)
    qed
  next
    case (Some msg)
    then show ?thesis
      by (cases "st_indices_in st"; cases "st_partitions_out st"; cases "st_indices_out st")
        (simp_all add: allocate_temp_space_def count_and_sort_parts_def Let_def)
  qed
qed

lemma dealt_rows:
  assumes "length ps \<le> length rows"
  shows "map (\<lambda>j. rows ! nat j) (dealt q ps (map int [0..<length ps])) = dealt q ps rows"
proof -
  have "map (\<lambda>j. rows ! nat j) (map int [0..<length ps]) = take (length ps) rows"
    using assms by (auto intro!: nth_equalityI)
  then have "map (\<lambda>j. rows ! nat j) (dealt q ps (map int [0..<length ps])) = dealt q ps (take (length ps) rows)"
    by (simp only: dealt_map [symmetric])
  moreover have "zip ps (take (length ps) rows) = zip ps rows"
    by (metis take_all take_zip length_zip min.cobounded1 order_refl)
  ultimately show ?thesis by (simp add: dealt_def)
qed

lemma dynamic_partition_gpu_spec:
  assumes cub: "sorts_pairs sort_pairs" "reduces_by_key reduce_by_key"
    and ws: "well_shaped data" "well_shaped partitions"
    and pre: "starts_with (shape_of data) (shape_of partitions)"
    and rng: "in_range np (flat partitions)" and small: "fits_int32 (num_elements partitions)"
  shows "dynamic_partition_gpu st sort_pairs reduce_by_key alloc np data partitions
    = Some (case first_status (gpu_requests st (num_elements partitions)) of
        Some msg \<Rightarrow> Inl msg
      | None \<Rightarrow> partitioned alloc np data partitions)"
proof (cases "num_elements partitions = 0")
  case True
  then have none: "flat partitions = []" by (simp add: num_elements_def)
  have counts: "map (\<lambda>q. count_list (flat partitions) (int q)) [0..<np] = replicate np 0"
    unfolding none by (simp add: map_replicate_trivial)
  show ?thesis
    using True pre allocate_outputs_Inr [of alloc "replicate np 0" "inner_shape data partitions"]
    unfolding dynamic_partition_gpu_def partitioned_def counts
    by (cases "st_partition_count st")
      (auto simp: none gpu_requests_def inner_shape_def Let_def map_replicate_const split: sum.splits)
next
  case False
  let ?ps = "flat partitions" let ?N = "num_elements partitions"
  let ?inner = "inner_shape data partitions" let ?rows = "data_rows data partitions"
  let ?gs = "map (\<lambda>q. dealt (int q) ?ps (map int [0..<?N])) [0..<np]"
  have lens: "length (dealt (int q) ?ps (map int [0..<?N])) = count_list ?ps (int q)" for q
    by (rule length_dealt) (simp add: num_elements_def)
  have idx: "\<forall>g\<in>set ?gs. \<forall>j\<in>set g. nat j < length ?rows"
    using set_dealt by (fastforce simp: data_rows_def)
  have width: "\<forall>r\<in>set ?rows. length r = prod_list ?inner" using data_rows_width [OF ws pre] by simp
  have "gather_slices ?rows (concat ?gs @ []) (map (\<lambda>g. length g # ?inner) ?gs)
      = map (\<lambda>g. \<lparr>shape_of = length g # ?inner, flat = concat (map (\<lambda>j. ?rows ! nat j) g)\<rparr>) ?gs"
    by (rule gather_slices_spec [OF width idx])
  then have gather: "gather_slices ?rows (concat ?gs) (map (\<lambda>q. count_list ?ps (int q) # ?inner) [0..<np])
      = map (\<lambda>q. \<lparr>shape_of = count_list ?ps (int q) # ?inner, flat = concat (dealt (int q) ?ps ?rows)\<rparr>) [0..<np]"
    using dealt_rows [of ?ps ?rows] lens by (simp add: comp_def data_rows_def num_elements_def)
  let ?counts = "map (\<lambda>q. count_list ?ps (int q)) [0..<np]"
  let ?early = "[st_indices_in st, st_partitions_out st, st_indices_out st, st_sort_storage st,
    st_aggregates_out st, st_num_runs st, st_reduce_storage st]"
  let ?late = "[st_stream st, st_cpu_tensor st, st_memcpy st]"
  have requests: "first_status (gpu_requests st (num_elements partitions))
      = first_status ([st_partition_count st] @ ?early @ ?late)"
    using False by (simp only: gpu_requests_def if_False append_Cons append_Nil)
  have "dynamic_partition_gpu st sort_pairs reduce_by_key alloc np data partitions
      = Some (case first_status (gpu_requests st (num_elements partitions)) of
          Some msg \<Rightarrow> Inl msg
        | None \<Rightarrow> (case allocate_outputs alloc ?counts ?inner of Inl msg \<Rightarrow> Inl msg
           | Inr shapes \<Rightarrow> Inr (gather_slices ?rows (concat ?gs) shapes)))"
    using False pre small unfolding data_rows_def requests first_status_append
    by (cases "st_partition_count st"; cases "first_status ?early"; cases "first_status ?late")
      (simp_all only: dynamic_partition_gpu_def count_and_sort_parts_spec [OF cub rng]
        inner_shape_def Let_def option.case sum.case prod.case if_False if_True not_True_eq_False
        first_status.simps map_map comp_def nat_int)
  also have "(case allocate_outputs alloc ?counts ?inner of Inl msg \<Rightarrow> Inl msg
         | Inr shapes \<Rightarrow> Inr (gather_slices ?rows (concat ?gs) shapes)) = partitioned alloc np data partitions"
  proof (cases "allocate_outputs alloc ?counts ?inner")
    case (Inl msg)
    then show ?thesis by (simp add: partitioned_def)
  next
    case (Inr shapes)
    have "shapes = map (\<lambda>q. count_list ?ps (int q) # ?inner) [0..<np]"
      using allocate_outputs_Inr [OF Inr] by (simp add: comp_def)
    then show ?thesis using gather Inr by (simp add: partitioned_def)
  qed
  finally show ?thesis .
qed

end
