(* ===== verification/Dynamic_Stitch.thy ===== *)
theory Dynamic_Stitch
  imports Tensors
begin

text \<open>
  \<open>DynamicStitch\<close>: the rows of several tensors are merged into one, at the positions that
  their index tensors name (\<open>dynamic_stitch_op.cc\<close>, \<open>dynamic_stitch_op_gpu.cu.cc\<close>).  An input
  is a pair of an index tensor and a data tensor.  \<open>mem\<close> is what the freshly allocated
  output holds before it is written, position by position: the code leaves the rows that no
  index names as they are.  \<open>alloc\<close> is the status of allocating the output.
\<close>

section \<open>Checks and allocation\<close>

definition stitch_construct :: "nat \<Rightarrow> status" where
  "stitch_construct num_inputs =
     (if \<not> num_inputs > 0 then Some ''Must have some inputs''
      else if num_inputs mod 2 \<noteq> 0 then Some ''Must have even number of arguments''
      else None)"

definition same_extra_shape :: "'e tensor \<Rightarrow> int tensor \<Rightarrow> 'e tensor \<Rightarrow> int tensor \<Rightarrow> bool" where
  "same_extra_shape data0 indices0 data1 indices1 =
     (let dims = (\<lambda>s. int (length s));
          extra0 = dims (shape_of data0) - dims (shape_of indices0);
          extra1 = dims (shape_of data1) - dims (shape_of indices1)
      in if extra0 \<noteq> extra1 then False
         else list_all (\<lambda>i. shape_of data0 ! (length (shape_of indices0) + i)
                          = shape_of data1 ! (length (shape_of indices1) + i)) [0..<nat extra0])"

definition maximum :: "int list \<Rightarrow> int" where
  "maximum xs = fold max (tl xs) (hd xs)"

text \<open>
  The code keeps the largest index plus one in an \<open>int32\<close>.  This is the number here for indices
  below 2 to the 31 less 1; the largest \<open>int32\<close> as an index overflows in the code.
\<close>

definition first_dim_of :: "(int tensor \<times> 'e tensor) list \<Rightarrow> nat" where
  "first_dim_of inputs =
     nat (fold (\<lambda>(indices, _) max_index.
              if num_elements indices > 0 then max (maximum (flat indices)) max_index else max_index)
            inputs (-1) + 1)"

fun check_inputs ::
  "int tensor \<Rightarrow> 'e tensor \<Rightarrow> nat \<Rightarrow> (int tensor \<times> 'e tensor) list \<Rightarrow> status" where
  "check_inputs indices0 data0 input_num [] = None"
| "check_inputs indices0 data0 input_num ((indices, data) # inputs) =
     (if \<not> starts_with (shape_of data) (shape_of indices)
      then Some ''data.shape does not start with indices.shape''
      else if \<not> (input_num = 0 \<or> same_extra_shape data0 indices0 data indices)
      then Some ''Need data[0].shape[indices0.dims():] = data.shape[indices.dims():]''
      else check_inputs indices0 data0 (Suc input_num) inputs)"

definition extra_shape :: "(int tensor \<times> 'e tensor) list \<Rightarrow> nat list" where
  "extra_shape inputs =
     (case inputs of
        [] \<Rightarrow> []
      | (indices0, data0) # _ \<Rightarrow> drop (length (shape_of indices0)) (shape_of data0))"

definition check_shapes :: "(int tensor \<times> 'e tensor) list \<Rightarrow> status" where
  "check_shapes inputs =
     (case inputs of [] \<Rightarrow> None | (indices0, data0) # _ \<Rightarrow> check_inputs indices0 data0 0 inputs)"

definition check_args_and_allocate_result ::
  "status \<Rightarrow> (int tensor \<times> 'e tensor) list \<Rightarrow> string + nat list" where
  "check_args_and_allocate_result alloc inputs =
     (let first_dim_size = first_dim_of inputs
      in case check_shapes inputs of
           Some msg \<Rightarrow> Inl msg
         | None \<Rightarrow> (case alloc of Some msg \<Rightarrow> Inl msg
                    | None \<Rightarrow> Inr (first_dim_size # extra_shape inputs)))"

section \<open>CPU\<close>

text \<open>
  \<open>OnInputNumber\<close> copies the rows of one input.  A bad index ends only this input: the
  macro returns from the lambda, after it has set the status of the operation.
\<close>

fun on_input ::
  "nat \<Rightarrow> nat \<Rightarrow> int list \<Rightarrow> 'r list \<Rightarrow> 'r list \<Rightarrow> status \<times> 'r list" where
  "on_input first_dim_size i [] data_flat merged = (None, merged)"
| "on_input first_dim_size i (index # indices_vec) data_flat merged =
     (if \<not> fast_bounds_check index (int first_dim_size)
      then (Some ''indices is out of range'', merged)
      else on_input first_dim_size (Suc i) indices_vec data_flat
             (merged[nat index := data_flat ! i]))"

text \<open>The status of a context keeps the first error.\<close>

definition set_status :: "status \<Rightarrow> status \<Rightarrow> status" where
  "set_status old new = (case old of None \<Rightarrow> new | Some msg \<Rightarrow> Some msg)"

definition input_rows :: "nat \<Rightarrow> int tensor \<times> 'e tensor \<Rightarrow> int list \<times> 'e list list" where
  "input_rows slice_size input = (case input of (indices, data) \<Rightarrow>
     (flat indices, row_view slice_size (num_elements indices) (flat data)))"

definition all_inputs ::
  "nat \<Rightarrow> (int list \<times> 'r list) list \<Rightarrow> 'r list \<Rightarrow> status \<times> 'r list" where
  "all_inputs first_dim_size ins merged =
     fold (\<lambda>(indices_vec, data_flat) (st, merged).
             case on_input first_dim_size 0 indices_vec data_flat merged of
               (st', merged) \<Rightarrow> (set_status st st', merged))
       ins (None, merged)"

text \<open>
  With several worker threads the inputs are spread over them.  A schedule names, copy by
  copy, the input whose thread takes its next step; \<open>pos ! k\<close> is the next row of input \<open>k\<close>
  and \<open>stopped ! k\<close> says that its lambda has returned with an error.
\<close>

record 'r stitch_state =
  pos :: "nat list"
  stopped :: "bool list"
  context_status :: status
  merged_rows :: "'r list"

definition stitch_step ::
  "nat \<Rightarrow> (int list \<times> 'r list) list \<Rightarrow> nat \<Rightarrow> 'r stitch_state \<Rightarrow> 'r stitch_state" where
  "stitch_step first_dim_size ins k s =
     (if length ins \<le> k then s
      else let (indices_vec, data_flat) = ins ! k; i = pos s ! k
        in if stopped s ! k \<or> length indices_vec \<le> i then s
           else if \<not> fast_bounds_check (indices_vec ! i) (int first_dim_size)
           then s\<lparr>stopped := (stopped s)[k := True],
                  context_status := set_status (context_status s) (Some ''indices is out of range'')\<rparr>
           else s\<lparr>pos := (pos s)[k := Suc i],
                  merged_rows := (merged_rows s)[nat (indices_vec ! i) := data_flat ! i]\<rparr>)"

definition stitch_start :: "nat \<Rightarrow> 'r list \<Rightarrow> 'r stitch_state" where
  "stitch_start n merged = \<lparr>pos = replicate n 0, stopped = replicate n False,
     context_status = None, merged_rows = merged\<rparr>"

definition parallel_inputs ::
  "nat list \<Rightarrow> nat \<Rightarrow> (int list \<times> 'r list) list \<Rightarrow> 'r list \<Rightarrow> 'r stitch_state" where
  "parallel_inputs schedule first_dim_size ins merged =
     fold (stitch_step first_dim_size ins) schedule (stitch_start (length ins) merged)"

definition merged_memory :: "(nat \<Rightarrow> 'e) \<Rightarrow> nat \<Rightarrow> nat \<Rightarrow> 'e list list" where
  "merged_memory mem first_dim_size slice_size =
     row_view slice_size first_dim_size (map mem [0..<first_dim_size * slice_size])"

text \<open>\<open>schedule\<close> is None for \<open>DynamicStitch\<close> and when there is one worker thread.\<close>

definition dynamic_stitch ::
  "nat list option \<Rightarrow> status \<Rightarrow> (nat \<Rightarrow> 'e) \<Rightarrow> (int tensor \<times> 'e tensor) list \<Rightarrow> string + 'e tensor" where
  "dynamic_stitch schedule alloc mem inputs =
     (case check_args_and_allocate_result alloc inputs of
        Inl msg \<Rightarrow> Inl msg
      | Inr shape \<Rightarrow>
          let first_dim_size = hd shape; slice_size = prod_list (tl shape);
              ins = map (input_rows slice_size) inputs;
              merged = merged_memory mem first_dim_size slice_size;
              (st, merged) =
                (if first_dim_size > 0
                 then (case schedule of
                         None \<Rightarrow> all_inputs first_dim_size ins merged
                       | Some sched \<Rightarrow>
                           let s = parallel_inputs sched first_dim_size ins merged
                           in (context_status s, merged_rows s))
                 else (None, merged))
          in case st of Some msg \<Rightarrow> Inl msg
             | None \<Rightarrow> Inr \<lparr>shape_of = shape, flat = concat merged\<rparr>)"

end
