(* ===== verification/Dynamic_Stitch_GPU.thy ===== *)
theory Dynamic_Stitch_GPU
  imports Dynamic_Stitch
begin

text \<open>
  The two GPU implementations of stitching.  The first prepares on the host, for every row
  of the output, the number of the input row that goes there; None as the result stands for a
  write outside of an array or an \<open>int32\<close> that does not hold its value.  The second writes each input row to its place directly; its
  kernel keeps three variables in the shared memory of a thread block, which every thread of
  the block assigns, and so its model is a step relation on blocks.
\<close>

section \<open>DynamicStitch\<close>

fun set_indices :: "nat \<Rightarrow> nat \<Rightarrow> int list \<Rightarrow> int list \<Rightarrow> int list option" where
  "set_indices base_size j [] indices_flat = Some indices_flat"
| "set_indices base_size j (x # xs) indices_flat =
     (if fast_bounds_check x (int (length indices_flat))
      then set_indices base_size (Suc j) xs (indices_flat[nat x := int (base_size + j)])
      else None)"

text \<open>A pointer into the elements of a tensor is the list of the elements from there on.\<close>

fun host_arrays ::
  "nat \<Rightarrow> nat \<Rightarrow> (int tensor \<times> 'e tensor) list \<Rightarrow> int list \<Rightarrow> 'e list list
     \<Rightarrow> (int list \<times> 'e list list) option" where
  "host_arrays slice_size base_size [] indices_flat data_flat = Some (indices_flat, data_flat)"
| "host_arrays slice_size base_size ((indices, data) # inputs) indices_flat data_flat =
     (if \<not> list_all (\<lambda>j. fits_int32 (j * slice_size)) [0..<num_elements indices] then None
      else case set_indices base_size 0 (flat indices) indices_flat of
        None \<Rightarrow> None
      | Some indices_flat \<Rightarrow>
          host_arrays slice_size (base_size + num_elements indices) inputs indices_flat
            (data_flat @ map (\<lambda>j. drop (j * slice_size) (flat data)) [0..<num_elements indices]))"

definition stitch_kernel :: "nat \<Rightarrow> nat \<Rightarrow> int list \<Rightarrow> 'e list list \<Rightarrow> 'e list \<Rightarrow> 'e list" where
  "stitch_kernel slice_size output_size data_indices data_ptrs output =
     fold (\<lambda>output_index output.
             let slice_id = output_index div slice_size;
                 slice_offset = output_index mod slice_size;
                 input_index = data_indices ! slice_id
             in if input_index \<noteq> -1
                then output[output_index := data_ptrs ! nat input_index ! slice_offset]
                else output)
       [0..<output_size] output"

text \<open>
  \<open>arrays\<close> are the statuses of the calls of \<open>Init\<close> and \<open>Finalize\<close> that bring the prepared arrays
  to the device.
\<close>

definition dynamic_stitch_gpu ::
  "status list \<Rightarrow> status \<Rightarrow> (nat \<Rightarrow> 'e) \<Rightarrow> (int tensor \<times> 'e tensor) list
     \<Rightarrow> (string + 'e tensor) option" where
  "dynamic_stitch_gpu arrays alloc mem inputs =
     (let data_elements_size = fold (\<lambda>(indices, _) n. n + num_elements indices) inputs 0
      in if \<not> fits_int32 (first_dim_of inputs) \<or> \<not> fits_int32 data_elements_size then None
      else case check_args_and_allocate_result alloc inputs of
        Inl msg \<Rightarrow> Some (Inl msg)
      | Inr shape \<Rightarrow>
          let first_dim_size = hd shape; slice_size = prod_list (tl shape);
              output_size = first_dim_size * slice_size;
              output = map mem [0..<output_size]
          in if first_dim_size > 0
             then if \<not> fits_int32 slice_size \<or> \<not> fits_int32 output_size then None
             else (case first_status arrays of Some msg \<Rightarrow> Some (Inl msg) | None \<Rightarrow>
                  (case host_arrays slice_size 0 inputs (replicate first_dim_size (-1)) [] of
                     None \<Rightarrow> None
                   | Some (indices_flat, data_flat) \<Rightarrow>
                       Some (Inr \<lparr>shape_of = shape,
                         flat = stitch_kernel slice_size output_size indices_flat data_flat output\<rparr>)))
             else Some (Inr \<lparr>shape_of = shape, flat = output\<rparr>))"

section \<open>DynamicStitchFast\<close>

definition fast_first_dim :: "(int tensor \<times> 'e tensor) list \<Rightarrow> nat" where
  "fast_first_dim inputs = fold (\<lambda>(indices, _) n. n + num_elements indices) inputs 0"

definition fast_check_and_allocate ::
  "status \<Rightarrow> (int tensor \<times> 'e tensor) list \<Rightarrow> string + nat list" where
  "fast_check_and_allocate alloc inputs =
     (case check_shapes inputs of
        Some msg \<Rightarrow> Inl msg
      | None \<Rightarrow> (case alloc of Some msg \<Rightarrow> Inl msg
                 | None \<Rightarrow> Inr (fast_first_dim inputs # extra_shape inputs)))"

text \<open>What the host passes to the kernel: for every segment its size, indices and data.\<close>

type_synonym 'e segment = "nat \<times> int list \<times> 'e list"

definition fast_segments :: "(int tensor \<times> 'e tensor) list \<Rightarrow> 'e segment list" where
  "fast_segments inputs =
     map (\<lambda>(indices, data). (num_elements indices, flat indices, flat data)) inputs"

text \<open>
  A thread visits the segments of its range in \<open>y\<close>.  For each it assigns the shared
  variables (\<open>Fetch\<close>), reads the shared size to lay out its range in \<open>x\<close> (\<open>Range\<close>), and copies
  the rows of that range, reading the shared pointers (\<open>Loop\<close>).
\<close>

datatype pc = Fetch "nat list" | Range "nat list" | Loop "nat list" "nat list"

text \<open>
  How the launch spreads the work over the threads of the grid: the block of each thread, its
  range in \<open>y\<close>, and its part of a range of a given size in \<open>x\<close>.
\<close>

record launch_config =
  block_of :: "nat list"
  y_range :: "nat list list"
  x_range :: "nat \<Rightarrow> nat \<Rightarrow> nat list"

text \<open>The shared variables of each block, the threads, and the output in global memory.\<close>

record 'e grid =
  shared :: "'e segment list"
  pcs :: "pc list"
  global :: "'e list option"

text \<open>Both places are computed in \<open>int32\<close>.\<close>

definition copy_element ::
  "int \<Rightarrow> nat \<Rightarrow> 'e list \<Rightarrow> 'e list option \<Rightarrow> 'e list option" where
  "copy_element dst src data_ptr_base output =
     (case output of
        None \<Rightarrow> None
      | Some out \<Rightarrow>
          if fast_bounds_check dst (int (length out)) \<and> src < length data_ptr_base \<and>
            fits_int32 (nat dst) \<and> fits_int32 src
          then Some (out[nat dst := data_ptr_base ! src]) else None)"

definition copy_data_row ::
  "nat \<Rightarrow> 'e segment \<Rightarrow> nat \<Rightarrow> 'e list option \<Rightarrow> 'e list option" where
  "copy_data_row slice_size seg indice_i output =
     (case seg of (_, indices_vec, data_ptr_base) \<Rightarrow>
        if \<not> indice_i < length indices_vec then None
        else let output_indice_base = indices_vec ! indice_i * int slice_size;
                 data_ptr_indice_base = indice_i * slice_size
          in fold (\<lambda>slice_offset. copy_element (output_indice_base + int slice_offset)
                     (data_ptr_indice_base + slice_offset) data_ptr_base)
               [0..<slice_size] output)"

text \<open>One step of thread \<open>t\<close>.\<close>

definition fast_step ::
  "nat \<Rightarrow> 'e segment list \<Rightarrow> launch_config \<Rightarrow> nat \<Rightarrow> 'e grid \<Rightarrow> 'e grid" where
  "fast_step slice_size segs cfg t g =
     (if length (pcs g) \<le> t then g
      else let b = block_of cfg ! t in case pcs g ! t of
        Fetch [] \<Rightarrow> g
      | Fetch (s # ss) \<Rightarrow> g\<lparr>shared := (shared g)[b := segs ! s], pcs := (pcs g)[t := Range ss]\<rparr>
      | Range ss \<Rightarrow> g\<lparr>pcs := (pcs g)[t := Loop (x_range cfg t (fst (shared g ! b))) ss]\<rparr>
      | Loop [] ss \<Rightarrow> g\<lparr>pcs := (pcs g)[t := Fetch ss]\<rparr>
      | Loop (i # is') ss \<Rightarrow>
          g\<lparr>pcs := (pcs g)[t := Loop is' ss],
            global := copy_data_row slice_size (shared g ! b) i (global g)\<rparr>)"

definition launch_grid ::
  "nat \<Rightarrow> 'e segment list \<Rightarrow> launch_config \<Rightarrow> 'e segment list \<Rightarrow> nat list \<Rightarrow> 'e list \<Rightarrow> 'e grid" where
  "launch_grid slice_size segs cfg shared0 schedule output =
     fold (fast_step slice_size segs cfg) schedule
       \<lparr>shared = shared0, pcs = map Fetch (y_range cfg), global = Some output\<rparr>"

definition grid_finished :: "'e grid \<Rightarrow> bool" where
  "grid_finished g \<longleftrightarrow> list_all (\<lambda>pc. pc = Fetch []) (pcs g)"

text \<open>
  The operation, with the launch and the schedule of its threads.  None is the result of a
  kernel that has accessed memory outside of its arrays or of an \<open>int32\<close> that does not hold its
  value; a schedule is complete when every thread has returned.
\<close>

definition dynamic_stitch_fast ::
  "launch_config \<Rightarrow> nat list \<Rightarrow> 'e segment list \<Rightarrow> status list \<Rightarrow> status \<Rightarrow> (nat \<Rightarrow> 'e)
     \<Rightarrow> (int tensor \<times> 'e tensor) list \<Rightarrow> (string + 'e tensor) option" where
  "dynamic_stitch_fast cfg schedule shared0 arrays alloc mem inputs =
     (if check_shapes inputs = None \<and> \<not> fits_int32 (fast_first_dim inputs) then None
      else case fast_check_and_allocate alloc inputs of
        Inl msg \<Rightarrow> Some (Inl msg)
      | Inr shape \<Rightarrow>
          let first_dim_size = hd shape; slice_size = prod_list (tl shape);
              output = map mem [0..<first_dim_size * slice_size]
          in if first_dim_size > 0
             then if \<not> fits_int32 slice_size then None
             else (case first_status arrays of Some msg \<Rightarrow> Some (Inl msg) | None \<Rightarrow>
                  map_option (\<lambda>out. Inr \<lparr>shape_of = shape, flat = out\<rparr>)
                    (global (launch_grid slice_size (fast_segments inputs) cfg shared0 schedule output)))
             else Some (Inr \<lparr>shape_of = shape, flat = output\<rparr>))"

end
