(* ===== verification/Dynamic_Stitch_Spec.thy ===== *)
theory Dynamic_Stitch_Spec
  imports Dynamic_Stitch_GPU
begin

text \<open>
  What stitching means: a list of writes of rows to positions, the later ones winning.  The
  CPU loop, the GPU kernel and every schedule of the parallel version are brought to this
  form.
\<close>

definition apply_writes :: "(nat \<times> 'r) list \<Rightarrow> 'r list \<Rightarrow> 'r list" where
  "apply_writes ws m = foldl (\<lambda>m (p, r). m[p := r]) m ws"

definition row_writes :: "(int list \<times> 'r list) list \<Rightarrow> (nat \<times> 'r) list" where
  "row_writes ins = concat (map (\<lambda>(indices_vec, data_flat). zip (map nat indices_vec) data_flat) ins)"

section \<open>Writes\<close>

lemma apply_writes_simps [simp]:
  "apply_writes [] m = m"
  "apply_writes ((p, r) # ws) m = apply_writes ws (m[p := r])"
  "apply_writes (ws @ ws') m = apply_writes ws' (apply_writes ws m)"
  by (simp_all add: apply_writes_def)

lemma length_apply_writes [simp]: "length (apply_writes ws m) = length m"
  by (induction ws arbitrary: m) auto

lemma nth_apply_writes:
  "p < length m \<Longrightarrow> apply_writes ws m ! p = (case map_of (rev ws) p of None \<Rightarrow> m ! p | Some r \<Rightarrow> r)"
proof (induction ws rule: rev_induct)
  case Nil
  then show ?case by simp
next
  case (snoc w ws)
  then show ?case by (cases w) (auto simp: nth_list_update)
qed

lemma apply_writes_cover:
  assumes "\<forall>(p, r)\<in>set ws. r = f p" "\<forall>p<length m. p \<in> fst ` set ws"
  shows "apply_writes ws m = map f [0..<length m]"
proof (rule nth_equalityI)
  fix p
  assume "p < length (apply_writes ws m)"
  then have p: "p < length m" by simp
  then obtain r where r: "map_of (rev ws) p = Some r"
    using assms(2) by (metis not_None_eq map_of_eq_None_iff set_rev)
  then have "r = f p" using assms(1) map_of_SomeD [OF r] by auto
  with p r show "apply_writes ws m ! p = map f [0..<length m] ! p" by (simp add: nth_apply_writes)
qed simp

lemma apply_writes_perm:
  assumes "mset ws = mset ws'" "distinct (map fst ws)"
  shows "apply_writes ws m = apply_writes ws' m"
proof (rule nth_equalityI)
  fix p
  assume "p < length (apply_writes ws m)"
  then have p: "p < length m" by simp
  have "mset (map fst ws) = mset (map fst ws')" using assms(1) by simp
  then have "distinct (map fst ws')" using assms(2) mset_eq_imp_distinct_iff by blast
  then have "map_of (rev ws) = map_of (rev ws')"
    using assms by (intro map_of_inject_set [THEN iffD2]) (auto simp: rev_map [symmetric] dest: mset_eq_setD)
  with p show "apply_writes ws m ! p = apply_writes ws' m ! p" by (simp add: nth_apply_writes)
qed simp

lemma map_of_zip_map: "map_of (zip ps (map f ns)) = map_option f \<circ> map_of (zip ps ns)"
  by (induction ps ns rule: list_induct2') (auto simp: fun_eq_iff)

lemma row_writes_zip:
  "\<forall>(indices_vec, data_flat)\<in>set ins. length data_flat = length indices_vec \<Longrightarrow>
   row_writes ins = zip (concat (map (map nat \<circ> fst) ins)) (concat (map snd ins))"
  by (induction ins) (auto simp: row_writes_def)

section \<open>The sequential loop\<close>

definition indices_ok :: "nat \<Rightarrow> (int list \<times> 'r list) list \<Rightarrow> bool" where
  "indices_ok n ins \<longleftrightarrow> (\<forall>(indices_vec, data_flat)\<in>set ins. \<forall>x\<in>set indices_vec. fast_bounds_check x (int n))"

definition rows_fit :: "(int list \<times> 'r list) list \<Rightarrow> bool" where
  "rows_fit ins \<longleftrightarrow> (\<forall>(indices_vec, data_flat)\<in>set ins. length data_flat = length indices_vec)"

lemma on_input_ok:
  "\<forall>x\<in>set xs. fast_bounds_check x (int n) \<Longrightarrow> i + length xs \<le> length rows \<Longrightarrow>
   on_input n i xs rows m = (None, apply_writes (zip (map nat xs) (drop i rows)) m)"
proof (induction xs arbitrary: i m)
  case Nil
  then show ?case by simp
next
  case (Cons x xs)
  then have "drop i rows = rows ! i # drop (Suc i) rows" by (simp add: Cons_nth_drop_Suc)
  then show ?case using Cons by simp
qed

lemma on_input_status:
  "fst (on_input n i xs rows m)
    = (if \<forall>x\<in>set xs. fast_bounds_check x (int n) then None else Some ''indices is out of range'')"
  by (induction xs arbitrary: i m) auto

lemma all_inputs_simps:
  "all_inputs n [] m = (None, m)"
  "all_inputs n (ins @ [(xs, rows)]) m =
     (case all_inputs n ins m of (st, m) \<Rightarrow> case on_input n 0 xs rows m of (st', m) \<Rightarrow> (set_status st st', m))"
  by (simp_all add: all_inputs_def)

lemma all_inputs_ok:
  "indices_ok n ins \<Longrightarrow> rows_fit ins \<Longrightarrow> all_inputs n ins m = (None, apply_writes (row_writes ins) m)"
proof (induction ins rule: rev_induct)
  case Nil
  then show ?case by (simp add: all_inputs_simps row_writes_def)
next
  case (snoc x ins)
  obtain xs rows where x: "x = (xs, rows)" by force
  have "all_inputs n ins m = (None, apply_writes (row_writes ins) m)"
    using snoc by (simp add: indices_ok_def rows_fit_def)
  moreover have "on_input n 0 xs rows m' = (None, apply_writes (zip (map nat xs) rows) m')" for m'
    using snoc.prems x by (subst on_input_ok) (auto simp: indices_ok_def rows_fit_def)
  ultimately show ?case by (simp add: x all_inputs_simps row_writes_def set_status_def)
qed

lemma all_inputs_status:
  "fst (all_inputs n ins m) = (if indices_ok n ins then None else Some ''indices is out of range'')"
proof (induction ins rule: rev_induct)
  case Nil
  then show ?case by (simp add: all_inputs_simps indices_ok_def)
next
  case (snoc x ins)
  obtain xs rows where x: "x = (xs, rows)" by force
  obtain st m' where a: "all_inputs n ins m = (st, m')" by force
  obtain st' m'' where o: "on_input n 0 xs rows m' = (st', m'')" by force
  have "st' = (if \<forall>x\<in>set xs. fast_bounds_check x (int n) then None else Some ''indices is out of range'')"
    using on_input_status [of n 0 xs rows m'] o by simp
  then show ?case
    using snoc.IH a o by (auto simp: x all_inputs_simps set_status_def indices_ok_def)
qed

section \<open>The size of the output\<close>

definition all_indices :: "(int tensor \<times> 'e tensor) list \<Rightarrow> int set" where
  "all_indices inputs = (\<Union>(indices, data)\<in>set inputs. set (flat indices))"

lemma maximum_Max: "xs \<noteq> [] \<Longrightarrow> maximum xs = Max (set xs)"
  by (cases xs) (simp_all add: maximum_def Max.set_eq_fold [symmetric])

lemma first_dim_of_Max: "first_dim_of inputs = nat (Max (insert (-1) (all_indices inputs)) + 1)"
proof -
  let ?f = "\<lambda>(indices, _) max_index.
    if num_elements indices > 0 then max (maximum (flat indices)) max_index else max_index"
  have "fold ?f inputs m = Max (insert m (all_indices inputs))" for m
  proof (induction inputs arbitrary: m)
    case Nil
    then show ?case by (simp add: all_indices_def)
  next
    case (Cons x inputs)
    obtain indices data where x: "x = (indices, data)" by force
    have all: "all_indices (x # inputs) = set (flat indices) \<union> all_indices inputs"
      by (simp add: all_indices_def x)
    have fin: "finite (all_indices inputs)" by (auto simp: all_indices_def)
    show ?case
    proof (cases "flat indices = []")
      case True
      then show ?thesis using Cons all by (simp add: x num_elements_def)
    next
      case False
      have "Max (insert (max (Max (set (flat indices))) m) (all_indices inputs))
          = Max (insert m (set (flat indices) \<union> all_indices inputs))"
      proof (rule Max_eqI [symmetric])
        show "finite (insert m (set (flat indices) \<union> all_indices inputs))" using fin by simp
        let ?M = "Max (insert (max (Max (set (flat indices))) m) (all_indices inputs))"
        have ge: "max (Max (set (flat indices))) m \<le> ?M" "\<forall>z\<in>all_indices inputs. z \<le> ?M"
          using fin by (intro Max_ge, auto intro: Max_ge)
        show "y \<le> ?M" if y: "y \<in> insert m (set (flat indices) \<union> all_indices inputs)" for y
        proof -
          consider "y = m" | "y \<in> set (flat indices)" | "y \<in> all_indices inputs" using y by blast
          then show ?thesis
          proof cases
            case 2
            then have "y \<le> Max (set (flat indices))" by simp
            then show ?thesis using ge(1) by linarith
          qed (use ge in auto)
        qed
        have "?M \<in> insert (max (Max (set (flat indices))) m) (all_indices inputs)"
          using fin by (intro Max_in) simp_all
        moreover have "Max (set (flat indices)) \<in> set (flat indices)" using False by simp
        ultimately show "?M \<in> insert m (set (flat indices) \<union> all_indices inputs)"
          by (auto simp: max_def)
      qed
      then show ?thesis using Cons all False by (simp add: x num_elements_def maximum_Max)
    qed
  qed
  then show ?thesis unfolding first_dim_of_def by simp
qed

lemma finite_all_indices: "finite (all_indices inputs)"
  by (auto simp: all_indices_def)

lemma index_below_first_dim: "x \<in> all_indices inputs \<Longrightarrow> x < int (first_dim_of inputs)"
proof -
  assume x: "x \<in> all_indices inputs"
  let ?M = "Max (insert (-1) (all_indices inputs))"
  have "x \<le> ?M" "-1 \<le> ?M" using x finite_all_indices [of inputs] by simp_all
  then show ?thesis by (simp add: first_dim_of_Max)
qed

lemma first_dim_of_cover:
  assumes "all_indices inputs = int ` {..<n}"
  shows "first_dim_of inputs = n"
proof -
  have "Max (insert (-1) (int ` {..<n})) = int n - 1"
  proof (rule Max_eqI)
    show "int n - 1 \<in> insert (-1) (int ` {..<n})"
      by (cases n) auto
  qed auto
  then show ?thesis by (simp add: first_dim_of_Max assms)
qed

section \<open>The operation\<close>

definition inputs_shaped :: "(int tensor \<times> 'e tensor) list \<Rightarrow> bool" where
  "inputs_shaped inputs \<longleftrightarrow> (\<forall>(indices, data)\<in>set inputs. well_shaped indices \<and> well_shaped data)"

definition slice_size_of :: "(int tensor \<times> 'e tensor) list \<Rightarrow> nat" where
  "slice_size_of inputs = prod_list (extra_shape inputs)"

definition rows_of :: "(int tensor \<times> 'e tensor) list \<Rightarrow> (int list \<times> 'e list list) list" where
  "rows_of inputs = map (input_rows (slice_size_of inputs)) inputs"

lemma rows_of_fit [simp]: "rows_fit (rows_of inputs)"
  by (auto simp: rows_fit_def rows_of_def input_rows_def num_elements_def)

lemma rows_of_indices: "indices_ok (first_dim_of inputs) (rows_of inputs) \<longleftrightarrow> (\<forall>x\<in>all_indices inputs. 0 \<le> x)"
  using index_below_first_dim [of _ inputs]
  by (fastforce simp: indices_ok_def rows_of_def input_rows_def all_indices_def fast_bounds_check_def)

lemma dynamic_stitch_checked:
  assumes "check_shapes inputs = None" "alloc = None"
  shows "dynamic_stitch None alloc mem inputs =
    (if first_dim_of inputs > 0 \<and> \<not> (\<forall>x\<in>all_indices inputs. 0 \<le> x)
     then Inl ''indices is out of range''
     else Inr \<lparr>shape_of = first_dim_of inputs # extra_shape inputs,
       flat = concat (apply_writes (row_writes (rows_of inputs))
                (merged_memory mem (first_dim_of inputs) (slice_size_of inputs)))\<rparr>)"
proof -
  let ?n = "first_dim_of inputs"
  let ?m = "merged_memory mem ?n (slice_size_of inputs)"
  have args: "check_args_and_allocate_result alloc inputs = Inr (?n # extra_shape inputs)"
    using assms by (simp add: check_args_and_allocate_result_def)
  consider "?n = 0" | "?n > 0" "indices_ok ?n (rows_of inputs)" | "?n > 0" "\<not> indices_ok ?n (rows_of inputs)"
    by blast
  then show ?thesis
  proof cases
    case 1
    then have "?m = []" by (simp add: merged_memory_def row_view_def)
    moreover have "apply_writes ws [] = []" for ws :: "(nat \<times> 'a list) list"
      using length_apply_writes [of ws "[] :: 'a list list"] by (simp del: length_apply_writes)
    ultimately show ?thesis using args 1
      by (simp add: dynamic_stitch_def slice_size_of_def)
  next
    case 2
    then have "\<forall>x\<in>all_indices inputs. 0 \<le> x" using rows_of_indices by blast
    then show ?thesis using args 2 all_inputs_ok [OF 2(2) rows_of_fit, of ?m]
      by (simp add: dynamic_stitch_def slice_size_of_def rows_of_def Let_def)
  next
    case 3
    then have neg: "\<not> (\<forall>x\<in>all_indices inputs. 0 \<le> x)" using rows_of_indices by blast
    have "fst (all_inputs ?n (rows_of inputs) ?m) = Some ''indices is out of range''"
      using all_inputs_status [of ?n "rows_of inputs" ?m] 3(2) by simp
    then obtain m' where "all_inputs ?n (rows_of inputs) ?m = (Some ''indices is out of range'', m')"
      by (metis prod.collapse)
    then show ?thesis using args 3(1) neg
      by (auto simp: dynamic_stitch_def slice_size_of_def rows_of_def)
  qed
qed

section \<open>Shapes that have passed the checks\<close>

lemma same_extra_shape_drop:
  assumes "same_extra_shape data0 indices0 data1 indices1"
    "starts_with (shape_of data0) (shape_of indices0)" "starts_with (shape_of data1) (shape_of indices1)"
  shows "drop (length (shape_of indices1)) (shape_of data1) = drop (length (shape_of indices0)) (shape_of data0)"
proof -
  let ?a = "length (shape_of data0)" let ?b = "length (shape_of indices0)"
  let ?c = "length (shape_of data1)" let ?d = "length (shape_of indices1)"
  have le: "?b \<le> ?a" "?d \<le> ?c" using assms(2,3) by (auto simp: starts_with_def)
  have eq: "int ?a - int ?b = int ?c - int ?d"
    and all: "\<forall>i<nat (int ?a - int ?b). shape_of data0 ! (?b + i) = shape_of data1 ! (?d + i)"
    using assms(1) by (auto simp: same_extra_shape_def Let_def list_all_iff split: if_splits)
  show ?thesis
  proof (rule nth_equalityI)
    show "length (drop ?d (shape_of data1)) = length (drop ?b (shape_of data0))" using eq le by simp
    fix i
    assume "i < length (drop ?d (shape_of data1))"
    then have "i < nat (int ?a - int ?b)" using eq by simp
    then show "drop ?d (shape_of data1) ! i = drop ?b (shape_of data0) ! i" using all le by simp
  qed
qed

lemma check_inputs_None:
  "check_inputs indices0 data0 k inputs = None \<Longrightarrow> starts_with (shape_of data0) (shape_of indices0) \<Longrightarrow>
   k > 0 \<or> (\<exists>rest. inputs = (indices0, data0) # rest) \<Longrightarrow> (indices, data) \<in> set inputs \<Longrightarrow>
   starts_with (shape_of data) (shape_of indices) \<and>
     drop (length (shape_of indices)) (shape_of data) = drop (length (shape_of indices0)) (shape_of data0)"
  by (induction indices0 data0 k inputs rule: check_inputs.induct)
    (auto split: if_splits dest: same_extra_shape_drop)

lemma checked_shape:
  assumes "check_shapes inputs = None" "(indices, data) \<in> set inputs"
  shows "starts_with (shape_of data) (shape_of indices)"
    "drop (length (shape_of indices)) (shape_of data) = extra_shape inputs"
proof -
  obtain indices0 data0 rest where inputs: "inputs = (indices0, data0) # rest"
    using assms(2) by (cases inputs) auto
  then have c: "check_inputs indices0 data0 0 inputs = None" using assms(1) by (simp add: check_shapes_def)
  then have "starts_with (shape_of data0) (shape_of indices0)" by (simp add: inputs split: if_splits)
  from check_inputs_None [OF c this _ assms(2)]
  show "starts_with (shape_of data) (shape_of indices)"
    "drop (length (shape_of indices)) (shape_of data) = extra_shape inputs"
    by (simp_all add: inputs extra_shape_def)
qed

lemma checked_size:
  assumes "check_shapes inputs = None" "inputs_shaped inputs" "(indices, data) \<in> set inputs"
  shows "length (flat data) = num_elements indices * slice_size_of inputs"
proof -
  have "shape_of data = shape_of indices @ extra_shape inputs"
    using checked_shape [OF assms(1,3)] by (metis append_take_drop_id starts_with_def)
  moreover have "well_shaped indices" "well_shaped data" using assms(2,3) by (auto simp: inputs_shaped_def)
  ultimately show ?thesis by (simp add: well_shaped_def num_elements_def slice_size_of_def)
qed

section \<open>Schedules of the parallel version\<close>

definition complete_schedule :: "nat list \<Rightarrow> (int list \<times> 'r list) list \<Rightarrow> bool" where
  "complete_schedule schedule ins \<longleftrightarrow> (\<forall>k<length ins. length (fst (ins ! k)) \<le> count_list schedule k)"

text \<open>The writes that the first \<open>i\<close> copies of one input make.\<close>

definition first_writes :: "nat \<Rightarrow> int list \<times> 'r list \<Rightarrow> (nat \<times> 'r) list" where
  "first_writes i input = take i (zip (map nat (fst input)) (snd input))"

definition writes_done :: "(int list \<times> 'r list) list \<Rightarrow> 'r list \<Rightarrow> 'r stitch_state \<Rightarrow> bool" where
  "writes_done ins m s \<longleftrightarrow> (\<exists>ws. merged_rows s = apply_writes ws m \<and>
     mset ws = (\<Sum>k<length ins. mset (first_writes (pos s ! k) (ins ! k))))"

definition progress ::
  "nat \<Rightarrow> (int list \<times> 'r list) list \<Rightarrow> 'r list \<Rightarrow> nat list \<Rightarrow> 'r stitch_state \<Rightarrow> bool" where
  "progress n ins m schedule s \<longleftrightarrow>
     context_status s = None \<and> stopped s = replicate (length ins) False \<and> length (pos s) = length ins \<and>
     (\<forall>k<length ins. pos s ! k = min (length (fst (ins ! k))) (count_list schedule k)) \<and>
     writes_done ins m s"

lemma progress_start: "progress n ins m [] (stitch_start (length ins) m)"
proof -
  have "m = apply_writes [] m \<and> mset [] = (\<Sum>k<length ins. mset (first_writes (replicate (length ins) 0 ! k) (ins ! k)))"
    by (simp add: first_writes_def)
  then show ?thesis unfolding progress_def writes_done_def by (simp add: stitch_start_def)
qed

lemma first_writes_Suc:
  assumes "i < length (fst input)" "length (snd input) = length (fst input)"
  shows "first_writes (Suc i) input = first_writes i input @ [(nat (fst input ! i), snd input ! i)]"
  using assms by (simp add: first_writes_def take_Suc_conv_app_nth)

lemma progress_step:
  assumes ok: "indices_ok n ins" "rows_fit ins" and p: "progress n ins m schedule s"
  shows "progress n ins m (schedule @ [k]) (stitch_step n ins k s)"
proof (cases "k < length ins \<and> pos s ! k < length (fst (ins ! k))")
  case False
  have "stitch_step n ins k s = s"
    using False p by (auto simp: stitch_step_def progress_def Let_def split_beta)
  moreover have "min (length (fst (ins ! j))) (count_list (schedule @ [k]) j)
      = min (length (fst (ins ! j))) (count_list schedule j)" if "j < length ins" for j
    using that False p by (auto simp: progress_def)
  ultimately show ?thesis using p by (simp add: progress_def)
next
  case True
  let ?i = "pos s ! k" let ?xs = "fst (ins ! k)" let ?rows = "snd (ins ! k)"
  obtain ws where ws: "merged_rows s = apply_writes ws m"
    "mset ws = (\<Sum>k<length ins. mset (first_writes (pos s ! k) (ins ! k)))"
    and s: "context_status s = None" "stopped s = replicate (length ins) False" "length (pos s) = length ins"
      "\<forall>k<length ins. pos s ! k = min (length (fst (ins ! k))) (count_list schedule k)"
    using p unfolding progress_def writes_done_def by blast
  have mem: "ins ! k \<in> set ins" using True by simp
  have fit: "length ?rows = length ?xs" using ok(2) mem by (auto simp: rows_fit_def split_beta)
  have "fast_bounds_check (?xs ! ?i) (int n)"
  proof -
    have "\<forall>x\<in>set ?xs. fast_bounds_check x (int n)"
      using ok(1) mem unfolding indices_ok_def split_beta by blast
    then show ?thesis using True nth_mem by blast
  qed
  then have step: "stitch_step n ins k s = s\<lparr>pos := (pos s)[k := Suc ?i],
      merged_rows := (merged_rows s)[nat (?xs ! ?i) := ?rows ! ?i]\<rparr>"
    using True s(2) by (simp add: stitch_step_def Let_def split_beta)
  let ?w = "(nat (?xs ! ?i), ?rows ! ?i)"
  have merged: "merged_rows (stitch_step n ins k s) = apply_writes (ws @ [?w]) m"
    using ws(1) by (simp add: step)
  have "(\<Sum>j<length ins. mset (first_writes ((pos s)[k := Suc ?i] ! j) (ins ! j)))
      = (\<Sum>j<length ins. mset (first_writes (pos s ! j) (ins ! j)) + (if j = k then {#?w#} else {#}))"
    using True s(3) first_writes_Suc [OF _ fit] by (intro sum.cong) (auto simp: nth_list_update)
  also have "\<dots> = mset (ws @ [?w])"
    using True ws(2) by (simp add: sum.distrib)
  finally have writes: "mset (ws @ [?w]) = (\<Sum>j<length ins. mset (first_writes ((pos s)[k := Suc ?i] ! j) (ins ! j)))"
    by simp
  have positions: "(pos s)[k := Suc ?i] ! j = min (length (fst (ins ! j))) (count_list (schedule @ [k]) j)"
    if "j < length ins" for j
    using that True s(3,4) by (auto simp: nth_list_update)
  have "writes_done ins m (stitch_step n ins k s)"
    unfolding writes_done_def using merged writes by (intro exI [of _ "ws @ [?w]"]) (simp add: step)
  then show ?thesis
    using s positions unfolding progress_def by (simp add: step)
qed

lemma progress_run:
  assumes "indices_ok n ins" "rows_fit ins"
  shows "progress n ins m schedule (parallel_inputs schedule n ins m)"
proof (induction schedule rule: rev_induct)
  case Nil
  then show ?case using progress_start by (simp add: parallel_inputs_def)
next
  case (snoc k schedule)
  then show ?case using progress_step [OF assms] by (simp add: parallel_inputs_def)
qed

lemma sum_first_writes:
  "rows_fit ins \<Longrightarrow> (\<Sum>k<length ins. mset (first_writes (length (fst (ins ! k))) (ins ! k))) = mset (row_writes ins)"
proof (induction ins rule: rev_induct)
  case Nil
  then show ?case by (simp add: row_writes_def)
next
  case (snoc x ins)
  have "(\<Sum>k<length ins. mset (first_writes (length (fst ((ins @ [x]) ! k))) ((ins @ [x]) ! k)))
      = (\<Sum>k<length ins. mset (first_writes (length (fst (ins ! k))) (ins ! k)))"
    by (intro sum.cong) (simp_all add: nth_append)
  then show ?case
    using snoc by (auto simp: rows_fit_def row_writes_def first_writes_def split_beta)
qed

lemma parallel_inputs_complete:
  assumes "indices_ok n ins" "rows_fit ins" "complete_schedule schedule ins"
    "distinct (map fst (row_writes ins))"
  shows "context_status (parallel_inputs schedule n ins m) = None"
    "merged_rows (parallel_inputs schedule n ins m) = apply_writes (row_writes ins) m"
proof -
  let ?s = "parallel_inputs schedule n ins m"
  have p: "progress n ins m schedule ?s" by (rule progress_run [OF assms(1,2)])
  then show "context_status ?s = None" by (simp add: progress_def)
  obtain ws where ws: "merged_rows ?s = apply_writes ws m"
    "mset ws = (\<Sum>k<length ins. mset (first_writes (pos ?s ! k) (ins ! k)))"
    using p unfolding progress_def writes_done_def by blast
  have "pos ?s ! k = length (fst (ins ! k))" if "k < length ins" for k
    using p that assms(3) by (simp add: progress_def complete_schedule_def)
  then have "mset ws = mset (row_writes ins)" using ws(2) sum_first_writes [OF assms(2)] by simp
  moreover from this have "mset (map fst ws) = mset (map fst (row_writes ins))" by simp
  then have "distinct (map fst ws)" using assms(4) mset_eq_imp_distinct_iff by blast
  ultimately show "merged_rows ?s = apply_writes (row_writes ins) m"
    using ws(1) apply_writes_perm by metis
qed

end
