(* ===== verification/Dynamic_Stitch_GPU_Spec.thy ===== *)
theory Dynamic_Stitch_GPU_Spec
  imports Dynamic_Stitch_Spec
begin

text \<open>
  The GPU kernels of stitching bring the rows to the same places as the CPU loop: the first
  for every list of non-negative indices, the second when the indices are distinct and no
  block of the launch visits more than one segment.
\<close>

section \<open>The prepared kernel\<close>

lemma set_indices_ok:
  "\<forall>x\<in>set xs. fast_bounds_check x (int (length arr)) \<Longrightarrow>
   set_indices base j xs arr
     = Some (apply_writes (zip (map nat xs) (map int [base + j..<base + j + length xs])) arr)"
proof (induction xs arbitrary: j arr)
  case Nil
  then show ?case by simp
next
  case (Cons x xs)
  have "[base + j..<base + j + length (x # xs)] = (base + j) # [base + Suc j..<base + Suc j + length xs]"
    by (simp only: list.size add_Suc_right add_Suc upt_rec [of "base + j"] add_0_right) simp
  then show ?case using Cons by simp
qed

lemma host_arrays_ok:
  assumes "\<forall>x\<in>all_indices inputs. fast_bounds_check x (int (length arr))"
    and "\<forall>(indices, data)\<in>set inputs. fits_int32 (num_elements indices * s)"
  shows "host_arrays s base inputs arr ptrs = Some
    (apply_writes (zip (concat (map (\<lambda>x. map nat (flat (fst x))) inputs))
        (map int [base..<base + length (concat (map (\<lambda>x. flat (fst x)) inputs))])) arr,
     ptrs @ concat (map (\<lambda>(indices, data). map (\<lambda>j. drop (j * s) (flat data)) [0..<num_elements indices]) inputs))"
  using assms
proof (induction inputs arbitrary: base arr ptrs)
  case Nil
  then show ?case by simp
next
  case (Cons input inputs)
  obtain indices data where input: "input = (indices, data)" by force
  let ?n = "length (flat indices)" let ?m = "length (concat (map (\<lambda>x. flat (fst x)) inputs))"
  have here: "set_indices base 0 (flat indices) arr
      = Some (apply_writes (zip (map nat (flat indices)) (map int [base..<base + ?n])) arr)"
    using Cons.prems(1) set_indices_ok [of "flat indices" arr base 0] by (simp add: all_indices_def input)
  have "[base..<base + ?n + ?m] = [base..<base + ?n] @ [base + ?n..<base + ?n + ?m]"
    by (metis le_add1 upt_add_eq_append)
  then have split: "zip (concat (map (\<lambda>x. map nat (flat (fst x))) (input # inputs)))
      (map int [base..<base + ?n + ?m])
    = zip (map nat (flat indices)) (map int [base..<base + ?n])
      @ zip (concat (map (\<lambda>x. map nat (flat (fst x))) inputs)) (map int [base + ?n..<base + ?n + ?m])"
    by (simp add: input)
  have rest: "\<forall>x\<in>all_indices inputs. fast_bounds_check x (int (length
      (apply_writes (zip (map nat (flat indices)) (map int [base..<base + ?n])) arr)))"
    using Cons.prems(1) by (simp add: all_indices_def)
  have "list_all (\<lambda>j. fits_int32 (j * s)) [0..<num_elements indices]"
  proof (simp only: list_all_iff, intro ballI)
    fix j
    assume "j \<in> set [0..<num_elements indices]"
    then have "j * s \<le> num_elements indices * s" by (intro mult_le_mono1) simp
    moreover have "num_elements indices * s < 2 ^ 31" using Cons.prems(2) by (simp add: input fits_int32_def)
    ultimately show "fits_int32 (j * s)" unfolding fits_int32_def by (rule le_less_trans)
  qed
  then show ?case
    using Cons.IH [OF rest, of "base + ?n"] Cons.prems(2) split here
    by (simp add: input num_elements_def add.assoc)
qed

lemma fold_update_each:
  "length out = n \<Longrightarrow> m \<le> n \<Longrightarrow>
   fold (\<lambda>k out. if c k then out[k := v k] else out) [0..<m] out
     = map (\<lambda>k. if k < m \<and> c k then v k else out ! k) [0..<n]"
proof (induction m)
  case 0
  then show ?case by (auto intro!: nth_equalityI)
next
  case (Suc m)
  then show ?case by (auto intro!: nth_equalityI simp: nth_list_update less_Suc_eq)
qed

lemma concat_uniform:
  assumes "\<And>i. i < n \<Longrightarrow> length (f i) = s"
  shows "concat (map f [0..<n]) = map (\<lambda>k. f (k div s) ! (k mod s)) [0..<n * s]"
  using assms
proof (induction n)
  case 0
  then show ?case by simp
next
  case (Suc n)
  have "f n = map (\<lambda>k. f (k div s) ! (k mod s)) [n * s..<n * s + s]"
  proof (rule nth_equalityI)
    fix j
    assume "j < length (f n)"
    then have j: "j < s" using Suc.prems [of n] by simp
    then have "(n * s + j) div s = n" "(n * s + j) mod s = j" by simp_all
    with j show "f n ! j = map (\<lambda>k. f (k div s) ! (k mod s)) [n * s..<n * s + s] ! j"
      by simp
  qed (use Suc.prems [of n] in simp)
  moreover have "[0..<Suc n * s] = [0..<n * s] @ [n * s..<n * s + s]"
    by (metis add.commute le0 mult_Suc upt_add_eq_append)
  ultimately show ?case using Suc by simp
qed

lemma stitch_kernel_rows:
  assumes "length output = n * s" "length idx = n"
    "\<forall>p<n. idx ! p \<noteq> -1 \<longrightarrow> s \<le> length (ptrs ! nat (idx ! p))"
  shows "stitch_kernel s (n * s) idx ptrs output
    = concat (map (\<lambda>p. if idx ! p \<noteq> -1 then take s (ptrs ! nat (idx ! p)) else take s (drop (p * s) output)) [0..<n])"
proof -
  let ?f = "\<lambda>p. if idx ! p \<noteq> -1 then take s (ptrs ! nat (idx ! p)) else take s (drop (p * s) output)"
  let ?v = "\<lambda>k. ptrs ! nat (idx ! (k div s)) ! (k mod s)"
  have len: "length (?f p) = s" if "p < n" for p
  proof -
    have "Suc p * s \<le> n * s" using that by (intro mult_le_mono1) simp
    then show ?thesis using that assms(1,3) by auto
  qed
  have "stitch_kernel s (n * s) idx ptrs output
      = map (\<lambda>k. if k < n * s \<and> idx ! (k div s) \<noteq> -1 then ?v k else output ! k) [0..<n * s]"
    unfolding stitch_kernel_def Let_def by (rule fold_update_each [OF assms(1)]) simp
  also have "\<dots> = map (\<lambda>k. ?f (k div s) ! (k mod s)) [0..<n * s]"
  proof (rule map_cong [OF refl])
    fix k
    assume "k \<in> set [0..<n * s]"
    then have k: "k < n * s" by simp
    then have s: "s > 0" by (cases s) auto
    have row: "k div s < n" using k by (simp add: less_mult_imp_div_less)
    have "k mod s < s" using s by simp
    have "k div s * s \<le> length output" using row assms(1) by simp
    then have "drop (k div s * s) output ! (k mod s) = output ! k" by (subst nth_drop) simp_all
    then show "(if k < n * s \<and> idx ! (k div s) \<noteq> -1 then ?v k else output ! k) = ?f (k div s) ! (k mod s)"
      using k \<open>k mod s < s\<close> by simp
  qed
  also have "\<dots> = concat (map ?f [0..<n])" using len by (rule concat_uniform [symmetric])
  finally show ?thesis .
qed

lemma map_of_rev_zip_map: "map_of (rev (zip ps (map f ns))) = map_option f \<circ> map_of (rev (zip ps ns))"
proof -
  have "rev (zip ps (map f ns)) = map (\<lambda>(p, x). (p, f x)) (rev (zip ps ns))"
    by (simp add: zip_map2 rev_map)
  then show ?thesis by (simp add: map_of_map)
qed

lemma numbered_rows:
  assumes "length P = length ptrs" "length m = n"
  shows "map (\<lambda>p. if apply_writes (zip P (map int [0..<length P])) (replicate n (-1)) ! p \<noteq> -1
        then f (ptrs ! nat (apply_writes (zip P (map int [0..<length P])) (replicate n (-1)) ! p)) else m ! p) [0..<n]
    = apply_writes (zip P (map f ptrs)) m"
proof (rule nth_equalityI)
  let ?idx = "apply_writes (zip P (map int [0..<length P])) (replicate n (-1))"
  show "length (map (\<lambda>p. if ?idx ! p \<noteq> -1 then f (ptrs ! nat (?idx ! p)) else m ! p) [0..<n])
      = length (apply_writes (zip P (map f ptrs)) m)" using assms(2) by simp
  fix p
  assume "p < length (map (\<lambda>p. if ?idx ! p \<noteq> -1 then f (ptrs ! nat (?idx ! p)) else m ! p) [0..<n])"
  then have p: "p < n" by simp
  let ?find = "map_of (rev (zip P [0..<length P])) p"
  have idx: "?idx ! p = (case ?find of None \<Rightarrow> -1 | Some j \<Rightarrow> int j)"
    using p by (simp add: nth_apply_writes map_of_rev_zip_map split: option.split)
  have "map f ptrs = map (\<lambda>j. f (ptrs ! j)) [0..<length P]"
    using assms(1) by (auto intro!: nth_equalityI)
  then have "apply_writes (zip P (map f ptrs)) m ! p = (case ?find of None \<Rightarrow> m ! p | Some j \<Rightarrow> f (ptrs ! j))"
    using p assms(2) by (simp add: nth_apply_writes map_of_rev_zip_map split: option.split)
  then show "map (\<lambda>p. if ?idx ! p \<noteq> -1 then f (ptrs ! nat (?idx ! p)) else m ! p) [0..<n] ! p
      = apply_writes (zip P (map f ptrs)) m ! p"
    using p idx by (simp split: option.split)
qed

definition input_pointers :: "nat \<Rightarrow> (int tensor \<times> 'e tensor) list \<Rightarrow> 'e list list" where
  "input_pointers s inputs =
     concat (map (\<lambda>(indices, data). map (\<lambda>j. drop (j * s) (flat data)) [0..<num_elements indices]) inputs)"

lemma input_rows_pointers:
  "concat (map snd (map (input_rows s) inputs)) = map (take s) (input_pointers s inputs)"
  by (induction inputs) (auto simp: input_rows_def input_pointers_def row_view_def)

lemma length_input_pointers:
  "length (input_pointers s inputs) = length (concat (map (\<lambda>x. map nat (flat (fst x))) inputs))"
  by (induction inputs) (auto simp: input_pointers_def num_elements_def)

lemma input_pointers_long:
  assumes "\<forall>(indices, data)\<in>set inputs. length (flat data) = num_elements indices * s"
    "r \<in> set (input_pointers s inputs)"
  shows "s \<le> length r"
proof -
  obtain indices data j where r: "(indices, data) \<in> set inputs" "j < num_elements indices" "r = drop (j * s) (flat data)"
    using assms(2) by (auto simp: input_pointers_def)
  have "Suc j * s \<le> num_elements indices * s" using r(2) by (intro mult_le_mono1) simp
  then show ?thesis using assms(1) r by auto
qed

lemma rows_of_writes:
  "row_writes (rows_of inputs)
    = zip (concat (map (\<lambda>x. map nat (flat (fst x))) inputs))
        (map (take (slice_size_of inputs)) (input_pointers (slice_size_of inputs) inputs))"
proof -
  have "row_writes (rows_of inputs)
      = zip (concat (map (map nat \<circ> fst) (rows_of inputs))) (concat (map snd (rows_of inputs)))"
    by (rule row_writes_zip) (use rows_of_fit in \<open>simp add: rows_fit_def\<close>)
  moreover have "map (map nat \<circ> fst) (rows_of inputs) = map (\<lambda>x. map nat (flat (fst x))) inputs"
    by (simp add: rows_of_def input_rows_def split_beta)
  ultimately show ?thesis unfolding rows_of_def input_rows_pointers by metis
qed

lemma distinct_row_writes:
  assumes "\<forall>x\<in>all_indices inputs. 0 \<le> x" "distinct (concat (map (\<lambda>x. flat (fst x)) inputs))"
  shows "distinct (map fst (row_writes (rows_of inputs)))"
proof -
  have keys: "map fst (row_writes (rows_of inputs)) = map nat (concat (map (\<lambda>x. flat (fst x)) inputs))"
    using length_input_pointers [of "slice_size_of inputs" inputs] by (simp add: rows_of_writes map_concat comp_def)
  have "set (concat (map (\<lambda>x. flat (fst x)) inputs)) = all_indices inputs"
    by (auto simp: all_indices_def split_beta)
  moreover have "inj_on nat (all_indices inputs)"
    using assms(1) by (intro inj_onI) (simp add: eq_nat_nat_iff)
  ultimately have "inj_on nat (set (concat (map (\<lambda>x. flat (fst x)) inputs)))" by simp
  then show ?thesis using assms(2) unfolding keys by (simp only: distinct_map)
qed

text \<open>Every number the GPU kernels keep in an \<open>int32\<close> holds its value.\<close>

definition stitch_fits :: "(int tensor \<times> 'e tensor) list \<Rightarrow> bool" where
  "stitch_fits inputs \<longleftrightarrow>
     fits_int32 (first_dim_of inputs) \<and>
     fits_int32 (length (concat (map (\<lambda>x. flat (fst x)) inputs))) \<and>
     fits_int32 (slice_size_of inputs) \<and>
     fits_int32 (first_dim_of inputs * slice_size_of inputs) \<and>
     (\<forall>(indices, data)\<in>set inputs. fits_int32 (num_elements indices * slice_size_of inputs))"

lemma fold_num_elements:
  "fold (\<lambda>(indices, _) n. n + num_elements indices) inputs k
    = k + length (concat (map (\<lambda>x. flat (fst x)) inputs))"
  by (induction inputs arbitrary: k) (auto simp: num_elements_def)

lemma dynamic_stitch_gpu_spec:
  assumes ws: "inputs_shaped inputs" and nonneg: "\<forall>x\<in>all_indices inputs. 0 \<le> x"
    and fits: "stitch_fits inputs" and arrays: "first_status arrays = None"
  shows "dynamic_stitch_gpu arrays alloc mem inputs = Some (dynamic_stitch None alloc mem inputs)"
proof (cases "check_shapes inputs = None \<and> alloc = None")
  case False
  then obtain msg where "check_args_and_allocate_result alloc inputs = Inl msg"
    by (cases "check_shapes inputs"; cases alloc) (auto simp: check_args_and_allocate_result_def Let_def)
  then show ?thesis using fits
    by (simp add: dynamic_stitch_gpu_def dynamic_stitch_def fold_num_elements stitch_fits_def Let_def)
next
  case True
  let ?n = "first_dim_of inputs" let ?s = "slice_size_of inputs"
  let ?P = "concat (map (\<lambda>x. map nat (flat (fst x))) inputs)" let ?ptrs = "input_pointers ?s inputs"
  let ?out = "map mem [0..<?n * ?s]"
  let ?idx = "apply_writes (zip ?P (map int [0..<length ?P])) (replicate ?n (-1))"
  have args: "check_args_and_allocate_result alloc inputs = Inr (?n # extra_shape inputs)"
    using True by (simp add: check_args_and_allocate_result_def)
  have cpu: "dynamic_stitch None alloc mem inputs = Inr \<lparr>shape_of = ?n # extra_shape inputs,
      flat = concat (apply_writes (row_writes (rows_of inputs)) (merged_memory mem ?n ?s))\<rparr>"
    using dynamic_stitch_checked [of inputs alloc mem] True nonneg by simp
  show ?thesis
  proof (cases "?n > 0")
    case False
    then have "merged_memory mem ?n ?s = []" by (simp add: merged_memory_def row_view_def)
    then show ?thesis using False args cpu length_apply_writes [of _ "merged_memory mem ?n ?s"]
      using fits
      by (simp add: dynamic_stitch_gpu_def slice_size_of_def fold_num_elements stitch_fits_def Let_def
          del: length_apply_writes)
  next
    case pos: True
    have bounds: "\<forall>x\<in>all_indices inputs. fast_bounds_check x (int (length (replicate ?n (-1::int))))"
      using nonneg index_below_first_dim by (auto simp: fast_bounds_check_def)
    have sizes: "\<forall>(indices, data)\<in>set inputs. length (flat data) = num_elements indices * ?s"
      using checked_size [OF _ ws] True by blast
    have len: "length (concat (map (\<lambda>x. flat (fst x)) inputs)) = length ?P"
      by (induction inputs) auto
    have small: "\<forall>(indices, data)\<in>set inputs. fits_int32 (num_elements indices * ?s)"
      using fits unfolding stitch_fits_def by blast
    have host: "host_arrays ?s 0 inputs (replicate ?n (-1)) [] = Some (?idx, ?ptrs)"
      unfolding host_arrays_ok [OF bounds small] len by (simp add: input_pointers_def)
    have number: "nat (?idx ! p) < length ?ptrs" if "p < ?n" "?idx ! p \<noteq> -1" for p
      using that length_input_pointers [of ?s inputs]
      by (auto simp: nth_apply_writes map_of_rev_zip_map split: option.splits dest!: map_of_SomeD set_zip_rightD)
    have "stitch_kernel ?s (?n * ?s) ?idx ?ptrs ?out
        = concat (map (\<lambda>p. if ?idx ! p \<noteq> -1 then take ?s (?ptrs ! nat (?idx ! p)) else take ?s (drop (p * ?s) ?out)) [0..<?n])"
      by (rule stitch_kernel_rows) (use number input_pointers_long [OF sizes] nth_mem in auto)
    also have "\<dots> = concat (map (\<lambda>p. if ?idx ! p \<noteq> -1 then take ?s (?ptrs ! nat (?idx ! p)) else merged_memory mem ?n ?s ! p) [0..<?n])"
      by (intro arg_cong [of _ _ concat] map_cong) (simp_all add: merged_memory_def nth_row_view)
    also have "\<dots> = concat (apply_writes (zip ?P (map (take ?s) ?ptrs)) (merged_memory mem ?n ?s))"
      using numbered_rows [of ?P ?ptrs "merged_memory mem ?n ?s" ?n "take ?s"] length_input_pointers [of ?s inputs]
      by (simp add: merged_memory_def)
    finally have kernel: "stitch_kernel ?s (?n * ?s) ?idx ?ptrs ?out
        = concat (apply_writes (row_writes (rows_of inputs)) (merged_memory mem ?n ?s))"
      by (simp only: rows_of_writes)
    have "dynamic_stitch_gpu arrays alloc mem inputs = Some (Inr \<lparr>shape_of = ?n # extra_shape inputs,
        flat = stitch_kernel ?s (?n * ?s) ?idx ?ptrs ?out\<rparr>)"
      using args pos host arrays fits unfolding slice_size_of_def
      by (simp add: dynamic_stitch_gpu_def fold_num_elements stitch_fits_def slice_size_of_def Let_def)
    then show ?thesis using cpu kernel by simp
  qed
qed

end
