(* ===== verification/Dynamic_Stitch_Fast_Spec.thy ===== *)
theory Dynamic_Stitch_Fast_Spec
  imports Dynamic_Stitch_GPU_Spec
begin

text \<open>
  The kernel of \<open>DynamicStitchFast\<close>, thread by thread.  Its blocks share three variables
  that each thread assigns without any barrier, so the schedule matters as soon as one block
  visits two segments.  For launches whose blocks visit one segment each, every complete
  schedule computes what the CPU computes, provided that no index occurs twice.
\<close>

section \<open>Copying one row\<close>

lemma copy_element_int:
  "d < length out \<Longrightarrow> src < length data \<Longrightarrow> fits_int32 (length out) \<Longrightarrow> fits_int32 (length data) \<Longrightarrow>
   copy_element (int d) src data (Some out) = Some (out[d := data ! src])"
  by (simp add: copy_element_def fast_bounds_check_def fits_int32_def)

lemma copy_element_fold:
  assumes "(d + 1) * s \<le> length out" "(i + 1) * s \<le> length data" "m \<le> s"
    and fits: "fits_int32 (length out)" "fits_int32 (length data)"
  shows "fold (\<lambda>j. copy_element (int (d * s) + int j) (i * s + j) data) [0..<m] (Some out)
    = Some (map (\<lambda>k. if d * s \<le> k \<and> k < d * s + m then data ! (i * s + (k - d * s)) else out ! k) [0..<length out])"
  using assms(3)
proof (induction m)
  case 0
  then show ?case by (auto intro!: nth_equalityI)
next
  case (Suc m)
  have dst: "d * s + m < length out" and src: "i * s + m < length data" using Suc.prems assms(1,2) by simp_all
  have step: "copy_element (int (d * s) + int m) (i * s + m) data (Some o')
      = Some (o'[d * s + m := data ! (i * s + m)])" if "length o' = length out" for o'
    using copy_element_int [of "d * s + m" o'] dst src that fits by (simp only: of_nat_add)
  let ?g = "\<lambda>m. map (\<lambda>k. if d * s \<le> k \<and> k < d * s + m then data ! (i * s + (k - d * s)) else out ! k) [0..<length out]"
  have "[0..<Suc m] = [0..<m] @ [m]" by simp
  moreover have "(?g m)[d * s + m := data ! (i * s + m)] = ?g (Suc m)"
    using dst by (intro nth_equalityI) (auto simp: nth_list_update)
  ultimately show ?case using Suc.IH Suc.prems step [of "?g m"]
    by (simp only: fold_append fold_simps comp_apply id_apply length_map length_upt diff_zero Suc_leD)
qed

lemma copy_data_row_spec:
  assumes "length out = N * s" "i < length idx" "idx ! i = int d" "d < N" "length data = length idx * s"
    and fits: "fits_int32 (N * s)" "fits_int32 (length data)"
  shows "\<exists>out'. copy_data_row s (n, idx, data) i (Some out) = Some out' \<and> length out' = N * s \<and>
    row_view s N out' = (row_view s N out)[d := take s (drop (i * s) data)]"
proof -
  let ?out = "map (\<lambda>k. if d * s \<le> k \<and> k < d * s + s then data ! (i * s + (k - d * s)) else out ! k) [0..<length out]"
  have d: "(d + 1) * s \<le> length out" unfolding assms(1) using assms(4) by (intro mult_le_mono1) simp
  have i: "(i + 1) * s \<le> length data" unfolding assms(5) using assms(2) by (intro mult_le_mono1) simp
  have "copy_data_row s (n, idx, data) i (Some out) = Some ?out"
    using assms(2,3) copy_element_fold [OF d i order_refl] fits assms(1) by (simp add: copy_data_row_def Let_def)
  moreover have "row_view s N ?out = (row_view s N out)[d := take s (drop (i * s) data)]"
  proof (rule nth_equalityI)
    fix p
    assume "p < length (row_view s N ?out)"
    then have p: "p < N" by simp
    have fits: "p * s + s \<le> length out" using p assms(1) mult_le_mono1 [of "Suc p" N s] by simp
    show "row_view s N ?out ! p = (row_view s N out)[d := take s (drop (i * s) data)] ! p"
    proof (cases "p = d")
      case True
      have "take s (drop (d * s) ?out) = take s (drop (i * s) data)"
        by (rule nth_equalityI) (use d i in auto)
      then show ?thesis using True p by (simp add: nth_row_view)
    next
      case False
      have "p * s + j < d * s \<or> d * s + s \<le> p * s + j" if "j < s" for j
      proof (cases "p < d")
        case True
        then have "Suc p * s \<le> d * s" by (intro mult_le_mono1) simp
        then show ?thesis using that by simp
      next
        case False
        then have "Suc d * s \<le> p * s" using \<open>p \<noteq> d\<close> by (intro mult_le_mono1) simp
        then show ?thesis by simp
      qed
      then have "take s (drop (p * s) ?out) = take s (drop (p * s) out)"
        using fits by (intro nth_equalityI) fastforce+
      then show ?thesis using False p by (simp add: nth_row_view)
    qed
  qed simp
  ultimately show ?thesis using assms(1) by (intro exI [of _ ?out]) simp
qed

lemma apply_writes_same_set:
  assumes "set ws = set ws'" "distinct (map fst ws')"
  shows "apply_writes ws m = apply_writes ws' m"
proof (rule nth_equalityI)
  fix p
  assume "p < length (apply_writes ws m)"
  then have p: "p < length m" by simp
  have "map_of (rev ws) p = map_of (rev ws') p"
  proof (cases "map_of (rev ws) p")
    case None
    then have "p \<notin> fst ` set ws'" using assms(1) by (simp add: map_of_eq_None_iff)
    then show ?thesis using None by (metis map_of_eq_None_iff set_rev)
  next
    case (Some r)
    then have "(p, r) \<in> set (rev ws')" using assms(1) map_of_SomeD by fastforce
    moreover have "distinct (map fst (rev ws'))" using assms(2) by (simp add: rev_map [symmetric])
    ultimately show ?thesis using Some by (simp add: map_of_is_SomeI)
  qed
  with p show "apply_writes ws m ! p = apply_writes ws' m ! p" by (simp add: nth_apply_writes)
qed simp

section \<open>Launches\<close>

definition one_segment_per_block :: "launch_config \<Rightarrow> nat \<Rightarrow> bool" where
  "one_segment_per_block cfg nsegments \<longleftrightarrow>
     length (block_of cfg) = length (y_range cfg) \<and>
     (\<forall>t<length (y_range cfg). \<exists>k<nsegments. y_range cfg ! t = [k]) \<and>
     (\<forall>t<length (y_range cfg). \<forall>u<length (y_range cfg).
        block_of cfg ! t = block_of cfg ! u \<longrightarrow> y_range cfg ! t = y_range cfg ! u)"

definition covers :: "launch_config \<Rightarrow> 'e segment list \<Rightarrow> bool" where
  "covers cfg segs \<longleftrightarrow>
     (\<forall>t<length (y_range cfg). \<forall>seg\<in>set segs. set (x_range cfg t (fst seg)) \<subseteq> {..<fst seg}) \<and>
     (\<forall>k<length segs. \<forall>i<fst (segs ! k). \<exists>t<length (y_range cfg).
        y_range cfg ! t = [k] \<and> i \<in> set (x_range cfg t (fst (segs ! k))))"

definition segments_ok :: "nat \<Rightarrow> nat \<Rightarrow> 'e segment list \<Rightarrow> bool" where
  "segments_ok s N segs \<longleftrightarrow> fits_int32 (N * s) \<and> (\<forall>(n, idx, data)\<in>set segs.
     length idx = n \<and> length data = n * s \<and> fits_int32 (n * s) \<and> (\<forall>x\<in>set idx. fast_bounds_check x (int N)))"

definition seg_write :: "nat \<Rightarrow> 'e segment \<Rightarrow> nat \<Rightarrow> nat \<times> 'e list" where
  "seg_write s seg i = (case seg of (n, idx, data) \<Rightarrow> (nat (idx ! i), take s (drop (i * s) data)))"

definition seg_writes :: "nat \<Rightarrow> 'e segment list \<Rightarrow> (nat \<times> 'e list) list" where
  "seg_writes s segs = concat (map (\<lambda>seg. map (seg_write s seg) [0..<fst seg]) segs)"

lemma copy_data_row_write:
  assumes "segments_ok s N segs" "seg \<in> set segs" "i < fst seg" "length out = N * s"
    "row_view s N out = apply_writes ws m"
  shows "\<exists>out'. copy_data_row s seg i (Some out) = Some out' \<and> length out' = N * s \<and>
    row_view s N out' = apply_writes (ws @ [seg_write s seg i]) m"
proof -
  obtain n idx data where seg: "seg = (n, idx, data)" by (cases seg) auto
  have ok: "length idx = n" "length data = length idx * s" "\<forall>x\<in>set idx. fast_bounds_check x (int N)"
    and fits: "fits_int32 (N * s)" "fits_int32 (length data)"
    using assms(1,2) by (auto simp: segments_ok_def seg)
  then have len: "i < length idx" using assms(3) by (simp add: seg)
  then have "fast_bounds_check (idx ! i) (int N)" using ok(3) nth_mem by blast
  then have i: "i < length idx" "0 \<le> idx ! i" "nat (idx ! i) < N"
    using len by (auto simp: fast_bounds_check_def)
  then show ?thesis
    using copy_data_row_spec [OF assms(4) i(1) _ i(3) ok(2) fits] assms(5) by (simp add: seg seg_write_def)
qed

section \<open>The invariant of a launch\<close>

text \<open>The rows that thread \<open>t\<close> has still to copy, given the segment it works on.\<close>

fun rows_left :: "launch_config \<Rightarrow> 'e segment \<Rightarrow> nat \<Rightarrow> pc \<Rightarrow> nat set" where
  "rows_left cfg seg t (Fetch []) = {}"
| "rows_left cfg seg t (Loop is' ss) = set is'"
| "rows_left cfg seg t pc = set (x_range cfg t (fst seg))"

definition thread_ok :: "'e segment list \<Rightarrow> launch_config \<Rightarrow> 'e grid \<Rightarrow> nat \<Rightarrow> bool" where
  "thread_ok segs cfg g t \<longleftrightarrow> (\<forall>k. y_range cfg ! t = [k] \<longrightarrow>
     (pcs g ! t = Fetch [k] \<or>
      shared g ! (block_of cfg ! t) = segs ! k \<and>
      (pcs g ! t = Range [] \<or> pcs g ! t = Fetch [] \<or>
       (\<exists>is'. pcs g ! t = Loop is' [] \<and> set is' \<subseteq> {..<fst (segs ! k)}))))"

definition output_ok :: "nat \<Rightarrow> nat \<Rightarrow> 'e segment list \<Rightarrow> launch_config \<Rightarrow> 'e list list \<Rightarrow> 'e grid \<Rightarrow> bool" where
  "output_ok s N segs cfg m g \<longleftrightarrow> (\<exists>out ws. global g = Some out \<and> length out = N * s \<and>
     row_view s N out = apply_writes ws m \<and> set ws \<subseteq> set (seg_writes s segs) \<and>
     (\<forall>t<length (y_range cfg). \<forall>k i. y_range cfg ! t = [k] \<longrightarrow> i \<in> set (x_range cfg t (fst (segs ! k))) \<longrightarrow>
        i \<in> rows_left cfg (segs ! k) t (pcs g ! t) \<or> seg_write s (segs ! k) i \<in> set ws))"

definition grid_ok :: "nat \<Rightarrow> nat \<Rightarrow> 'e segment list \<Rightarrow> launch_config \<Rightarrow> 'e list list \<Rightarrow> 'e grid \<Rightarrow> bool" where
  "grid_ok s N segs cfg m g \<longleftrightarrow>
     length (pcs g) = length (y_range cfg) \<and> (\<forall>b\<in>set (block_of cfg). b < length (shared g)) \<and>
     (\<forall>t<length (y_range cfg). thread_ok segs cfg g t) \<and> output_ok s N segs cfg m g"

lemma seg_writes_mem: "seg \<in> set segs \<Longrightarrow> i < fst seg \<Longrightarrow> seg_write s seg i \<in> set (seg_writes s segs)"
  unfolding seg_writes_def by (simp, rule bexI) simp_all

text \<open>A thread that moves on without writing, having set the shared variables or not.\<close>

lemma grid_ok_moved:
  assumes one: "one_segment_per_block cfg (length segs)" and ok: "grid_ok s N segs cfg m g"
    and t: "t < length (y_range cfg)" and k: "y_range cfg ! t = [k]"
    and sh: "sh = shared g \<or> sh = (shared g)[block_of cfg ! t := segs ! k]" "sh ! (block_of cfg ! t) = segs ! k"
    and pc: "pc' = Range [] \<or> pc' = Fetch [] \<or> (\<exists>is'. pc' = Loop is' [] \<and> set is' \<subseteq> {..<fst (segs ! k)})"
    and left: "rows_left cfg (segs ! k) t (pcs g ! t) \<subseteq> rows_left cfg (segs ! k) t pc'"
  shows "grid_ok s N segs cfg m (g\<lparr>shared := sh, pcs := (pcs g)[t := pc']\<rparr>)"
proof -
  let ?g = "g\<lparr>shared := sh, pcs := (pcs g)[t := pc']\<rparr>" let ?T = "length (y_range cfg)"
  have len: "length (pcs g) = ?T" and blocks: "\<forall>b\<in>set (block_of cfg). b < length (shared g)"
    and threads: "\<forall>u<?T. thread_ok segs cfg g u" and out_ok: "output_ok s N segs cfg m g"
    using ok by (auto simp: grid_ok_def)
  have same: "y_range cfg ! u = [k]" if "u < ?T" "block_of cfg ! u = block_of cfg ! t" for u
    using one t that k unfolding one_segment_per_block_def by metis
  have "thread_ok segs cfg ?g u" if u: "u < ?T" for u
  proof (cases "u = t")
    case True
    then show ?thesis using sh(2) pc t len k by (simp add: thread_ok_def)
  next
    case False
    have "sh ! (block_of cfg ! u) = shared g ! (block_of cfg ! u) \<or>
        sh ! (block_of cfg ! u) = segs ! k \<and> y_range cfg ! u = [k]"
      using sh same [OF u] by (cases "block_of cfg ! u = block_of cfg ! t") auto
    then show ?thesis using threads u False unfolding thread_ok_def by auto
  qed
  moreover have "output_ok s N segs cfg m ?g"
  proof -
    have "i \<in> rows_left cfg (segs ! j) u (pcs ?g ! u)"
      if "y_range cfg ! u = [j]" "u < ?T" "i \<in> rows_left cfg (segs ! j) u (pcs g ! u)" for u i j
      using that k t len left by (cases "u = t") auto
    with out_ok show ?thesis by (simp add: output_ok_def) metis
  qed
  moreover have "length sh = length (shared g)" using sh(1) by auto
  ultimately show ?thesis using len blocks by (simp add: grid_ok_def)
qed

text \<open>A thread that copies its next row.\<close>

lemma grid_ok_copied:
  assumes segs: "segments_ok s N segs" and ok: "grid_ok s N segs cfg m g"
    and t: "t < length (y_range cfg)" and k: "y_range cfg ! t = [k]" "k < length segs"
    and sh: "shared g ! (block_of cfg ! t) = segs ! k"
    and pc: "pcs g ! t = Loop (i # is') []" "set (i # is') \<subseteq> {..<fst (segs ! k)}"
  shows "grid_ok s N segs cfg m (fast_step s segs cfg t g)"
proof -
  let ?w = "seg_write s (segs ! k) i" let ?T = "length (y_range cfg)"
  have len: "length (pcs g) = ?T" and blocks: "\<forall>b\<in>set (block_of cfg). b < length (shared g)"
    and threads: "\<forall>u<?T. thread_ok segs cfg g u"
    using ok by (auto simp: grid_ok_def)
  obtain out ws where out: "global g = Some out" "length out = N * s" "row_view s N out = apply_writes ws m"
      "set ws \<subseteq> set (seg_writes s segs)"
    and written: "\<forall>u<?T. \<forall>j i. y_range cfg ! u = [j] \<longrightarrow> i \<in> set (x_range cfg u (fst (segs ! j))) \<longrightarrow>
        i \<in> rows_left cfg (segs ! j) u (pcs g ! u) \<or> seg_write s (segs ! j) i \<in> set ws"
    using ok unfolding grid_ok_def output_ok_def by blast
  have i: "segs ! k \<in> set segs" "i < fst (segs ! k)" using k(2) pc(2) by simp_all
  obtain out' where out': "copy_data_row s (segs ! k) i (Some out) = Some out'" "length out' = N * s"
    "row_view s N out' = apply_writes (ws @ [?w]) m"
    using copy_data_row_write [OF segs i out(2,3)] by blast
  have step: "fast_step s segs cfg t g = g\<lparr>pcs := (pcs g)[t := Loop is' []], global := Some out'\<rparr>"
    using sh pc(1) t len out(1) out'(1) by (simp add: fast_step_def Let_def)
  have threads_ok: "thread_ok segs cfg (fast_step s segs cfg t g) u" if u: "u < ?T" for u
    using threads u pc sh t len k(1) unfolding step by (cases "u = t") (auto simp: thread_ok_def)
  have "set (ws @ [?w]) \<subseteq> set (seg_writes s segs)" using out(4) seg_writes_mem [OF i] by auto
  moreover have "l \<in> rows_left cfg (segs ! j) u (pcs (fast_step s segs cfg t g) ! u)
      \<or> seg_write s (segs ! j) l \<in> set (ws @ [?w])"
    if u: "u < ?T" "y_range cfg ! u = [j]" "l \<in> set (x_range cfg u (fst (segs ! j)))" for u j l
  proof -
    have "l \<in> rows_left cfg (segs ! j) u (pcs g ! u) \<or> seg_write s (segs ! j) l \<in> set ws"
      using written u by blast
    then show ?thesis using u k(1) t len pc(1) unfolding step by (cases "u = t") auto
  qed
  ultimately have "output_ok s N segs cfg m (fast_step s segs cfg t g)"
    unfolding output_ok_def using out'(2,3)
    by (intro exI [of _ out'] exI [of _ "ws @ [?w]"] conjI allI impI) (simp_all only: step grid.simps, simp_all)
  then show ?thesis using len blocks threads_ok unfolding grid_ok_def by (simp add: step)
qed

lemma grid_ok_step:
  assumes one: "one_segment_per_block cfg (length segs)" and cov: "covers cfg segs"
    and segs: "segments_ok s N segs" and ok: "grid_ok s N segs cfg m g"
  shows "grid_ok s N segs cfg m (fast_step s segs cfg t g)"
proof (cases "t < length (y_range cfg)")
  case False
  then show ?thesis using ok by (simp add: fast_step_def grid_ok_def)
next
  case t: True
  let ?b = "block_of cfg ! t"
  obtain k where k: "y_range cfg ! t = [k]" "k < length segs"
    using one t unfolding one_segment_per_block_def by blast
  have len: "length (pcs g) = length (y_range cfg)" and b: "?b < length (shared g)"
    and threads: "\<forall>u<length (y_range cfg). thread_ok segs cfg g u"
    using ok one t by (auto simp: grid_ok_def one_segment_per_block_def)
  have rows: "set (x_range cfg t (fst (segs ! k))) \<subseteq> {..<fst (segs ! k)}"
    using cov t nth_mem [OF k(2)] unfolding covers_def by blast
  have "pcs g ! t = Fetch [k] \<or>
      shared g ! ?b = segs ! k \<and> (pcs g ! t = Range [] \<or> pcs g ! t = Fetch [] \<or>
       (\<exists>is'. pcs g ! t = Loop is' [] \<and> set is' \<subseteq> {..<fst (segs ! k)}))"
    using threads t k(1) unfolding thread_ok_def by blast
  then consider (fetch) "pcs g ! t = Fetch [k]"
    | (range) "shared g ! ?b = segs ! k" "pcs g ! t = Range []"
    | (idle) "pcs g ! t = Fetch []"
    | (leave) "shared g ! ?b = segs ! k" "pcs g ! t = Loop [] []"
    | (copy) i is' where "shared g ! ?b = segs ! k" "pcs g ! t = Loop (i # is') []" "set (i # is') \<subseteq> {..<fst (segs ! k)}"
    by (metis list.exhaust)
  then show ?thesis
  proof cases
    case fetch
    have "fast_step s segs cfg t g = g\<lparr>shared := (shared g)[?b := segs ! k], pcs := (pcs g)[t := Range []]\<rparr>"
      using fetch t len by (simp add: fast_step_def Let_def)
    with grid_ok_moved [OF one ok t k(1), of "(shared g)[?b := segs ! k]" "Range []"] fetch b
    show ?thesis by simp
  next
    case range
    let ?pc = "Loop (x_range cfg t (fst (segs ! k))) []"
    have "fast_step s segs cfg t g = g\<lparr>shared := shared g, pcs := (pcs g)[t := ?pc]\<rparr>"
      using range t len by (simp add: fast_step_def Let_def)
    with grid_ok_moved [OF one ok t k(1), of "shared g" ?pc] range rows show ?thesis by simp
  next
    case idle
    then show ?thesis using ok t len by (simp add: fast_step_def Let_def)
  next
    case leave
    have "fast_step s segs cfg t g = g\<lparr>shared := shared g, pcs := (pcs g)[t := Fetch []]\<rparr>"
      using leave t len by (simp add: fast_step_def Let_def)
    with grid_ok_moved [OF one ok t k(1), of "shared g" "Fetch []"] leave show ?thesis by simp
  next
    case copy
    then show ?thesis by (rule grid_ok_copied [OF segs ok t k])
  qed
qed

section \<open>Complete launches\<close>

lemma grid_ok_run:
  assumes "one_segment_per_block cfg (length segs)" "covers cfg segs" "segments_ok s N segs" "grid_ok s N segs cfg m g"
  shows "grid_ok s N segs cfg m (fold (fast_step s segs cfg) schedule g)"
  using assms(4) by (induction schedule arbitrary: g) (simp_all add: grid_ok_step [OF assms(1-3)])

lemma launch_grid_finished:
  assumes one: "one_segment_per_block cfg (length segs)" and cov: "covers cfg segs" and segs: "segments_ok s N segs"
    and blocks: "\<forall>b\<in>set (block_of cfg). b < length shared0" and len: "length output = N * s"
    and fin: "grid_finished (launch_grid s segs cfg shared0 schedule output)"
    and dist: "distinct (map fst (seg_writes s segs))"
  shows "\<exists>out. global (launch_grid s segs cfg shared0 schedule output) = Some out \<and> length out = N * s \<and>
    row_view s N out = apply_writes (seg_writes s segs) (row_view s N output)"
proof -
  let ?m = "row_view s N output" let ?g = "launch_grid s segs cfg shared0 schedule output"
  let ?start = "\<lparr>shared = shared0, pcs = map Fetch (y_range cfg), global = Some output\<rparr>"
  have "output_ok s N segs cfg ?m ?start"
    unfolding output_ok_def by (intro exI [of _ "output"] exI [of _ "[]"]) (use len in auto)
  then have "grid_ok s N segs cfg ?m ?start" using blocks by (auto simp: grid_ok_def thread_ok_def)
  from grid_ok_run [OF one cov segs this, of schedule]
  have ok: "grid_ok s N segs cfg ?m ?g" by (simp only: launch_grid_def)
  then obtain out ws where out: "global ?g = Some out" "length out = N * s" "row_view s N out = apply_writes ws ?m"
      "set ws \<subseteq> set (seg_writes s segs)"
    and written: "\<forall>u<length (y_range cfg). \<forall>j i. y_range cfg ! u = [j] \<longrightarrow> i \<in> set (x_range cfg u (fst (segs ! j))) \<longrightarrow>
        i \<in> rows_left cfg (segs ! j) u (pcs ?g ! u) \<or> seg_write s (segs ! j) i \<in> set ws"
    unfolding grid_ok_def output_ok_def by blast
  have pcs: "pcs ?g ! u = Fetch []" if "u < length (y_range cfg)" for u
    using fin ok that by (auto simp: grid_finished_def list_all_length grid_ok_def)
  have "seg_write s seg i \<in> set ws" if seg: "seg \<in> set segs" "i < fst seg" for seg i
  proof -
    obtain k where k: "k < length segs" "seg = segs ! k" using seg(1) by (metis in_set_conv_nth)
    then obtain t where "t < length (y_range cfg)" "y_range cfg ! t = [k]" "i \<in> set (x_range cfg t (fst seg))"
      using cov seg(2) unfolding covers_def by blast
    then show ?thesis using written pcs k by fastforce
  qed
  then have "set (seg_writes s segs) \<subseteq> set ws" by (auto simp: seg_writes_def)
  then have "apply_writes ws ?m = apply_writes (seg_writes s segs) ?m"
    using out(4) by (intro apply_writes_same_set [OF _ dist]) blast
  then show ?thesis using out(1-3) by auto
qed

section \<open>The operation\<close>

lemma fast_first_dim_length:
  "fast_first_dim inputs = length (concat (map (\<lambda>x. flat (fst x)) inputs))"
  by (simp add: fast_first_dim_def fold_num_elements)

lemma seg_writes_rows: "seg_writes (slice_size_of inputs) (fast_segments inputs) = row_writes (rows_of inputs)"
proof -
  let ?s = "slice_size_of inputs"
  have "map (seg_write ?s (num_elements indices, flat indices, flat data)) [0..<num_elements indices]
      = zip (map nat (flat indices)) (row_view ?s (num_elements indices) (flat data))" for indices and data :: "'a tensor"
    by (rule nth_equalityI) (auto simp: seg_write_def num_elements_def nth_row_view)
  then show ?thesis
    by (simp add: seg_writes_def fast_segments_def row_writes_def rows_of_def input_rows_def split_beta comp_def)
qed

lemma fast_segments_ok:
  assumes "check_shapes inputs = None" "inputs_shaped inputs" "\<forall>x\<in>all_indices inputs. fast_bounds_check x (int N)"
    and "fits_int32 (N * slice_size_of inputs)"
      "\<forall>(indices, data)\<in>set inputs. fits_int32 (num_elements indices * slice_size_of inputs)"
  shows "segments_ok (slice_size_of inputs) N (fast_segments inputs)"
proof -
  have "length (flat data) = num_elements indices * slice_size_of inputs" if "(indices, data) \<in> set inputs" for indices data
    by (rule checked_size [OF assms(1,2) that])
  then show ?thesis
    using assms(3-5) by (fastforce simp: segments_ok_def fast_segments_def all_indices_def num_elements_def)
qed

lemma dynamic_stitch_fast_spec:
  assumes ws: "inputs_shaped inputs" and one: "one_segment_per_block cfg (length inputs)"
    and cov: "covers cfg (fast_segments inputs)" and blocks: "\<forall>b\<in>set (block_of cfg). b < length shared0"
    and dist: "distinct (concat (map (\<lambda>x. flat (fst x)) inputs))"
    and perm: "all_indices inputs = int ` {..<fast_first_dim inputs}"
    and fin: "grid_finished (launch_grid (slice_size_of inputs) (fast_segments inputs) cfg shared0 schedule
        (map mem [0..<fast_first_dim inputs * slice_size_of inputs]))"
    and fits: "stitch_fits inputs" and arrays: "first_status arrays = None"
  shows "dynamic_stitch_fast cfg schedule shared0 arrays alloc mem inputs = Some (dynamic_stitch None alloc mem inputs)"
proof (cases "check_shapes inputs = None \<and> alloc = None")
  case False
  then obtain msg where "fast_check_and_allocate alloc inputs = Inl msg"
    "check_args_and_allocate_result alloc inputs = Inl msg"
    by (cases "check_shapes inputs"; cases alloc)
      (auto simp: check_args_and_allocate_result_def fast_check_and_allocate_def Let_def)
  then show ?thesis using fits
    by (simp add: dynamic_stitch_fast_def dynamic_stitch_def stitch_fits_def fast_first_dim_length)
next
  case True
  let ?n = "fast_first_dim inputs" let ?s = "slice_size_of inputs" let ?out = "map mem [0..<?n * ?s]"
  have dim: "first_dim_of inputs = ?n" by (rule first_dim_of_cover [OF perm])
  have alloc: "fast_check_and_allocate alloc inputs = Inr (?n # extra_shape inputs)"
    using True by (simp add: fast_check_and_allocate_def)
  have nonneg: "\<forall>x\<in>all_indices inputs. 0 \<le> x" "\<forall>x\<in>all_indices inputs. fast_bounds_check x (int ?n)"
    unfolding perm by (auto simp: fast_bounds_check_def)
  have cpu: "dynamic_stitch None alloc mem inputs = Inr \<lparr>shape_of = ?n # extra_shape inputs,
      flat = concat (apply_writes (row_writes (rows_of inputs)) (merged_memory mem ?n ?s))\<rparr>"
    using dynamic_stitch_checked [of inputs alloc mem] True nonneg(1) dim by simp
  show ?thesis
  proof (cases "?n > 0")
    case False
    then have "merged_memory mem ?n ?s = []" by (simp add: merged_memory_def row_view_def)
    then show ?thesis using False alloc cpu length_apply_writes [of _ "merged_memory mem ?n ?s"]
      by (simp add: dynamic_stitch_fast_def slice_size_of_def Let_def fits_int32_def del: length_apply_writes)
  next
    case pos: True
    let ?g = "launch_grid ?s (fast_segments inputs) cfg shared0 schedule ?out"
    have distinct_writes: "distinct (map fst (seg_writes ?s (fast_segments inputs)))"
      unfolding seg_writes_rows by (rule distinct_row_writes [OF nonneg(1) dist])
    have "length (fast_segments inputs) = length inputs" by (simp add: fast_segments_def)
    with one have one': "one_segment_per_block cfg (length (fast_segments inputs))" by simp
    have segs: "segments_ok ?s ?n (fast_segments inputs)"
      by (rule fast_segments_ok [OF _ ws nonneg(2)])
        (use True fits in \<open>simp_all add: stitch_fits_def dim\<close>)
    have "length ?out = ?n * ?s" by simp
    from launch_grid_finished [OF one' cov segs blocks this fin distinct_writes]
    obtain out where out: "global ?g = Some out" "length out = ?n * ?s"
      "row_view ?s ?n out = apply_writes (row_writes (rows_of inputs)) (merged_memory mem ?n ?s)"
      by (auto simp: seg_writes_rows merged_memory_def)
    then have "out = concat (apply_writes (row_writes (rows_of inputs)) (merged_memory mem ?n ?s))"
      using concat_row_view [of out ?n ?s] by simp
    moreover have "fits_int32 ?n" "fits_int32 (prod_list (extra_shape inputs))"
      using fits by (simp_all add: stitch_fits_def dim slice_size_of_def)
    ultimately show ?thesis using pos alloc cpu out(1) arrays unfolding slice_size_of_def
      by (simp add: dynamic_stitch_fast_def Let_def)
  qed
qed

end
