(* ===== verification/Data_Flow.thy ===== *)
theory Data_Flow
  imports Dynamic_Partition_Spec Dynamic_Stitch_Fast_Spec
begin

text \<open>
  Partitioning and stitching together: stitching the partitions of a tensor by the
  partitions of its row numbers gives the tensor back.
\<close>

definition row_numbers :: "int tensor \<Rightarrow> int tensor" where
  "row_numbers partitions =
     \<lparr>shape_of = shape_of partitions, flat = map int [0..<num_elements partitions]\<rparr>"

lemma set_dealt_numbers:
  "set (dealt q ps (map int [0..<length ps])) = {int j | j. j < length ps \<and> ps ! j = q}"
proof -
  have "zip ps (map int [0..<length ps]) = map (\<lambda>j. (ps ! j, int j)) [0..<length ps]"
    by (auto intro!: nth_equalityI)
  then show ?thesis by (auto simp: dealt_filter filter_map comp_def)
qed

lemma partitioned_all:
  "partitioned (\<lambda>_. None) np data partitions
    = Inr (map (\<lambda>q. \<lparr>shape_of = count_list (flat partitions) (int q) # inner_shape data partitions,
        flat = concat (dealt (int q) (flat partitions) (data_rows data partitions))\<rparr>) [0..<np])"
proof -
  have "List.find (\<lambda>p. (None :: status) \<noteq> None) xs = None" for xs :: "nat list"
    by (simp add: find_None_iff)
  then show ?thesis by (simp only: partitioned_def allocate_outputs_def length_map option.case sum.case)
qed

lemma partition_numbers:
  assumes "well_shaped partitions" "in_range np (flat partitions)"
  shows "dynamic_partition (\<lambda>_. None) e0 np (row_numbers partitions) partitions
    = Inr (map (\<lambda>q. \<lparr>shape_of = [count_list (flat partitions) (int q)],
        flat = dealt (int q) (flat partitions) (map int [0..<num_elements partitions])\<rparr>) [0..<np])"
proof -
  let ?R = "row_numbers partitions" let ?ps = "flat partitions"
  have shaped: "well_shaped ?R" "starts_with (shape_of ?R) (shape_of partitions)"
    using assms(1) by (simp_all add: row_numbers_def well_shaped_def num_elements_def starts_with_def)
  have inner: "inner_shape ?R partitions = []" by (simp add: inner_shape_def row_numbers_def)
  have "data_rows ?R partitions = map (\<lambda>x. [x]) (map int [0..<num_elements partitions])"
  proof (cases "num_elements partitions = 0")
    case True
    then show ?thesis by (simp add: data_rows_def row_view_def)
  next
    case False
    then show ?thesis using row_view_one [of "flat ?R" "num_elements partitions"]
      by (simp add: data_rows_def row_numbers_def num_elements_def)
  qed
  then have "concat (dealt q ?ps (data_rows ?R partitions)) = dealt q ?ps (map int [0..<num_elements partitions])" for q
    by (simp only: dealt_map concat_map_singleton map_ident)
  then show ?thesis
    using dynamic_partition_spec [OF shaped(1) assms(1) shaped(2) assms(2), of "\<lambda>_. None" e0]
    by (simp add: partitioned_all inner)
qed

lemma check_vectors:
  assumes "\<forall>(indices, data)\<in>set inputs. \<exists>c. shape_of indices = [c] \<and> shape_of data = c # inner"
  shows "check_shapes inputs = None"
proof -
  have claim: "check_inputs indices0 data0 k inputs = None"
    if "shape_of indices0 = [c]" "shape_of data0 = c # inner" for indices0 and data0 :: "'a tensor" and c k
    using assms that
    by (induction inputs arbitrary: k)
      (auto simp: starts_with_def same_extra_shape_def Let_def list_all_iff)
  show ?thesis
  proof (cases inputs)
    case Nil
    then show ?thesis by (simp add: check_shapes_def)
  next
    case (Cons x rest)
    obtain indices0 data0 where x: "x = (indices0, data0)" by force
    then obtain c where "shape_of indices0 = [c]" "shape_of data0 = c # inner" using assms Cons by auto
    from claim [OF this] show ?thesis unfolding check_shapes_def by (simp add: Cons x)
  qed
qed

text \<open>Partition numbers in range deal out every row number once.\<close>

lemma dealt_cover:
  assumes "in_range np ps"
  shows "(\<Union>q<np. set (dealt (int q) ps (map int [0..<length ps]))) = int ` {..<length ps}"
proof (intro subset_antisym subsetI)
  fix x
  assume "x \<in> int ` {..<length ps}"
  then obtain j where j: "j < length ps" "x = int j" by blast
  then have "0 \<le> ps ! j \<and> ps ! j < int np" using assms nth_mem [of j ps] by (auto simp: in_range_def)
  then have "nat (ps ! j) < np" "ps ! j = int (nat (ps ! j))" by auto
  with j show "x \<in> (\<Union>q<np. set (dealt (int q) ps (map int [0..<length ps])))"
    unfolding set_dealt_numbers by blast
qed (auto simp: set_dealt_numbers)

lemma dealt_writes:
  assumes rng: "in_range np ps" and rows: "length rows = length ps" and m: "length m = length ps"
  shows "apply_writes (concat (map (\<lambda>q. zip (map nat (dealt (int q) ps (map int [0..<length ps])))
    (dealt (int q) ps rows)) [0..<np])) m = rows" (is "apply_writes ?ws m = rows")
proof -
  let ?numbers = "\<lambda>q. dealt (int q) ps (map int [0..<length ps])"
  have "zip (map nat (?numbers q)) (dealt (int q) ps rows) = map (\<lambda>j. (nat j, rows ! nat j)) (?numbers q)" for q
  proof -
    have "dealt (int q) ps rows = map (\<lambda>j. rows ! nat j) (?numbers q)"
      using dealt_rows [of ps rows "int q"] rows by simp
    then show ?thesis by (simp add: zip_map_map zip_same_conv_map)
  qed
  then have ws: "?ws = concat (map (\<lambda>q. map (\<lambda>j. (nat j, rows ! nat j)) (?numbers q)) [0..<np])"
    by (simp only:)
  have "apply_writes ?ws m = map ((!) rows) [0..<length m]"
  proof (rule apply_writes_cover)
    show "\<forall>(p, r)\<in>set ?ws. r = rows ! p" by (auto simp: ws)
    show "\<forall>p<length m. p \<in> fst ` set ?ws"
    proof (intro allI impI)
      fix p assume "p < length m"
      then have "int p \<in> (\<Union>q<np. set (?numbers q))" using m by (simp add: dealt_cover [OF rng])
      then show "p \<in> fst ` set ?ws" by (force simp: ws image_iff)
    qed
  qed
  then show ?thesis using m rows map_nth [of rows] by simp
qed

lemma stitch_partition:
  assumes ws: "well_shaped data" "well_shaped partitions"
    and pre: "starts_with (shape_of data) (shape_of partitions)"
    and rng: "in_range np (flat partitions)" and np: "np > 0"
    and idx: "dynamic_partition (\<lambda>_. None) z np (row_numbers partitions) partitions = Inr idx"
    and outs: "dynamic_partition (\<lambda>_. None) e0 np data partitions = Inr outs"
  shows "dynamic_stitch None None mem (zip idx outs)
    = Inr \<lparr>shape_of = num_elements partitions # inner_shape data partitions, flat = flat data\<rparr>"
proof -
  let ?ps = "flat partitions" let ?N = "num_elements partitions"
  let ?inner = "inner_shape data partitions" let ?rows = "data_rows data partitions"
  let ?numbers = "\<lambda>q. dealt (int q) ?ps (map int [0..<?N])"
  let ?input = "\<lambda>q. (\<lparr>shape_of = [count_list ?ps (int q)], flat = ?numbers q\<rparr>,
      \<lparr>shape_of = count_list ?ps (int q) # ?inner, flat = concat (dealt (int q) ?ps ?rows)\<rparr>)"
  have "idx = map (\<lambda>q. fst (?input q)) [0..<np]"
    using idx partition_numbers [OF ws(2) rng, of z] by simp
  moreover have "outs = map (\<lambda>q. snd (?input q)) [0..<np]"
    using outs dynamic_partition_spec [OF ws pre rng, of "\<lambda>_. None" e0]
    by (simp add: partitioned_all)
  ultimately have inputs: "zip idx outs = map ?input [0..<np]"
    by (simp add: zip_map_map zip_same_conv_map comp_def)
  have N: "?N = length ?ps" by (simp add: num_elements_def)
  have rows: "length ?rows = ?N" by (simp add: data_rows_def)
  have width: "\<forall>r\<in>set (dealt q ?ps ?rows). length r = prod_list ?inner" for q
    using data_rows_width [OF ws pre] set_dealt [of q ?ps ?rows] by auto
  have len: "length (?numbers q) = count_list ?ps (int q)" "length (dealt (int q) ?ps ?rows) = count_list ?ps (int q)" for q
    using rows by (simp_all add: length_dealt N)
  have shapes: "check_shapes (map ?input [0..<np]) = None" by (rule check_vectors [of _ ?inner]) auto
  have extra: "extra_shape (map ?input [0..<np]) = ?inner"
    using np by (simp add: extra_shape_def upt_conv_Cons)
  have all: "all_indices (map ?input [0..<np]) = int ` {..<?N}"
    unfolding all_indices_def set_map image_image prod.case tensor.simps set_upt atLeast0LessThan N
    by (rule dealt_cover [OF rng])
  then have dim: "first_dim_of (map ?input [0..<np]) = ?N" by (rule first_dim_of_cover)
  have slice: "slice_size_of (map ?input [0..<np]) = prod_list ?inner" by (simp only: slice_size_of_def extra)
  have "input_rows (prod_list ?inner) (?input q) = (?numbers q, dealt (int q) ?ps ?rows)" for q
    using row_view_concat [OF width, of "int q"] len [of q] by (simp add: input_rows_def num_elements_def)
  then have "rows_of (map ?input [0..<np]) = map (\<lambda>q. (?numbers q, dealt (int q) ?ps ?rows)) [0..<np]"
    unfolding rows_of_def slice map_map comp_def by simp
  then have "row_writes (rows_of (map ?input [0..<np])) =
      concat (map (\<lambda>q. zip (map nat (?numbers q)) (dealt (int q) ?ps ?rows)) [0..<np])"
    by (simp add: row_writes_def comp_def)
  then have "apply_writes (row_writes (rows_of (map ?input [0..<np]))) m = ?rows" if "length m = ?N" for m
    using dealt_writes [OF rng rows [unfolded N] that [unfolded N]] by (simp only: N)
  moreover have "length (merged_memory mem ?N (prod_list ?inner)) = ?N" by (simp add: merged_memory_def)
  moreover have "concat ?rows = flat data"
  proof -
    have "num_elements data = ?N * (num_elements data div ?N)"
      using well_shaped_split [OF ws pre] by (cases "?N = 0") simp_all
    then show ?thesis unfolding data_rows_def by (intro concat_row_view) (simp add: num_elements_def)
  qed
  ultimately show ?thesis
    using dynamic_stitch_checked [OF shapes refl, of mem] all unfolding inputs
    by (simp add: dim extra slice_size_of_def)
qed

end
