(* ===== verification/Data_Flow_Properties.thy ===== *)
theory Data_Flow_Properties
  imports Data_Flow
begin

text \<open>
  The properties of the partition and stitch kernels, with small tensors on which their
  hypotheses hold.
\<close>

section \<open>Sample tensors\<close>

definition stable_sort_pairs :: "int list \<Rightarrow> int list \<Rightarrow> int list \<times> int list" where
  "stable_sort_pairs ks vs = (map fst (sort_key fst (zip ks vs)), map snd (sort_key fst (zip ks vs)))"

definition count_runs :: "int list \<Rightarrow> int list \<Rightarrow> int list \<times> int list" where
  "count_runs ks vs = (map fst (run_lengths ks), map (int \<circ> snd) (run_lengths ks))"

lemma stable_sort_pairs_sorts: "sorts_pairs stable_sort_pairs"
  by (simp add: sorts_pairs_def stable_sort_pairs_def)

lemma count_runs_reduces: "reduces_by_key count_runs"
  by (simp add: reduces_by_key_def count_runs_def)

definition sample_rows :: "int tensor" where
  "sample_rows = \<lparr>shape_of = [4, 2], flat = [10, 11, 20, 21, 30, 31, 40, 41]\<rparr>"

definition sample_ids :: "int tensor" where
  "sample_ids = \<lparr>shape_of = [4], flat = [2, 0, 2, 1]\<rparr>"

lemmas sample_tensors = sample_rows_def sample_ids_def well_shaped_def starts_with_def in_range_def num_elements_def

lemma samples_ok:
  "well_shaped sample_rows" "well_shaped sample_ids"
  "starts_with (shape_of sample_rows) (shape_of sample_ids)"
  "in_range 3 (flat sample_ids)" "\<not> in_range 2 (flat sample_ids)"
  by (simp_all add: sample_tensors)

section \<open>Partitioning\<close>

definition all_granted :: partition_resources where
  "all_granted = \<lparr>st_partition_count = None, st_indices_in = None, st_partitions_out = None,
     st_indices_out = None, st_sort_storage = None, st_aggregates_out = None, st_num_runs = None,
     st_reduce_storage = None, st_stream = None, st_cpu_tensor = None, st_memcpy = None\<rparr>"

text \<open>
  C24. For tensors that hold as many elements as their shapes say, data whose shape starts with
  that of the partition numbers, numbers in range, fewer than 2 to the 31 of them, and any
  correct sorting and reducing of the CUB library, the GPU
  kernel of \<open>DynamicPartition\<close> ends with the status of the first of its requests that is not
  granted (temporary memory, the stream, the copy of the counts to the host), or else returns
  what the CPU kernel returns.  This is the error of the first output that cannot be
  allocated, or else for each partition \<open>q\<close> a tensor whose first dimension counts the
  occurrences of \<open>q\<close> and whose rows are those of the data with number \<open>q\<close>, in their order.
\<close>

theorem partition_gpu_equals_cpu:
  assumes "sorts_pairs sort_pairs" "reduces_by_key reduce_by_key"
    and "well_shaped data" "well_shaped partitions"
    and "starts_with (shape_of data) (shape_of partitions)"
    and "in_range np (flat partitions)" "fits_int32 (num_elements partitions)"
  shows "dynamic_partition_gpu st sort_pairs reduce_by_key alloc np data partitions
      = Some (case first_status (gpu_requests st (num_elements partitions)) of
          Some msg \<Rightarrow> Inl msg
        | None \<Rightarrow> dynamic_partition alloc e0 np data partitions)
    \<and> dynamic_partition alloc e0 np data partitions = partitioned alloc np data partitions"
  using dynamic_partition_gpu_spec [OF assms, of st alloc] dynamic_partition_spec [OF assms(3-6), of alloc e0]
  by (simp split: option.split)

theorem partition_gpu_equals_cpu_witness:
  "dynamic_partition_gpu all_granted stable_sort_pairs count_runs (\<lambda>_. None) 3 sample_rows sample_ids
     = Some (Inr [\<lparr>shape_of = [1, 2], flat = [20, 21]\<rparr>, \<lparr>shape_of = [1, 2], flat = [40, 41]\<rparr>,
            \<lparr>shape_of = [2, 2], flat = [10, 11, 30, 31]\<rparr>])"
proof -
  have fits: "fits_int32 (num_elements sample_ids)"
    by (simp add: fits_int32_def num_elements_def sample_ids_def)
  have granted: "first_status (gpu_requests all_granted (num_elements sample_ids)) = None"
    by (simp add: gpu_requests_def all_granted_def)
  have "dynamic_partition_gpu all_granted stable_sort_pairs count_runs (\<lambda>_. None) 3 sample_rows sample_ids
      = Some (partitioned (\<lambda>_. None) 3 sample_rows sample_ids)"
    using partition_gpu_equals_cpu [OF stable_sort_pairs_sorts count_runs_reduces samples_ok(1-4) fits,
        of all_granted "\<lambda>_. None"] unfolding granted option.case by metis
  also have "partitioned (\<lambda>_. None) 3 sample_rows sample_ids
      = Inr [\<lparr>shape_of = [1, 2], flat = [20, 21]\<rparr>, \<lparr>shape_of = [1, 2], flat = [40, 41]\<rparr>,
      \<lparr>shape_of = [2, 2], flat = [10, 11, 30, 31]\<rparr>]"
    by code_simp
  finally show ?thesis .
qed



text \<open>
  On a number out of range the GPU kernel reports nothing, and the row with the bad number
  becomes the row of another partition.
\<close>

lemma gpu_partition_shifts_rows:
  "dynamic_partition_gpu all_granted stable_sort_pairs count_runs (\<lambda>_. None) 2
     \<lparr>shape_of = [2], flat = [10::int, 20]\<rparr> \<lparr>shape_of = [2], flat = [0, -1]\<rparr>
   = Some (Inr [\<lparr>shape_of = [1], flat = [20]\<rparr>, \<lparr>shape_of = [0], flat = []\<rparr>])"
  by code_simp

section \<open>Stitching\<close>

definition sample_inputs :: "(int tensor \<times> int tensor) list" where
  "sample_inputs =
     [(\<lparr>shape_of = [2], flat = [0, 2]\<rparr>, \<lparr>shape_of = [2, 2], flat = [1, 2, 3, 4]\<rparr>),
      (\<lparr>shape_of = [3], flat = [2, 1, 4]\<rparr>, \<lparr>shape_of = [3, 2], flat = [5, 6, 7, 8, 9, 10]\<rparr>)]"

lemma sample_inputs_ok:
  "inputs_shaped sample_inputs" "\<forall>x\<in>all_indices sample_inputs. 0 \<le> x" "check_shapes sample_inputs = None"
  "\<forall>x\<in>all_indices sample_inputs. 0 \<le> x \<and> x < 2 ^ 31 - 1"
  by (simp_all add: sample_inputs_def inputs_shaped_def all_indices_def well_shaped_def check_shapes_def
      starts_with_def same_extra_shape_def)

lemma sample_inputs_fit: "stitch_fits sample_inputs"
  by (simp add: stitch_fits_def fits_int32_def sample_inputs_def first_dim_of_def maximum_def
      num_elements_def slice_size_of_def extra_shape_def)



text \<open>
  C27. For tensors that hold as many elements as their shapes say, indices that are not
  negative, sizes that fit into the \<open>int32\<close> in which the GPU code keeps them (the largest index
  plus one, the number of all indices, the elements of a row, of the output and of each
  input), and device arrays that could be set up, the GPU kernel of \<open>DynamicStitch\<close> never
  writes outside of its arrays and returns what the CPU kernel returns, the errors of the
  shape checks and of allocating the output included.
\<close>

theorem stitch_gpu_equals_cpu:
  assumes "inputs_shaped inputs" "\<forall>x\<in>all_indices inputs. 0 \<le> x"
    and "stitch_fits inputs" "first_status arrays = None"
  shows "dynamic_stitch_gpu arrays alloc mem inputs = Some (dynamic_stitch None alloc mem inputs)"
  by (rule dynamic_stitch_gpu_spec [OF assms])

theorem stitch_gpu_equals_cpu_witness:
  "dynamic_stitch_gpu [None, None, None, None] None int sample_inputs
     = Some (Inr \<lparr>shape_of = [5, 2], flat = [1, 2, 7, 8, 5, 6, 6, 7, 9, 10]\<rparr>)"
proof -
  have "dynamic_stitch None None int sample_inputs
      = Inr \<lparr>shape_of = [5, 2], flat = [1, 2, 7, 8, 5, 6, 6, 7, 9, 10]\<rparr>" by code_simp
  moreover have "first_status [None, None, None, None] = None" by simp
  ultimately show ?thesis
    using stitch_gpu_equals_cpu [OF sample_inputs_ok(1,2) sample_inputs_fit, of "[None, None, None, None]" None int]
    by (simp only:)
qed

text \<open>
  A row of 2 to the 31 elements does not fit: the GPU kernel takes another slice size, where the
  CPU kernel keeps the size in 64 bits.
\<close>

lemma stitch_gpu_large_rows:
  "dynamic_stitch_gpu [] None mem [(\<lparr>shape_of = [1], flat = [0]\<rparr>, \<lparr>shape_of = [1, 2 ^ 31], flat = xs\<rparr>)] = None"
  by (simp add: dynamic_stitch_gpu_def check_args_and_allocate_result_def check_shapes_def extra_shape_def
      first_dim_of_def maximum_def num_elements_def starts_with_def fits_int32_def)

text \<open>
  C28. Stitching undoes partitioning: the partitions of a tensor, stitched at the positions that the
  same partitioning of the row numbers gives, are the rows of the tensor in their order.
\<close>

theorem stitch_undoes_partition:
  assumes "well_shaped data" "well_shaped partitions"
    and "starts_with (shape_of data) (shape_of partitions)"
    and "in_range np (flat partitions)" "np > 0"
    and "dynamic_partition (\<lambda>_. None) z np (row_numbers partitions) partitions = Inr idx"
    and "dynamic_partition (\<lambda>_. None) e0 np data partitions = Inr outs"
  shows "dynamic_stitch None None mem (zip idx outs)
    = Inr \<lparr>shape_of = num_elements partitions # drop (length (shape_of partitions)) (shape_of data),
           flat = flat data\<rparr>"
  using stitch_partition [OF assms] by (simp add: inner_shape_def)

theorem stitch_undoes_partition_witness:
  "\<exists>idx outs. dynamic_stitch None None int (zip idx outs) = Inr sample_rows"
proof -
  let ?idx = "[\<lparr>shape_of = [1], flat = [1]\<rparr>, \<lparr>shape_of = [1], flat = [3]\<rparr>, \<lparr>shape_of = [2], flat = [0, 2::int]\<rparr>]"
  let ?outs = "[\<lparr>shape_of = [1, 2], flat = [20, 21]\<rparr>, \<lparr>shape_of = [1, 2], flat = [40, 41]\<rparr>,
      \<lparr>shape_of = [2, 2], flat = [10, 11, 30, 31::int]\<rparr>]"
  have idx: "dynamic_partition (\<lambda>_. None) 0 3 (row_numbers sample_ids) sample_ids = Inr ?idx" by code_simp
  have outs: "dynamic_partition (\<lambda>_. None) 0 3 sample_rows sample_ids = Inr ?outs" by code_simp
  have "dynamic_stitch None None int (zip ?idx ?outs)
    = Inr \<lparr>shape_of = num_elements sample_ids # drop (length (shape_of sample_ids)) (shape_of sample_rows),
           flat = flat sample_rows\<rparr>"
    by (rule stitch_undoes_partition [OF samples_ok(1-4) _ idx outs]) simp
  also have "\<lparr>shape_of = num_elements sample_ids # drop (length (shape_of sample_ids)) (shape_of sample_rows),
      flat = flat sample_rows\<rparr> = sample_rows" by code_simp
  finally show ?thesis by (intro exI)
qed

section \<open>Threads\<close>

definition sample_merge :: "(int tensor \<times> int tensor) list" where
  "sample_merge =
     [(\<lparr>shape_of = [2], flat = [0, 2]\<rparr>, \<lparr>shape_of = [2, 2], flat = [1, 2, 3, 4]\<rparr>),
      (\<lparr>shape_of = [2], flat = [3, 1]\<rparr>, \<lparr>shape_of = [2, 2], flat = [5, 6, 7, 8]\<rparr>)]"

lemma sample_merge_ok:
  "inputs_shaped sample_merge" "\<forall>x\<in>all_indices sample_merge. 0 \<le> x"
  "distinct (concat (map (\<lambda>x. flat (fst x)) sample_merge))"
  by (simp_all add: sample_merge_def inputs_shaped_def all_indices_def well_shaped_def)

text \<open>
  C29. For indices that are distinct and not negative, \<open>ParallelDynamicStitch\<close> returns the same as the
  sequential loop under every schedule of its worker threads that lets each input finish.
\<close>

theorem parallel_stitch_any_schedule:
  assumes "\<forall>x\<in>all_indices inputs. 0 \<le> x" "distinct (concat (map (\<lambda>x. flat (fst x)) inputs))"
    and "complete_schedule schedule (rows_of inputs)"
  shows "dynamic_stitch (Some schedule) alloc mem inputs = dynamic_stitch None alloc mem inputs"
proof -
  let ?n = "first_dim_of inputs" let ?ins = "rows_of inputs" let ?m = "merged_memory mem ?n (slice_size_of inputs)"
  have ok: "indices_ok ?n ?ins" using assms(1) by (simp add: rows_of_indices)
  have "distinct (map fst (row_writes ?ins))" by (rule distinct_row_writes [OF assms(1,2)])
  note run = parallel_inputs_complete [OF ok rows_of_fit assms(3) this, of ?m]
  have "all_inputs ?n ?ins ?m = (context_status (parallel_inputs schedule ?n ?ins ?m),
      merged_rows (parallel_inputs schedule ?n ?ins ?m))"
    unfolding run by (rule all_inputs_ok [OF ok rows_of_fit])
  then show ?thesis
    by (simp add: dynamic_stitch_def check_args_and_allocate_result_def Let_def rows_of_def slice_size_of_def
        split: option.splits sum.splits)
qed

theorem parallel_stitch_any_schedule_witness:
  "dynamic_stitch (Some [1, 0, 1, 0]) None int sample_merge
     = Inr \<lparr>shape_of = [4, 2], flat = [1, 2, 7, 8, 3, 4, 5, 6]\<rparr>"
proof -
  have "complete_schedule [1, 0, 1, 0] (rows_of sample_merge)"
    by (simp add: complete_schedule_def rows_of_def input_rows_def sample_merge_def less_Suc_eq)
  note parallel_stitch_any_schedule [OF sample_merge_ok(2,3) this, of None int]
  also have "dynamic_stitch None None int sample_merge
      = Inr \<lparr>shape_of = [4, 2], flat = [1, 2, 7, 8, 3, 4, 5, 6]\<rparr>" by code_simp
  finally show ?thesis .
qed

text \<open>
  C30. The kernel of \<open>DynamicStitchFast\<close>, launched so that each block visits one segment, each
  row has a thread and each block its shared variables, returns under every complete schedule of its threads what \<open>DynamicStitch\<close>
  returns on the CPU, provided that the indices are a permutation of the rows of the output,
  the tensors hold as many elements as their shapes say, the sizes fit into \<open>int32\<close> (the number
  of indices, the elements of a row, of the output and of each input), and the device arrays
  could be set up.
\<close>

theorem fast_stitch_equals_stitch:
  assumes "inputs_shaped inputs" "one_segment_per_block cfg (length inputs)" "covers cfg (fast_segments inputs)"
    and "\<forall>b\<in>set (block_of cfg). b < length shared0"
    and "distinct (concat (map (\<lambda>x. flat (fst x)) inputs))"
    and "all_indices inputs = int ` {..<fast_first_dim inputs}"
    and "grid_finished (launch_grid (slice_size_of inputs) (fast_segments inputs) cfg shared0 schedule
           (map mem [0..<fast_first_dim inputs * slice_size_of inputs]))"
    and "stitch_fits inputs" "first_status arrays = None"
  shows "dynamic_stitch_fast cfg schedule shared0 arrays alloc mem inputs = Some (dynamic_stitch None alloc mem inputs)"
  by (rule dynamic_stitch_fast_spec [OF assms])

definition two_blocks :: launch_config where
  "two_blocks = \<lparr>block_of = [0, 1], y_range = [[0], [1]], x_range = \<lambda>t n. [0..<n]\<rparr>"

definition one_block :: launch_config where
  "one_block = \<lparr>block_of = [0, 0], y_range = [[0], [1]], x_range = \<lambda>t n. [0..<n]\<rparr>"

definition alternating :: "nat list" where
  "alternating = [0, 1, 0, 1, 0, 1, 0, 1, 0, 1]"

theorem fast_stitch_equals_stitch_witness:
  "dynamic_stitch_fast two_blocks alternating [(0, [], []), (0, [], [])] [None] None int sample_merge
     = Some (Inr \<lparr>shape_of = [4, 2], flat = [1, 2, 7, 8, 3, 4, 5, 6]\<rparr>)"
proof -
  have one: "one_segment_per_block two_blocks (length sample_merge)"
    by (simp add: one_segment_per_block_def two_blocks_def sample_merge_def less_Suc_eq numeral_2_eq_2 all_conj_distrib)
  have cov: "covers two_blocks (fast_segments sample_merge)"
    by (auto simp: covers_def two_blocks_def fast_segments_def sample_merge_def num_elements_def less_Suc_eq
        numeral_2_eq_2 all_conj_distrib)
  have perm: "all_indices sample_merge = int ` {..<fast_first_dim sample_merge}"
    by (auto simp: all_indices_def sample_merge_def fast_first_dim_def num_elements_def lessThan_Suc eval_nat_numeral)
  have fin: "grid_finished (launch_grid (slice_size_of sample_merge) (fast_segments sample_merge) two_blocks
      [(0, [], []), (0, [], [])] alternating
      (map int [0..<fast_first_dim sample_merge * slice_size_of sample_merge]))"
    by code_simp
  have blocks: "\<forall>b\<in>set (block_of two_blocks). b < length [(0::nat, [] :: int list, [] :: int list), (0, [], [])]"
    by (simp add: two_blocks_def)
  have fits: "stitch_fits sample_merge"
    by (simp add: stitch_fits_def fits_int32_def sample_merge_def first_dim_of_def maximum_def
        num_elements_def slice_size_of_def extra_shape_def)
  have arrays: "first_status [None] = None" by simp
  note fast_stitch_equals_stitch [OF sample_merge_ok(1) one cov blocks sample_merge_ok(3) perm fin fits arrays, of None]
  also have "dynamic_stitch None None int sample_merge
      = Inr \<lparr>shape_of = [4, 2], flat = [1, 2, 7, 8, 3, 4, 5, 6]\<rparr>" by code_simp
  finally show ?thesis .
qed

text \<open>
  When both segments share a block, its threads overwrite each other's shared variables: here
  the rows of the first input never reach the output.
\<close>

lemma fast_stitch_race:
  "dynamic_stitch_fast one_block alternating [(0, [], [])] [] None int sample_merge
     = Some (Inr \<lparr>shape_of = [4, 2], flat = [0, 1, 7, 8, 4, 5, 5, 6]\<rparr>)"
  by code_simp

end
