(* ===== verification/Segment_Sum.thy ===== *)
theory Segment_Sum
  imports Tensors
begin

text \<open>
  \<open>SparseSegmentSum\<close> on the GPU: rows of the input, gathered by \<open>indices\<close>, are added up over runs
  of equal segment ids.  The threads of the kernel add up stripes of eight gathered rows, one
  column each, and write what they have at every change of the segment id.  A thread never reads
  the output, so a run of the kernel is its threads' writes in some order.  None stands for an
  access outside of an array, and for tensors so large that a number the code keeps in an
  \<open>Index\<close> or an \<open>int\<close> may not hold its value (\<open>index_sizes_fit\<close>); what the code does then is not
  modelled.  Below these limits offsets are the unbounded integers of the model.
\<close>

section \<open>The kernel\<close>

datatype 'e out_write = Atomic_add int 'e | Store int 'e

definition ldg :: "'e list \<Rightarrow> int \<Rightarrow> 'e option" where
  "ldg input p = (if fast_bounds_check p (int (length input)) then Some (input ! nat p) else None)"

fun stripe_loop ::
  "int \<Rightarrow> int \<Rightarrow> 'e::plus list \<Rightarrow> int \<Rightarrow> 'e \<Rightarrow> (int \<times> int) list \<Rightarrow> int \<Rightarrow> 'e \<Rightarrow> 'e out_write list option" where
  "stripe_loop inner_dim_size segment_offset input first_segment_id zero [] last_output_segment_id acc =
     Some [Atomic_add (last_output_segment_id * inner_dim_size + segment_offset) acc]"
| "stripe_loop inner_dim_size segment_offset input first_segment_id zero
     ((current_output_segment_id, current_input_index_id) # rows) last_output_segment_id acc =
     (let output_index = last_output_segment_id * inner_dim_size + segment_offset;
          (flushed, acc) =
            (if current_output_segment_id > last_output_segment_id
             then ([if last_output_segment_id = first_segment_id
                    then Atomic_add output_index acc else Store output_index acc], zero)
             else ([], acc))
      in case ldg input (current_input_index_id * inner_dim_size + segment_offset) of
           None \<Rightarrow> None
         | Some x \<Rightarrow> map_option ((@) flushed)
             (stripe_loop inner_dim_size segment_offset input first_segment_id zero rows
                current_output_segment_id (acc + x)))"

text \<open>
  The stripe with a given number.  Stripes begin inside of the arrays, so that the reads of
  \<open>segment_ids\<close> and \<open>indices\<close> stay in bounds.
\<close>

definition outer_dim_tile_size :: nat where
  "outer_dim_tile_size = 8"

definition stripe_writes ::
  "nat \<Rightarrow> nat \<Rightarrow> int \<Rightarrow> int list \<Rightarrow> int list \<Rightarrow> 'e::{plus,zero} list \<Rightarrow> nat \<Rightarrow> 'e out_write list option" where
  "stripe_writes input_outer_dim_size inner_dim_size output_outer_dim_size indices segment_ids input
     stripe_index =
     (let segment_offset = stripe_index mod inner_dim_size;
          input_outer_dim_index_base = stripe_index div inner_dim_size * outer_dim_tile_size;
          first_segment_id = segment_ids ! input_outer_dim_index_base;
          actual_stripe_height =
            min outer_dim_tile_size (input_outer_dim_size - input_outer_dim_index_base)
      in stripe_loop (int inner_dim_size) (int segment_offset) input first_segment_id 0
           (take actual_stripe_height
              (drop input_outer_dim_index_base (zip segment_ids indices)))
           output_outer_dim_size 0)"

fun apply_write :: "'e::plus out_write \<Rightarrow> 'e list option \<Rightarrow> 'e list option" where
  "apply_write w None = None"
| "apply_write (Atomic_add p x) (Some out) =
     (if fast_bounds_check p (int (length out)) then Some (out[nat p := out ! nat p + x]) else None)"
| "apply_write (Store p x) (Some out) =
     (if fast_bounds_check p (int (length out)) then Some (out[nat p := x]) else None)"

text \<open>The order in which the writes of the threads take effect is the parameter \<open>order\<close>.\<close>

definition segment_sum_kernel ::
  "('e out_write list list \<Rightarrow> 'e out_write list) \<Rightarrow> nat \<Rightarrow> nat \<Rightarrow> int \<Rightarrow> int list \<Rightarrow> int list
     \<Rightarrow> 'e::{plus,zero} list \<Rightarrow> 'e list \<Rightarrow> nat \<Rightarrow> 'e list option" where
  "segment_sum_kernel order input_outer_dim_size inner_dim_size output_outer_dim_size indices
     segment_ids input output total_stripe_count =
     (let stripes = map (stripe_writes input_outer_dim_size inner_dim_size output_outer_dim_size
                           indices segment_ids input) [0..<total_stripe_count]
      in if None \<in> set stripes then None
         else fold apply_write (order (map the stripes)) (Some output))"

section \<open>The functor and the operation\<close>

definition divup :: "nat \<Rightarrow> nat \<Rightarrow> nat" where
  "divup a b = (a + b - 1) div b"

definition sparse_segment_sum_functor ::
  "('e out_write list list \<Rightarrow> 'e out_write list) \<Rightarrow> int \<Rightarrow> nat \<Rightarrow> int list \<Rightarrow> int list
     \<Rightarrow> 'e::{plus,zero} list \<Rightarrow> 'e list \<Rightarrow> 'e list option" where
  "sparse_segment_sum_functor order output_rows data_size indices segment_ids input output_flat =
     (if length output_flat = 0 then Some output_flat
      else let output_flat = replicate (length output_flat) 0 in
        if data_size = 0 \<or> length segment_ids = 0 then Some output_flat
        else let input_outer_dim_size = length segment_ids;
                 input_inner_dim_size = data_size div input_outer_dim_size;
                 total_stripe_count =
                   input_inner_dim_size * divup input_outer_dim_size outer_dim_tile_size
             in if total_stripe_count \<le> 0 then Some output_flat
                else segment_sum_kernel order input_outer_dim_size input_inner_dim_size output_rows
                       indices segment_ids input output_flat total_stripe_count)"

text \<open>
  What the framework and the device answer, the allocated memory, the order of writes, and the
  first number the type \<open>Index\<close> does not hold: 2 to the 31 for \<open>int32\<close>, 2 to the 63 for \<open>int64\<close>.
\<close>

record 'e gpu_context =
  memcpy_ok :: bool
  block_host_until_done :: status
  allocate_output :: status
  fresh_memory :: "nat \<Rightarrow> 'e"
  write_order :: "'e out_write list list \<Rightarrow> 'e out_write list"
  index_limit :: int

text \<open>
  The sizes the code computes, against \<open>Index\<close> and, for the two launches and the number of a
  stripe, against \<open>int\<close>.
\<close>

definition index_sizes_fit :: "int \<Rightarrow> nat \<Rightarrow> nat \<Rightarrow> nat \<Rightarrow> nat \<Rightarrow> bool" where
  "index_sizes_fit limit num_indices output_rows element_size input_size \<longleftrightarrow>
     int num_indices + int outer_dim_tile_size \<le> limit \<and> int output_rows < limit \<and>
     int element_size < limit \<and> int input_size < limit \<and> int (num_indices * element_size) < limit \<and>
     int (output_rows * element_size) < limit \<and> fits_int32 (output_rows * element_size) \<and>
     fits_int32 (element_size * divup num_indices outer_dim_tile_size)"

text \<open>
  The number that is copied to the host: the first element of \<open>num_segments\<close> where the
  operation has that input, the last segment id otherwise.
\<close>

definition output_rows_host ::
  "'e gpu_context \<Rightarrow> int tensor option \<Rightarrow> int tensor \<Rightarrow> (string + int) option" where
  "output_rows_host ctx num_segments segment_ids =
     (case num_segments of
        Some t \<Rightarrow> (if flat t = [] then None else Some (Inr (hd (flat t))))
      | None \<Rightarrow>
          if \<not> memcpy_ok ctx
          then Some (Inl ''SparseSegmentSumGpuOp: failed to copy output_rows to host.'')
          else if num_elements segment_ids = 0 then None
          else Some (Inr (flat segment_ids ! (num_elements segment_ids - 1))))"

definition sparse_segment_sum ::
  "'e gpu_context \<Rightarrow> int tensor option \<Rightarrow> 'e::{plus,zero} tensor \<Rightarrow> int tensor \<Rightarrow> int tensor
     \<Rightarrow> (string + 'e tensor) option" where
  "sparse_segment_sum ctx num_segments input_data indices segment_ids =
     (if length (shape_of indices) \<noteq> 1 then Some (Inl ''indices should be a vector.'')
      else if length (shape_of segment_ids) \<noteq> 1 then Some (Inl ''segment_ids should be a vector.'')
      else if num_elements indices \<noteq> num_elements segment_ids
      then Some (Inl ''indices and segment_ids should havesame length.'')
      else case output_rows_host ctx num_segments segment_ids of
        None \<Rightarrow> None
      | Some (Inl msg) \<Rightarrow> Some (Inl msg)
      | Some (Inr rows_host) \<Rightarrow>
          if \<not> length (shape_of input_data) \<ge> 1
          then Some (Inl ''indices and segment_ids should have same length.'')
          else let element_size = prod_list (tl (shape_of input_data)) in
            case block_host_until_done ctx of
              Some msg \<Rightarrow> Some (Inl msg)
            | None \<Rightarrow>
                let output_rows = (if num_segments = None then rows_host + 1 else rows_host) in
                if \<not> output_rows > 0 then Some (Inl ''Segment ids must be >= 0'')
                else let output_shape = (shape_of input_data)[0 := nat output_rows] in
                  case allocate_output ctx of
                    Some msg \<Rightarrow> Some (Inl msg)
                  | None \<Rightarrow>
                      if \<not> index_sizes_fit (index_limit ctx) (num_elements indices) (nat output_rows)
                            element_size (num_elements input_data) then None
                      else map_option (\<lambda>out. Inr \<lparr>shape_of = output_shape, flat = out\<rparr>)
                        (sparse_segment_sum_functor (write_order ctx) output_rows
                           (num_elements indices * element_size) (flat indices) (flat segment_ids)
                           (flat input_data) (map (fresh_memory ctx) [0..<prod_list output_shape])))"

end
