(* ===== verification/Segment_Sum_Spec.thy ===== *)
theory Segment_Sum_Spec
  imports Segment_Sum
begin

text \<open>
  What the stripes write: for sorted segment ids every segment of a stripe gets one write, and
  only a segment that lies inside of one stripe is stored instead of added.  That makes the
  output independent of the order of the writes.
\<close>

section \<open>The writes of one stripe\<close>

fun position :: "'e out_write \<Rightarrow> int" where
  "position (Atomic_add p x) = p"
| "position (Store p x) = p"

fun amount :: "'e out_write \<Rightarrow> 'e" where
  "amount (Atomic_add p x) = x"
| "amount (Store p x) = x"

fun is_add :: "'e out_write \<Rightarrow> bool" where
  "is_add (Atomic_add p x) = True"
| "is_add (Store p x) = False"

definition flush :: "bool \<Rightarrow> int \<Rightarrow> 'e \<Rightarrow> 'e out_write" where
  "flush b p x = (if b then Atomic_add p x else Store p x)"

lemma flush_simps [simp]:
  "position (flush b p x) = p" "amount (flush b p x) = x" "is_add (flush b p x) = b"
  by (simp_all add: flush_def)

definition writes_at :: "int \<Rightarrow> 'e out_write list \<Rightarrow> 'e out_write list" where
  "writes_at p = filter (\<lambda>w. position w = p)"

lemma writes_at_simps [simp]:
  "writes_at p [] = []"
  "writes_at p (w # ws) = (if position w = p then w # writes_at p ws else writes_at p ws)"
  "writes_at p (ws @ ws') = writes_at p ws @ writes_at p ws'"
  by (simp_all add: writes_at_def)

lemma writes_at_concat: "writes_at p (concat wss) = concat (map (writes_at p) wss)"
  by (simp add: writes_at_def filter_concat)

text \<open>What the rows of one segment add up to in one column.\<close>

definition gathered :: "int \<Rightarrow> int \<Rightarrow> 'e list \<Rightarrow> int \<Rightarrow> 'e" where
  "gathered inner offset input i = input ! nat (i * inner + offset)"

definition segment_total ::
  "int \<Rightarrow> int \<Rightarrow> 'e::comm_monoid_add list \<Rightarrow> int \<Rightarrow> (int \<times> int) list \<Rightarrow> 'e" where
  "segment_total inner offset input s rows =
     sum_list (map (\<lambda>(t, i). if t = s then gathered inner offset input i else 0) rows)"

lemma segment_total_simps [simp]:
  "segment_total inner offset input s [] = 0"
  "segment_total inner offset input s ((t, i) # rows) =
     (if t = s then gathered inner offset input i else 0) + segment_total inner offset input s rows"
  "segment_total inner offset input s (rows @ rows') =
     segment_total inner offset input s rows + segment_total inner offset input s rows'"
  by (simp_all add: segment_total_def)

lemma segment_total_absent: "s \<notin> fst ` set rows \<Longrightarrow> segment_total inner offset input s rows = 0"
  by (induction rows) auto

definition readable :: "int \<Rightarrow> int \<Rightarrow> 'e list \<Rightarrow> (int \<times> int) list \<Rightarrow> bool" where
  "readable inner offset input rows \<longleftrightarrow>
     (\<forall>r\<in>set rows. fast_bounds_check (snd r * inner + offset) (int (length input)))"

lemma position_inj: "0 < inner \<Longrightarrow> (s :: int) * inner + c = t * inner + c \<longleftrightarrow> s = t"
  by simp

text \<open>
  The write that the loop makes for segment \<open>s\<close>, when it has still to see \<open>rows\<close> and has
  added up \<open>acc\<close> for segment \<open>l\<close>.
\<close>

definition segment_write ::
  "int \<Rightarrow> int \<Rightarrow> 'e::comm_monoid_add list \<Rightarrow> int \<Rightarrow> (int \<times> int) list \<Rightarrow> int \<Rightarrow> 'e \<Rightarrow> int
     \<Rightarrow> 'e out_write list" where
  "segment_write inner c input f rows l acc s =
     (if s \<in> insert l (fst ` set rows)
      then [flush (s = f \<or> s = last (l # map fst rows)) (s * inner + c)
              ((if s = l then acc else 0) + segment_total inner c input s rows)]
      else [])"

lemma segment_write_same:
  "segment_write inner c input f ((l, i) # rows) l acc s
     = segment_write inner c input f rows l (acc + gathered inner c input i) s"
  by (auto simp: segment_write_def add.assoc)

lemma segment_write_next:
  assumes "l < t" "\<forall>u\<in>fst ` set rows. t \<le> u"
  shows "segment_write inner c input f ((t, i) # rows) l acc s =
    (if s = l then [flush (l = f) (l * inner + c) acc]
     else segment_write inner c input f rows t (0 + gathered inner c input i) s)"
proof -
  have absent: "l \<notin> insert t (fst ` set rows)" using assms by force
  have "l \<noteq> last (t # map fst rows)"
    using absent last_in_set [of "t # map fst rows"] by (metis list.discI list.set(2) list.set_map)
  then show ?thesis
    using absent segment_total_absent [of l rows inner c input] by (auto simp: segment_write_def)
qed

lemma segment_write_absent: "s \<notin> insert l (fst ` set rows) \<Longrightarrow> segment_write inner c input f rows l acc s = []"
  by (simp add: segment_write_def)

lemma map_option_append_Nil [simp]: "map_option ((@) []) m = m"
  by (cases m) simp_all

lemma stripe_loop_writes:
  fixes input :: "'e::comm_monoid_add list"
  assumes "0 < inner" "readable inner c input rows" "sorted (l # map fst rows)"
  shows "\<exists>ws. stripe_loop inner c input f 0 rows l acc = Some ws
    \<and> (\<forall>s. writes_at (s * inner + c) ws = segment_write inner c input f rows l acc s)
    \<and> (\<forall>w\<in>set ws. \<exists>s\<in>insert l (fst ` set rows). position w = s * inner + c)"
  using assms(2,3)
proof (induction rows arbitrary: l acc)
  case Nil
  then show ?case using assms(1) by (auto simp: segment_write_def flush_def)
next
  case (Cons r rows)
  obtain t i where r: "r = (t, i)" by (cases r)
  let ?x = "gathered inner c input i"
  have read: "ldg input (i * inner + c) = Some ?x"
    using Cons.prems(1) by (simp add: ldg_def readable_def r gathered_def)
  have rest: "readable inner c input rows" "sorted (t # map fst rows)" and le: "l \<le> t"
    "\<forall>u\<in>fst ` set rows. t \<le> u"
    using Cons.prems by (auto simp: readable_def r)
  show ?case
  proof (cases "t > l")
    case False
    with le have tl: "t = l" by simp
    from Cons.IH [OF rest, of "acc + ?x"] show ?thesis
      using read by (auto simp: r tl segment_write_same)
  next
    case True
    let ?w = "flush (l = f) (l * inner + c) acc"
    from Cons.IH [OF rest, of "0 + ?x"] obtain ws where ws:
      "stripe_loop inner c input f 0 rows t (0 + ?x) = Some ws"
      "\<forall>s. writes_at (s * inner + c) ws = segment_write inner c input f rows t (0 + ?x) s"
      "\<forall>w\<in>set ws. \<exists>s\<in>insert t (fst ` set rows). position w = s * inner + c" by blast
    have loop: "stripe_loop inner c input f 0 (r # rows) l acc = Some (?w # ws)"
      using True read ws(1) by (simp add: r flush_def)
    have "l \<notin> insert t (fst ` set rows)" using True le by force
    then have "writes_at (s * inner + c) (?w # ws) = segment_write inner c input f (r # rows) l acc s" for s
      using ws(2) assms(1) by (simp add: r segment_write_next [OF True le(2)] segment_write_absent)
    then show ?thesis
      by (intro exI [of _ "?w # ws"] conjI loop allI) (use ws(3) in \<open>auto simp: r\<close>)
  qed
qed

text \<open>A whole stripe: the first row sets the segment id, and the sentinel before it flushes nothing.\<close>

definition stripe_write ::
  "int \<Rightarrow> int \<Rightarrow> 'e::comm_monoid_add list \<Rightarrow> int \<Rightarrow> (int \<times> int) list \<Rightarrow> 'e out_write list" where
  "stripe_write inner c input s rows =
     (if s \<in> fst ` set rows
      then [flush (s = fst (hd rows) \<or> s = fst (last rows)) (s * inner + c)
              (segment_total inner c input s rows)]
      else [])"

lemma stripe_loop_start:
  fixes input :: "'e::comm_monoid_add list"
  assumes "0 < inner" "readable inner c input rows" "sorted (map fst rows)" "rows \<noteq> []"
    "\<forall>r\<in>set rows. fst r \<le> n"
  obtains ws where "stripe_loop inner c input (fst (hd rows)) 0 rows n 0 = Some ws"
    "\<And>s. writes_at (s * inner + c) ws = stripe_write inner c input s rows"
    "\<forall>w\<in>set ws. \<exists>s\<in>fst ` set rows. position w = s * inner + c"
proof -
  obtain t i rest where r: "rows = (t, i) # rest" using assms(4) by (cases rows) auto
  let ?acc = "0 + gathered inner c input i"
  have start: "stripe_loop inner c input (fst (hd rows)) 0 rows n 0 = stripe_loop inner c input t 0 rest t ?acc"
    using assms(2,5) by (auto simp: r ldg_def readable_def gathered_def)
  have "segment_write inner c input t rest t ?acc s = stripe_write inner c input s rows" for s
    by (simp add: segment_write_def stripe_write_def r last_map)
  moreover obtain ws where "stripe_loop inner c input t 0 rest t ?acc = Some ws"
    "\<forall>s. writes_at (s * inner + c) ws = segment_write inner c input t rest t ?acc s"
    "\<forall>w\<in>set ws. \<exists>s\<in>insert t (fst ` set rest). position w = s * inner + c"
    using stripe_loop_writes [of inner c input rest t t ?acc] assms(1-3) by (auto simp: r readable_def)
  ultimately show thesis using that start by (simp add: r)
qed

section \<open>The stripes of one column\<close>

lemma concat_chunks: "concat (map (\<lambda>b. take k (drop (b * k) xs)) [0..<n]) = take (n * k) xs"
  by (induction n) (simp_all add: take_add [symmetric] add.commute)

lemma stripe_write_amount:
  "sum_list (map amount (stripe_write inner c input s rows)) = segment_total inner c input s rows"
  by (simp add: stripe_write_def segment_total_absent)

lemma column_amount:
  "sum_list (map amount (concat (map (stripe_write inner c input s) rss)))
     = segment_total inner c input s (concat rss)"
  by (induction rss) (simp_all add: stripe_write_amount)

lemma stored_inside:
  assumes "w \<in> set (stripe_write inner c input s rows)" "\<not> is_add w" "sorted (map fst rows)"
  shows "fst (hd rows) < s" "s < fst (last rows)"
proof -
  have s: "s \<in> set (map fst rows)" "s \<noteq> fst (hd rows)" "s \<noteq> fst (last rows)"
    using assms(1,2) by (auto simp: stripe_write_def split: if_splits)
  then have ne: "rows \<noteq> []" by auto
  have "hd (map fst rows) \<le> s" using assms(3) s(1) by (cases rows) auto
  moreover have "s \<le> fst (last rows)" using assms(3) s(1) sorted_map_le_last [of fst rows] by auto
  ultimately show "fst (hd rows) < s" "s < fst (last rows)" using s ne by (auto simp: hd_map)
qed

text \<open>A segment that is stored by one stripe does not occur in another one.\<close>

lemma column_add_or_single:
  fixes input :: "'e::comm_monoid_add list"
  assumes "sorted (map fst (concat rss))"
    "W = concat (map (stripe_write inner c input s) rss)"
  shows "(\<forall>w\<in>set W. is_add w) \<or> length W = 1"
proof (cases "\<forall>w\<in>set W. is_add w")
  case False
  then obtain rows w where w: "rows \<in> set rss" "w \<in> set (stripe_write inner c input s rows)" "\<not> is_add w"
    unfolding assms(2) by auto
  then obtain as bs where rss: "rss = as @ rows # bs" by (meson split_list)
  have parts: "sorted (map fst rows)" "\<forall>x\<in>set (concat as). \<forall>y\<in>set rows. fst x \<le> fst y"
    "\<forall>x\<in>set rows. \<forall>y\<in>set (concat bs). fst x \<le> fst y"
    using assms(1) by (auto simp: rss sorted_append)
  have ne: "rows \<noteq> []" using w(2) by (auto simp: stripe_write_def)
  note inside = stored_inside [OF w(2,3) parts(1)]
  have none: "stripe_write inner c input s rows' = []" if "rows' \<in> set as \<union> set bs" for rows'
  proof -
    have "s \<noteq> fst r" if "r \<in> set rows'" for r
      using that \<open>rows' \<in> set as \<union> set bs\<close> parts(2,3) inside hd_in_set [OF ne] last_in_set [OF ne] by fastforce
    then show ?thesis by (auto simp: stripe_write_def)
  qed
  have "W = stripe_write inner c input s rows"
    unfolding assms(2) rss using none by (simp add: concat_eq_Nil_conv [THEN iffD2])
  then show ?thesis using w(2) by (auto simp: stripe_write_def split: if_splits)
qed simp

lemma concat_single:
  "c < n \<Longrightarrow> concat (map (\<lambda>j. if j = c then g else []) [0..<n]) = g"
  by (induction n) (auto simp: less_Suc_eq)

lemma concat_column:
  assumes "c < inner"
  shows "concat (map (\<lambda>k. if k mod inner = c then g (k div inner) else []) [0..<inner * m])
    = concat (map g [0..<m])"
proof (induction m)
  case (Suc m)
  have "[0..<inner * Suc m] = [0..<inner * m] @ map (\<lambda>j. j + inner * m) [0..<inner]"
    using upt_add_eq_append [of 0 "inner * m" inner] by (simp add: map_add_upt add.commute)
  moreover have "concat (map (\<lambda>k. if k mod inner = c then g (k div inner) else []) (map (\<lambda>j. j + inner * m) [0..<inner]))
      = concat (map (\<lambda>j. if j = c then g m else []) [0..<inner])"
    using assms by (intro arg_cong [where f = concat]) (auto simp: div_mult_self2)
  ultimately show ?case using Suc concat_single [OF assms, of "g m"] by simp
qed simp

section \<open>The writes take effect\<close>

fun combine :: "'e::plus out_write \<Rightarrow> 'e \<Rightarrow> 'e" where
  "combine (Atomic_add p x) v = v + x"
| "combine (Store p x) v = x"

lemma apply_writes_nth:
  assumes "\<forall>w\<in>set ws. fast_bounds_check (position w) (int (length out))"
  shows "fold apply_write ws (Some out)
    = Some (map (\<lambda>p. fold combine (writes_at (int p) ws) (out ! p)) [0..<length out])"
  using assms
proof (induction ws arbitrary: out)
  case Nil
  then show ?case by (simp add: map_nth)
next
  case (Cons w ws)
  have "apply_write w (Some out) = Some (out[nat (position w) := combine w (out ! nat (position w))])"
    using Cons.prems by (cases w) simp_all
  moreover have "fold combine (writes_at (int p) ws) (out[nat (position w) := combine w (out ! nat (position w))] ! p)
      = fold combine (writes_at (int p) (w # ws)) (out ! p)" if "p < length out" for p
    using that Cons.prems by (auto simp: fast_bounds_check_def nth_list_update)
  ultimately show ?case using Cons by simp
qed

lemma fold_combine_adds:
  fixes v :: "'e::comm_monoid_add"
  shows "\<forall>w\<in>set ws. is_add w \<Longrightarrow> fold combine ws v = v + sum_list (map amount ws)"
proof (induction ws arbitrary: v)
  case (Cons w ws)
  then show ?case by (cases w) (simp_all add: add.assoc)
qed simp

lemma fold_combine_any_order:
  fixes ws :: "'e::comm_monoid_add out_write list"
  assumes "(\<forall>w\<in>set ws. is_add w) \<or> length ws = 1" "mset vs = mset ws"
  shows "fold combine vs 0 = sum_list (map amount ws)"
proof -
  have sums: "sum_list (map amount vs) = sum_list (map amount ws)"
    using assms(2) by (metis mset_map sum_mset_sum_list)
  from assms(1) show ?thesis
  proof
    assume "\<forall>w\<in>set ws. is_add w"
    then show ?thesis using fold_combine_adds [of vs 0] sums mset_eq_setD [OF assms(2)] by simp
  next
    assume "length ws = 1"
    then obtain w where "vs = [w]" using assms(2) by (auto simp: length_Suc_conv)
    then show ?thesis using sums by (cases w) simp_all
  qed
qed

lemma writes_at_mset: "mset vs = mset ws \<Longrightarrow> mset (writes_at p vs) = mset (writes_at p ws)"
  by (simp add: writes_at_def)

section \<open>The kernel\<close>

text \<open>The reference: each element of the output is a sum over the rows of its segment.\<close>

definition segment_sums ::
  "nat \<Rightarrow> nat \<Rightarrow> int list \<Rightarrow> int list \<Rightarrow> 'e::comm_monoid_add list \<Rightarrow> 'e list" where
  "segment_sums rows inner indices segment_ids input =
     map (\<lambda>p. segment_total (int inner) (int (p mod inner)) input (int (p div inner))
                (zip segment_ids indices)) [0..<rows * inner]"

definition segment_input_ok ::
  "nat \<Rightarrow> nat \<Rightarrow> nat \<Rightarrow> int list \<Rightarrow> int list \<Rightarrow> 'e list \<Rightarrow> bool" where
  "segment_input_ok rows d inner indices segment_ids input \<longleftrightarrow>
     length indices = length segment_ids \<and> length input = d * inner \<and> sorted segment_ids \<and>
     (\<forall>s\<in>set segment_ids. fast_bounds_check s (int rows)) \<and>
     (\<forall>i\<in>set indices. fast_bounds_check i (int d))"

definition chunk :: "nat \<Rightarrow> 'a list \<Rightarrow> 'a list" where
  "chunk b xs = take outer_dim_tile_size (drop (b * outer_dim_tile_size) xs)"

lemma set_chunk: "x \<in> set (chunk b xs) \<Longrightarrow> x \<in> set xs"
  unfolding chunk_def by (meson in_set_dropD in_set_takeD)

lemma set_chunk_zip: "r \<in> set (chunk b (zip xs ys)) \<Longrightarrow> fst r \<in> set xs \<and> snd r \<in> set ys"
proof -
  assume "r \<in> set (chunk b (zip xs ys))"
  then have "(fst r, snd r) \<in> set (zip xs ys)" by (simp add: set_chunk)
  then show ?thesis by (meson set_zip_leftD set_zip_rightD)
qed

lemma sorted_chunk: "sorted (map f xs) \<Longrightarrow> sorted (map f (chunk b xs))"
  by (simp add: chunk_def take_map [symmetric] drop_map [symmetric] sorted_wrt_take sorted_wrt_drop)

lemma chunk_start:
  assumes "b < divup (length xs) outer_dim_tile_size"
  shows "b * outer_dim_tile_size < length xs" "chunk b xs \<noteq> []"
    "hd (chunk b xs) = xs ! (b * outer_dim_tile_size)"
proof -
  show "b * outer_dim_tile_size < length xs"
    using assms by (simp add: divup_def outer_dim_tile_size_def)
  then show "chunk b xs \<noteq> []" "hd (chunk b xs) = xs ! (b * outer_dim_tile_size)"
    by (simp_all add: chunk_def hd_drop_conv_nth outer_dim_tile_size_def)
qed

lemma concat_all_chunks: "concat (map (\<lambda>b. chunk b xs) [0..<divup (length xs) outer_dim_tile_size]) = xs"
  by (simp add: chunk_def concat_chunks divup_def outer_dim_tile_size_def)

lemma gather_in_bounds:
  assumes "fast_bounds_check i (int d)" "c < inner"
  shows "fast_bounds_check (i * int inner + int c) (int (d * inner))"
proof -
  obtain k where k: "i = int k" "k < d" using assms(1) by (auto simp: fast_bounds_check_def dest: zero_le_imp_eq_int)
  have "k * inner + c < Suc k * inner" using assms(2) by simp
  also have "Suc k * inner \<le> d * inner" using k(2) by (intro mult_le_mono1) simp
  finally show ?thesis by (simp add: k(1) fast_bounds_check_def flip: of_nat_mult of_nat_add)
qed

lemma stripe_writes_spec:
  fixes input :: "'e::comm_monoid_add list"
  assumes ok: "segment_input_ok rows d inner indices segment_ids input" and "0 < inner"
    and k: "k < inner * divup (length segment_ids) outer_dim_tile_size"
  obtains ws where
    "stripe_writes (length segment_ids) inner (int rows) indices segment_ids input k = Some ws"
    "\<And>s. writes_at (s * int inner + int (k mod inner)) ws =
       stripe_write (int inner) (int (k mod inner)) input s (chunk (k div inner) (zip segment_ids indices))"
    "\<forall>w\<in>set ws. \<exists>s\<in>set segment_ids. position w = s * int inner + int (k mod inner)"
proof -
  let ?zs = "zip segment_ids indices" let ?rows = "chunk (k div inner) ?zs"
  have len: "length ?zs = length segment_ids" "length indices = length segment_ids"
    using ok by (simp_all add: segment_input_ok_def)
  have b: "k div inner < divup (length ?zs) outer_dim_tile_size"
    using k \<open>0 < inner\<close> by (simp add: len less_mult_imp_div_less mult.commute)
  note start = chunk_start [OF b]
  have rows: "take (min outer_dim_tile_size (length segment_ids - k div inner * outer_dim_tile_size))
      (drop (k div inner * outer_dim_tile_size) ?zs) = ?rows"
    by (simp add: chunk_def len min_def)
  have first: "segment_ids ! (k div inner * outer_dim_tile_size) = fst (hd ?rows)"
    using start(1) by (simp add: start(3) len)
  have set: "fst ` set ?rows \<subseteq> set segment_ids" "snd ` set ?rows \<subseteq> set indices"
    using set_chunk_zip [of _ _ segment_ids indices] by (simp_all add: image_subset_iff)
  have readable: "readable (int inner) (int (k mod inner)) input ?rows"
    unfolding readable_def
  proof
    fix r assume "r \<in> set ?rows"
    then have "fast_bounds_check (snd r) (int d)" using set(2) ok by (auto simp: segment_input_ok_def)
    then show "fast_bounds_check (snd r * int inner + int (k mod inner)) (int (length input))"
      using ok \<open>0 < inner\<close> gather_in_bounds [of "snd r" d "k mod inner" inner]
      by (simp add: segment_input_ok_def)
  qed
  have sorted: "sorted (map fst ?rows)"
    using ok len by (intro sorted_chunk) (simp add: segment_input_ok_def)
  have le: "\<forall>r\<in>set ?rows. fst r \<le> int rows"
    using set(1) ok by (force simp: segment_input_ok_def fast_bounds_check_def)
  have pos: "0 < int inner" using \<open>0 < inner\<close> by simp
  obtain ws where ws:
    "stripe_loop (int inner) (int (k mod inner)) input (fst (hd ?rows)) 0 ?rows (int rows) 0 = Some ws"
    "\<And>s. writes_at (s * int inner + int (k mod inner)) ws =
         stripe_write (int inner) (int (k mod inner)) input s ?rows"
    "\<forall>w\<in>set ws. \<exists>s\<in>fst ` set ?rows. position w = s * int inner + int (k mod inner)"
    by (rule stripe_loop_start [OF pos readable sorted start(2) le]) (rule that)
  from ws(3) set(1) have "\<forall>w\<in>set ws. \<exists>s\<in>set segment_ids. position w = s * int inner + int (k mod inner)"
    by blast
  then show thesis
    using that [of ws] ws(1,2) by (simp only: stripe_writes_def Let_def rows first)
qed

lemma divmod_position:
  fixes s :: int
  assumes "(c :: nat) < inner" "p = r * inner + c" "c' < inner"
  shows "s * int inner + int c' = int p \<longleftrightarrow> s = int r \<and> c' = c"
proof
  assume eq: "s * int inner + int c' = int p"
  then have "(s * int inner + int c') div int inner = (int r * int inner + int c) div int inner"
    by (simp add: assms(2))
  then have "s = int r" using assms(1,3) by simp
  then show "s = int r \<and> c' = c" using eq assms(2) by simp
qed (simp add: assms(2))

text \<open>All writes of the kernel to one element.\<close>

lemma kernel_writes_at:
  fixes input :: "'e::comm_monoid_add list"
  assumes ok: "segment_input_ok rows d inner indices segment_ids input" and "0 < inner"
    and p: "p < rows * inner"
  defines "ws \<equiv> \<lambda>k. the (stripe_writes (length segment_ids) inner (int rows) indices segment_ids input k)"
    and "m \<equiv> divup (length segment_ids) outer_dim_tile_size"
  shows "writes_at (int p) (concat (map ws [0..<inner * m]))
    = concat (map (stripe_write (int inner) (int (p mod inner)) input (int (p div inner)))
        (map (\<lambda>b. chunk b (zip segment_ids indices)) [0..<m]))"
proof -
  let ?c = "p mod inner" let ?r = "p div inner" let ?zs = "zip segment_ids indices"
  let ?g = "\<lambda>b. stripe_write (int inner) (int ?c) input (int ?r) (chunk b ?zs)"
  have split: "?c < inner" "p = ?r * inner + ?c" using \<open>0 < inner\<close> by simp_all
  have "writes_at (int p) (ws k) = (if k mod inner = ?c then ?g (k div inner) else [])"
    if "k < inner * m" for k
  proof -
    have k: "k < inner * divup (length segment_ids) outer_dim_tile_size" using that by (simp add: m_def)
    obtain vs where vs: "ws k = vs"
      "\<And>s. writes_at (s * int inner + int (k mod inner)) vs =
         stripe_write (int inner) (int (k mod inner)) input s (chunk (k div inner) ?zs)"
      "\<forall>w\<in>set vs. \<exists>s\<in>set segment_ids. position w = s * int inner + int (k mod inner)"
      by (rule stripe_writes_spec [OF ok \<open>0 < inner\<close> k]) (simp add: ws_def)
    have mod: "k mod inner < inner" using \<open>0 < inner\<close> by simp
    show ?thesis
    proof (cases "k mod inner = ?c")
      case True
      then have "int p = int ?r * int inner + int (k mod inner)"
        using divmod_position [OF split mod, of "int ?r"] by simp
      then show ?thesis using vs(1,2) True by simp
    next
      case False
      then show ?thesis
        using vs(1,3) divmod_position [OF split mod] by (auto simp: writes_at_def filter_empty_conv)
    qed
  qed
  then have "writes_at (int p) (concat (map ws [0..<inner * m]))
      = concat (map (\<lambda>k. if k mod inner = ?c then ?g (k div inner) else []) [0..<inner * m])"
    by (auto simp: writes_at_concat comp_def intro!: arg_cong [where f = concat])
  then show ?thesis by (simp add: concat_column [OF split(1), of ?g] comp_def)
qed

lemma kernel_in_bounds:
  fixes input :: "'e::comm_monoid_add list"
  assumes ok: "segment_input_ok rows d inner indices segment_ids input" and "0 < inner"
    and k: "k < inner * divup (length segment_ids) outer_dim_tile_size"
    and w: "w \<in> set (the (stripe_writes (length segment_ids) inner (int rows) indices segment_ids input k))"
  shows "fast_bounds_check (position w) (int (rows * inner))"
proof -
  obtain s where "s \<in> set segment_ids" "position w = s * int inner + int (k mod inner)"
    by (rule stripe_writes_spec [OF ok \<open>0 < inner\<close> k]) (use w in auto)
  then show ?thesis
    using ok gather_in_bounds [of s rows "k mod inner" inner] \<open>0 < inner\<close> by (simp add: segment_input_ok_def)
qed

lemma segment_sum_kernel_spec:
  fixes input :: "'e::comm_monoid_add list"
  assumes ok: "segment_input_ok rows d inner indices segment_ids input" and "0 < inner"
    and order: "\<And>wss. mset (order wss) = mset (concat wss)"
  shows "segment_sum_kernel order (length segment_ids) inner (int rows) indices segment_ids input
      (replicate (rows * inner) 0) (inner * divup (length segment_ids) outer_dim_tile_size)
    = Some (segment_sums rows inner indices segment_ids input)"
proof -
  let ?S = "stripe_writes (length segment_ids) inner (int rows) indices segment_ids input"
  let ?m = "divup (length segment_ids) outer_dim_tile_size" let ?zs = "zip segment_ids indices"
  let ?wss = "map (the \<circ> ?S) [0..<inner * ?m]"
  have some: "None \<notin> set (map ?S [0..<inner * ?m])"
  proof
    assume "None \<in> set (map ?S [0..<inner * ?m])"
    then obtain k where k: "k < inner * ?m" "?S k = None" by auto
    show False by (rule stripe_writes_spec [OF ok \<open>0 < inner\<close> k(1)]) (simp add: k(2))
  qed
  have bounds: "\<forall>w\<in>set (order ?wss). fast_bounds_check (position w) (int (length (replicate (rows * inner) (0 :: 'e))))"
    using kernel_in_bounds [OF ok \<open>0 < inner\<close>] mset_eq_setD [OF order [of ?wss]] by auto
  have "fold combine (writes_at (int p) (order ?wss)) 0
      = segment_total (int inner) (int (p mod inner)) input (int (p div inner)) ?zs" if p: "p < rows * inner" for p
  proof -
    let ?rss = "map (\<lambda>b. chunk b ?zs) [0..<?m]"
    let ?W = "concat (map (stripe_write (int inner) (int (p mod inner)) input (int (p div inner))) ?rss)"
    have len: "length ?zs = length segment_ids" using ok by (simp add: segment_input_ok_def)
    have all: "concat ?rss = ?zs" using concat_all_chunks [of ?zs] unfolding len .
    have "sorted (map fst (concat ?rss))" unfolding all using ok by (simp add: segment_input_ok_def)
    then have single: "(\<forall>w\<in>set ?W. is_add w) \<or> length ?W = 1" by (rule column_add_or_single) (rule refl)
    have "mset (writes_at (int p) (order ?wss)) = mset ?W"
      using writes_at_mset [OF order [of ?wss]] kernel_writes_at [OF ok \<open>0 < inner\<close> p]
      by (simp only: comp_def)
    from fold_combine_any_order [OF single this] show ?thesis
      by (simp only: column_amount all)
  qed
  then show ?thesis
    using some apply_writes_nth [OF bounds]
    by (auto simp: segment_sum_kernel_def segment_sums_def comp_def)
qed

lemma nat_position: "0 \<le> i \<Longrightarrow> nat (i * int m + int q) = nat i * m + q"
  by (simp add: nat_add_distrib nat_mult_distrib)

lemma segment_sums_elements:
  fixes input :: "'e::comm_monoid_add list"
  assumes "\<forall>i\<in>set indices. 0 \<le> i"
  shows "segment_sums rows inner indices segment_ids input =
    map (\<lambda>p. \<Sum>(t, i)\<leftarrow>zip segment_ids indices.
           if t = int (p div inner) then input ! (nat i * inner + p mod inner) else 0) [0..<rows * inner]"
proof -
  have "segment_total (int inner) (int (p mod inner)) input (int (p div inner)) (zip segment_ids indices)
    = (\<Sum>(t, i)\<leftarrow>zip segment_ids indices.
        if t = int (p div inner) then input ! (nat i * inner + p mod inner) else 0)" for p
    unfolding segment_total_def gathered_def
    using assms by (intro arg_cong [where f = sum_list] map_cong)
      (auto dest!: set_zip_rightD simp: nat_position simp del: of_nat_mod)
  then show ?thesis by (simp add: segment_sums_def)
qed

section \<open>The functor and the operation\<close>

lemma functor_spec:
  fixes input :: "'e::comm_monoid_add list"
  assumes ok: "segment_input_ok rows d inner indices segment_ids input"
    and order: "\<And>wss. mset (order wss) = mset (concat wss)"
    and out: "length output_flat = rows * inner"
  shows "sparse_segment_sum_functor order (int rows) (length indices * inner) indices segment_ids input output_flat
    = Some (segment_sums rows inner indices segment_ids input)"
proof -
  have len: "length indices = length segment_ids" using ok by (simp add: segment_input_ok_def)
  consider "rows * inner = 0" | "rows * inner > 0" "segment_ids = []" | "inner > 0" "rows > 0" "segment_ids \<noteq> []"
    by fastforce
  then show ?thesis
  proof cases
    case 1
    then show ?thesis using out by (auto simp: sparse_segment_sum_functor_def segment_sums_def)
  next
    case 2
    then show ?thesis
      using out by (auto simp: sparse_segment_sum_functor_def segment_sums_def intro: nth_equalityI)
  next
    case 3
    then have "divup (length segment_ids) outer_dim_tile_size > 0"
      by (cases segment_ids) (simp_all add: divup_def outer_dim_tile_size_def)
    then show ?thesis
      using 3 out segment_sum_kernel_spec [OF ok 3(1) order]
      by (simp add: sparse_segment_sum_functor_def len Let_def)
  qed
qed

text \<open>A device whose calls succeed, and on which every write of the kernel takes effect once.\<close>

definition plain_device :: "'e gpu_context \<Rightarrow> bool" where
  "plain_device ctx \<longleftrightarrow> memcpy_ok ctx \<and> block_host_until_done ctx = None \<and> allocate_output ctx = None \<and>
     (\<forall>wss. mset (write_order ctx wss) = mset (concat wss))"

text \<open>How many rows the operation is to produce.\<close>

definition wanted_rows :: "int tensor option \<Rightarrow> int tensor \<Rightarrow> nat \<Rightarrow> bool" where
  "wanted_rows num_segments segment_ids rows \<longleftrightarrow> 0 < rows \<and>
     (case num_segments of
        Some t \<Rightarrow> \<exists>ts. flat t = int rows # ts
      | None \<Rightarrow> flat segment_ids \<noteq> [] \<and> last (flat segment_ids) + 1 = int rows)"

lemma output_rows_host_wanted:
  assumes "memcpy_ok ctx" "wanted_rows num_segments segment_ids rows"
  shows "output_rows_host ctx num_segments segment_ids
    = Some (Inr (if num_segments = None then int rows - 1 else int rows))"
proof (cases num_segments)
  case None
  then show ?thesis
    using assms by (auto simp: output_rows_host_def wanted_rows_def num_elements_def last_conv_nth)
next
  case (Some t)
  then show ?thesis using assms by (auto simp: output_rows_host_def wanted_rows_def)
qed

lemma sparse_segment_sum_spec:
  fixes input_data :: "'e::comm_monoid_add tensor"
  assumes vectors: "shape_of indices = [n]" "shape_of segment_ids = [n]" "well_shaped indices"
      "well_shaped segment_ids"
    and input: "shape_of input_data = d # row_shape"
    and ok: "segment_input_ok rows d (prod_list row_shape) (flat indices) (flat segment_ids) (flat input_data)"
    and rows: "wanted_rows num_segments segment_ids rows"
    and device: "plain_device ctx"
    and sizes: "index_sizes_fit (index_limit ctx) n rows (prod_list row_shape) (num_elements input_data)"
  shows "sparse_segment_sum ctx num_segments input_data indices segment_ids
    = Some (Inr \<lparr>shape_of = rows # row_shape,
        flat = segment_sums rows (prod_list row_shape) (flat indices) (flat segment_ids) (flat input_data)\<rparr>)"
proof -
  have dev: "memcpy_ok ctx" "block_host_until_done ctx = None" "allocate_output ctx = None"
    and order: "\<And>wss. mset (write_order ctx wss) = mset (concat wss)"
    using device by (simp_all add: plain_device_def)
  have len: "num_elements indices = length (flat indices)" "num_elements segment_ids = length (flat indices)"
    using vectors by (simp_all add: num_elements_def well_shaped_def)
  have pos: "0 < rows" using rows by (simp add: wanted_rows_def)
  have n: "length (flat indices) = n" using vectors by (simp add: well_shaped_def)
  show ?thesis
    using functor_spec [OF ok order, of "map (fresh_memory ctx) [0..<rows * prod_list row_shape]"] pos
      sizes by (simp add: sparse_segment_sum_def output_rows_host_wanted [OF dev(1) rows] dev vectors input len n Let_def)
qed

section \<open>Accesses outside of the arrays\<close>

text \<open>Without \<open>num_segments\<close>, an empty vector of ids is read in front of its first element.\<close>

lemma empty_ids_read_outside:
  assumes "shape_of indices = [0]" "shape_of segment_ids = [0]" "well_shaped indices" "well_shaped segment_ids"
    "memcpy_ok ctx"
  shows "sparse_segment_sum ctx None input_data indices segment_ids = None"
  using assms by (simp add: sparse_segment_sum_def output_rows_host_def num_elements_def well_shaped_def)

text \<open>With too small a \<open>num_segments\<close>, the kernel writes behind the output.\<close>

lemma few_segments_write_outside:
  "sparse_segment_sum \<lparr>memcpy_ok = True, block_host_until_done = None, allocate_output = None,
     fresh_memory = (\<lambda>_. 0), write_order = concat, index_limit = 2147483648\<rparr>
     (Some \<lparr>shape_of = [], flat = [1]\<rparr>) \<lparr>shape_of = [2, 1], flat = [5 :: int, 6]\<rparr>
     \<lparr>shape_of = [2], flat = [0, 1]\<rparr> \<lparr>shape_of = [2], flat = [0, 1]\<rparr> = None"
  by code_simp

end
