(* ===== verification/Segment_Properties.thy ===== *)
theory Segment_Properties
  imports Segment_Sum_Spec
begin

text \<open>The property of the sparse segment sum, with its witness.\<close>

text \<open>
  C31. For two vectors of one length, segment ids that are sorted and number rows of the output,
  indices that number rows of the input, calls of the device that succeed, sizes that fit into
  the index type and into \<open>int\<close>, and elements whose addition is exact (associative and
  commutative, as for integers), the GPU kernel of \<open>SparseSegmentSum\<close> and, with at least one
  segment asked for, \<open>SparseSegmentSumWithNumSegments\<close> returns the sums of the gathered rows over
  each segment, zero for a segment that does not occur, in whatever order the writes of its
  threads take effect.
\<close>

theorem segment_sum_any_order:
  fixes input_data :: "'e::comm_monoid_add tensor"
  assumes "shape_of indices = [n]" "shape_of segment_ids = [n]"
    and "well_shaped indices" "well_shaped segment_ids" "well_shaped input_data"
    and "shape_of input_data = d # row_shape"
    and "sorted (flat segment_ids)"
    and "\<forall>s\<in>set (flat segment_ids). 0 \<le> s \<and> s < int rows"
    and "\<forall>i\<in>set (flat indices). 0 \<le> i \<and> i < int d"
    and "wanted_rows num_segments segment_ids rows"
    and "plain_device ctx"
    and "index_sizes_fit (index_limit ctx) n rows (prod_list row_shape) (num_elements input_data)"
  shows "sparse_segment_sum ctx num_segments input_data indices segment_ids
    = Some (Inr \<lparr>shape_of = rows # row_shape,
        flat = map (\<lambda>p. \<Sum>(t, i)\<leftarrow>zip (flat segment_ids) (flat indices).
                   if t = int (p div prod_list row_shape)
                   then flat input_data ! (nat i * prod_list row_shape + p mod prod_list row_shape) else 0)
                 [0..<rows * prod_list row_shape]\<rparr>)"
proof -
  have "segment_input_ok rows d (prod_list row_shape) (flat indices) (flat segment_ids) (flat input_data)"
    using assms by (simp add: segment_input_ok_def well_shaped_def fast_bounds_check_def)
  from sparse_segment_sum_spec [OF assms(1-4,6) this assms(10-12)] show ?thesis
    using assms(9) by (simp add: segment_sums_elements)
qed

theorem segment_sum_any_order_witness:
  "sparse_segment_sum \<lparr>memcpy_ok = True, block_host_until_done = None, allocate_output = None,
       fresh_memory = (\<lambda>_. 7), write_order = rev \<circ> concat, index_limit = 2147483648\<rparr> None
     \<lparr>shape_of = [2, 1], flat = [5 :: int, 6]\<rparr>
     \<lparr>shape_of = [10], flat = [0, 1, 1, 0, 1, 0, 1, 1, 1, 0]\<rparr>
     \<lparr>shape_of = [10], flat = [0, 0, 2, 2, 2, 2, 4, 4, 4, 5]\<rparr>
   = Some (Inr \<lparr>shape_of = [6, 1], flat = [11, 0, 22, 0, 18, 5]\<rparr>)"
proof -
  let ?ctx = "\<lparr>memcpy_ok = True, block_host_until_done = None, allocate_output = None,
       fresh_memory = (\<lambda>_. 7 :: int), write_order = rev \<circ> concat, index_limit = 2147483648\<rparr>"
  have "plain_device ?ctx" by (simp add: plain_device_def)
  moreover have "index_sizes_fit (index_limit ?ctx) 10 6 (prod_list [1]) (num_elements \<lparr>shape_of = [2, 1], flat = [5 :: int, 6]\<rparr>)"
    by (simp add: index_sizes_fit_def fits_int32_def num_elements_def divup_def outer_dim_tile_size_def)
  ultimately show ?thesis
    using segment_sum_any_order [of "\<lparr>shape_of = [10], flat = [0, 1, 1, 0, 1, 0, 1, 1, 1, 0]\<rparr>" 10
        "\<lparr>shape_of = [10], flat = [0, 0, 2, 2, 2, 2, 4, 4, 4, 5]\<rparr>"
        "\<lparr>shape_of = [2, 1], flat = [5 :: int, 6]\<rparr>" 2 "[1]" 6 None ?ctx]
    by (simp add: well_shaped_def wanted_rows_def upt_rec)
qed

end
