(* ===== verification/Thread_Pool.thy ===== *)
theory Thread_Pool
  imports Prelude
begin

text \<open>
  The worker pool on which the Redis wrappers run their commands: \<open>ThreadPool\<close> of
  \<open>thread_pool.h\<close>, as a transition system.

  A worker acts under the queue's mutex or outside it; everything it does between taking and
  releasing the mutex is one step, \<open>worker_turn\<close>.  A wait on the condition variable with a
  predicate is a turn that leaves the worker \<open>Blocked\<close> when the predicate fails; it is
  \<open>Locking\<close> again once it is woken, and then tests the predicate anew.  The notifications
  happen after the mutex has been released, so they are steps of their own, and \<open>wakes_due\<close>
  counts the \<open>notify_one\<close> calls that are still to come.  What a task does is its own affair: a
  step \<open>Finished\<close> says that it has returned.
\<close>

section \<open>The pool\<close>

datatype 'a worker = Locking | Blocked | Running 'a | Exited

record 'a thread_pool =
  workers :: "'a worker list"
  tasks :: "'a list"
  stop :: bool
  wakes_due :: nat
  wake_all_due :: bool

datatype pool_error = Enqueue_on_stopped

datatype 'a pool_event =
    Enqueued 'a
  | Woken nat
  | Unheard
  | Woken_spuriously nat
  | Waits nat
  | Starts nat 'a
  | Exits nat
  | Finished nat 'a
  | Stopped
  | All_woken

definition new_thread_pool :: "nat \<Rightarrow> 'a thread_pool" where
  "new_thread_pool threads =
     \<lparr>workers = replicate threads Locking, tasks = [], stop = False, wakes_due = 0,
      wake_all_due = False\<rparr>"

definition set_worker :: "nat \<Rightarrow> 'a worker \<Rightarrow> 'a thread_pool \<Rightarrow> 'a thread_pool" where
  "set_worker i w p = p\<lparr>workers := (workers p)[i := w]\<rparr>"

definition worker_turn :: "nat \<Rightarrow> 'a thread_pool \<Rightarrow> 'a pool_event \<times> 'a thread_pool" where
  "worker_turn i p =
     (if \<not> (stop p \<or> tasks p \<noteq> []) then (Waits i, set_worker i Blocked p)
      else if stop p \<and> tasks p = [] then (Exits i, set_worker i Exited p)
      else (Starts i (hd (tasks p)),
            (set_worker i (Running (hd (tasks p))) p)\<lparr>tasks := tl (tasks p)\<rparr>))"

definition enqueue :: "'a \<Rightarrow> 'a thread_pool \<Rightarrow> pool_error + 'a thread_pool" where
  "enqueue task p =
     (if stop p then Inl Enqueue_on_stopped
      else Inr (p\<lparr>tasks := tasks p @ [task], wakes_due := Suc (wakes_due p)\<rparr>))"

definition notify_one :: "nat \<Rightarrow> 'a thread_pool \<Rightarrow> 'a thread_pool" where
  "notify_one i p = (set_worker i Locking p)\<lparr>wakes_due := wakes_due p - 1\<rparr>"

fun woken :: "'a worker \<Rightarrow> 'a worker" where
  "woken Blocked = Locking"
| "woken w = w"

definition begin_destructor :: "'a thread_pool \<Rightarrow> 'a thread_pool" where
  "begin_destructor p = p\<lparr>stop := True, wake_all_due := True\<rparr>"

definition notify_all :: "'a thread_pool \<Rightarrow> 'a thread_pool" where
  "notify_all p = p\<lparr>workers := map woken (workers p), wake_all_due := False\<rparr>"

text \<open>The destructor joins every worker.\<close>

definition joined :: "'a thread_pool \<Rightarrow> bool" where
  "joined p \<longleftrightarrow> stop p \<and> (\<forall>w \<in> set (workers p). w = Exited)"

section \<open>Runs\<close>

definition at_worker :: "'a thread_pool \<Rightarrow> nat \<Rightarrow> 'a worker \<Rightarrow> bool" where
  "at_worker p i w \<longleftrightarrow> i < length (workers p) \<and> workers p ! i = w"

inductive pool_step :: "'a thread_pool \<Rightarrow> 'a pool_event \<Rightarrow> 'a thread_pool \<Rightarrow> bool" where
  enqueue: "enqueue t p = Inr q \<Longrightarrow> pool_step p (Enqueued t) q"
| notify_one: "0 < wakes_due p \<Longrightarrow> at_worker p i Blocked \<Longrightarrow> pool_step p (Woken i) (notify_one i p)"
| notify_none: "0 < wakes_due p \<Longrightarrow> Blocked \<notin> set (workers p)
    \<Longrightarrow> pool_step p Unheard (p\<lparr>wakes_due := wakes_due p - 1\<rparr>)"
| spurious: "at_worker p i Blocked \<Longrightarrow> pool_step p (Woken_spuriously i) (set_worker i Locking p)"
| turn: "at_worker p i Locking \<Longrightarrow> worker_turn i p = (e, q) \<Longrightarrow> pool_step p e q"
| finish: "at_worker p i (Running t) \<Longrightarrow> pool_step p (Finished i t) (set_worker i Locking p)"
| destroy: "\<not> stop p \<Longrightarrow> pool_step p Stopped (begin_destructor p)"
| notify_all: "wake_all_due p \<Longrightarrow> pool_step p All_woken (notify_all p)"

inductive pool_run :: "'a thread_pool \<Rightarrow> 'a pool_event list \<Rightarrow> 'a thread_pool \<Rightarrow> bool" where
  stay: "pool_run p [] p"
| advance: "pool_run p es q \<Longrightarrow> pool_step q e r \<Longrightarrow> pool_run p (es @ [e]) r"

text \<open>
  What the pool does of its own accord: everything but the calls of its owner and the
  spurious wakeups of the condition variable.
\<close>

fun internal :: "'a pool_event \<Rightarrow> bool" where
  "internal (Enqueued _) = False"
| "internal (Woken_spuriously _) = False"
| "internal Stopped = False"
| "internal _ = True"

definition idle_pool :: "'a thread_pool \<Rightarrow> bool" where
  "idle_pool p \<longleftrightarrow> (\<forall>e q. pool_step p e q \<longrightarrow> \<not> internal e)"

fun event_enqueued :: "'a pool_event \<Rightarrow> 'a list" where
  "event_enqueued (Enqueued t) = [t]"
| "event_enqueued _ = []"

fun event_started :: "'a pool_event \<Rightarrow> 'a list" where
  "event_started (Starts i t) = [t]"
| "event_started _ = []"

fun event_finished :: "'a pool_event \<Rightarrow> 'a list" where
  "event_finished (Finished i t) = [t]"
| "event_finished _ = []"

definition enqueued :: "'a pool_event list \<Rightarrow> 'a list" where
  "enqueued es = concat (map event_enqueued es)"

definition started :: "'a pool_event list \<Rightarrow> 'a list" where
  "started es = concat (map event_started es)"

definition finished :: "'a pool_event list \<Rightarrow> 'a list" where
  "finished es = concat (map event_finished es)"

fun worker_task :: "'a worker \<Rightarrow> 'a list" where
  "worker_task (Running t) = [t]"
| "worker_task _ = []"

definition running :: "'a thread_pool \<Rightarrow> 'a list" where
  "running p = concat (map worker_task (workers p))"

lemma pool_run_trans: "pool_run q fs r \<Longrightarrow> pool_run p es q \<Longrightarrow> pool_run p (es @ fs) r"
proof (induction rule: pool_run.induct)
  case (advance q fs r e r')
  then show ?case using pool_run.advance [of p "es @ fs" r e r'] by simp
qed simp

lemma history_append [simp]:
  "enqueued (es @ fs) = enqueued es @ enqueued fs"
  "started (es @ fs) = started es @ started fs"
  "finished (es @ fs) = finished es @ finished fs"
  by (simp_all add: enqueued_def started_def finished_def)

lemma history_one [simp]:
  "enqueued [e] = event_enqueued e" "started [e] = event_started e" "finished [e] = event_finished e"
  "enqueued [] = []" "started [] = []" "finished [] = []"
  by (simp_all add: enqueued_def started_def finished_def)

section \<open>Invariants of a run\<close>

lemma mset_concat_update:
  assumes "i < length ws"
  shows "mset (concat (map f (ws[i := w]))) + mset (f (ws ! i)) = mset (concat (map f ws)) + mset (f w)"
proof -
  have "mset (concat (map f ws)) =
      mset (concat (map f (take i ws))) + mset (f (ws ! i)) + mset (concat (map f (drop (Suc i) ws)))"
    by (subst id_take_nth_drop [OF assms]) simp
  moreover have "mset (concat (map f (ws[i := w]))) =
      mset (concat (map f (take i ws))) + mset (f w) + mset (concat (map f (drop (Suc i) ws)))"
    by (simp add: upd_conv_take_nth_drop [OF assms])
  ultimately show ?thesis by simp
qed

lemma running_set_worker:
  assumes "at_worker p i w"
  shows "mset (running (set_worker i v p)) + mset (worker_task w) =
    mset (running p) + mset (worker_task v)"
  using assms mset_concat_update [of i "workers p" worker_task v]
  by (simp add: running_def set_worker_def at_worker_def)

lemma worker_task_woken [simp]: "worker_task (woken w) = worker_task w"
  by (cases w) simp_all

lemma running_woken: "concat (map (worker_task \<circ> woken) ws) = concat (map worker_task ws)"
  by (simp add: comp_def)

lemma turn_history:
  assumes "worker_turn i p = (e, q)" "at_worker p i Locking"
  shows "event_started e @ tasks q = tasks p @ event_enqueued e"
    "mset (event_finished e @ running q) = mset (running p @ event_started e)"
  using assms running_set_worker [OF assms(2)]
  by (auto simp: worker_turn_def set_worker_def running_def split: if_splits)

lemma step_history:
  assumes "pool_step p e q"
  shows "event_started e @ tasks q = tasks p @ event_enqueued e \<and>
    mset (event_finished e @ running q) = mset (running p @ event_started e)"
  using assms
proof cases
  case (enqueue t)
  then show ?thesis by (auto simp: enqueue_def running_def split: if_splits)
next
  case (notify_one i)
  then show ?thesis using running_set_worker [of p i Blocked Locking]
    by (auto simp: notify_one_def set_worker_def running_def)
next
  case (spurious i)
  then show ?thesis using running_set_worker [of p i Blocked Locking]
    by (auto simp: set_worker_def running_def)
next
  case (turn i)
  then show ?thesis using turn_history by blast
next
  case (finish i t)
  then show ?thesis using running_set_worker [of p i "Running t" Locking]
    by (auto simp: set_worker_def running_def)
qed (auto simp: begin_destructor_def notify_all_def running_def running_woken)

lemma run_history:
  assumes "pool_run p es q"
  shows "tasks p @ enqueued es = started es @ tasks q \<and>
    mset (finished es) + mset (running q) = mset (running p) + mset (started es)"
  using assms
proof induction
  case (advance p es q e r)
  then show ?case using step_history [OF advance.hyps(2)]
    by simp (metis append.assoc union_assoc union_commute)
qed simp

text \<open>
  No wakeup is lost: a queue with a task in it is never left to workers that all sleep, and a
  stopped pool has no sleeper that will not be woken.
\<close>

definition pool_inv :: "nat \<Rightarrow> 'a thread_pool \<Rightarrow> bool" where
  "pool_inv n p \<longleftrightarrow> length (workers p) = n \<and>
     (tasks p \<noteq> [] \<longrightarrow> 0 < wakes_due p \<or> wake_all_due p \<or> (\<exists>w \<in> set (workers p). w \<noteq> Blocked)) \<and>
     (stop p \<longrightarrow> wake_all_due p \<or> Blocked \<notin> set (workers p)) \<and>
     (Exited \<in> set (workers p) \<longrightarrow> stop p \<and> tasks p = [])"

lemma pool_inv_new: "pool_inv n (new_thread_pool n)"
  by (simp add: pool_inv_def new_thread_pool_def)

lemma at_worker_set_worker:
  "at_worker p i w \<Longrightarrow> v \<in> set (workers (set_worker i v p))"
  by (simp add: at_worker_def set_worker_def set_update_memI)

lemma in_set_worker: "w \<in> set (workers (set_worker i v p)) \<Longrightarrow> w = v \<or> w \<in> set (workers p)"
  unfolding set_worker_def by (auto dest: set_update_subset_insert [THEN subsetD])

lemma set_worker_simps [simp]:
  "tasks (set_worker i v p) = tasks p" "stop (set_worker i v p) = stop p"
  "wakes_due (set_worker i v p) = wakes_due p" "wake_all_due (set_worker i v p) = wake_all_due p"
  "length (workers (set_worker i v p)) = length (workers p)"
  by (simp_all add: set_worker_def)

lemma woken_neq_Blocked [simp]: "woken w \<noteq> Blocked" "Blocked \<noteq> woken w"
  by (cases w; simp)+

lemma woken_not_Blocked: "Blocked \<notin> woken ` set ws"
  by auto

lemma Exited_woken: "Exited = woken w \<longleftrightarrow> w = Exited"
  by (cases w) auto

lemma pool_inv_set_worker:
  assumes "pool_inv n p" "at_worker p i w" "v \<noteq> Blocked" "v \<noteq> Exited"
  shows "pool_inv n (set_worker i v p)" "v \<in> set (workers (set_worker i v p))"
  using assms at_worker_set_worker [OF assms(2), of v] in_set_worker [of _ i v p]
  unfolding pool_inv_def by auto

lemma pool_inv_turn:
  assumes "pool_inv n p" "at_worker p i Locking" "worker_turn i p = (e, q)"
  shows "pool_inv n q"
proof (cases "tasks p = []")
  case True
  then show ?thesis
    using assms at_worker_set_worker [OF assms(2)] in_set_worker [of _ i _ p]
    by (auto simp: pool_inv_def worker_turn_def split: if_splits)
next
  case False
  let ?v = "Running (hd (tasks p))"
  have "pool_inv n (set_worker i ?v p)" and "?v \<in> set (workers (set_worker i ?v p))"
    using pool_inv_set_worker [OF assms(1,2), of ?v] by simp_all
  moreover have "q = (set_worker i ?v p)\<lparr>tasks := tl (tasks p)\<rparr>"
    using assms(3) False by (simp add: worker_turn_def)
  ultimately show ?thesis using False by (auto simp: pool_inv_def)
qed

lemma pool_inv_step:
  assumes "pool_step p e q" "pool_inv n p" "0 < n"
  shows "pool_inv n q"
  using assms(1)
proof cases
  case (enqueue t)
  then show ?thesis using assms(2) by (auto simp: enqueue_def pool_inv_def split: if_splits)
next
  case (notify_one i)
  have "pool_inv n (set_worker i Locking p)" "Locking \<in> set (workers (set_worker i Locking p))"
    using pool_inv_set_worker [OF assms(2) notify_one(4), of Locking] by simp_all
  then show ?thesis using notify_one by (auto simp: notify_one_def pool_inv_def)
next
  case notify_none
  moreover have "\<exists>w. w \<in> set (workers p)"
    using assms(2,3) by (auto simp: pool_inv_def intro: exI [of _ "hd (workers p)"] hd_in_set)
  ultimately show ?thesis using assms(2) unfolding pool_inv_def by auto
next
  case (spurious i)
  then show ?thesis using pool_inv_set_worker [OF assms(2) spurious(3), of Locking] by simp
next
  case (turn i)
  then show ?thesis using pool_inv_turn [OF assms(2)] by blast
next
  case (finish i t)
  then show ?thesis using pool_inv_set_worker [OF assms(2) finish(3), of Locking] by simp
next
  case destroy
  then show ?thesis using assms(2) by (auto simp: begin_destructor_def pool_inv_def)
next
  case notify_all
  moreover have "\<exists>w. w \<in> set (workers p)"
    using assms(2,3) by (auto simp: pool_inv_def intro: exI [of _ "hd (workers p)"] hd_in_set)
  ultimately show ?thesis
    using assms(2) woken_not_Blocked [of "workers p"]
    by (auto simp: notify_all_def pool_inv_def Exited_woken)
qed

lemma pool_inv_run: "pool_run p es q \<Longrightarrow> pool_inv n p \<Longrightarrow> 0 < n \<Longrightarrow> pool_inv n q"
  by (induction rule: pool_run.induct) (auto intro: pool_inv_step)

lemma step_length_workers: "pool_step p e q \<Longrightarrow> length (workers q) = length (workers p)"
  by (cases rule: pool_step.cases, assumption)
    (auto simp: enqueue_def notify_one_def begin_destructor_def notify_all_def worker_turn_def
      split: if_splits)

lemma run_length_workers: "pool_run p es q \<Longrightarrow> length (workers q) = length (workers p)"
  by (induction rule: pool_run.induct) (simp_all add: step_length_workers)

section \<open>The pool comes to rest\<close>

fun worker_work :: "'a worker \<Rightarrow> nat" where
  "worker_work (Running t) = 3"
| "worker_work Locking = 2"
| "worker_work Blocked = 1"
| "worker_work Exited = 0"

definition pool_work :: "'a thread_pool \<Rightarrow> nat" where
  "pool_work p = 2 * length (tasks p) + 2 * wakes_due p +
     (if wake_all_due p then Suc (length (workers p)) else 0) +
     sum_list (map worker_work (workers p))"

lemma sum_list_map_update:
  fixes f :: "'a \<Rightarrow> nat"
  assumes "i < length ws"
  shows "sum_list (map f (ws[i := w])) + f (ws ! i) = sum_list (map f ws) + f w"
proof -
  have "sum_list (map f ws) =
      sum_list (map f (take i ws)) + f (ws ! i) + sum_list (map f (drop (Suc i) ws))"
    by (subst id_take_nth_drop [OF assms]) simp
  then show ?thesis by (simp add: upd_conv_take_nth_drop [OF assms])
qed

lemma pool_work_set_worker:
  assumes "at_worker p i w"
  shows "pool_work (set_worker i v p) + worker_work w = pool_work p + worker_work v"
  using assms sum_list_map_update [of i "workers p" worker_work v]
  by (simp add: pool_work_def at_worker_def set_worker_def)

lemma work_woken: "sum_list (map (worker_work \<circ> woken) ws) \<le> sum_list (map worker_work ws) + length ws"
proof (induction ws)
  case (Cons w ws)
  then show ?case by (cases w) simp_all
qed simp

lemma internal_step_less:
  assumes "pool_step p e q" "internal e"
  shows "pool_work q < pool_work p"
  using assms(1)
proof cases
  case (notify_one i)
  then show ?thesis using pool_work_set_worker [OF notify_one(4), of Locking]
    by (cases "wakes_due p"; cases "wake_all_due p") (simp_all add: notify_one_def pool_work_def)
next
  case (turn i)
  have work: "pool_work (set_worker i v p) + 2 = pool_work p + worker_work v" for v
    using pool_work_set_worker [OF turn(1), of v] by simp
  show ?thesis
  proof (cases "tasks p = []")
    case True
    then show ?thesis using turn(2) work [of Blocked] work [of Exited]
      by (auto simp: worker_turn_def split: if_splits)
  next
    case False
    then have "q = (set_worker i (Running (hd (tasks p))) p)\<lparr>tasks := tl (tasks p)\<rparr>"
      using turn(2) by (simp add: worker_turn_def)
    then show ?thesis using work [of "Running (hd (tasks p))"] False
      by (cases "tasks p"; cases "wake_all_due p") (auto simp: pool_work_def)
  qed
next
  case (finish i t)
  then show ?thesis using pool_work_set_worker [OF finish(3), of Locking] by simp
next
  case notify_all
  then show ?thesis using work_woken [of "workers p"] by (simp add: notify_all_def pool_work_def)
qed (use assms(2) in \<open>auto simp: pool_work_def\<close>)

lemma internal_run_bounded:
  "pool_run p es q \<Longrightarrow> \<forall>e \<in> set es. internal e \<Longrightarrow> length es + pool_work q \<le> pool_work p"
proof (induction rule: pool_run.induct)
  case (advance p es q e r)
  then show ?case using internal_step_less [OF advance.hyps(2)] by auto
qed simp

lemma at_worker_in: "w \<in> set (workers p) \<Longrightarrow> \<exists>i. at_worker p i w"
  by (auto simp: at_worker_def in_set_conv_nth)

lemma internal_turn: "worker_turn i p = (e, q) \<Longrightarrow> internal e"
  by (auto simp: worker_turn_def split: if_splits)

lemma idle_pool_rests:
  assumes inv: "pool_inv n p" and idle: "idle_pool p"
  shows "tasks p = [] \<and> running p = [] \<and> (stop p \<longrightarrow> joined p)"
proof -
  have no_run: "Running t \<notin> set (workers p)" for t
    using idle at_worker_in [of "Running t" p] pool_step.finish [of p _ t]
    unfolding idle_pool_def by (meson internal.simps)
  have no_lock: "Locking \<notin> set (workers p)"
  proof
    assume "Locking \<in> set (workers p)"
    then obtain i where i: "at_worker p i Locking" using at_worker_in by blast
    obtain e q where "worker_turn i p = (e, q)" by fastforce
    then show False using idle pool_step.turn [OF i] internal_turn unfolding idle_pool_def by blast
  qed
  have asleep: "w = Blocked \<or> w = Exited" if "w \<in> set (workers p)" for w
    by (metis that no_run no_lock worker.exhaust)
  have no_wake: "\<not> wake_all_due p"
    using idle pool_step.notify_all [of p] unfolding idle_pool_def by (metis internal.simps(10))
  have "wakes_due p = 0"
    using idle pool_step.notify_none [of p] pool_step.notify_one [of p] at_worker_in [of Blocked p]
    unfolding idle_pool_def by (metis gr0I internal.simps(4,5))
  then have "tasks p = []" "stop p \<longrightarrow> joined p"
    using inv asleep no_wake unfolding pool_inv_def joined_def by auto
  moreover have "running p = []"
    unfolding running_def using no_run by (auto simp: concat_eq_Nil_conv dest: asleep)
  ultimately show ?thesis by blast
qed

text \<open>A pool that can still move does so: rest is reached in at most \<open>pool_work\<close> steps.\<close>

lemma rest_is_reached: "\<exists>es q. pool_run p es q \<and> (\<forall>e \<in> set es. internal e) \<and> idle_pool q"
proof (induction "pool_work p" arbitrary: p rule: less_induct)
  case less
  show ?case
  proof (cases "idle_pool p")
    case True
    then show ?thesis using pool_run.stay by (metis empty_iff list.set(1))
  next
    case False
    then obtain e q where step: "pool_step p e q" and e: "internal e"
      by (auto simp: idle_pool_def)
    obtain es r where rest: "pool_run q es r" "\<forall>e \<in> set es. internal e" "idle_pool r"
      using less [OF internal_step_less [OF step e]] by blast
    have "pool_run p ([e] @ es) r"
      using pool_run_trans [OF rest(1), of p "[e]"] pool_run.advance [OF pool_run.stay step] by simp
    moreover have "\<forall>e' \<in> set ([e] @ es). internal e'" using rest(2) e by simp
    ultimately show ?thesis using rest(3) by blast
  qed
qed

end
