(* ===== verification/Redis_Util.thy ===== *)
theory Redis_Util
  imports Tensors
begin

text \<open>
  What the Redis wrappers share (\<open>redis_connection_util.hpp\<close>): the buffers in which a command
  is put together, the number of the bucket a key belongs to, and the form in which keys and
  rows of values travel to the server.

  A pointer into memory is the list of the bytes found from there on.  Of the CPU, the model
  has the documented effect of the \<open>crc32\<close> instructions, which the code invokes as inline
  assembly.
\<close>

type_synonym octets = "u8 list"

section \<open>Little endian numbers\<close>

definition le_bytes :: "nat \<Rightarrow> 'a::len word \<Rightarrow> octets" where
  "le_bytes n w = map (\<lambda>i. ucast (drop_bit (8 * i) w)) [0..<n]"

fun of_le :: "octets \<Rightarrow> 'a::len word" where
  "of_le [] = 0"
| "of_le (b # bs) = ucast b OR push_bit 8 (of_le bs)"

section \<open>Contexts\<close>

record bucket_context =
  ptrs :: "octets list"
  sizes :: "nat list"

definition new_bucket_context :: bucket_context where
  "new_bucket_context = \<lparr>ptrs = [], sizes = []\<rparr>"

definition bucket_push_back :: "octets \<Rightarrow> nat \<Rightarrow> bucket_context \<Rightarrow> bucket_context" where
  "bucket_push_back p n b = b\<lparr>ptrs := ptrs b @ [p], sizes := sizes b @ [n]\<rparr>"

definition bucket_clear :: "bucket_context \<Rightarrow> bucket_context" where
  "bucket_clear b = b\<lparr>ptrs := [], sizes := []\<rparr>"

text \<open>
  \<open>bucket_locs\<close> is written through its data pointer and never resized: it is the memory
  behind the vector, in the part that the last command reserved and filled.
\<close>

record thread_context =
  thread_occupied :: bool
  thread_buckets :: "bucket_context list"
  bucket_locs :: "u32 list"

definition new_thread_context :: thread_context where
  "new_thread_context =
     \<lparr>thread_occupied = False, thread_buckets = [new_bucket_context], bucket_locs = []\<rparr>"

text \<open>
  The loop that adds missing buckets stops when the counter meets the number of slices; from
  above it would not, and \<open>None\<close> is that run.
\<close>

partial_function (option) grow_buckets ::
  "nat \<Rightarrow> nat \<Rightarrow> bucket_context list \<Rightarrow> bucket_context list option" where
  "grow_buckets i storage_slice bs =
     (if i \<noteq> storage_slice then grow_buckets (Suc i) storage_slice (bs @ [new_bucket_context])
      else Some bs)"

definition handle_reserve :: "nat \<Rightarrow> thread_context \<Rightarrow> thread_context option" where
  "handle_reserve storage_slice tc =
     (case grow_buckets (length (thread_buckets tc)) storage_slice (thread_buckets tc) of
        None \<Rightarrow> None
      | Some bs \<Rightarrow> Some (tc\<lparr>thread_buckets :=
          map bucket_clear (take storage_slice bs) @ drop storage_slice bs\<rparr>))"

definition handle_push_back :: "nat \<Rightarrow> octets \<Rightarrow> nat \<Rightarrow> thread_context \<Rightarrow> thread_context" where
  "handle_push_back bucket_num p n tc =
     tc\<lparr>thread_buckets := (thread_buckets tc)[bucket_num := bucket_push_back p n (thread_buckets tc ! bucket_num)]\<rparr>"

text \<open>The arguments a client sends for a bucket: every pointer with its length.\<close>

definition bucket_args :: "bucket_context \<Rightarrow> octets list" where
  "bucket_args b = map2 take (sizes b) (ptrs b)"

section \<open>Bucket numbers\<close>

text \<open>
  The \<open>crc32\<close> instruction adds \<open>bits\<close> bits of data to a checksum, least significant bit first,
  modulo the polynomial of CRC-32C.
\<close>

definition crc_poly :: u64 where
  "crc_poly = 0x82F63B78"

definition crc_shift :: "u64 \<Rightarrow> u64" where
  "crc_shift x = drop_bit 1 x XOR (if bit x 0 then crc_poly else 0)"

definition crc_insn :: "nat \<Rightarrow> u32 \<Rightarrow> u64 \<Rightarrow> u32" where
  "crc_insn bits crc value = ucast ((crc_shift ^^ bits) (ucast crc XOR value))"

datatype machine = X86_64 | Aarch64

text \<open>
  \<open>crc32c_hash\<close> steps by eight bytes on ARM, under a 64-bit counter, and by four on x86,
  under a 32-bit one.
\<close>

fun crc_stride :: "machine \<Rightarrow> nat" where
  "crc_stride X86_64 = 4"
| "crc_stride Aarch64 = 8"

fun crc_counter :: "machine \<Rightarrow> u64 \<Rightarrow> int" where
  "crc_counter X86_64 len = sint (ucast len :: u32)"
| "crc_counter Aarch64 len = sint len"

function crc_loop :: "nat \<Rightarrow> int \<Rightarrow> u32 \<times> octets \<Rightarrow> u32 \<times> octets" where
  "crc_loop stride n (crc, p) =
     (if 0 < stride \<and> 0 \<le> n - int stride
      then crc_loop stride (n - int stride)
             (crc_insn (8 * stride) crc (of_le (take stride p)), drop stride p)
      else (crc, p))"
  by pat_completeness auto
termination by (relation "measure (\<lambda>(s, n, c). nat n)") auto

definition crc_tail :: "nat \<Rightarrow> u64 \<Rightarrow> u32 \<times> octets \<times> u64 \<Rightarrow> u32 \<times> octets \<times> u64" where
  "crc_tail w len s = (case s of (crc, p, rest) \<Rightarrow>
     if rest AND len \<noteq> 0
     then (crc_insn (8 * w) crc (of_le (take w p)), drop w p, rest - len)
     else (crc, p, rest))"

definition crc32c_hash :: "machine \<Rightarrow> u32 \<Rightarrow> octets \<Rightarrow> u64 \<Rightarrow> u32" where
  "crc32c_hash isa crc p len =
     (let (crc, p) = crc_loop (crc_stride isa) (crc_counter isa len) (crc, p);
          rest = len AND of_nat (crc_stride isa - 1);
          (crc, p, rest) = crc_tail 4 4 (crc, p, rest);
          (crc, p, rest) = crc_tail 2 2 (crc, p, rest)
      in if rest AND 1 \<noteq> 0 then crc_insn 8 crc (of_le (take 1 p)) else crc)"

type_synonym k_bucket_num_handle = "u32 \<Rightarrow> octets \<Rightarrow> u64 \<Rightarrow> u32"

definition k_bucket_num_crc32_handle :: "machine \<Rightarrow> k_bucket_num_handle" where
  "k_bucket_num_crc32_handle isa crc p len = crc32c_hash isa crc p len"

definition k_bucket_num_common_handle32 :: k_bucket_num_handle where
  "k_bucket_num_common_handle32 crc p len = of_le (take 4 p)"

definition k_bucket_num_common_handle64 :: k_bucket_num_handle where
  "k_bucket_num_common_handle64 crc p len = ucast ((of_le (take 8 p) :: u64) AND 0x00000000FFFFFFFF)"

definition k_bucket_num :: "k_bucket_num_handle \<Rightarrow> octets \<Rightarrow> u32 \<Rightarrow> u32" where
  "k_bucket_num handle p storage_slice = handle 0xffffffff p (of_nat (length p)) mod storage_slice"

text \<open>
  For strings the bytes of the string object itself are hashed, as many as the string has
  characters.  The object is the framework's; \<open>object_at\<close> is the memory from its address on.
\<close>

definition k_bucket_num_tstring :: "machine \<Rightarrow> ('k \<Rightarrow> octets) \<Rightarrow> nat \<Rightarrow> 'k \<Rightarrow> u32 \<Rightarrow> u32" where
  "k_bucket_num_tstring isa object_at len s storage_slice =
     crc32c_hash isa 0xffffffff (object_at s) (of_nat len) mod storage_slice"

section \<open>Keys and rows on the wire\<close>

text \<open>
  The functions that are specialised by the type of the keys, and by the type of the values.
\<close>

record 'k key_ops =
  k_content :: "'k \<Rightarrow> octets"
  k_bucket :: "'k \<Rightarrow> u32 \<Rightarrow> u32"

record 'v value_ops =
  v_content :: "'v list \<Rightarrow> octets"
  v_restore :: "nat \<Rightarrow> octets \<Rightarrow> 'v list"

definition int32_keys :: "k_bucket_num_handle \<Rightarrow> u32 key_ops" where
  "int32_keys handle = \<lparr>k_content = le_bytes 4, k_bucket = (\<lambda>k. k_bucket_num handle (le_bytes 4 k))\<rparr>"

definition int64_keys :: "k_bucket_num_handle \<Rightarrow> u64 key_ops" where
  "int64_keys handle = \<lparr>k_content = le_bytes 8, k_bucket = (\<lambda>k. k_bucket_num handle (le_bytes 8 k))\<rparr>"

definition tstring_keys :: "machine \<Rightarrow> (octets \<Rightarrow> octets) \<Rightarrow> octets key_ops" where
  "tstring_keys isa object_at =
     \<lparr>k_content = id, k_bucket = (\<lambda>k. k_bucket_num_tstring isa object_at (length k) k)\<rparr>"

text \<open>
  Values of a fixed size are sent as they lie in memory.  A row of strings is packed into one
  buffer, every string after its length; the size sent with it is a 32-bit sum.
\<close>

definition fixed_content :: "('v \<Rightarrow> octets) \<Rightarrow> 'v list \<Rightarrow> octets" where
  "fixed_content to row = concat (map to row)"

definition fixed_restore :: "nat \<Rightarrow> (octets \<Rightarrow> 'v) \<Rightarrow> nat \<Rightarrow> octets \<Rightarrow> 'v list" where
  "fixed_restore sz from velems str = map from (row_view sz velems (take (velems * sz) str))"

definition tstring_total :: "octets list \<Rightarrow> u32" where
  "tstring_total row = fold (\<lambda>s tot. tot + 4 + of_nat (length s)) row 0"

definition tstring_buffer :: "octets list \<Rightarrow> octets" where
  "tstring_buffer row =
     fold (\<lambda>s buff. buff @ le_bytes 4 (of_nat (length s) :: u32) @ s) row []"

definition tstring_content :: "octets list \<Rightarrow> octets" where
  "tstring_content row = take (unat (tstring_total row)) (tstring_buffer row)"

fun tstring_restore :: "nat \<Rightarrow> octets \<Rightarrow> octets list" where
  "tstring_restore 0 char_view = []"
| "tstring_restore (Suc n) char_view =
     (let str_bytesize = unat (of_le (take 4 char_view) :: u32);
          char_view = drop 4 char_view
      in take str_bytesize char_view # tstring_restore n (drop str_bytesize char_view))"

definition fixed_values :: "nat \<Rightarrow> ('v \<Rightarrow> octets) \<Rightarrow> (octets \<Rightarrow> 'v) \<Rightarrow> 'v value_ops" where
  "fixed_values sz to from = \<lparr>v_content = fixed_content to, v_restore = fixed_restore sz from\<rparr>"

definition tstring_values :: "octets value_ops" where
  "tstring_values = \<lparr>v_content = tstring_content, v_restore = tstring_restore\<rparr>"

section \<open>Choosing a context\<close>

text \<open>
  \<open>SelectAvailableThreadContext\<close>: the first context whose flag the exchange takes, or a new
  one at the end.
\<close>

fun first_available :: "thread_context list \<Rightarrow> nat" where
  "first_available [] = 0"
| "first_available (tc # tcs) = (if thread_occupied tc then Suc (first_available tcs) else 0)"

definition select_available_thread_context ::
  "thread_context list \<Rightarrow> nat \<times> thread_context list" where
  "select_available_thread_context tcs =
     (let i = first_available tcs
      in (i, if i = length tcs then tcs @ [new_thread_context\<lparr>thread_occupied := True\<rparr>]
             else tcs[i := (tcs ! i)\<lparr>thread_occupied := True\<rparr>]))"

definition release_thread_context :: "nat \<Rightarrow> thread_context list \<Rightarrow> thread_context list" where
  "release_thread_context i tcs = tcs[i := (tcs ! i)\<lparr>thread_occupied := False\<rparr>]"

end
