(* ===== verification/Redis_Cluster.thy ===== *)
theory Redis_Cluster
  imports Redis_Util
begin

text \<open>
  The wrapper of a Redis cluster (\<open>redis_cluster_connection_pool.hpp\<close>): how a batch of keys
  is split over the buckets into one command each, how the commands are sent, and how the
  replies are put back in the order of the keys.

  The client library and the servers behind it are not part of the repository.  They are the
  fields of \<open>redis_client\<close>, over a state \<open>'w\<close> of the servers: a command given as an argument
  vector or as one line of text, which is answered or throws.  The fields a command is built
  from are kept apart from its execution, because the buckets are sent concurrently: an
  operation that writes takes the order in which the pool's workers get to its buckets.
\<close>

section \<open>The client\<close>

datatype reply =
    Reply_string octets
  | Reply_array "reply list"
  | Reply_integer int
  | Reply_nil
  | Reply_status octets
  | Reply_error octets

record 'w redis_client =
  read_command :: "octets list \<Rightarrow> 'w \<Rightarrow> string + reply"
  write_command :: "octets list \<Rightarrow> 'w \<Rightarrow> 'w \<times> (string + reply)"
  read_line :: "octets \<Rightarrow> 'w \<Rightarrow> string + reply"
  write_line :: "octets \<Rightarrow> 'w \<Rightarrow> 'w \<times> (string + reply)"

definition ascii :: "string \<Rightarrow> octets" where
  "ascii s = map of_char s"

text \<open>A null pointer in place of a reply is \<open>None\<close>.\<close>

definition pipe_exec_read :: "'w redis_client \<Rightarrow> nat \<Rightarrow> bucket_context \<Rightarrow> 'w \<Rightarrow> reply option" where
  "pipe_exec_read client size_check b w =
     (if size_check \<le> length (ptrs b)
      then (case read_command client (bucket_args b) w of Inl e \<Rightarrow> None | Inr r \<Rightarrow> Some r)
      else None)"

text \<open>The second component of the state is \<open>error_ptr\<close> of the wrapper.\<close>

definition pipe_exec_write ::
  "'w redis_client \<Rightarrow> nat \<Rightarrow> bucket_context \<Rightarrow> 'w \<times> string option \<Rightarrow> 'w \<times> string option" where
  "pipe_exec_write client size_check b s =
     (case s of (w, error_ptr) \<Rightarrow>
        if size_check \<le> length (ptrs b)
        then (case write_command client (bucket_args b) w of
            (w, Inl e) \<Rightarrow> (w, Some e) | (w, Inr r) \<Rightarrow> (w, error_ptr))
        else (w, error_ptr))"

section \<open>Commands\<close>

definition push_whole :: "nat \<Rightarrow> octets \<Rightarrow> thread_context \<Rightarrow> thread_context" where
  "push_whole i p = handle_push_back i p (length p)"

text \<open>Every bucket's command begins with its name, the slice and the other leading arguments.\<close>

definition push_heads ::
  "octets \<Rightarrow> octets list \<Rightarrow> octets list \<Rightarrow> nat \<Rightarrow> thread_context \<Rightarrow> thread_context" where
  "push_heads command names extra storage_slice tc =
     fold (\<lambda>i tc. fold (push_whole i) (command # names ! i # extra) tc) [0..<storage_slice] tc"

definition put_loc :: "nat \<Rightarrow> u32 \<Rightarrow> thread_context \<Rightarrow> thread_context" where
  "put_loc j b tc = tc\<lparr>bucket_locs := take j (bucket_locs tc) @ b # drop (Suc j) (bucket_locs tc)\<rparr>"

fun key_loop ::
  "'k key_ops \<Rightarrow> u32 \<Rightarrow> nat \<Rightarrow> 'k list \<Rightarrow> thread_context \<Rightarrow> thread_context" where
  "key_loop K storage_slice j [] tc = tc"
| "key_loop K storage_slice j (k # ks) tc =
     (let key_bucket_locs = k_bucket K k storage_slice;
          tc = put_loc j key_bucket_locs tc;
          tc = push_whole (unat key_bucket_locs) (k_content K k) tc
      in key_loop K storage_slice (Suc j) ks tc)"

definition mget_fill ::
  "'k key_ops \<Rightarrow> nat \<Rightarrow> octets list \<Rightarrow> 'k list \<Rightarrow> nat \<Rightarrow> nat \<Rightarrow> thread_context
     \<Rightarrow> thread_context option" where
  "mget_fill K storage_slice names keys begin_i max_i tc =
     (case handle_reserve storage_slice tc of
        None \<Rightarrow> None
      | Some tc \<Rightarrow> Some (key_loop K (of_nat storage_slice) 0 (drop begin_i (take max_i keys))
          (push_heads (ascii ''HMGET'') names [] storage_slice tc)))"

text \<open>The workers read; every reply is awaited.\<close>

definition mget_command ::
  "'w redis_client \<Rightarrow> 'k key_ops \<Rightarrow> nat \<Rightarrow> octets list \<Rightarrow> 'k list \<Rightarrow> nat \<Rightarrow> nat \<Rightarrow> thread_context
     \<Rightarrow> 'w \<Rightarrow> (thread_context \<times> reply option list) option" where
  "mget_command client K storage_slice names keys begin_i max_i tc w =
     (case mget_fill K storage_slice names keys begin_i max_i tc of
        None \<Rightarrow> None
      | Some tc \<Rightarrow> Some (tc, map (\<lambda>i. pipe_exec_read client 3 (thread_buckets tc ! i) w) [0..<storage_slice]))"

definition del_fill ::
  "'k key_ops \<Rightarrow> nat \<Rightarrow> octets list \<Rightarrow> 'k list \<Rightarrow> nat \<Rightarrow> nat \<Rightarrow> thread_context
     \<Rightarrow> thread_context option" where
  "del_fill K storage_slice names keys begin_i max_i tc =
     (case handle_reserve storage_slice tc of
        None \<Rightarrow> None
      | Some tc \<Rightarrow> Some (key_loop K (of_nat storage_slice) 0 (drop begin_i (take max_i keys))
          (push_heads (ascii ''HDEL'') names [] storage_slice tc)))"

fun pair_loop ::
  "'k key_ops \<Rightarrow> 'v value_ops \<Rightarrow> u32 \<Rightarrow> nat \<Rightarrow> 'k list \<Rightarrow> 'v list \<Rightarrow> thread_context
     \<Rightarrow> thread_context" where
  "pair_loop K V storage_slice velems [] pv tc = tc"
| "pair_loop K V storage_slice velems (k # ks) pv tc =
     (let content = v_content V (take velems pv);
          key_bucket_locs = unat (k_bucket K k storage_slice);
          tc = push_whole key_bucket_locs (k_content K k) tc;
          tc = push_whole key_bucket_locs content tc
      in pair_loop K V storage_slice velems ks (drop velems pv) tc)"

definition mset_fill ::
  "'k key_ops \<Rightarrow> 'v value_ops \<Rightarrow> nat \<Rightarrow> octets list \<Rightarrow> 'k list \<Rightarrow> 'v list \<Rightarrow> nat \<Rightarrow> nat \<Rightarrow> nat
     \<Rightarrow> thread_context \<Rightarrow> thread_context option" where
  "mset_fill K V storage_slice names keys vals begin_i max_i velems tc =
     (case handle_reserve storage_slice tc of
        None \<Rightarrow> None
      | Some tc \<Rightarrow> Some (pair_loop K V (of_nat storage_slice) velems (drop begin_i (take max_i keys))
          (drop (begin_i * velems) vals)
          (push_heads (ascii ''HMSET'') names [] storage_slice tc)))"

text \<open>
  An accumulation also sends, per bucket, one byte for each of its keys that says whether the
  caller saw the key.
\<close>

fun exists_split :: "'k key_ops \<Rightarrow> u32 \<Rightarrow> 'k list \<Rightarrow> bool list \<Rightarrow> bool list list \<Rightarrow> bool list list" where
  "exists_split K storage_slice (k # ks) (e # es) split =
     (let b = unat (k_bucket K k storage_slice)
      in exists_split K storage_slice ks es (split[b := split ! b @ [e]]))"
| "exists_split K storage_slice ks es split = split"

definition push_exists :: "bool list list \<Rightarrow> nat \<Rightarrow> thread_context \<Rightarrow> thread_context" where
  "push_exists split i tc =
     (if split ! i \<noteq> [] then push_whole i (map of_bool (split ! i)) tc else tc)"

definition maccum_fill ::
  "'k key_ops \<Rightarrow> 'v value_ops \<Rightarrow> nat \<Rightarrow> octets list \<Rightarrow> octets \<Rightarrow> 'k list \<Rightarrow> 'v list \<Rightarrow> bool list
     \<Rightarrow> nat \<Rightarrow> nat \<Rightarrow> nat \<Rightarrow> thread_context \<Rightarrow> thread_context option" where
  "maccum_fill K V storage_slice names dtype_str keys vals exist begin_i max_i velems tc =
     (case handle_reserve storage_slice tc of
        None \<Rightarrow> None
      | Some tc \<Rightarrow>
          let ks = drop begin_i (take max_i keys);
              tc = push_heads (ascii ''HMACCUM'') names [dtype_str] storage_slice tc;
              tc = pair_loop K V (of_nat storage_slice) velems ks (drop (begin_i * velems) vals) tc;
              split = exists_split K (of_nat storage_slice) ks (drop begin_i exist)
                        (replicate storage_slice [])
          in Some (fold (push_exists split) [0..<storage_slice] tc))"

text \<open>
  The tail the three writing commands share: the buckets are handed to the pool, whose workers
  send them in some order, and the first thing left in \<open>error_ptr\<close> becomes the status.
\<close>

definition send_buckets ::
  "'w redis_client \<Rightarrow> nat \<Rightarrow> bucket_context list \<Rightarrow> 'w \<times> string option \<Rightarrow> ('w \<times> string option) \<times> status" where
  "send_buckets client size_check bs s =
     (case fold (pipe_exec_write client size_check) bs s of
        (w, None) \<Rightarrow> ((w, None), None)
      | (w, Some e) \<Rightarrow> ((w, None), Some e))"

definition del_command ::
  "'w redis_client \<Rightarrow> 'k key_ops \<Rightarrow> nat list \<Rightarrow> nat \<Rightarrow> octets list \<Rightarrow> 'k list \<Rightarrow> nat \<Rightarrow> nat
     \<Rightarrow> thread_context \<Rightarrow> 'w \<times> string option \<Rightarrow> (thread_context \<times> ('w \<times> string option) \<times> status) option" where
  "del_command client K order storage_slice names keys begin_i max_i tc s =
     (case del_fill K storage_slice names keys begin_i max_i tc of
        None \<Rightarrow> None
      | Some tc \<Rightarrow> Some (tc, send_buckets client 3 (map ((!) (thread_buckets tc)) order) s))"

definition mset_command ::
  "'w redis_client \<Rightarrow> 'k key_ops \<Rightarrow> 'v value_ops \<Rightarrow> nat list \<Rightarrow> nat \<Rightarrow> octets list \<Rightarrow> 'k list
     \<Rightarrow> 'v list \<Rightarrow> nat \<Rightarrow> nat \<Rightarrow> nat \<Rightarrow> thread_context \<Rightarrow> 'w \<times> string option
     \<Rightarrow> (thread_context \<times> ('w \<times> string option) \<times> status) option" where
  "mset_command client K V order storage_slice names keys vals begin_i max_i velems tc s =
     (case mset_fill K V storage_slice names keys vals begin_i max_i velems tc of
        None \<Rightarrow> None
      | Some tc \<Rightarrow> Some (tc, send_buckets client 4 (map ((!) (thread_buckets tc)) order) s))"

definition maccum_command ::
  "'w redis_client \<Rightarrow> 'k key_ops \<Rightarrow> 'v value_ops \<Rightarrow> nat list \<Rightarrow> nat \<Rightarrow> octets list \<Rightarrow> octets
     \<Rightarrow> 'k list \<Rightarrow> 'v list \<Rightarrow> bool list \<Rightarrow> nat \<Rightarrow> nat \<Rightarrow> nat \<Rightarrow> thread_context \<Rightarrow> 'w \<times> string option
     \<Rightarrow> (thread_context \<times> ('w \<times> string option) \<times> status) option" where
  "maccum_command client K V order storage_slice names dtype_str keys vals exist begin_i max_i
     velems tc s =
     (case maccum_fill K V storage_slice names dtype_str keys vals exist begin_i max_i velems tc of
        None \<Rightarrow> None
      | Some tc \<Rightarrow> Some (tc, send_buckets client 6 (map ((!) (thread_buckets tc)) order) s))"

section \<open>Replies\<close>

definition write_at :: "nat \<Rightarrow> 'a list \<Rightarrow> 'a list \<Rightarrow> 'a list" where
  "write_at pos xs mem = take pos mem @ xs @ drop (pos + length xs) mem"

definition default_source :: "bool \<Rightarrow> 'v list \<Rightarrow> nat \<Rightarrow> nat \<Rightarrow> 'v list" where
  "default_source is_full_default dft velems j =
     take velems (if is_full_default then drop (j * velems) dft else dft)"

definition copy_default_to_tensor ::
  "bool \<Rightarrow> 'v list \<Rightarrow> nat \<Rightarrow> nat \<Rightarrow> 'v list \<Rightarrow> 'v list" where
  "copy_default_to_tensor is_full_default dft velems j vals =
     write_at (j * velems) (default_source is_full_default dft velems j) vals"

text \<open>
  One row: the next element of its bucket's reply.  An answer that is not an array leaves the
  row alone, and does not count.
\<close>

fun mget_row ::
  "'v value_ops \<Rightarrow> 'v list \<Rightarrow> bool \<Rightarrow> nat \<Rightarrow> reply option list \<Rightarrow> nat \<Rightarrow> nat \<Rightarrow> nat list \<times> 'v list
     \<Rightarrow> nat list \<times> 'v list" where
  "mget_row V dft is_full velems replies b j (iters, vals) =
     (case replies ! b of
        Some (Reply_array es) \<Rightarrow>
          (iters[b := Suc (iters ! b)],
           case es ! (iters ! b) of
             Reply_string str \<Rightarrow> write_at (j * velems) (v_restore V velems str) vals
           | _ \<Rightarrow> copy_default_to_tensor is_full dft velems j vals)
      | Some _ \<Rightarrow> (iters, vals)
      | None \<Rightarrow> (iters[b := Suc (iters ! b)], copy_default_to_tensor is_full dft velems j vals))"

definition mget_to_tensor ::
  "'v value_ops \<Rightarrow> 'v list \<Rightarrow> 'v list \<Rightarrow> bool \<Rightarrow> nat \<Rightarrow> thread_context \<Rightarrow> reply option list
     \<Rightarrow> nat \<Rightarrow> nat \<Rightarrow> nat \<Rightarrow> 'v list" where
  "mget_to_tensor V vals dft is_full storage_slice tc replies begin_i max_i velems =
     snd (fold (\<lambda>i. mget_row V dft is_full velems replies (unat (bucket_locs tc ! i)) (begin_i + i))
            [0..<max_i - begin_i] (replicate storage_slice 0, vals))"

fun mget_row_exists ::
  "'v value_ops \<Rightarrow> 'v list \<Rightarrow> bool \<Rightarrow> nat \<Rightarrow> reply option list \<Rightarrow> nat \<Rightarrow> nat
     \<Rightarrow> nat list \<times> 'v list \<times> bool list \<Rightarrow> nat list \<times> 'v list \<times> bool list" where
  "mget_row_exists V dft is_full velems replies b j (iters, vals, exist) =
     (case replies ! b of
        Some (Reply_array es) \<Rightarrow>
          (iters[b := Suc (iters ! b)],
           case es ! (iters ! b) of
             Reply_string str \<Rightarrow>
               (write_at (j * velems) (v_restore V velems str) vals, exist[j := True])
           | _ \<Rightarrow> (copy_default_to_tensor is_full dft velems j vals, exist[j := False]))
      | Some _ \<Rightarrow> (iters, vals, exist)
      | None \<Rightarrow> (iters[b := Suc (iters ! b)],
                copy_default_to_tensor is_full dft velems j vals, exist[j := False]))"

definition mget_to_tensor_with_exist ::
  "'v value_ops \<Rightarrow> 'v list \<Rightarrow> 'v list \<Rightarrow> bool list \<Rightarrow> bool \<Rightarrow> nat \<Rightarrow> thread_context \<Rightarrow> reply option list
     \<Rightarrow> nat \<Rightarrow> nat \<Rightarrow> nat \<Rightarrow> 'v list \<times> bool list" where
  "mget_to_tensor_with_exist V vals dft exist is_full storage_slice tc replies begin_i max_i velems =
     snd (fold (\<lambda>i. mget_row_exists V dft is_full velems replies (unat (bucket_locs tc ! i)) (begin_i + i))
            [0..<max_i - begin_i] (replicate storage_slice 0, vals, exist))"

section \<open>Commands on one slice\<close>

text \<open>
  These commands are lines of text, handed over as C strings: what follows a null byte is lost.
\<close>

definition c_str :: "octets \<Rightarrow> octets" where
  "c_str line = takeWhile (\<lambda>b. b \<noteq> 0) line"

definition table_size_in_bucket :: "'w redis_client \<Rightarrow> octets \<Rightarrow> 'w \<Rightarrow> string + u64" where
  "table_size_in_bucket client name w =
     (case read_line client (c_str (ascii ''HLEN '' @ name)) w of
        Inl e \<Rightarrow> Inl e
      | Inr (Reply_integer n) \<Rightarrow> Inr (of_int n)
      | Inr _ \<Rightarrow> Inr 0)"

definition remove_hkeys_in_buckets :: "'w redis_client \<Rightarrow> octets \<Rightarrow> 'w \<Rightarrow> 'w \<times> status" where
  "remove_hkeys_in_buckets client name w =
     (case write_line client (c_str (ascii ''DEL '' @ name)) w of
        (w, Inl e) \<Rightarrow> (w, Some e) | (w, Inr r) \<Rightarrow> (w, None))"

text \<open>Decimal numbers as \<open>std::to_string\<close> writes and \<open>atoll\<close> reads them.\<close>

fun decimal_digits :: "nat \<Rightarrow> octets" where
  "decimal_digits n =
     (if n < 10 then [of_nat (48 + n)] else decimal_digits (n div 10) @ [of_nat (48 + n mod 10)])"

declare decimal_digits.simps [simp del]

definition to_string :: "int \<Rightarrow> octets" where
  "to_string n = (if n < 0 then 45 # decimal_digits (nat (- n)) else decimal_digits (nat n))"

fun read_digits :: "nat \<Rightarrow> octets \<Rightarrow> nat" where
  "read_digits acc [] = acc"
| "read_digits acc (b # bs) =
     (if 48 \<le> b \<and> b \<le> 57 then read_digits (acc * 10 + (unat b - 48)) bs else acc)"

definition atoll :: "octets \<Rightarrow> int" where
  "atoll str = (case str of
     b # bs \<Rightarrow> if b = 45 then - int (read_digits 0 bs) else int (read_digits 0 str) | [] \<Rightarrow> 0)"

text \<open>
  One step of a scan: the next cursor and the fields and values of the batch, in turns.  The
  code looks at the first two elements of the reply without a test.
\<close>

definition hscan_get_keys_vals_in_bucket ::
  "'w redis_client \<Rightarrow> octets \<Rightarrow> int \<Rightarrow> int \<Rightarrow> 'w \<Rightarrow> (int \<times> reply) option" where
  "hscan_get_keys_vals_in_bucket client name cursor n w =
     (case read_line client
        (c_str (ascii ''HSCAN '' @ name @ ascii '' '' @ to_string cursor @ ascii '' COUNT '' @ to_string n)) w
      of Inl e \<Rightarrow> None
       | Inr (Reply_array (Reply_string str # kvs # rest)) \<Rightarrow> Some (atoll str, kvs)
       | Inr _ \<Rightarrow> None)"

end
