(* ===== verification/Redis_Table.thy ===== *)
theory Redis_Table
  imports Redis_Cluster
begin

text \<open>
  The table over a Redis cluster: \<open>RedisTableOfTensors\<close> of \<open>redis_table_op.cc\<close> with the
  \<open>launch\<close> functions of \<open>redis_table_op_util.hpp\<close>.

  The state the operations thread through is that of the servers together with the wrapper's
  \<open>error_ptr\<close>; the pools of thread contexts come back with the result.  \<open>None\<close> is a run that
  does not return, in the loop that reserves a context.  A failing status stops the kernel,
  but not the operation: \<open>OP_REQUIRES_OK\<close> stands in functions without a result.
\<close>

record redis_table =
  storage_slice :: nat
  slice_names :: "octets list"
  max_argc :: int
  runtime_value_dim :: nat

text \<open>
  What the framework and the pool decide: how \<open>Shard\<close> cuts the rows into ranges, given the
  parallelism, the rows and the cost, and the order in which the workers come to send the
  buckets of the ranges in flight.
\<close>

record scheduler =
  ranges :: "int \<Rightarrow> int \<Rightarrow> int \<Rightarrow> (nat \<times> nat) list"
  order :: "nat \<Rightarrow> nat \<Rightarrow> (nat \<times> nat) list"

definition max_parallelism :: "redis_table \<Rightarrow> int \<Rightarrow> int" where
  "max_parallelism t rows = rows div max_argc t + 1"

definition slices_size :: "redis_table \<Rightarrow> int \<Rightarrow> int" where
  "slices_size t rows = min rows (max_argc t - 1)"

definition shards :: "scheduler \<Rightarrow> redis_table \<Rightarrow> nat \<Rightarrow> (nat \<times> nat) list" where
  "shards sch t rows =
     (if int rows < max_argc t - 1 then [(0, rows)]
      else map (\<lambda>(b, e). (b, min rows e))
             (ranges sch (max_parallelism t (int rows)) (int rows) (slices_size t (int rows))))"

section \<open>Finding\<close>

definition launch_find_core ::
  "'w redis_client \<Rightarrow> 'k key_ops \<Rightarrow> 'v value_ops \<Rightarrow> redis_table \<Rightarrow> 'k list \<Rightarrow> 'v list \<Rightarrow> bool
     \<Rightarrow> nat \<Rightarrow> 'w \<Rightarrow> nat \<times> nat \<Rightarrow> thread_context list \<times> 'v list
     \<Rightarrow> (thread_context list \<times> 'v list) option" where
  "launch_find_core client K V t keys dft is_full velems w rng s =
     (case (rng, s) of ((begin_i, max_i), (tcs, vals)) \<Rightarrow>
        (case select_available_thread_context tcs of (i, tcs) \<Rightarrow>
           (case mget_command client K (storage_slice t) (slice_names t) keys begin_i max_i (tcs ! i) w of
              None \<Rightarrow> None
            | Some (tc, replies) \<Rightarrow>
                Some (release_thread_context i (tcs[i := tc]),
                  mget_to_tensor V vals dft is_full (storage_slice t) tc replies begin_i max_i velems))))"

definition launch_find_with_exists_core ::
  "'w redis_client \<Rightarrow> 'k key_ops \<Rightarrow> 'v value_ops \<Rightarrow> redis_table \<Rightarrow> 'k list \<Rightarrow> 'v list \<Rightarrow> bool
     \<Rightarrow> nat \<Rightarrow> 'w \<Rightarrow> nat \<times> nat \<Rightarrow> thread_context list \<times> 'v list \<times> bool list
     \<Rightarrow> (thread_context list \<times> 'v list \<times> bool list) option" where
  "launch_find_with_exists_core client K V t keys dft is_full velems w rng s =
     (case (rng, s) of ((begin_i, max_i), (tcs, vals, exist)) \<Rightarrow>
        (case select_available_thread_context tcs of (i, tcs) \<Rightarrow>
           (case mget_command client K (storage_slice t) (slice_names t) keys begin_i max_i (tcs ! i) w of
              None \<Rightarrow> None
            | Some (tc, replies) \<Rightarrow>
                Some (release_thread_context i (tcs[i := tc]),
                  mget_to_tensor_with_exist V vals dft exist is_full (storage_slice t) tc replies
                    begin_i max_i velems))))"

fun try_fold :: "('x \<Rightarrow> 's \<Rightarrow> 's option) \<Rightarrow> 'x list \<Rightarrow> 's \<Rightarrow> 's option" where
  "try_fold f [] s = Some s"
| "try_fold f (x # xs) s = (case f x s of None \<Rightarrow> None | Some s \<Rightarrow> try_fold f xs s)"

definition redis_find ::
  "'w redis_client \<Rightarrow> 'k key_ops \<Rightarrow> 'v value_ops \<Rightarrow> scheduler \<Rightarrow> redis_table \<Rightarrow> 'k list \<Rightarrow> 'v list
     \<Rightarrow> 'v list \<Rightarrow> 'w \<Rightarrow> thread_context list \<Rightarrow> (thread_context list \<times> 'v list) option" where
  "redis_find client K V sch t keys vals dft w tcs =
     (let rows = length keys
      in if 0 < rows
         then let velems = length vals div rows;
                  is_full = (length vals = length dft)
              in try_fold (launch_find_core client K V t keys dft is_full velems w)
                   (shards sch t rows) (tcs, vals)
         else Some (tcs, vals))"

definition redis_find_with_exists ::
  "'w redis_client \<Rightarrow> 'k key_ops \<Rightarrow> 'v value_ops \<Rightarrow> scheduler \<Rightarrow> redis_table \<Rightarrow> 'k list \<Rightarrow> 'v list
     \<Rightarrow> 'v list \<Rightarrow> bool list \<Rightarrow> 'w \<Rightarrow> thread_context list
     \<Rightarrow> (thread_context list \<times> 'v list \<times> bool list) option" where
  "redis_find_with_exists client K V sch t keys vals dft exist w tcs =
     (let rows = length keys
      in if 0 < rows
         then let velems = length vals div rows;
                  is_full = (length vals = length dft)
              in try_fold (launch_find_with_exists_core client K V t keys dft is_full velems w)
                   (shards sch t rows) (tcs, vals, exist)
         else Some (tcs, vals, exist))"

section \<open>Writing\<close>

text \<open>
  The ranges of one operation are in flight together: each takes a context and fills it, which
  touches nothing else, and their buckets go out in the order of the scheduler.  Every command
  is carried out by the servers in one piece.
\<close>

definition fill_range ::
  "(nat \<Rightarrow> nat \<Rightarrow> thread_context \<Rightarrow> thread_context option) \<Rightarrow> nat \<times> nat
     \<Rightarrow> thread_context list \<times> nat list \<Rightarrow> (thread_context list \<times> nat list) option" where
  "fill_range fill rng s =
     (case (rng, s) of ((begin_i, max_i), (tcs, used)) \<Rightarrow>
        (case select_available_thread_context tcs of (i, tcs) \<Rightarrow>
           (case fill begin_i max_i (tcs ! i) of
              None \<Rightarrow> None | Some tc \<Rightarrow> Some (tcs[i := tc], used @ [i]))))"

definition launch_writes ::
  "'w redis_client \<Rightarrow> nat \<Rightarrow> (nat \<Rightarrow> nat \<Rightarrow> thread_context \<Rightarrow> thread_context option) \<Rightarrow> scheduler
     \<Rightarrow> redis_table \<Rightarrow> (nat \<times> nat) list \<Rightarrow> 'w \<times> string option \<Rightarrow> thread_context list
     \<Rightarrow> (thread_context list \<times> ('w \<times> string option) \<times> status) option" where
  "launch_writes client size_check fill sch t rngs s tcs =
     (case try_fold (fill_range fill) rngs (tcs, []) of
        None \<Rightarrow> None
      | Some (tcs, used) \<Rightarrow>
          Some (fold release_thread_context used tcs,
            send_buckets client size_check
              (map (\<lambda>(r, i). thread_buckets (tcs ! (used ! r)) ! i) (order sch (length rngs) (storage_slice t))) s))"

definition launch_insert ::
  "'w redis_client \<Rightarrow> 'k key_ops \<Rightarrow> 'v value_ops \<Rightarrow> scheduler \<Rightarrow> redis_table \<Rightarrow> 'k list \<Rightarrow> 'v list
     \<Rightarrow> nat \<Rightarrow> 'w \<times> string option \<Rightarrow> thread_context list
     \<Rightarrow> (thread_context list \<times> ('w \<times> string option) \<times> status) option" where
  "launch_insert client K V sch t keys vals velems s tcs =
     launch_writes client 4
       (\<lambda>begin_i max_i. mset_fill K V (storage_slice t) (slice_names t) keys vals begin_i max_i velems)
       sch t (shards sch t (length keys)) s tcs"

definition launch_accum ::
  "'w redis_client \<Rightarrow> 'k key_ops \<Rightarrow> 'v value_ops \<Rightarrow> scheduler \<Rightarrow> redis_table \<Rightarrow> octets \<Rightarrow> 'k list
     \<Rightarrow> 'v list \<Rightarrow> bool list \<Rightarrow> nat \<Rightarrow> 'w \<times> string option \<Rightarrow> thread_context list
     \<Rightarrow> (thread_context list \<times> ('w \<times> string option) \<times> status) option" where
  "launch_accum client K V sch t dtype_str keys vals exist velems s tcs =
     launch_writes client 6
       (\<lambda>begin_i max_i. maccum_fill K V (storage_slice t) (slice_names t) dtype_str keys vals exist
          begin_i max_i velems)
       sch t (shards sch t (length keys)) s tcs"

definition launch_delete ::
  "'w redis_client \<Rightarrow> 'k key_ops \<Rightarrow> scheduler \<Rightarrow> redis_table \<Rightarrow> 'k list
     \<Rightarrow> 'w \<times> string option \<Rightarrow> thread_context list
     \<Rightarrow> (thread_context list \<times> ('w \<times> string option) \<times> status) option" where
  "launch_delete client K sch t keys s tcs =
     launch_writes client 3
       (\<lambda>begin_i max_i. del_fill K (storage_slice t) (slice_names t) keys begin_i max_i)
       sch t (shards sch t (length keys)) s tcs"

fun remove_slices :: "'w redis_client \<Rightarrow> octets list \<Rightarrow> 'w \<Rightarrow> 'w \<times> status" where
  "remove_slices client [] w = (w, None)"
| "remove_slices client (name # names) w =
     (case remove_hkeys_in_buckets client name w of
        (w, None) \<Rightarrow> remove_slices client names w
      | (w, Some e) \<Rightarrow> (w, Some e))"

definition redis_clear :: "'w redis_client \<Rightarrow> redis_table \<Rightarrow> 'w \<Rightarrow> 'w \<times> status" where
  "redis_clear client t w = remove_slices client (slice_names t) w"

definition redis_do_insert ::
  "'w redis_client \<Rightarrow> 'k key_ops \<Rightarrow> 'v value_ops \<Rightarrow> scheduler \<Rightarrow> redis_table \<Rightarrow> bool \<Rightarrow> 'k list
     \<Rightarrow> 'v list \<Rightarrow> nat \<Rightarrow> 'w \<times> string option \<Rightarrow> thread_context list
     \<Rightarrow> (thread_context list \<times> ('w \<times> string option) \<times> status) option" where
  "redis_do_insert client K V sch t clear keys vals velems s tcs =
     (case (if clear then remove_slices client (slice_names t) (fst s) else (fst s, None)) of
        (w, Some e) \<Rightarrow> Some (tcs, (w, snd s), Some e)
      | (w, None) \<Rightarrow> launch_insert client K V sch t keys vals velems (w, snd s) tcs)"

definition redis_insert ::
  "'w redis_client \<Rightarrow> 'k key_ops \<Rightarrow> 'v value_ops \<Rightarrow> scheduler \<Rightarrow> redis_table \<Rightarrow> 'k list
     \<Rightarrow> 'v list \<Rightarrow> 'w \<times> string option \<Rightarrow> thread_context list
     \<Rightarrow> (thread_context list \<times> ('w \<times> string option) \<times> status) option" where
  "redis_insert client K V sch t keys vals s tcs =
     (if 0 < length keys
      then redis_do_insert client K V sch t False keys vals (length vals div length keys) s tcs
      else Some (tcs, s, None))"

text \<open>An accumulation divides by the number of keys without a test.\<close>

definition redis_accum ::
  "'w redis_client \<Rightarrow> 'k key_ops \<Rightarrow> 'v value_ops \<Rightarrow> scheduler \<Rightarrow> redis_table \<Rightarrow> octets \<Rightarrow> 'k list
     \<Rightarrow> 'v list \<Rightarrow> bool list \<Rightarrow> 'w \<times> string option \<Rightarrow> thread_context list
     \<Rightarrow> (thread_context list \<times> ('w \<times> string option) \<times> status) option" where
  "redis_accum client K V sch t dtype_str keys vals exist s tcs =
     (if length keys = 0 then None
      else launch_accum client K V sch t dtype_str keys vals exist (length vals div length keys) s tcs)"

definition redis_remove ::
  "'w redis_client \<Rightarrow> 'k key_ops \<Rightarrow> scheduler \<Rightarrow> redis_table \<Rightarrow> 'k list
     \<Rightarrow> 'w \<times> string option \<Rightarrow> thread_context list
     \<Rightarrow> (thread_context list \<times> ('w \<times> string option) \<times> status) option" where
  "redis_remove client K sch t keys s tcs =
     (if 0 < length keys then launch_delete client K sch t keys s tcs else Some (tcs, s, None))"

section \<open>Counting and exporting\<close>

fun size_loop :: "'w redis_client \<Rightarrow> octets list \<Rightarrow> u64 \<Rightarrow> 'w \<Rightarrow> string + u64" where
  "size_loop client [] acc w = Inr acc"
| "size_loop client (name # names) acc w =
     (case table_size_in_bucket client name w of
        Inl e \<Rightarrow> Inl e | Inr n \<Rightarrow> size_loop client names (acc + n) w)"

definition redis_size :: "'w redis_client \<Rightarrow> redis_table \<Rightarrow> 'w \<Rightarrow> string + u64" where
  "redis_size client t w = size_loop client (take (storage_slice t) (slice_names t)) 0 w"

datatype export_error =
    Thrown_by_client string
  | Scan_failed
  | Wrong_dimension
  | Past_the_output
  | Past_the_reply

text \<open>
  The fields and values of a batch are copied in turns to the next rows of the outputs, which
  were allocated for as many rows as the slices counted before: \<open>Past_the_output\<close> is a copy
  beyond them.  A key is decoded by \<open>from_key\<close>.
\<close>

fun copy_batch ::
  "(octets \<Rightarrow> 'k) \<Rightarrow> 'v value_ops \<Rightarrow> nat \<Rightarrow> reply list \<Rightarrow> nat \<times> 'k list \<times> 'v list
     \<Rightarrow> export_error + nat \<times> 'k list \<times> 'v list" where
  "copy_batch from_key V vdim (f # v # kvs) (j, keys, vals) =
     (if length keys \<le> j then Inl Past_the_output
      else let keys = (case f of Reply_string str \<Rightarrow> keys[j := from_key str] | _ \<Rightarrow> keys);
               vals = (case v of Reply_string str \<Rightarrow> write_at (j * vdim) (v_restore V vdim str) vals
                       | _ \<Rightarrow> vals)
           in copy_batch from_key V vdim kvs (Suc j, keys, vals))"
| "copy_batch from_key V vdim [] s = Inr s"
| "copy_batch from_key V vdim [f] s = Inl Past_the_reply"

text \<open>
  \<open>row_bytes\<close> is the length every row has to have, for values of a fixed size.  The first row
  of a batch is measured even when the batch is empty.
\<close>

definition check_dimension :: "nat option \<Rightarrow> reply list \<Rightarrow> export_error option" where
  "check_dimension row_bytes kvs = (case (row_bytes, kvs) of
     (None, _) \<Rightarrow> None
   | (Some n, f # Reply_string str # _) \<Rightarrow> if length str \<noteq> n then Some Wrong_dimension else None
   | (Some n, f # v # _) \<Rightarrow> if n \<noteq> 0 then Some Wrong_dimension else None
   | (Some n, _) \<Rightarrow> Some Past_the_reply)"

fun reply_elements :: "reply \<Rightarrow> reply list" where
  "reply_elements (Reply_array es) = es"
| "reply_elements _ = []"

partial_function (option) export_slice ::
  "'w redis_client \<Rightarrow> (octets \<Rightarrow> 'k) \<Rightarrow> 'v value_ops \<Rightarrow> nat option \<Rightarrow> redis_table \<Rightarrow> octets \<Rightarrow> 'w
     \<Rightarrow> int \<Rightarrow> nat \<times> 'k list \<times> 'v list \<Rightarrow> (export_error + nat \<times> 'k list \<times> 'v list) option" where
  "export_slice client from_key V row_bytes t name w cursor s =
     (case hscan_get_keys_vals_in_bucket client name cursor (max_argc t) w of
        None \<Rightarrow> Some (Inl Scan_failed)
      | Some (cursor, kvs) \<Rightarrow>
          if length (reply_elements kvs) < 2 \<and> cursor = 0 then Some (Inr s)
          else (case check_dimension row_bytes (reply_elements kvs) of
              Some e \<Rightarrow> Some (Inl e)
            | None \<Rightarrow>
                (case copy_batch from_key V (runtime_value_dim t) (reply_elements kvs) s of
                   Inl e \<Rightarrow> Some (Inl e)
                 | Inr s \<Rightarrow> if cursor = 0 then Some (Inr s)
                            else export_slice client from_key V row_bytes t name w cursor s)))"

fun export_slices ::
  "'w redis_client \<Rightarrow> (octets \<Rightarrow> 'k) \<Rightarrow> 'v value_ops \<Rightarrow> nat option \<Rightarrow> redis_table \<Rightarrow> octets list \<Rightarrow> 'w
     \<Rightarrow> nat \<times> 'k list \<times> 'v list \<Rightarrow> (export_error + nat \<times> 'k list \<times> 'v list) option" where
  "export_slices client from_key V row_bytes t [] w s = Some (Inr s)"
| "export_slices client from_key V row_bytes t (name # names) w s =
     (case export_slice client from_key V row_bytes t name w 0 s of
        None \<Rightarrow> None
      | Some (Inl e) \<Rightarrow> Some (Inl e)
      | Some (Inr s) \<Rightarrow> export_slices client from_key V row_bytes t names w s)"

text \<open>\<open>k0\<close> and \<open>v0\<close> are what the fresh outputs hold.\<close>

definition export_values_to_tensor ::
  "'w redis_client \<Rightarrow> (octets \<Rightarrow> 'k) \<Rightarrow> 'k \<Rightarrow> 'v value_ops \<Rightarrow> 'v \<Rightarrow> nat option \<Rightarrow> redis_table \<Rightarrow> 'w
     \<Rightarrow> (export_error + 'k list \<times> 'v list) option" where
  "export_values_to_tensor client from_key k0 V v0 row_bytes t w =
     (case size_loop client (slice_names t) 0 w of
        Inl e \<Rightarrow> Some (Inl (Thrown_by_client e))
      | Inr total_size \<Rightarrow>
          let keys = replicate (unat total_size) k0;
              vals = replicate (unat total_size * runtime_value_dim t) v0
          in if total_size = 0 then Some (Inr (keys, vals))
             else (case export_slices client from_key V row_bytes t (slice_names t) w (0, keys, vals) of
                 None \<Rightarrow> None
               | Some (Inl e) \<Rightarrow> Some (Inl e)
               | Some (Inr (j, keys, vals)) \<Rightarrow> Some (Inr (keys, vals))))"

end
