(* ===== verification/Redis_Util_Spec.thy ===== *)
theory Redis_Util_Spec
  imports Redis_Util
begin

text \<open>
  The shared parts of the Redis wrappers, proved: little endian numbers and packed rows can be
  read back, the checksum does not depend on the stride at which a machine computes it, and
  reserving a context leaves one empty bucket per slice.
\<close>

section \<open>Little endian numbers\<close>

lemma length_le_bytes [simp]: "length (le_bytes n w) = n"
  by (simp add: le_bytes_def)

lemma le_bytes_0 [simp]: "le_bytes 0 w = []"
  by (simp add: le_bytes_def)

lemma le_bytes_Suc: "le_bytes (Suc n) w = ucast w # le_bytes n (drop_bit 8 w)"
  by (simp add: le_bytes_def upt_conv_Cons map_Suc_upt [symmetric] comp_def del: upt_Suc)
    (simp add: add.commute)

lemma bit_of_le_Cons:
  "bit (of_le (b # bs) :: 'a::len word) n \<longleftrightarrow>
     n < LENGTH('a) \<and> (if n < 8 then bit b n else bit (of_le bs :: 'a word) (n - 8))"
  by (auto simp: bit_simps dest: bit_imp_le_length)

lemma of_le_le_bytes: "(of_le (le_bytes n w) :: 'a::len word) = take_bit (8 * n) (w :: 'a word)"
proof (induction n arbitrary: w)
  case (Suc n)
  show ?case
  proof (rule bit_word_eqI)
    fix i assume "i < LENGTH('a)"
    then show "bit (of_le (le_bytes (Suc n) w) :: 'a word) i = bit (take_bit (8 * Suc n) w) i"
      unfolding le_bytes_Suc bit_of_le_Cons by (auto simp: Suc.IH bit_simps)
  qed
qed simp

lemma of_le_le_bytes32: "(of_le (le_bytes 4 w) :: u32) = (w :: u32)"
  by (simp add: of_le_le_bytes take_bit_word_eq_self)

lemma of_le_le_bytes64: "(of_le (le_bytes 8 w) :: u64) = (w :: u64)"
  by (simp add: of_le_le_bytes take_bit_word_eq_self)

lemma take_bit_of_le: "take_bit (8 * length bs) (of_le bs :: 'a::len word) = of_le bs"
proof (induction bs)
  case (Cons b bs)
  have small: "bit (of_le bs :: 'a word) i \<longrightarrow> i < 8 * length bs" for i
    using arg_cong [OF Cons.IH, of "\<lambda>w. bit w i"] by (auto simp: bit_simps)
  have "bit (of_le (b # bs) :: 'a word) i \<longrightarrow> i < 8 * length (b # bs)" for i
    using small [of "i - 8"] unfolding bit_of_le_Cons by auto
  then show ?case by (intro bit_word_eqI) (auto simp only: bit_take_bit_iff)
qed simp

section \<open>The checksum\<close>

definition crc_bytes :: "u32 \<Rightarrow> octets \<Rightarrow> u32" where
  "crc_bytes crc bs = foldl (\<lambda>c b. crc_insn 8 c (ucast b)) crc bs"

lemma crc_shift_xor: "crc_shift (x XOR y) = crc_shift x XOR crc_shift y"
  unfolding crc_shift_def
  by (rule bit_word_eqI) (simp add: bit_simps, (auto)?)

lemma crc_shifts_xor: "(crc_shift ^^ n) (x XOR y) = (crc_shift ^^ n) x XOR (crc_shift ^^ n) y"
  by (induction n) (simp_all add: crc_shift_xor)

lemma crc_shift_32:
  assumes "take_bit 32 x = x"
  shows "take_bit 32 (crc_shift x) = crc_shift x"
proof -
  have "take_bit 32 (drop_bit 1 x) = drop_bit 1 x"
  proof (rule bit_word_eqI)
    fix i assume "i < LENGTH(64)"
    have "bit x (Suc i) \<longrightarrow> Suc i < 32"
      using arg_cong [OF assms, of "\<lambda>w. bit w (Suc i)"] by (auto simp: bit_simps)
    then show "bit (take_bit 32 (drop_bit 1 x)) i = bit (drop_bit 1 x) i"
      by (auto simp: bit_simps)
  qed
  moreover have "take_bit 32 crc_poly = crc_poly" by (simp add: crc_poly_def)
  ultimately show ?thesis by (simp add: crc_shift_def)
qed

lemma crc_shifts_32: "take_bit 32 x = x \<Longrightarrow> take_bit 32 ((crc_shift ^^ n) x) = (crc_shift ^^ n) x"
  by (induction n) (simp_all add: crc_shift_32)

lemma crc_shift_low_zero:
  assumes "\<not> bit x 0"
  shows "crc_shift x = drop_bit 1 x"
  using assms by (simp add: crc_shift_def)

lemma crc_shifts_low_zero:
  fixes x :: u64
  assumes "take_bit k x = 0"
  shows "(crc_shift ^^ k) x = drop_bit k x"
  using assms
proof (induction k arbitrary: x)
  case (Suc k)
  have bits: "\<not> bit x i" if "i < Suc k" for i
    using arg_cong [OF Suc.prems, of "\<lambda>w. bit w i"] that bit_imp_le_length [of x i]
    by (auto simp: bit_simps)
  have "take_bit k (drop_bit 1 x) = 0"
    by (rule bit_word_eqI) (simp add: bit_simps bits)
  then have "(crc_shift ^^ k) (drop_bit 1 x) = drop_bit k (drop_bit 1 x)" by (rule Suc.IH)
  then show ?case using bits [of 0] by (simp add: funpow_Suc_right crc_shift_low_zero del: funpow.simps)
qed simp

lemma crc_insn_Cons:
  assumes "length bs < 8"
  shows "crc_insn (8 * length (b # bs)) crc (of_le (b # bs)) =
    crc_insn (8 * length bs) (crc_insn 8 crc (ucast b)) (of_le bs)"
proof -
  let ?w = "of_le bs :: u64" and ?x = "ucast crc XOR ucast b :: u64"
  have split: "(of_le (b # bs) :: u64) = ucast b XOR push_bit 8 ?w"
    by (rule bit_word_eqI) (auto simp: bit_simps dest: bit_imp_le_length)
  have small: "bit ?w i \<Longrightarrow> i < 8 * length bs" for i
    using arg_cong [OF take_bit_of_le [of bs, where ?'a = 64], of "\<lambda>w. bit w i"]
    by (auto simp: bit_simps)
  have "take_bit 8 (push_bit 8 ?w) = 0" by (rule bit_word_eqI) (auto simp: bit_simps)
  moreover have "drop_bit 8 (push_bit 8 ?w) = ?w"
    using assms small by (intro bit_word_eqI) (force simp: bit_simps)
  ultimately have down: "(crc_shift ^^ 8) (push_bit 8 ?w) = ?w"
    by (simp add: crc_shifts_low_zero)
  have "take_bit 32 ?x = ?x"
    by (rule bit_word_eqI) (auto simp: bit_simps dest: bit_imp_le_length)
  then have same: "ucast (ucast ((crc_shift ^^ 8) ?x) :: u32) = (crc_shift ^^ 8) ?x"
    using crc_shifts_32 [of ?x 8] by (simp add: unsigned_ucast_eq take_bit_word_eq_self)
  have eight: "8 * length (b # bs) = 8 * length bs + 8" by simp
  have "(crc_shift ^^ (8 * length (b # bs))) (ucast crc XOR of_le (b # bs)) =
      (crc_shift ^^ (8 * length bs)) ((crc_shift ^^ 8) (?x XOR push_bit 8 ?w))"
    unfolding eight split funpow_add by (simp only: comp_def xor.assoc)
  also have "\<dots> = (crc_shift ^^ (8 * length bs)) ((crc_shift ^^ 8) ?x XOR ?w)"
    by (simp only: crc_shifts_xor [of 8] down)
  finally show ?thesis by (simp only: crc_insn_def same)
qed

lemma crc_insn_bytes:
  "length bs \<le> 8 \<Longrightarrow> crc_insn (8 * length bs) crc (of_le bs) = crc_bytes crc bs"
proof (induction bs arbitrary: crc)
  case Nil
  have "ucast (ucast crc :: u64) = crc" by (rule bit_word_eqI) (simp add: bit_simps)
  then show ?case by (simp add: crc_insn_def crc_bytes_def)
next
  case (Cons b bs)
  then show ?case using crc_insn_Cons [of bs b crc] by (simp add: crc_bytes_def)
qed

lemma crc_bytes_append: "crc_bytes crc (xs @ ys) = crc_bytes (crc_bytes crc xs) ys"
  by (simp add: crc_bytes_def)

lemma crc_insn_take:
  assumes "n \<le> length p" "n \<le> 8"
  shows "crc_bytes (crc_insn (8 * n) crc (of_le (take n p))) (drop n p) = crc_bytes crc p"
proof -
  have "length (take n p) = n" using assms by simp
  then have "crc_insn (8 * n) crc (of_le (take n p)) = crc_bytes crc (take n p)"
    using crc_insn_bytes [of "take n p" crc] assms(2) by simp
  then show ?thesis using crc_bytes_append [of crc "take n p" "drop n p"] by simp
qed

lemma crc_loop_bytes:
  assumes "0 < stride" "stride \<le> 8"
  shows "\<exists>c q. crc_loop stride (int (length p)) (crc, p) = (c, q) \<and>
    length q = length p mod stride \<and> crc_bytes c q = crc_bytes crc p"
proof (induction "length p" arbitrary: p crc rule: less_induct)
  case less
  show ?case
  proof (cases "stride \<le> length p")
    case True
    let ?c = "crc_insn (8 * stride) crc (of_le (take stride p))" and ?q = "drop stride p"
    have "length ?q < length p" using True assms(1) by simp
    from less [OF this, of ?c] obtain c q where
      cq: "crc_loop stride (int (length ?q)) (?c, ?q) = (c, q)"
        "length q = length ?q mod stride" "crc_bytes c q = crc_bytes ?c ?q" by blast
    have "crc_loop stride (int (length p)) (crc, p) = crc_loop stride (int (length ?q)) (?c, ?q)"
      using True assms(1) by (subst crc_loop.simps) (simp add: of_nat_diff)
    moreover have "length ?q mod stride = length p mod stride"
      using True by (simp add: le_mod_geq)
    moreover have "crc_bytes ?c ?q = crc_bytes crc p"
      using True assms(2) by (rule crc_insn_take)
    ultimately show ?thesis using cq by simp
  next
    case False
    then show ?thesis by (subst crc_loop.simps) simp
  qed
qed

lemma crc_tail_bytes:
  assumes "length p < 8"
  shows "(let (crc, p, rest) = crc_tail 4 4 (crc, p, of_nat (length p));
              (crc, p, rest) = crc_tail 2 2 (crc, p, rest)
          in if rest AND 1 \<noteq> 0 then crc_insn 8 crc (of_le (take 1 p)) else crc) = crc_bytes crc p"
proof -
  have one: "crc_insn 8 c (of_le [x]) = crc_bytes c [x]" for c x
    using crc_insn_bytes [of "[x]" c] by simp
  have two: "crc_insn 16 c (of_le [x, y]) = crc_bytes c [x, y]" for c x y
    using crc_insn_bytes [of "[x, y]" c] by simp
  have four: "crc_insn 32 c (of_le [x, y, z, w]) = crc_bytes c [x, y, z, w]" for c x y z w
    using crc_insn_bytes [of "[x, y, z, w]" c] by simp
  have join: "crc_bytes (crc_bytes c xs) ys = crc_bytes c (xs @ ys)" for c xs ys
    by (simp add: crc_bytes_append)
  have empty: "crc_bytes c [] = c" for c by (simp add: crc_bytes_def)
  note facts = one two four join empty crc_tail_def
  obtain f n where f: "p = map f [0..<n]" "n = length p" by (metis map_nth)
  then have "n = 0 \<or> n = 1 \<or> n = 2 \<or> n = 3 \<or> n = 4 \<or> n = 5 \<or> n = 6 \<or> n = 7"
    using assms by arith
  then show ?thesis
    unfolding f(1) by (elim disjE) (simp add: facts upt_rec del: of_le.simps)+
qed

lemma and_3_7: "unat (w AND 3 :: u64) = unat w mod 4" "unat (w AND 7 :: u64) = unat w mod 8"
proof -
  have "w AND 3 = take_bit 2 w" "w AND 7 = take_bit 3 w"
    by (simp_all add: take_bit_eq_mask mask_eq_exp_minus_1)
  then show "unat (w AND 3) = unat w mod 4" "unat (w AND 7) = unat w mod 8"
    by (simp_all add: unat_take_bit_word)
qed

lemma unat_of_nat_less: "n < 2 ^ 64 \<Longrightarrow> unat (of_nat n :: u64) = n"
  by (simp add: unat_of_nat take_bit_nat_eq_self)

lemma crc_counter_length:
  assumes "n < 2 ^ 31"
  shows "crc_counter isa (of_nat n) = int n"
proof (cases isa)
  case X86_64
  have "ucast (of_nat n :: u64) = (of_nat n :: u32)"
    by (rule bit_word_eqI) (simp add: bit_simps)
  moreover have "sint (of_nat n :: u32) = int n"
    using assms by (simp add: sint_word_ariths signed_of_nat signed_take_bit_int_eq_self)
  ultimately show ?thesis using X86_64 by simp
next
  case Aarch64
  have "sint (of_nat n :: u64) = int n"
    using assms by (simp add: signed_of_nat signed_take_bit_int_eq_self)
  then show ?thesis using Aarch64 by simp
qed

lemma crc_stride_cases: "0 < crc_stride isa" "crc_stride isa \<le> 8"
  "unat (w AND of_nat (crc_stride isa - 1) :: u64) = unat w mod crc_stride isa"
  using and_3_7 [of w] by (cases isa; simp)+

lemma crc32c_hash_bytes:
  assumes "length p < 2 ^ 31"
  shows "crc32c_hash isa crc p (of_nat (length p)) = crc_bytes crc p"
proof -
  obtain c q where loop: "crc_loop (crc_stride isa) (int (length p)) (crc, p) = (c, q)"
    and q: "length q = length p mod crc_stride isa" and same: "crc_bytes c q = crc_bytes crc p"
    using crc_loop_bytes [OF crc_stride_cases(1,2)] by blast
  have "unat (of_nat (length p) AND of_nat (crc_stride isa - 1) :: u64) = length q"
    using assms by (simp only: crc_stride_cases(3) q) (simp add: unat_of_nat_less)
  then have rest: "of_nat (length p) AND of_nat (crc_stride isa - 1) = (of_nat (length q) :: u64)"
    by (metis of_nat_unat ucast_id)
  have "length q < 8"
    using q crc_stride_cases(1,2) [of isa] by (metis mod_less_divisor order_less_le_trans)
  from crc_tail_bytes [OF this, of c] show ?thesis
    unfolding crc32c_hash_def crc_counter_length [OF assms] loop Let_def case_prod_conv rest same
    by (simp add: Let_def split_def)
qed

section \<open>Rows of strings\<close>

lemma tstring_total_fold:
  "fold (\<lambda>s tot. tot + 4 + of_nat (length s)) row tot =
     tot + of_nat (\<Sum>s \<leftarrow> row. 4 + length s)"
  by (induction row arbitrary: tot) (simp_all add: algebra_simps)

lemma tstring_buffer_fold:
  "fold (\<lambda>s buff. buff @ le_bytes 4 (of_nat (length s) :: u32) @ s) row buff =
     buff @ concat (map (\<lambda>s. le_bytes 4 (of_nat (length s) :: u32) @ s) row)"
  by (induction row arbitrary: buff) simp_all

lemma length_tstring_buffer: "length (tstring_buffer row) = (\<Sum>s \<leftarrow> row. 4 + length s)"
  by (simp add: tstring_buffer_def tstring_buffer_fold length_concat comp_def)

lemma tstring_content_buffer:
  assumes "(\<Sum>s \<leftarrow> row. 4 + length s) < 2 ^ 32"
  shows "tstring_content row = tstring_buffer row"
proof -
  have "unat (tstring_total row) = length (tstring_buffer row)"
    using assms unfolding length_tstring_buffer tstring_total_def tstring_total_fold
    by (simp only: add_0 unat_of_nat) (simp add: take_bit_nat_eq_self)
  then show ?thesis by (simp add: tstring_content_def)
qed

lemma tstring_restore_content:
  "(\<Sum>s \<leftarrow> row. 4 + length s) < 2 ^ 32 \<Longrightarrow>
     tstring_restore (length row) (tstring_content row @ rest) = row"
proof -
  have step: "(\<Sum>s \<leftarrow> row. 4 + length s) < 2 ^ 32 \<Longrightarrow> tstring_restore (length row)
      (concat (map (\<lambda>s. le_bytes 4 (of_nat (length s) :: u32) @ s) row) @ rest) = row"
  proof (induction row)
    case (Cons s row)
    have "unat (of_nat (length s) :: u32) = length s"
      using Cons.prems by (simp add: unat_of_nat take_bit_nat_eq_self)
    then show ?case
      using Cons by (simp add: Let_def of_le_le_bytes32 del: of_le.simps)
  qed simp
  show "(\<Sum>s \<leftarrow> row. 4 + length s) < 2 ^ 32 \<Longrightarrow> ?thesis"
    using step by (simp add: tstring_content_buffer) (simp add: tstring_buffer_def tstring_buffer_fold)
qed

section \<open>Rows of fixed size values\<close>

lemma fixed_restore_content:
  assumes "\<And>x. x \<in> set row \<Longrightarrow> length (to x) = sz \<and> from (to x) = x"
  shows "fixed_restore sz from (length row) (fixed_content to row @ rest) = row"
proof -
  have len: "length (fixed_content to row) = length row * sz"
    using assms unfolding fixed_content_def by (induction row) auto
  have "take sz (drop (i * sz) (fixed_content to row)) = to (row ! i)" if "i < length row" for i
    using assms that unfolding fixed_content_def
  proof (induction row arbitrary: i)
    case (Cons x row)
    then show ?case by (cases i) auto
  qed simp
  then show ?thesis
    using assms len unfolding fixed_restore_def row_view_def
    by (intro nth_equalityI) auto
qed

section \<open>Reserving a context\<close>

lemma grow_buckets_spec:
  "i \<le> n \<Longrightarrow> grow_buckets i n bs = Some (bs @ replicate (n - i) new_bucket_context)"
proof (induction "n - i" arbitrary: i bs)
  case 0
  then show ?case by (subst grow_buckets.simps) simp
next
  case (Suc d)
  then have "grow_buckets (Suc i) n (bs @ [new_bucket_context]) =
      Some ((bs @ [new_bucket_context]) @ replicate (n - Suc i) new_bucket_context)"
    by simp
  moreover have "replicate (n - i) new_bucket_context =
      new_bucket_context # replicate (n - Suc i) new_bucket_context"
    using Suc.hyps(2) by (metis Suc_diff_Suc replicate_Suc zero_less_Suc zero_less_diff)
  ultimately show ?case using Suc.hyps(2) by (subst grow_buckets.simps) auto
qed

lemma bucket_clear_empty [simp]: "bucket_clear = (\<lambda>b. new_bucket_context)"
  by (rule ext) (simp add: bucket_clear_def new_bucket_context_def)

lemma handle_reserve_spec:
  assumes "length (thread_buckets tc) \<le> n"
  shows "handle_reserve n tc = Some (tc\<lparr>thread_buckets := replicate n new_bucket_context\<rparr>)"
  using assms by (simp add: handle_reserve_def grow_buckets_spec map_replicate_const min_def
    flip: replicate_add)

end
