(* ===== verification/Redis_Cluster_Spec.thy ===== *)
theory Redis_Cluster_Spec
  imports Redis_Cluster Redis_Util_Spec
begin

text \<open>
  What the commands of the cluster wrapper contain, and what becomes of their replies.
\<close>

section \<open>Filling the buckets\<close>

definition bucket_of :: "'k key_ops \<Rightarrow> nat \<Rightarrow> 'k \<Rightarrow> nat" where
  "bucket_of K n k = unat (k_bucket K k (of_nat n))"

definition slices_ok :: "'k key_ops \<Rightarrow> nat \<Rightarrow> octets list \<Rightarrow> bool" where
  "slices_ok K n names \<longleftrightarrow> 0 < n \<and> length names = n \<and> inj (k_content K) \<and> (\<forall>k. bucket_of K n k < n)"

definition tidy :: "nat \<Rightarrow> thread_context \<Rightarrow> bool" where
  "tidy n tc \<longleftrightarrow> length (thread_buckets tc) = n \<and> (\<forall>b \<in> set (thread_buckets tc). length (ptrs b) = length (sizes b))"

definition commands :: "thread_context \<Rightarrow> octets list list" where
  "commands tc = map bucket_args (thread_buckets tc)"

lemma tidy_fresh: "tidy n (tc\<lparr>thread_buckets := replicate n new_bucket_context\<rparr>)"
  by (auto simp: tidy_def new_bucket_context_def)

lemma commands_fresh: "i < n \<Longrightarrow> commands (tc\<lparr>thread_buckets := replicate n new_bucket_context\<rparr>) ! i = []"
  by (simp add: commands_def bucket_args_def new_bucket_context_def)

lemma push_whole_spec:
  assumes "tidy n tc" "i < n"
  shows "tidy n (push_whole i p tc)"
    "commands (push_whole i p tc) = (commands tc)[i := commands tc ! i @ [p]]"
    "bucket_locs (push_whole i p tc) = bucket_locs tc"
proof -
  let ?b = "thread_buckets tc ! i"
  have eq: "length (ptrs ?b) = length (sizes ?b)" "i < length (thread_buckets tc)"
    using assms by (auto simp: tidy_def)
  then have args: "bucket_args (bucket_push_back p (length p) ?b) = bucket_args ?b @ [p]"
    by (simp add: bucket_args_def bucket_push_back_def)
  show "tidy n (push_whole i p tc)"
    using assms eq unfolding tidy_def push_whole_def handle_push_back_def
    by (auto simp: bucket_push_back_def dest!: set_update_subset_insert [THEN subsetD])
  show "commands (push_whole i p tc) = (commands tc)[i := commands tc ! i @ [p]]"
    using eq(2) args by (simp add: commands_def push_whole_def handle_push_back_def map_update)
  show "bucket_locs (push_whole i p tc) = bucket_locs tc"
    by (simp add: push_whole_def handle_push_back_def)
qed

lemma push_list_spec:
  assumes "tidy n tc" "i < n"
  shows "tidy n (fold (push_whole i) ps tc) \<and>
    commands (fold (push_whole i) ps tc) = (commands tc)[i := commands tc ! i @ ps] \<and>
    bucket_locs (fold (push_whole i) ps tc) = bucket_locs tc"
  using assms
proof (induction ps arbitrary: tc)
  case (Cons p ps)
  note push = push_whole_spec [OF Cons.prems, of p]
  have "i < length (commands tc)" using Cons.prems by (simp add: tidy_def commands_def)
  then show ?case using Cons.IH [OF push(1) Cons.prems(2)] push by simp
qed simp

text \<open>A series of arguments, each for a bucket of its own.\<close>

definition push_items :: "(nat \<times> octets list) list \<Rightarrow> thread_context \<Rightarrow> thread_context" where
  "push_items items tc = fold (\<lambda>(i, ps) tc. fold (push_whole i) ps tc) items tc"

definition item_args :: "(nat \<times> octets list) list \<Rightarrow> nat \<Rightarrow> octets list" where
  "item_args items i = concat (map snd (filter (\<lambda>it. fst it = i) items))"

lemma push_items_spec:
  assumes "tidy n tc" "\<forall>it \<in> set items. fst it < n"
  shows "tidy n (push_items items tc) \<and> bucket_locs (push_items items tc) = bucket_locs tc \<and>
    (\<forall>i < n. commands (push_items items tc) ! i = commands tc ! i @ item_args items i)"
  using assms
proof (induction items arbitrary: tc)
  case Nil
  then show ?case by (simp add: push_items_def item_args_def)
next
  case (Cons it items)
  obtain j ps where it: "it = (j, ps)" by (cases it)
  let ?tc = "fold (push_whole j) ps tc"
  have j: "j < n" using Cons.prems(2) it by simp
  note push = push_list_spec [OF Cons.prems(1) j, of ps]
  have len: "length (commands tc) = n" using Cons.prems(1) by (simp add: tidy_def commands_def)
  have "push_items (it # items) tc = push_items items ?tc" by (simp add: push_items_def it)
  then show ?case
    using Cons.IH [of ?tc] Cons.prems(2) push j len it
    by (auto simp: item_args_def nth_list_update)
qed

lemma push_heads_items:
  "push_heads command names extra n tc =
     push_items (map (\<lambda>i. (i, command # names ! i # extra)) [0..<n]) tc"
  by (simp add: push_heads_def push_items_def fold_map comp_def)

lemma filter_upt_eq: "i < n \<Longrightarrow> filter (\<lambda>j. j = i) [0..<n] = [i]"
  by (induction n) (auto simp: filter_empty_conv)

lemma item_args_heads:
  "i < n \<Longrightarrow> item_args (map (\<lambda>i. (i, f i)) [0..<n]) i = f i"
  by (simp add: item_args_def filter_map comp_def filter_upt_eq)

definition key_items :: "'k key_ops \<Rightarrow> nat \<Rightarrow> 'k list \<Rightarrow> (nat \<times> octets list) list" where
  "key_items K n ks = map (\<lambda>k. (bucket_of K n k, [k_content K k])) ks"

lemma put_loc_simps [simp]:
  "thread_buckets (put_loc j b tc) = thread_buckets tc" "tidy n (put_loc j b tc) = tidy n tc"
  "commands (put_loc j b tc) = commands tc"
  by (simp_all add: put_loc_def tidy_def commands_def)

lemma key_loop_spec:
  assumes "tidy n tc" "\<forall>k. bucket_of K n k < n" "j \<le> length (bucket_locs tc)"
  shows "tidy n (key_loop K (of_nat n) j ks tc) \<and>
    (\<forall>i < n. commands (key_loop K (of_nat n) j ks tc) ! i = commands tc ! i @ item_args (key_items K n ks) i) \<and>
    take (j + length ks) (bucket_locs (key_loop K (of_nat n) j ks tc)) =
      take j (bucket_locs tc) @ map (\<lambda>k. k_bucket K k (of_nat n)) ks"
  using assms
proof (induction ks arbitrary: j tc)
  case Nil
  then show ?case by (simp add: item_args_def key_items_def)
next
  case (Cons k ks)
  let ?b = "k_bucket K k (of_nat n)"
  let ?tc = "push_whole (unat ?b) (k_content K k) (put_loc j ?b tc)"
  have b: "unat ?b < n" using Cons.prems(2) unfolding bucket_of_def by blast
  have tidy: "tidy n (put_loc j ?b tc)" using Cons.prems(1) by simp
  note push = push_whole_spec [OF tidy b, of "k_content K k"]
  have len: "length (commands tc) = n" using Cons.prems(1) by (simp add: tidy_def commands_def)
  have locs: "take (Suc j) (bucket_locs ?tc) = take j (bucket_locs tc) @ [?b]"
    "Suc j \<le> length (bucket_locs ?tc)"
    using Cons.prems(3) push(3) by (simp_all add: put_loc_def)
  note IH = Cons.IH [OF push(1) Cons.prems(2) locs(2)]
  show ?case
    using IH push(2) b len unfolding key_loop.simps Let_def
    by (auto simp: locs item_args_def key_items_def nth_list_update bucket_of_def)
qed

lemma key_fill_spec:
  assumes "slices_ok K n names" "length (thread_buckets tc) \<le> n"
  shows "\<exists>tc'. map_option (\<lambda>tc. key_loop K (of_nat n) 0 ks (push_heads command names [] n tc))
      (handle_reserve n tc) = Some tc' \<and> tidy n tc' \<and>
    (\<forall>i < n. commands tc' ! i =
       command # names ! i # map (k_content K) (filter (\<lambda>k. bucket_of K n k = i) ks)) \<and>
    take (length ks) (bucket_locs tc') = map (\<lambda>k. k_bucket K k (of_nat n)) ks"
proof -
  let ?fresh = "tc\<lparr>thread_buckets := replicate n new_bucket_context\<rparr>"
  let ?heads = "map (\<lambda>i. (i, [command, names ! i])) [0..<n]"
  have range: "\<forall>k. bucket_of K n k < n" using assms(1) by (simp add: slices_ok_def)
  have heads: "tidy n (push_items ?heads ?fresh) \<and>
      (\<forall>i < n. commands (push_items ?heads ?fresh) ! i = [command, names ! i])"
    using push_items_spec [OF tidy_fresh, of ?heads n tc]
    by (auto simp: commands_fresh item_args_heads)
  have "item_args (key_items K n ks) i = map (k_content K) (filter (\<lambda>k. bucket_of K n k = i) ks)" for i
    by (induction ks) (simp_all add: item_args_def key_items_def)
  then show ?thesis
    using key_loop_spec [of n "push_items ?heads ?fresh" K 0 ks] heads range
    by (simp add: handle_reserve_spec [OF assms(2)] push_heads_items)
qed

lemma mget_fill_spec:
  assumes "slices_ok K n names" "length (thread_buckets tc) \<le> n"
  shows "\<exists>tc'. mget_fill K n names keys b e tc = Some tc' \<and> tidy n tc' \<and>
    (\<forall>i < n. commands tc' ! i = ascii ''HMGET'' # names ! i #
       map (k_content K) (filter (\<lambda>k. bucket_of K n k = i) (drop b (take e keys)))) \<and>
    take (length (drop b (take e keys))) (bucket_locs tc') =
      map (\<lambda>k. k_bucket K k (of_nat n)) (drop b (take e keys))"
  using key_fill_spec [OF assms, of "drop b (take e keys)" "ascii ''HMGET''"]
  by (auto simp: mget_fill_def split: option.splits)

lemma del_fill_spec:
  assumes "slices_ok K n names" "length (thread_buckets tc) \<le> n"
  shows "\<exists>tc'. del_fill K n names keys b e tc = Some tc' \<and> tidy n tc' \<and>
    (\<forall>i < n. commands tc' ! i = ascii ''HDEL'' # names ! i #
       map (k_content K) (filter (\<lambda>k. bucket_of K n k = i) (drop b (take e keys))))"
  using key_fill_spec [OF assms, of "drop b (take e keys)" "ascii ''HDEL''"]
  by (auto simp: del_fill_def split: option.splits)

definition pair_items ::
  "'k key_ops \<Rightarrow> 'v value_ops \<Rightarrow> nat \<Rightarrow> ('k \<times> 'v list) list \<Rightarrow> (nat \<times> octets list) list" where
  "pair_items K V n kvs = map (\<lambda>(k, r). (bucket_of K n k, [k_content K k, v_content V r])) kvs"

text \<open>The rows of a batch of values.\<close>

lemma row_view_Suc: "row_view s (Suc n) xs = take s xs # row_view s n (drop s xs)"
  by (simp add: row_view_def upt_conv_Cons map_Suc_upt [symmetric] comp_def add.commute del: upt_Suc)

lemma pair_loop_items:
  "pair_loop K V (of_nat n) velems ks pv tc =
     push_items (pair_items K V n (zip ks (row_view velems (length ks) pv))) tc"
  by (induction ks arbitrary: pv tc)
    (simp_all add: pair_items_def push_items_def row_view_Suc bucket_of_def Let_def)

definition pairs_of :: "'k key_ops \<Rightarrow> 'v value_ops \<Rightarrow> nat \<Rightarrow> ('k \<times> 'v list) list \<Rightarrow> nat \<Rightarrow> (octets \<times> octets) list" where
  "pairs_of K V n kvs i =
     map (\<lambda>(k, r). (k_content K k, v_content V r)) (filter (\<lambda>(k, r). bucket_of K n k = i) kvs)"

definition flat_pairs :: "('a \<times> 'a) list \<Rightarrow> 'a list" where
  "flat_pairs kvs = concat (map (\<lambda>(k, v). [k, v]) kvs)"

lemma item_args_pairs: "item_args (pair_items K V n kvs) i = flat_pairs (pairs_of K V n kvs i)"
  by (induction kvs) (auto simp: item_args_def pair_items_def pairs_of_def flat_pairs_def)

definition batch_rows :: "nat \<Rightarrow> nat \<Rightarrow> nat \<Rightarrow> 'k list \<Rightarrow> 'v list \<Rightarrow> ('k \<times> 'v list) list" where
  "batch_rows velems b e keys vals =
     (let ks = drop b (take e keys) in zip ks (row_view velems (length ks) (drop (b * velems) vals)))"

lemma heads_pairs_spec:
  assumes "slices_ok K n names" "length (thread_buckets tc) \<le> n"
  shows "\<exists>tc'. map_option (\<lambda>tc. pair_loop K V (of_nat n) velems ks pv
        (push_heads command names extra n tc)) (handle_reserve n tc) = Some tc' \<and> tidy n tc' \<and>
    (\<forall>i < n. commands tc' ! i = command # names ! i # extra @
       flat_pairs (pairs_of K V n (zip ks (row_view velems (length ks) pv)) i))"
proof -
  let ?fresh = "tc\<lparr>thread_buckets := replicate n new_bucket_context\<rparr>"
  let ?heads = "map (\<lambda>i. (i, command # names ! i # extra)) [0..<n]"
  let ?items = "pair_items K V n (zip ks (row_view velems (length ks) pv))"
  have "\<forall>it \<in> set ?items. fst it < n"
    using assms(1) by (auto simp: slices_ok_def pair_items_def)
  moreover have "tidy n (push_items ?heads ?fresh) \<and>
      (\<forall>i < n. commands (push_items ?heads ?fresh) ! i = command # names ! i # extra)"
    using push_items_spec [OF tidy_fresh, of ?heads n tc]
    by (auto simp: commands_fresh item_args_heads)
  ultimately show ?thesis
    using push_items_spec [of n "push_items ?heads ?fresh" ?items]
    by (simp add: handle_reserve_spec [OF assms(2)] push_heads_items pair_loop_items item_args_pairs)
qed

lemma mset_fill_spec:
  assumes "slices_ok K n names" "length (thread_buckets tc) \<le> n"
  shows "\<exists>tc'. mset_fill K V n names keys vals b e velems tc = Some tc' \<and> tidy n tc' \<and>
    (\<forall>i < n. commands tc' ! i = ascii ''HMSET'' # names ! i #
       flat_pairs (pairs_of K V n (batch_rows velems b e keys vals) i))"
  using heads_pairs_spec [OF assms, of V velems "drop b (take e keys)" "drop (b * velems) vals"
      "ascii ''HMSET''" "[]"]
  by (auto simp: mset_fill_def batch_rows_def Let_def split: option.splits)

section \<open>Looking up a batch\<close>

text \<open>
  What the code relies on of \<open>HMGET\<close>: for the fields asked, in their order, the value or nil,
  unless the call fails.  \<open>view\<close> is the content of the hashes, \<open>down\<close> the slices that cannot be
  reached.
\<close>

definition field_reply :: "(octets \<Rightarrow> octets option) \<Rightarrow> octets \<Rightarrow> reply" where
  "field_reply m f = (case m f of Some v \<Rightarrow> Reply_string v | None \<Rightarrow> Reply_nil)"

definition answers_hmget ::
  "'w redis_client \<Rightarrow> ('w \<Rightarrow> octets \<Rightarrow> octets \<Rightarrow> octets option) \<Rightarrow> ('w \<Rightarrow> octets \<Rightarrow> bool) \<Rightarrow> bool" where
  "answers_hmget client view down \<longleftrightarrow> (\<forall>w name fs. fs \<noteq> [] \<longrightarrow>
     (if down w name then \<exists>e. read_command client (ascii ''HMGET'' # name # fs) w = Inl e
      else read_command client (ascii ''HMGET'' # name # fs) w =
             Inr (Reply_array (map (field_reply (view w name)) fs))))"

definition find_key ::
  "'k key_ops \<Rightarrow> nat \<Rightarrow> octets list \<Rightarrow> ('w \<Rightarrow> octets \<Rightarrow> octets \<Rightarrow> octets option)
     \<Rightarrow> ('w \<Rightarrow> octets \<Rightarrow> bool) \<Rightarrow> 'w \<Rightarrow> 'k \<Rightarrow> octets option" where
  "find_key K n names view down w k =
     (let name = names ! bucket_of K n k in if down w name then None else view w name (k_content K k))"

definition looked_up_row ::
  "'v value_ops \<Rightarrow> 'v list \<Rightarrow> bool \<Rightarrow> nat \<Rightarrow> octets option \<Rightarrow> nat \<Rightarrow> 'v list" where
  "looked_up_row V dft is_full velems look j =
     (case look of Some str \<Rightarrow> v_restore V velems str | None \<Rightarrow> default_source is_full dft velems j)"

lemma filter_nth_position:
  assumes "m < length ks" "P (ks ! m)"
  shows "filter P ks ! length (filter P (take m ks)) = ks ! m"
proof -
  have "filter P ks = filter P (take m ks) @ filter P (ks ! m # drop (Suc m) ks)"
    by (metis assms(1) filter_append id_take_nth_drop)
  then show ?thesis using assms(2) by (simp add: nth_append)
qed

lemma length_filter_before:
  assumes "m < length ks" "P (ks ! m)"
  shows "length (filter P (take m ks)) < length (filter P ks)"
proof -
  have "filter P ks = filter P (take m ks) @ filter P (ks ! m # drop (Suc m) ks)"
    by (metis assms(1) filter_append id_take_nth_drop)
  then show ?thesis using assms(2) by simp
qed

text \<open>The reply for a bucket, given the fields asked of it.\<close>

definition bucket_reply ::
  "('w \<Rightarrow> octets \<Rightarrow> octets \<Rightarrow> octets option) \<Rightarrow> ('w \<Rightarrow> octets \<Rightarrow> bool) \<Rightarrow> 'w \<Rightarrow> octets \<Rightarrow> octets list
     \<Rightarrow> reply option" where
  "bucket_reply view down w name fs =
     (if fs = [] \<or> down w name then None else Some (Reply_array (map (field_reply (view w name)) fs)))"

lemma mget_command_spec:
  assumes "slices_ok K n names" "length (thread_buckets tc) \<le> n" "answers_hmget client view down"
  shows "\<exists>tc'. mget_command client K n names keys b e tc w =
      Some (tc', map (\<lambda>i. bucket_reply view down w (names ! i)
        (map (k_content K) (filter (\<lambda>k. bucket_of K n k = i) (drop b (take e keys))))) [0..<n]) \<and>
    length (thread_buckets tc') = n \<and>
    take (length (drop b (take e keys))) (bucket_locs tc') =
      map (\<lambda>k. k_bucket K k (of_nat n)) (drop b (take e keys))"
proof -
  let ?ks = "drop b (take e keys)"
  obtain tc' where fill: "mget_fill K n names keys b e tc = Some tc'" and tidy: "tidy n tc'"
    and cmds: "\<forall>i < n. commands tc' ! i = ascii ''HMGET'' # names ! i #
      map (k_content K) (filter (\<lambda>k. bucket_of K n k = i) ?ks)"
    and locs: "take (length ?ks) (bucket_locs tc') = map (\<lambda>k. k_bucket K k (of_nat n)) ?ks"
    using mget_fill_spec [OF assms(1,2), of keys b e] by blast
  have "pipe_exec_read client 3 (thread_buckets tc' ! i) w = bucket_reply view down w (names ! i)
      (map (k_content K) (filter (\<lambda>k. bucket_of K n k = i) ?ks))" if i: "i < n" for i
  proof -
    let ?fs = "map (k_content K) (filter (\<lambda>k. bucket_of K n k = i) ?ks)"
    have args: "bucket_args (thread_buckets tc' ! i) = ascii ''HMGET'' # names ! i # ?fs"
      using cmds i tidy by (simp add: commands_def tidy_def)
    moreover have "length (ptrs (thread_buckets tc' ! i)) = length (bucket_args (thread_buckets tc' ! i))"
      using tidy i by (simp add: bucket_args_def tidy_def)
    ultimately have ptrs: "length (ptrs (thread_buckets tc' ! i)) = Suc (Suc (length ?fs))" by simp
    show ?thesis
    proof (cases "?fs = []")
      case True
      then show ?thesis using ptrs by (simp add: pipe_exec_read_def bucket_reply_def)
    next
      case False
      then have "3 \<le> length (ptrs (thread_buckets tc' ! i))" using ptrs by (cases ?fs) simp_all
      moreover have "if down w (names ! i)
          then \<exists>e. read_command client (bucket_args (thread_buckets tc' ! i)) w = Inl e
          else read_command client (bucket_args (thread_buckets tc' ! i)) w =
            Inr (Reply_array (map (field_reply (view w (names ! i))) ?fs))"
        using assms(3) False unfolding answers_hmget_def args by blast
      ultimately show ?thesis
        using False by (auto simp: pipe_exec_read_def bucket_reply_def split: if_splits)
    qed
  qed
  then show ?thesis using fill tidy locs by (auto simp: mget_command_def tidy_def)
qed

lemma mget_row_step:
  assumes m: "m < length ks" and b: "b = bucket_of K n (ks ! m)" "b < n"
    and replies: "replies = map (\<lambda>i. bucket_reply view down w (names ! i)
      (map (k_content K) (filter (\<lambda>k. bucket_of K n k = i) ks))) [0..<n]"
    and iters: "length iters = n" "iters ! b = length (filter (\<lambda>k. bucket_of K n k = b) (take m ks))"
  shows "mget_row V dft is_full velems replies b j (iters, vals) =
    (iters[b := Suc (iters ! b)],
     write_at (j * velems) (looked_up_row V dft is_full velems (find_key K n names view down w (ks ! m)) j) vals)"
proof -
  let ?P = "\<lambda>k. bucket_of K n k = b"
  let ?fs = "map (k_content K) (filter ?P ks)"
  have at: "filter ?P ks ! (iters ! b) = ks ! m" "iters ! b < length (filter ?P ks)"
    using filter_nth_position [of m ks ?P] length_filter_before [of m ks ?P] m b(1) iters(2) by simp_all
  then have "?fs \<noteq> []" by auto
  moreover have "map (field_reply (view w (names ! b))) ?fs ! (iters ! b) =
      field_reply (view w (names ! b)) (k_content K (ks ! m))"
    using at by simp
  ultimately show ?thesis
    using b replies unfolding find_key_def looked_up_row_def
    by (auto simp: bucket_reply_def field_reply_def copy_default_to_tensor_def Let_def split: option.splits)
qed

lemma mget_rows_fold:
  assumes slices: "slices_ok K n names"
    and replies: "replies = map (\<lambda>i. bucket_reply view down w (names ! i)
      (map (k_content K) (filter (\<lambda>k. bucket_of K n k = i) ks))) [0..<n]"
    and locs: "take (length ks) locs = map (\<lambda>k. k_bucket K k (of_nat n)) ks"
    and m: "m \<le> length ks"
  shows "\<exists>iters. fold (\<lambda>i. mget_row V dft is_full velems replies (unat (locs ! i)) (b + i)) [0..<m]
      (replicate n 0, vals) = (iters, fold (\<lambda>i. write_at ((b + i) * velems)
        (looked_up_row V dft is_full velems (find_key K n names view down w (ks ! i)) (b + i))) [0..<m] vals) \<and>
    length iters = n \<and> (\<forall>i < n. iters ! i = length (filter (\<lambda>k. bucket_of K n k = i) (take m ks)))"
  using m
proof (induction m)
  case (Suc m)
  have m: "m < length ks" using Suc.prems by simp
  let ?b = "bucket_of K n (ks ! m)"
  have b: "?b < n" using slices by (simp add: slices_ok_def)
  have "locs ! m = k_bucket K (ks ! m) (of_nat n)"
    using m arg_cong [OF locs, of "\<lambda>xs. xs ! m"] by simp
  then have loc: "unat (locs ! m) = ?b" by (simp add: bucket_of_def)
  obtain iters vals' where IH: "fold (\<lambda>i. mget_row V dft is_full velems replies (unat (locs ! i)) (b + i))
      [0..<m] (replicate n 0, vals) = (iters, vals')"
    "vals' = fold (\<lambda>i. write_at ((b + i) * velems)
        (looked_up_row V dft is_full velems (find_key K n names view down w (ks ! i)) (b + i))) [0..<m] vals"
    "length iters = n" "\<forall>i < n. iters ! i = length (filter (\<lambda>k. bucket_of K n k = i) (take m ks))"
    using Suc by auto
  note step = mget_row_step [OF m refl b replies IH(3), of V dft is_full velems "b + m" vals']
  have "\<forall>i < n. iters[?b := Suc (iters ! ?b)] ! i =
      length (filter (\<lambda>k. bucket_of K n k = i) (take (Suc m) ks))"
    using IH(3,4) b m by (auto simp: nth_list_update take_Suc_conv_app_nth)
  then show ?case using IH step b loc by simp
qed simp

lemma find_range_spec:
  assumes slices: "slices_ok K n names" and tc: "length (thread_buckets tc) \<le> n"
    and hmget: "answers_hmget client view down" and be: "b \<le> e" "e \<le> length keys"
  shows "\<exists>tc' replies. mget_command client K n names keys b e tc w = Some (tc', replies) \<and>
    length (thread_buckets tc') = n \<and>
    mget_to_tensor V vals dft is_full n tc' replies b e velems =
      fold (\<lambda>j. write_at (j * velems)
        (looked_up_row V dft is_full velems (find_key K n names view down w (keys ! j)) j)) [b..<e] vals"
proof -
  let ?ks = "drop b (take e keys)"
  have len: "length ?ks = e - b" using be by simp
  obtain tc' where cmd: "mget_command client K n names keys b e tc w =
      Some (tc', map (\<lambda>i. bucket_reply view down w (names ! i)
        (map (k_content K) (filter (\<lambda>k. bucket_of K n k = i) ?ks))) [0..<n])"
    and tc': "length (thread_buckets tc') = n"
    and locs: "take (length ?ks) (bucket_locs tc') = map (\<lambda>k. k_bucket K k (of_nat n)) ?ks"
    using mget_command_spec [OF slices tc hmget, of keys b e w] by blast
  have shift: "[b..<e] = map (\<lambda>i. b + i) [0..<e - b]"
    using be(1) map_add_upt [of b "e - b"] by (simp add: add.commute)
  have "fold (\<lambda>i. write_at ((b + i) * velems)
        (looked_up_row V dft is_full velems (find_key K n names view down w (?ks ! i)) (b + i))) [0..<e - b] vals =
      fold (\<lambda>j. write_at (j * velems)
        (looked_up_row V dft is_full velems (find_key K n names view down w (keys ! j)) j)) [b..<e] vals"
    unfolding shift fold_map comp_def using be by (intro fold_cong) auto
  then show ?thesis
    using cmd tc' mget_rows_fold [OF slices refl locs order_refl, where V = V and dft = dft and is_full = is_full
      and velems = velems and b = b and vals = vals and view = view and down = down and w = w]
    by (auto simp: mget_to_tensor_def len min_absorb2 [OF be(2)])
qed


section \<open>Accumulating a batch\<close>

lemma exists_split_spec:
  assumes "\<forall>k. bucket_of K n k < n" "length split = n" "length ks = length es"
  shows "length (exists_split K (of_nat n) ks es split) = n \<and>
    (\<forall>i < n. exists_split K (of_nat n) ks es split ! i =
      split ! i @ map snd (filter (\<lambda>p. bucket_of K n (fst p) = i) (zip ks es)))"
  using assms(3,2)
proof (induction ks es arbitrary: split rule: list_induct2)
  case (Cons k ks e es)
  have b: "unat (k_bucket K k (of_nat n)) = bucket_of K n k" "bucket_of K n k < n"
    using assms(1) by (simp_all add: bucket_of_def)
  show ?case
    using Cons.IH [of "split[bucket_of K n k := split ! bucket_of K n k @ [e]]"] Cons.prems b
    by (auto simp: Let_def nth_list_update)
qed simp

definition exists_items :: "bool list list \<Rightarrow> nat list \<Rightarrow> (nat \<times> octets list) list" where
  "exists_items split is = map (\<lambda>i. (i, [map of_bool (split ! i)])) (filter (\<lambda>i. split ! i \<noteq> []) is)"

lemma push_exists_items: "fold (push_exists split) is tc = push_items (exists_items split is) tc"
  by (induction "is" arbitrary: tc) (simp_all add: push_exists_def push_items_def exists_items_def)

lemma item_args_exists:
  assumes "i < n"
  shows "item_args (exists_items split [0..<n]) i = (if split ! i = [] then [] else [map of_bool (split ! i)])"
proof -
  have "filter (\<lambda>j. split ! j \<noteq> [] \<and> j = i) [0..<n] = filter (\<lambda>j. split ! j \<noteq> []) (filter (\<lambda>j. j = i) [0..<n])"
    by (simp add: conj_commute)
  then show ?thesis
    unfolding filter_upt_eq [OF assms]
    by (simp add: item_args_def exists_items_def filter_map comp_def conj_commute)
qed

text \<open>
  The command for a bucket: its keys with their rows, and then one flag for each of those keys,
  in the same order.
\<close>

lemma maccum_fill_spec:
  assumes "slices_ok K n names" "length (thread_buckets tc) \<le> n" "b \<le> e" "e \<le> length keys" "length keys = length exist"
  shows "\<exists>tc'. maccum_fill K V n names dtype keys vals exist b e velems tc = Some tc' \<and> tidy n tc' \<and>
    (\<forall>i < n. commands tc' ! i = ascii ''HMACCUM'' # names ! i # dtype #
       flat_pairs (pairs_of K V n (batch_rows velems b e keys vals) i) @
       (let flags = map snd (filter (\<lambda>p. bucket_of K n (fst p) = i) (drop b (take e (zip keys exist))))
        in if flags = [] then [] else [map of_bool flags]))"
proof -
  let ?ks = "drop b (take e keys)"
  have range: "\<forall>k. bucket_of K n k < n" using assms(1) by (simp add: slices_ok_def)
  obtain tc1 where tc1: "map_option (\<lambda>tc. pair_loop K V (of_nat n) velems ?ks (drop (b * velems) vals)
        (push_heads (ascii ''HMACCUM'') names [dtype] n tc)) (handle_reserve n tc) = Some tc1"
    "tidy n tc1" "\<forall>i < n. commands tc1 ! i = ascii ''HMACCUM'' # names ! i # [dtype] @
       flat_pairs (pairs_of K V n (zip ?ks (row_view velems (length ?ks) (drop (b * velems) vals))) i)"
    using heads_pairs_spec [OF assms(1,2), of V velems ?ks "drop (b * velems) vals" "ascii ''HMACCUM''" "[dtype]"]
    by blast
  let ?es = "take (e - b) (drop b exist)"
  let ?split = "exists_split K (of_nat n) ?ks (drop b exist) (replicate n [])"
  have short: "exists_split K m ks es split = exists_split K m ks (take (length ks) es) split" for m ks es split
    by (induction K m ks es split rule: exists_split.induct) (simp_all add: Let_def)
  have "?split = exists_split K (of_nat n) ?ks ?es (replicate n [])"
    by (subst short) (use assms(4) in simp)
  moreover have "length ?ks = length ?es" using assms(3-5) by simp
  moreover have "zip ?ks ?es = drop b (take e (zip keys exist))"
    using assms(3-5) by (simp add: drop_zip take_zip drop_take)
  ultimately have split: "?split ! i = map snd (filter (\<lambda>p. bucket_of K n (fst p) = i) (drop b (take e (zip keys exist))))"
    if "i < n" for i
    using exists_split_spec [OF range, of "replicate n []" ?ks ?es] that by simp
  have fill: "maccum_fill K V n names dtype keys vals exist b e velems tc =
      Some (push_items (exists_items ?split [0..<n]) tc1)"
    using tc1(1) by (auto simp: maccum_fill_def Let_def push_exists_items split: option.splits)
  have "\<forall>it \<in> set (exists_items ?split [0..<n]). fst it < n" by (auto simp: exists_items_def)
  note pushed = push_items_spec [OF tc1(2) this]
  show ?thesis
    using pushed tc1(3) split unfolding fill by (auto simp: item_args_exists batch_rows_def Let_def)
qed

end
