(* ===== verification/Redis_Table_Spec.thy ===== *)
theory Redis_Table_Spec
  imports Redis_Table Redis_Cluster_Spec
begin

text \<open>
  The operations of the Redis table, against the map from keys to encoded rows that the hashes
  of its slices represent.
\<close>

section \<open>Contexts and schedules\<close>

definition contexts_ok :: "nat \<Rightarrow> thread_context list \<Rightarrow> bool" where
  "contexts_ok n tcs \<longleftrightarrow> (\<forall>tc \<in> set tcs. length (thread_buckets tc) \<le> n)"

lemma first_available_le: "first_available tcs \<le> length tcs"
  by (induction tcs) auto

lemma first_available_free: "first_available tcs < length tcs \<Longrightarrow> \<not> thread_occupied (tcs ! first_available tcs)"
  by (induction tcs) (auto split: if_splits)

lemma select_spec:
  assumes "select_available_thread_context tcs = (i, tcs')" "contexts_ok n tcs" "0 < n"
  shows "i < length tcs'" "contexts_ok n tcs'" "thread_occupied (tcs' ! i)" "length (thread_buckets (tcs' ! i)) \<le> n"
    "length tcs \<le> length tcs'"
    "\<And>j. j < length tcs \<Longrightarrow> thread_occupied (tcs ! j) \<Longrightarrow> j \<noteq> i \<and> tcs' ! j = tcs ! j"
proof -
  have i: "i = first_available tcs" using assms(1) by (simp add: select_available_thread_context_def Let_def)
  have tcs': "tcs' = (if i = length tcs then tcs @ [new_thread_context\<lparr>thread_occupied := True\<rparr>]
      else tcs[i := (tcs ! i)\<lparr>thread_occupied := True\<rparr>])"
    using assms(1) by (auto simp: select_available_thread_context_def Let_def)
  have cases: "i = length tcs \<or> i < length tcs \<and> \<not> thread_occupied (tcs ! i)"
    using first_available_le [of tcs] first_available_free [of tcs] i by auto
  show "i < length tcs'" "length tcs \<le> length tcs'" "thread_occupied (tcs' ! i)"
    using cases tcs' by auto
  show ok: "contexts_ok n tcs'"
    using cases tcs' assms(2,3)
    by (auto simp: contexts_ok_def new_thread_context_def dest!: set_update_subset_insert [THEN subsetD])
  show "length (thread_buckets (tcs' ! i)) \<le> n"
    using ok \<open>i < length tcs'\<close> by (simp add: contexts_ok_def)
  show "j \<noteq> i \<and> tcs' ! j = tcs ! j" if "j < length tcs" "thread_occupied (tcs ! j)" for j
    using that cases tcs' by (cases "j = i") (auto simp: nth_append)
qed

lemma contexts_ok_update:
  "contexts_ok n tcs \<Longrightarrow> length (thread_buckets tc) \<le> n \<Longrightarrow> contexts_ok n (tcs[i := tc])"
  by (auto simp: contexts_ok_def dest!: set_update_subset_insert [THEN subsetD])

lemma contexts_ok_release:
  "contexts_ok n tcs \<Longrightarrow> contexts_ok n (release_thread_context i tcs)"
proof (cases "i < length tcs")
  case True
  assume "contexts_ok n tcs"
  then show ?thesis using True
    by (auto simp: release_thread_context_def contexts_ok_def
      dest!: set_update_subset_insert [THEN subsetD])
qed (simp add: release_thread_context_def list_update_beyond)

text \<open>
  \<open>Shard\<close> is relied on to hand out every row exactly once, and the pool to send every bucket
  of every range exactly once; the orders are free.
\<close>

definition row_range :: "nat \<times> nat \<Rightarrow> nat list" where
  "row_range rng = [fst rng..<snd rng]"

definition fair_scheduler :: "scheduler \<Rightarrow> bool" where
  "fair_scheduler sch \<longleftrightarrow>
     (\<forall>workers rows cost. mset (concat (map row_range
        (map (\<lambda>(b, e). (b, min rows e)) (ranges sch workers (int rows) cost)))) = mset [0..<rows]) \<and>
     (\<forall>workers rows cost rng. rng \<in> set (ranges sch workers (int rows) cost) \<longrightarrow>
        fst rng \<le> snd rng \<and> fst rng \<le> rows) \<and>
     (\<forall>r n. mset (order sch r n) = mset (List.product [0..<r] [0..<n]))"

lemma fair_shards:
  assumes "fair_scheduler sch"
  shows "mset (concat (map row_range (shards sch t rows))) = mset [0..<rows]"
    "rng \<in> set (shards sch t rows) \<Longrightarrow> fst rng \<le> snd rng \<and> snd rng \<le> rows"
proof -
  show "mset (concat (map row_range (shards sch t rows))) = mset [0..<rows]"
    using assms by (auto simp: fair_scheduler_def shards_def row_range_def)
  show "rng \<in> set (shards sch t rows) \<Longrightarrow> fst rng \<le> snd rng \<and> snd rng \<le> rows"
    using assms unfolding fair_scheduler_def shards_def
    by (auto split: if_splits)
qed

lemma fair_order:
  assumes "fair_scheduler sch"
  shows "mset (order sch r n) = mset (List.product [0..<r] [0..<n])"
  using assms unfolding fair_scheduler_def by blast

section \<open>Finding\<close>

definition table_view ::
  "'k key_ops \<Rightarrow> redis_table \<Rightarrow> ('w \<Rightarrow> octets \<Rightarrow> octets \<Rightarrow> octets option) \<Rightarrow> 'w \<Rightarrow> 'k \<Rightarrow> octets option" where
  "table_view K t view w k = view w (slice_names t ! bucket_of K (storage_slice t) k) (k_content K k)"

definition redis_ok :: "'k key_ops \<Rightarrow> redis_table \<Rightarrow> bool" where
  "redis_ok K t \<longleftrightarrow> slices_ok K (storage_slice t) (slice_names t)"

definition value_ok :: "'v value_ops \<Rightarrow> bool" where
  "value_ok V \<longleftrightarrow> (\<forall>velems str. length (v_restore V velems str) = velems)"

lemma length_write_at: "pos + length xs \<le> length mem \<Longrightarrow> length (write_at pos xs mem) = length mem"
  by (simp add: write_at_def)

text \<open>Rows written one by one, in any order, make up the whole.\<close>

lemma row_of_write_at:
  assumes "length mem = rows * d" "j < rows" "i < rows" "length r = d"
  shows "take d (drop (i * d) (write_at (j * d) r mem)) =
    (if i = j then r else take d (drop (i * d) mem))"
proof -
  have fits: "Suc j * d \<le> rows * d" "Suc i * d \<le> rows * d"
    using assms(2,3) by (intro mult_le_mono1; simp)+
  consider "i = j" | "i < j" | "j < i" by linarith
  then show ?thesis
  proof cases
    case 1
    then show ?thesis using assms fits by (simp add: write_at_def)
  next
    case 2
    then have "Suc i * d \<le> j * d" by (intro mult_le_mono1) simp
    then have room: "d \<le> j * d - i * d" "i * d \<le> j * d" using 2 by simp_all
    have split: "drop (i * d) (write_at (j * d) r mem) =
        take (j * d - i * d) (drop (i * d) mem) @ r @ drop (j * d + d) mem"
      using room(2) assms fits(1) by (simp add: write_at_def drop_take)
    have keep: "take d (take (j * d - i * d) (drop (i * d) mem) @ zs) = take d (drop (i * d) mem)" for zs
      using room assms(1) fits by simp
    show ?thesis using 2 unfolding split keep by simp
  next
    case 3
    then have after: "Suc j * d \<le> i * d" by (intro mult_le_mono1) simp
    have "write_at (j * d) r mem = (take (j * d) mem @ r) @ drop (Suc j * d) mem"
      using assms(4) by (simp add: write_at_def add.commute)
    moreover have "length (take (j * d) mem @ r) = Suc j * d"
      using assms fits(1) by simp
    ultimately have "drop (i * d) (write_at (j * d) r mem) = drop (i * d) mem"
      using after by simp
    then show ?thesis using 3 by simp
  qed
qed

lemma fold_write_rows:
  assumes "length mem = rows * d" "\<And>j. j < rows \<Longrightarrow> length (f j) = d" "set js \<subseteq> {..<rows}"
  shows "length (fold (\<lambda>j. write_at (j * d) (f j)) js mem) = rows * d \<and>
    (\<forall>i < rows. take d (drop (i * d) (fold (\<lambda>j. write_at (j * d) (f j)) js mem)) =
      (if i \<in> set js then f i else take d (drop (i * d) mem)))"
  using assms(1,3)
proof (induction js arbitrary: mem)
  case (Cons j js)
  then have j: "j < rows" by simp
  then have "Suc j * d \<le> rows * d" by (intro mult_le_mono1) simp
  then have len: "length (write_at (j * d) (f j) mem) = rows * d"
    using Cons.prems(1) assms(2) [OF j] by (simp add: length_write_at)
  then show ?case
    using Cons.IH [OF len] Cons.prems row_of_write_at [OF Cons.prems(1) j _ assms(2) [OF j]] by auto
qed simp

lemma fold_write_all:
  assumes "length mem = rows * d" "\<And>j. j < rows \<Longrightarrow> length (f j) = d" "mset js = mset [0..<rows]"
  shows "fold (\<lambda>j. write_at (j * d) (f j)) js mem = concat (map f [0..<rows])"
proof -
  let ?out = "fold (\<lambda>j. write_at (j * d) (f j)) js mem"
  have js: "set js = {..<rows}"
    using assms(3) by (metis atLeast_upt set_mset_mset)
  have len: "length ?out = rows * d"
    and at: "\<And>i. i < rows \<Longrightarrow> take d (drop (i * d) ?out) = f i"
    using fold_write_rows [OF assms(1,2), where js = js] js by auto
  have "?out = concat (row_view d rows ?out)" using concat_row_view [OF len] by simp
  also have "row_view d rows ?out = map f [0..<rows]" using at by (simp add: row_view_def)
  finally show ?thesis .
qed

definition expected_row ::
  "'k key_ops \<Rightarrow> 'v value_ops \<Rightarrow> redis_table \<Rightarrow> ('w \<Rightarrow> octets \<Rightarrow> octets \<Rightarrow> octets option)
     \<Rightarrow> ('w \<Rightarrow> octets \<Rightarrow> bool) \<Rightarrow> 'w \<Rightarrow> 'k list \<Rightarrow> 'v list \<Rightarrow> bool \<Rightarrow> nat \<Rightarrow> nat \<Rightarrow> 'v list" where
  "expected_row K V t view down w keys dft is_full velems j =
     (if down w (slice_names t ! bucket_of K (storage_slice t) (keys ! j))
      then default_source is_full dft velems j
      else looked_up_row V dft is_full velems (table_view K t view w (keys ! j)) j)"

lemma looked_up_row_expected:
  "looked_up_row V dft is_full velems
      (find_key K (storage_slice t) (slice_names t) view down w (keys ! j)) j =
    expected_row K V t view down w keys dft is_full velems j"
  by (simp add: expected_row_def find_key_def table_view_def looked_up_row_def Let_def)

lemma launch_find_core_spec:
  assumes ok: "redis_ok K t" "contexts_ok (storage_slice t) tcs" and hmget: "answers_hmget client view down"
    and be: "fst rng \<le> snd rng" "snd rng \<le> length keys"
  shows "\<exists>tcs'. launch_find_core client K V t keys dft is_full velems w rng (tcs, vals) =
      Some (tcs', fold (\<lambda>j. write_at (j * velems) (expected_row K V t view down w keys dft is_full velems j))
        (row_range rng) vals) \<and> contexts_ok (storage_slice t) tcs'"
proof -
  obtain b e where rng: "rng = (b, e)" by (cases rng)
  obtain i tcs1 where sel: "select_available_thread_context tcs = (i, tcs1)" by fastforce
  have pos: "0 < storage_slice t" using ok(1) by (simp add: redis_ok_def slices_ok_def)
  note s = select_spec [OF sel ok(2) pos]
  obtain tc' replies where cmd: "mget_command client K (storage_slice t) (slice_names t) keys b e (tcs1 ! i) w =
      Some (tc', replies)" and tc': "length (thread_buckets tc') = storage_slice t"
    and out: "mget_to_tensor V vals dft is_full (storage_slice t) tc' replies b e velems =
      fold (\<lambda>j. write_at (j * velems) (looked_up_row V dft is_full velems
        (find_key K (storage_slice t) (slice_names t) view down w (keys ! j)) j)) [b..<e] vals"
    using find_range_spec [OF ok(1) [unfolded redis_ok_def] s(4) hmget, of b e keys] be rng by force
  have "contexts_ok (storage_slice t) (release_thread_context i (tcs1[i := tc']))"
    using s(2) tc' by (intro contexts_ok_release contexts_ok_update) simp_all
  then show ?thesis
    using sel cmd out rng by (simp add: launch_find_core_def row_range_def looked_up_row_expected)
qed

lemma try_find:
  assumes ok: "redis_ok K t" "contexts_ok (storage_slice t) tcs" and hmget: "answers_hmget client view down"
    and "\<And>rng. rng \<in> set rngs \<Longrightarrow> fst rng \<le> snd rng \<and> snd rng \<le> length keys"
  shows "\<exists>tcs'. try_fold (launch_find_core client K V t keys dft is_full velems w) rngs (tcs, vals) =
      Some (tcs', fold (\<lambda>j. write_at (j * velems) (expected_row K V t view down w keys dft is_full velems j))
        (concat (map row_range rngs)) vals) \<and> contexts_ok (storage_slice t) tcs'"
  using assms(2,4)
proof (induction rngs arbitrary: tcs vals)
  case (Cons rng rngs)
  then obtain tcs1 where one: "launch_find_core client K V t keys dft is_full velems w rng (tcs, vals) =
      Some (tcs1, fold (\<lambda>j. write_at (j * velems) (expected_row K V t view down w keys dft is_full velems j))
        (row_range rng) vals)" "contexts_ok (storage_slice t) tcs1"
    using launch_find_core_spec [OF ok(1) Cons.prems(1) hmget, where rng = rng and keys = keys and w = w
        and V = V and dft = dft and is_full = is_full and velems = velems and vals = vals] by auto
  show ?case using Cons.IH [OF one(2)] Cons.prems(2) one(1) by simp
qed simp

lemma default_source_length:
  assumes "if is_full then length dft = rows * d else d \<le> length dft" "j < rows"
  shows "length (default_source is_full dft d j) = d"
proof -
  have "Suc j * d \<le> rows * d" using assms(2) by (intro mult_le_mono1) simp
  then show ?thesis using assms(1) by (auto simp: default_source_def split: if_splits)
qed

lemma expected_row_length:
  assumes "j < length keys" "value_ok V" "length vals = length keys * d"
    "length dft = length vals \<or> d \<le> length dft"
  shows "length (expected_row K V t view down w keys dft (length vals = length dft) d j) = d"
  using assms default_source_length [of "length vals = length dft" dft "length keys" d j]
  by (auto simp: expected_row_def looked_up_row_def value_ok_def split: option.splits)

lemma length_concat_rows:
  "(\<And>i. i < n \<Longrightarrow> length (f i) = d) \<Longrightarrow> length (concat (map f [0..<n])) = n * d"
  by (induction n) auto

lemma row_of_concat:
  assumes "\<And>i. i < n \<Longrightarrow> length (f i) = d" "j < n"
  shows "take d (drop (j * d) (concat (map f [0..<n]))) = f j"
proof -
  have upt: "[0..<n] = [0..<j] @ j # [Suc j..<n]"
    using assms(2) upt_add_eq_append [of 0 j "n - j"] by (simp add: upt_conv_Cons)
  have "length (concat (map f [0..<j])) = j * d"
    using assms by (intro length_concat_rows) simp
  then show ?thesis using assms unfolding upt by simp
qed

lemma redis_find_spec:
  assumes ok: "redis_ok K t" "contexts_ok (storage_slice t) tcs" "fair_scheduler sch" "value_ok V"
    and hmget: "answers_hmget client view down"
    and len: "length vals = length keys * d" "length dft = length vals \<or> d \<le> length dft"
  shows "\<exists>tcs'. redis_find client K V sch t keys vals dft w tcs =
      Some (tcs', concat (map (expected_row K V t view down w keys dft (length vals = length dft) d)
        [0..<length keys])) \<and> contexts_ok (storage_slice t) tcs'"
proof (cases "keys = []")
  case True
  then show ?thesis using len ok(2) by (simp add: redis_find_def)
next
  case False
  then have d: "length vals div length keys = d" using len(1) by simp
  let ?f = "expected_row K V t view down w keys dft (length vals = length dft) d"
  have "length (?f j) = d" if "j < length keys" for j
    using that ok(4) len by (rule expected_row_length)
  then have "fold (\<lambda>j. write_at (j * d) (?f j)) (concat (map row_range (shards sch t (length keys)))) vals =
      concat (map ?f [0..<length keys])"
    using fold_write_all [OF len(1)] fair_shards(1) [OF ok(3)] by blast
  then show ?thesis
    using try_find [OF ok(1,2) hmget fair_shards(2) [OF ok(3)], where V = V and dft = dft and w = w
        and is_full = "length vals = length dft" and velems = d and vals = vals
        and rngs = "shards sch t (length keys)" and keys = keys]
      False d by (simp add: redis_find_def)
qed

section \<open>Writing: the commands\<close>

text \<open>
  What the code relies on of the writing commands: \<open>HMSET\<close> sets its pairs one after another,
  \<open>HDEL\<close> removes its fields, and other hashes stay as they are.
\<close>

definition set_pairs :: "(octets \<Rightarrow> octets option) \<Rightarrow> (octets \<times> octets) list \<Rightarrow> octets \<Rightarrow> octets option" where
  "set_pairs m kvs = foldl (\<lambda>m (f, v). m(f \<mapsto> v)) m kvs"

definition obeys_hmset ::
  "'w redis_client \<Rightarrow> ('w \<Rightarrow> octets \<Rightarrow> octets \<Rightarrow> octets option) \<Rightarrow> bool" where
  "obeys_hmset client view \<longleftrightarrow> (\<forall>w name kvs. kvs \<noteq> [] \<longrightarrow>
     (\<exists>w' r. write_command client (ascii ''HMSET'' # name # flat_pairs kvs) w = (w', Inr r) \<and>
        view w' = (view w)(name := set_pairs (view w name) kvs)))"

definition obeys_hdel ::
  "'w redis_client \<Rightarrow> ('w \<Rightarrow> octets \<Rightarrow> octets \<Rightarrow> octets option) \<Rightarrow> bool" where
  "obeys_hdel client view \<longleftrightarrow> (\<forall>w name fs. fs \<noteq> [] \<longrightarrow>
     (\<exists>w' r. write_command client (ascii ''HDEL'' # name # fs) w = (w', Inr r) \<and>
        view w' = (view w)(name := view w name |` (- set fs))))"

definition last_value :: "'a list \<Rightarrow> 'a option" where
  "last_value xs = (if xs = [] then None else Some (last xs))"

lemma last_value_snoc [simp]: "last_value (xs @ [x]) = Some x"
  by (simp add: last_value_def)

lemma set_pairs_at:
  "set_pairs m kvs f = (case last_value (map snd (filter (\<lambda>p. fst p = f) kvs)) of
     Some v \<Rightarrow> Some v | None \<Rightarrow> m f)"
proof (induction kvs rule: rev_induct)
  case Nil
  then show ?case by (simp add: set_pairs_def last_value_def)
next
  case (snoc p kvs)
  then show ?case by (cases p) (simp add: set_pairs_def)
qed

lemma map_of_rev_last: "map_of (rev kvs) k = last_value (map snd (filter (\<lambda>p. fst p = k) kvs))"
  by (induction kvs rule: rev_induct) (auto simp: last_value_def)

text \<open>
  The effect of a bucket on the hashes, for the two commands: an empty bucket is not sent, and
  has none.
\<close>

definition bucket_ready :: "bucket_context \<Rightarrow> octets list \<Rightarrow> bool" where
  "bucket_ready b args \<longleftrightarrow> bucket_args b = args \<and> length (ptrs b) = length (sizes b)"

lemma ready_length: "bucket_ready b args \<Longrightarrow> length (ptrs b) = length args"
  unfolding bucket_ready_def bucket_args_def by (metis length_map length_zip min.idem)

lemma flat_pairs_simps [simp]: "flat_pairs [] = []" "flat_pairs ((f, v) # kvs) = f # v # flat_pairs kvs"
  by (simp_all add: flat_pairs_def)

lemma length_flat_pairs: "length (flat_pairs kvs) = 2 * length kvs"
  by (induction kvs) (auto simp: flat_pairs_def)

lemma send_hmset:
  assumes "obeys_hmset client view" "bucket_ready b (ascii ''HMSET'' # name # flat_pairs kvs)"
  shows "\<exists>w'. pipe_exec_write client 4 b (w, e) = (w', e) \<and>
    view w' = (view w)(name := set_pairs (view w name) kvs)"
proof (cases "kvs = []")
  case True
  then show ?thesis using ready_length [OF assms(2)]
    by (simp add: pipe_exec_write_def set_pairs_def)
next
  case False
  then have "4 \<le> length (ptrs b)"
    using ready_length [OF assms(2)] by (cases kvs) (auto simp: length_flat_pairs)
  moreover obtain w' r where "write_command client (ascii ''HMSET'' # name # flat_pairs kvs) w = (w', Inr r)"
      "view w' = (view w)(name := set_pairs (view w name) kvs)"
    using assms(1) False unfolding obeys_hmset_def by blast
  ultimately show ?thesis using assms(2) by (simp add: pipe_exec_write_def bucket_ready_def)
qed

lemma send_hdel:
  assumes "obeys_hdel client view" "bucket_ready b (ascii ''HDEL'' # name # fs)"
  shows "\<exists>w'. pipe_exec_write client 3 b (w, e) = (w', e) \<and>
    view w' = (view w)(name := view w name |` (- set fs))"
proof (cases "fs = []")
  case True
  then have "view w name |` (- set fs) = view w name" by (auto simp: restrict_map_def)
  then show ?thesis using ready_length [OF assms(2)] True by (simp add: pipe_exec_write_def)
next
  case False
  then have "3 \<le> length (ptrs b)"
    using ready_length [OF assms(2)] by (cases fs) auto
  moreover obtain w' r where "write_command client (ascii ''HDEL'' # name # fs) w = (w', Inr r)"
      "view w' = (view w)(name := view w name |` (- set fs))"
    using assms(1) False unfolding obeys_hdel_def by blast
  ultimately show ?thesis using assms(2) by (simp add: pipe_exec_write_def bucket_ready_def)
qed

text \<open>A sequence of commands, each with the effect \<open>g\<close> of its payload on one hash.\<close>

lemma send_all:
  assumes step: "\<And>b x w. (b, x) \<in> set (zip bs xs) \<Longrightarrow>
      \<exists>w'. pipe_exec_write client sz b (w, None) = (w', None) \<and>
        view w' = (view w)(fst x := g (snd x) (view w (fst x)))"
    and len: "length bs = length xs"
  shows "\<exists>w'. send_buckets client sz bs (w, None) = ((w', None), None) \<and>
    (\<forall>name. view w' name = fold g (map snd (filter (\<lambda>x. fst x = name) xs)) (view w name))"
proof -
  have "\<exists>w'. fold (pipe_exec_write client sz) bs (w, None) = (w', None) \<and>
      (\<forall>name. view w' name = fold g (map snd (filter (\<lambda>x. fst x = name) xs)) (view w name))"
    using len step
  proof (induction bs xs arbitrary: w rule: list_induct2)
    case (Cons b bs x xs)
    obtain w1 where one: "pipe_exec_write client sz b (w, None) = (w1, None)"
      "view w1 = (view w)(fst x := g (snd x) (view w (fst x)))"
      using Cons.prems [of b x w] by (metis list.set_intros(1) zip_Cons_Cons)
    obtain w2 where "fold (pipe_exec_write client sz) bs (w1, None) = (w2, None)"
      "\<forall>name. view w2 name = fold g (map snd (filter (\<lambda>x. fst x = name) xs)) (view w1 name)"
      using Cons.IH [of w1] Cons.prems by auto
    then show ?case using one by auto
  qed simp
  then show ?thesis by (auto simp: send_buckets_def)
qed

section \<open>Writing: the contexts\<close>

lemma occupied_simps [simp]:
  "thread_occupied (push_whole i p tc) = thread_occupied tc"
  "thread_occupied (put_loc j l tc) = thread_occupied tc"
  by (simp_all add: push_whole_def handle_push_back_def put_loc_def)

lemma occupied_push_list [simp]: "thread_occupied (fold (push_whole i) ps tc) = thread_occupied tc"
  by (induction ps arbitrary: tc) simp_all

lemma occupied_push_items [simp]: "thread_occupied (push_items items tc) = thread_occupied tc"
  unfolding push_items_def by (induction items arbitrary: tc) (simp_all add: split_beta)

lemma occupied_key_loop [simp]: "thread_occupied (key_loop K n j ks tc) = thread_occupied tc"
  by (induction ks arbitrary: j tc) (simp_all add: Let_def)

lemma occupied_pair_loop [simp]: "thread_occupied (pair_loop K V n velems ks pv tc) = thread_occupied tc"
  by (induction ks arbitrary: pv tc) (simp_all add: Let_def)

lemma occupied_reserve: "handle_reserve n tc = Some tc' \<Longrightarrow> thread_occupied tc' = thread_occupied tc"
  by (auto simp: handle_reserve_def split: option.splits)

lemma occupied_push_heads [simp]: "thread_occupied (push_heads command names extra n tc) = thread_occupied tc"
  unfolding push_heads_items by (rule occupied_push_items)

lemma occupied_mset_fill:
  assumes "mset_fill K V n names keys vals b e velems tc = Some tc'"
  shows "thread_occupied tc' = thread_occupied tc"
proof (cases "handle_reserve n tc")
  case (Some tc1)
  then have "tc' = pair_loop K V (of_nat n) velems (drop b (take e keys)) (drop (b * velems) vals)
      (push_heads (ascii ''HMSET'') names [] n tc1)"
    using assms by (simp add: mset_fill_def)
  then show ?thesis by (simp only: occupied_pair_loop occupied_push_heads occupied_reserve [OF Some])
qed (use assms in \<open>simp add: mset_fill_def\<close>)

lemma occupied_del_fill:
  assumes "del_fill K n names keys b e tc = Some tc'"
  shows "thread_occupied tc' = thread_occupied tc"
proof (cases "handle_reserve n tc")
  case (Some tc1)
  then have "tc' = key_loop K (of_nat n) 0 (drop b (take e keys))
      (push_heads (ascii ''HDEL'') names [] n tc1)"
    using assms by (simp add: del_fill_def)
  then show ?thesis by (simp only: occupied_key_loop occupied_push_heads occupied_reserve [OF Some])
qed (use assms in \<open>simp add: del_fill_def\<close>)

text \<open>
  Every range gets a context of its own, and what it is filled with stays there until the
  buckets have been sent.
\<close>

lemma fill_ranges_spec:
  assumes pos: "0 < n"
    and fill: "\<And>rng tc. rng \<in> set rngs \<Longrightarrow> length (thread_buckets tc) \<le> n \<Longrightarrow>
      \<exists>tc'. fill (fst rng) (snd rng) tc = Some tc' \<and> tidy n tc' \<and>
        thread_occupied tc' = thread_occupied tc \<and> (\<forall>i < n. commands tc' ! i = c rng i)"
    and start: "contexts_ok n tcs" "\<forall>r < length used. used ! r < length tcs \<and>
      thread_occupied (tcs ! (used ! r)) \<and> tidy n (tcs ! (used ! r)) \<and>
      (\<forall>i < n. commands (tcs ! (used ! r)) ! i = c (begun ! r) i)"
      "length begun = length used"
  shows "\<exists>tcs' used'. try_fold (fill_range fill) rngs (tcs, used) = Some (tcs', used') \<and>
    contexts_ok n tcs' \<and> length used' = length (begun @ rngs) \<and>
    (\<forall>r < length used'. tidy n (tcs' ! (used' ! r)) \<and>
      (\<forall>i < n. commands (tcs' ! (used' ! r)) ! i = c ((begun @ rngs) ! r) i))"
  using fill start
proof (induction rngs arbitrary: tcs used begun)
  case Nil
  then show ?case by simp
next
  case (Cons rng rngs)
  obtain i tcs1 where sel: "select_available_thread_context tcs = (i, tcs1)" by fastforce
  note s = select_spec [OF sel Cons.prems(2) pos]
  obtain tc' where tc': "fill (fst rng) (snd rng) (tcs1 ! i) = Some tc'" "tidy n tc'"
      "thread_occupied tc'" "\<forall>j < n. commands tc' ! j = c rng j"
    using Cons.prems(1) [of rng "tcs1 ! i"] s(3,4) by auto
  let ?tcs = "tcs1[i := tc']" and ?used = "used @ [i]" and ?begun = "begun @ [rng]"
  have ok: "contexts_ok n ?tcs"
    using s(2) tc'(2) by (intro contexts_ok_update) (simp_all add: tidy_def)
  have kept: "?used ! r < length ?tcs \<and> thread_occupied (?tcs ! (?used ! r)) \<and>
      tidy n (?tcs ! (?used ! r)) \<and> (\<forall>j < n. commands (?tcs ! (?used ! r)) ! j = c (?begun ! r) j)"
    if "r < length ?used" for r
  proof (cases "r = length used")
    case True
    then show ?thesis using s(1) tc' Cons.prems(4) by (simp add: nth_append)
  next
    case False
    then have r: "r < length used" using that by simp
    then have old: "used ! r \<noteq> i \<and> tcs1 ! (used ! r) = tcs ! (used ! r)"
      using Cons.prems(3) s(6) by blast
    then show ?thesis using r Cons.prems(3,4) s(5) by (auto simp: nth_append)
  qed
  have "fill_range fill rng (tcs, used) = Some (?tcs, ?used)"
    using sel tc'(1) by (simp add: fill_range_def split_beta)
  then show ?case
    using Cons.IH [OF Cons.prems(1) ok, of ?used ?begun] kept Cons.prems(4) by auto
qed

section \<open>Writing: the operations\<close>

lemma launch_writes_spec:
  assumes ok: "0 < storage_slice t" "contexts_ok (storage_slice t) tcs" "fair_scheduler sch"
    and fill: "\<And>rng tc. rng \<in> set rngs \<Longrightarrow> length (thread_buckets tc) \<le> storage_slice t \<Longrightarrow>
      \<exists>tc'. fill (fst rng) (snd rng) tc = Some tc' \<and> tidy (storage_slice t) tc' \<and>
        thread_occupied tc' = thread_occupied tc \<and>
        (\<forall>i < storage_slice t. commands tc' ! i = command # names i # payload (x rng i))"
    and send: "\<And>b name p w. bucket_ready b (command # name # payload p) \<Longrightarrow>
      \<exists>w'. pipe_exec_write client sz b (w, None) = (w', None) \<and>
        view w' = (view w)(name := g p (view w name))"
  shows "\<exists>tcs' w'. launch_writes client sz fill sch t rngs (w, None) tcs =
      Some (tcs', (w', None), None) \<and> contexts_ok (storage_slice t) tcs' \<and>
    (\<forall>name. view w' name = fold g (map (\<lambda>(r, i). x (rngs ! r) i)
      (filter (\<lambda>(r, i). names i = name) (order sch (length rngs) (storage_slice t)))) (view w name))"
proof -
  let ?n = "storage_slice t" and ?js = "order sch (length rngs) (storage_slice t)"
  have pairs: "r < length rngs \<and> i < ?n" if "(r, i) \<in> set ?js" for r i
    using that mset_eq_setD [OF fair_order [OF ok(3), of "length rngs" ?n]] by auto
  obtain tcs' used where filled: "try_fold (fill_range fill) rngs (tcs, []) = Some (tcs', used)"
    "contexts_ok ?n tcs'" "length used = length rngs"
    "\<forall>r < length rngs. tidy ?n (tcs' ! (used ! r)) \<and>
      (\<forall>i < ?n. commands (tcs' ! (used ! r)) ! i = command # names i # payload (x (rngs ! r) i))"
    using fill_ranges_spec [where used = "[]" and begun = "[]" and rngs = rngs
        and c = "\<lambda>rng i. command # names i # payload (x rng i)", OF ok(1) fill ok(2)] by auto
  let ?bs = "map (\<lambda>(r, i). thread_buckets (tcs' ! (used ! r)) ! i) ?js"
  let ?xs = "map (\<lambda>(r, i). (names i, x (rngs ! r) i)) ?js"
  have ready: "bucket_ready (thread_buckets (tcs' ! (used ! r)) ! i) (command # names i # payload (x (rngs ! r) i))"
    if "(r, i) \<in> set ?js" for r i
    using filled(4) pairs [OF that] by (auto simp: bucket_ready_def tidy_def commands_def)
  have "\<exists>w'. pipe_exec_write client sz b (w, None) = (w', None) \<and>
      view w' = (view w)(fst p := g (snd p) (view w (fst p)))" if "(b, p) \<in> set (zip ?bs ?xs)" for b p w
  proof -
    from that obtain j where j: "j < length ?js" "b = ?bs ! j" "p = ?xs ! j" by (auto simp: in_set_zip)
    obtain r i where ri: "?js ! j = (r, i)" by fastforce
    then have "(r, i) \<in> set ?js" using j(1) nth_mem by metis
    from send [OF ready [OF this]] show ?thesis using j ri by simp
  qed
  then obtain w' where sent: "send_buckets client sz ?bs (w, None) = ((w', None), None)"
    "\<forall>name. view w' name = fold g (map snd (filter (\<lambda>x. fst x = name) ?xs)) (view w name)"
    using send_all [of ?bs ?xs client sz view g w] by auto
  have "map snd (filter (\<lambda>x. fst x = name) ?xs) =
      map (\<lambda>(r, i). x (rngs ! r) i) (filter (\<lambda>(r, i). names i = name) ?js)" for name
    by (simp add: filter_map comp_def case_prod_unfold)
  moreover have "contexts_ok ?n (fold release_thread_context used tcs')"
    using filled(2)
    by (induction used arbitrary: tcs' rule: list.induct) (simp_all add: contexts_ok_release)
  ultimately show ?thesis using filled(1) sent by (simp add: launch_writes_def)
qed

lemma set_pairs_append: "set_pairs m (xs @ ys) = set_pairs (set_pairs m xs) ys"
  by (simp add: set_pairs_def)

lemma fold_set_pairs: "fold (\<lambda>kvs m. set_pairs m kvs) kvss m = set_pairs m (concat kvss)"
  by (induction kvss arbitrary: m) (simp_all add: set_pairs_append, simp add: set_pairs_def)

definition row_at :: "nat \<Rightarrow> 'v list \<Rightarrow> nat \<Rightarrow> 'v list" where
  "row_at d vals j = take d (drop (j * d) vals)"

lemma batch_rows_eq:
  assumes "b \<le> e" "e \<le> length keys"
  shows "batch_rows d b e keys vals = map (\<lambda>j. (keys ! j, row_at d vals j)) [b..<e]"
  unfolding batch_rows_def Let_def using assms
  by (intro nth_equalityI) (auto simp: nth_row_view row_at_def algebra_simps)

lemma zip_rows_eq:
  "zip keys (row_view d (length keys) vals) = map (\<lambda>j. (keys ! j, row_at d vals j)) [0..<length keys]"
  by (intro nth_equalityI) (auto simp: nth_row_view row_at_def)

lemma mset_concat_map_cong:
  "mset xs = mset ys \<Longrightarrow> mset (concat (map h xs)) = mset (concat (map h ys))"
  by (simp add: mset_concat) (metis (no_types, lifting) mset_map sum_mset_sum_list map_map)

lemma mset_short_eq:
  assumes "mset xs = mset ys" "length ys \<le> 1"
  shows "xs = ys"
  using assms by (cases ys) (auto dest: mset_eq_length)

lemma length_filter_distinct:
  "distinct (map fst kvs) \<Longrightarrow> length (filter (\<lambda>p. fst p = k) kvs) \<le> 1"
proof (induction kvs)
  case (Cons p kvs)
  show ?case
  proof (cases "fst p = k")
    case True
    then have "fst q \<noteq> k" if "q \<in> set kvs" for q
      using Cons.prems that by (auto simp: image_iff)
    then have "filter (\<lambda>p. fst p = k) kvs = []" by (simp add: filter_empty_conv)
    then show ?thesis using True by simp
  qed (use Cons in simp)
qed simp

lemma mset_map_filter_cong:
  "mset xs = mset ys \<Longrightarrow> mset (map f (filter P (map g xs))) = mset (map f (filter P (map g ys)))"
  by (simp add: mset_filter)

lemma concat_pick: "b < n \<Longrightarrow> concat (map (\<lambda>i. if i = b then ys else []) [0..<n]) = ys"
proof (induction n)
  case (Suc n)
  have "concat (map (\<lambda>i. if i = b then ys else []) [0..<n]) = []" if "b = n"
    using that by (auto simp: concat_eq_Nil_conv)
  then show ?case using Suc by (cases "b = n") auto
qed simp

lemma map_filter_concat:
  "map f (filter P (concat (map h (filter Q js)))) =
     concat (map (\<lambda>j. if Q j then map f (filter P (h j)) else []) js)"
  by (induction js) auto

text \<open>
  What a batch leaves under one key, whatever the order of the buckets, as long as a key that
  occurs twice is not cut in two ranges.
\<close>

lemma written_values:
  fixes K :: "'k key_ops" and V :: "'v value_ops"
  assumes slices: "slices_ok K n names" and sch: "fair_scheduler sch"
    and rngs: "mset (concat (map row_range rngs)) = mset [0..<length keys]"
      "\<And>rng. rng \<in> set rngs \<Longrightarrow> fst rng \<le> snd rng \<and> snd rng \<le> length keys"
    and once: "distinct keys \<or> rngs = [(0, length keys)]"
  shows "map snd (filter (\<lambda>p. fst p = k_content K k) (concat (map (\<lambda>(r, i).
      pairs_of K V n (batch_rows d (fst (rngs ! r)) (snd (rngs ! r)) keys vals) i)
        (filter (\<lambda>(r, i). names ! i = names ! bucket_of K n k) (order sch (length rngs) n))))) =
    map (v_content V \<circ> snd) (filter (\<lambda>p. fst p = k) (zip keys (row_view d (length keys) vals)))"
    (is "?left = ?right")
proof -
  let ?js = "order sch (length rngs) n"
  let ?rows = "\<lambda>rng. batch_rows d (fst rng) (snd rng) keys vals"
  let ?vals = "\<lambda>rng. map (v_content V \<circ> snd) (filter (\<lambda>p. fst p = k) (?rows rng))"
  let ?h = "\<lambda>(r, i). if i = bucket_of K n k then ?vals (rngs ! r) else []"
  have inj: "k_content K k' = k_content K k \<longleftrightarrow> k' = k" for k'
    using slices by (auto simp: slices_ok_def inj_eq)
  have one: "map snd (filter (\<lambda>p. fst p = k_content K k) (pairs_of K V n kvs i)) =
      (if i = bucket_of K n k then map (v_content V \<circ> snd) (filter (\<lambda>p. fst p = k) kvs) else [])" for kvs i
  proof (induction kvs)
    case (Cons p kvs)
    then show ?case
      by (cases p; cases "fst p = k"; cases "bucket_of K n (fst p) = i") (simp_all add: pairs_of_def inj)
  qed (simp add: pairs_of_def)
  have left: "?left = concat (map ?h ?js)"
    unfolding map_filter_concat split_beta one
    by (intro arg_cong [of _ _ concat] map_cong) auto
  have part: "mset (List.product [0..<length rngs] [0..<n]) = mset ?js"
    using fair_order [OF sch, of "length rngs" n] by simp
  have bk: "bucket_of K n k < n" using slices by (simp add: slices_ok_def)
  note pick = concat_pick [OF bk]
  have "concat (map ?h (List.product rs [0..<n])) = concat (map (\<lambda>r. ?vals (rngs ! r)) rs)" for rs
    by (induction rs) (simp_all add: comp_def pick)
  moreover have "map (\<lambda>r. ?vals (rngs ! r)) [0..<length rngs] = map ?vals rngs"
    by (intro nth_equalityI) simp_all
  ultimately have all_buckets: "concat (map ?h (List.product [0..<length rngs] [0..<n])) = concat (map ?vals rngs)"
    by (simp only:)
  have mset_left: "mset ?left = mset (concat (map ?vals rngs))"
    unfolding left all_buckets [symmetric] by (rule mset_concat_map_cong) (simp only: part)
  have all_rows: "concat (map ?rows rngs) =
      map (\<lambda>j. (keys ! j, row_at d vals j)) (concat (map row_range rngs))"
    using rngs(2) by (induction rngs) (auto simp: batch_rows_eq row_range_def)
  have "concat (map ?vals rngs) = map (v_content V \<circ> snd) (filter (\<lambda>p. fst p = k) (concat (map ?rows rngs)))"
    by (induction rngs) auto
  then have "mset (concat (map ?vals rngs)) = mset ?right"
    unfolding all_rows zip_rows_eq by (simp only: mset_map_filter_cong [OF rngs(1)])
  then have same: "mset ?left = mset ?right" using mset_left by simp
  show ?thesis
    using once
  proof
    assume "distinct keys"
    then have "distinct (map fst (zip keys (row_view d (length keys) vals)))" by simp
    then have "length ?right \<le> 1" 
      using length_filter_distinct [of "zip keys (row_view d (length keys) vals)" k] by simp
    then show ?thesis using same by (rule mset_short_eq [rotated])
  next
    assume single: "rngs = [(0, length keys)]"
    have "mset (filter (\<lambda>(r, i). i = bucket_of K n k) ?js) =
        mset (filter (\<lambda>(r, i). i = bucket_of K n k) (List.product [0..<length rngs] [0..<n]))"
      by (metis part mset_filter)
    also have "filter (\<lambda>(r, i). i = bucket_of K n k) (List.product [0..<length rngs] [0..<n]) =
        [(0, bucket_of K n k)]"
      using single bk by (simp add: filter_map comp_def filter_upt_eq)
    finally have only: "filter (\<lambda>(r, i). i = bucket_of K n k) ?js = [(0, bucket_of K n k)]"
      by (rule mset_short_eq) simp
    have skip: "concat (map ?h js) = concat (map ?h (filter (\<lambda>(r, i). i = bucket_of K n k) js))" for js
      by (induction js) auto
    have "concat (map ?h ?js) = concat (map ?h [(0, bucket_of K n k)])"
      unfolding skip [of ?js] only ..
    then have "?left = ?vals (0, length keys)" unfolding left using single by simp
    then show ?thesis by (simp add: batch_rows_eq zip_rows_eq)
  qed
qed

text \<open>
  Every field of a slice is a key of that slice's bucket.
\<close>

definition in_own_slice ::
  "'k key_ops \<Rightarrow> redis_table \<Rightarrow> ('w \<Rightarrow> octets \<Rightarrow> octets \<Rightarrow> octets option) \<Rightarrow> 'w \<Rightarrow> bool" where
  "in_own_slice K t view w \<longleftrightarrow> (\<forall>i < storage_slice t. \<forall>f \<in> dom (view w (slice_names t ! i)).
     f \<in> k_content K ` {k. bucket_of K (storage_slice t) k = i})"

lemma dom_set_pairs: "dom (set_pairs m kvs) = dom m \<union> fst ` set kvs"
proof (induction kvs rule: rev_induct)
  case Nil
  then show ?case by (simp add: set_pairs_def)
next
  case (snoc p kvs)
  have "set_pairs m (kvs @ [p]) = (set_pairs m kvs)(fst p \<mapsto> snd p)"
    by (simp add: set_pairs_def split_beta)
  then show ?case using snoc by (simp del: fun_upd_apply)
qed

lemma fst_pairs_of:
  "fst ` set (pairs_of K V n kvs i) \<subseteq> k_content K ` {k. bucket_of K n k = i}"
  by (auto simp: pairs_of_def)

lemma in_own_sliceI:
  assumes "redis_ok K t" "distinct (slice_names t)" "in_own_slice K t view w"
    and new: "\<And>name. dom (view w' name) \<subseteq> dom (view w name) \<union>
      (\<Union>i \<in> {i. slice_names t ! i = name \<and> i < storage_slice t}.
        k_content K ` {k. bucket_of K (storage_slice t) k = i})"
  shows "in_own_slice K t view w'"
  unfolding in_own_slice_def
proof (intro allI impI ballI)
  fix i f assume i: "i < storage_slice t" and f: "f \<in> dom (view w' (slice_names t ! i))"
  have "j = i" if "slice_names t ! j = slice_names t ! i" "j < storage_slice t" for j
    using that i assms(1,2) by (simp add: redis_ok_def slices_ok_def nth_eq_iff_index_eq)
  then show "f \<in> k_content K ` {k. bucket_of K (storage_slice t) k = i}"
    using f new [of "slice_names t ! i"] assms(3) i unfolding in_own_slice_def by blast
qed

lemma redis_insert_spec:
  assumes ok: "redis_ok K t" "contexts_ok (storage_slice t) tcs" "fair_scheduler sch"
    and hmset: "obeys_hmset client view"
    and len: "length vals = length keys * d"
    and once: "distinct keys \<or> int (length keys) < max_argc t - 1"
  shows "\<exists>tcs' w'. redis_insert client K V sch t keys vals (w, None) tcs = Some (tcs', (w', None), None) \<and>
    contexts_ok (storage_slice t) tcs' \<and>
    table_view K t view w' = table_view K t view w ++
      map_of (rev (zip keys (map (v_content V) (row_view d (length keys) vals)))) \<and>
    (distinct (slice_names t) \<longrightarrow> in_own_slice K t view w \<longrightarrow> in_own_slice K t view w')"
proof (cases "keys = []")
  case True
  then show ?thesis using ok(2) by (auto simp: redis_insert_def)
next
  case False
  let ?n = "storage_slice t" and ?names = "slice_names t" and ?rngs = "shards sch t (length keys)"
  have slices: "slices_ok K ?n ?names" and pos: "0 < ?n"
    using ok(1) by (simp_all add: redis_ok_def slices_ok_def)
  have d: "length vals div length keys = d" using len False by simp
  let ?fill = "\<lambda>b e. mset_fill K V ?n ?names keys vals b e d"
  let ?x = "\<lambda>rng i. pairs_of K V ?n (batch_rows d (fst rng) (snd rng) keys vals) i"
  have fill: "\<exists>tc'. ?fill (fst rng) (snd rng) tc = Some tc' \<and> tidy ?n tc' \<and>
        thread_occupied tc' = thread_occupied tc \<and>
        (\<forall>i < ?n. commands tc' ! i = ascii ''HMSET'' # ?names ! i # flat_pairs (?x rng i))"
    if "length (thread_buckets tc) \<le> ?n" for rng tc
    using mset_fill_spec [OF slices that] occupied_mset_fill by blast
  obtain tcs' w' where out: "launch_writes client 4 ?fill sch t ?rngs (w, None) tcs = Some (tcs', (w', None), None)"
    "contexts_ok ?n tcs'"
    and view: "\<forall>name. view w' name = fold (\<lambda>kvs m. set_pairs m kvs) (map (\<lambda>(r, i). ?x (?rngs ! r) i)
      (filter (\<lambda>(r, i). ?names ! i = name) (order sch (length ?rngs) ?n))) (view w name)"
    using launch_writes_spec [where names = "(!) ?names" and x = ?x and g = "\<lambda>kvs m. set_pairs m kvs"
        and command = "ascii ''HMSET''" and payload = flat_pairs and rngs = ?rngs and w = w,
        OF pos ok(2,3) fill send_hmset [OF hmset]] by blast
  have "distinct keys \<or> ?rngs = [(0, length keys)]"
    using once by (auto simp: shards_def)
  note written = written_values [where rngs = ?rngs and keys = keys and d = d and vals = vals and V = V,
      OF slices ok(3) fair_shards(1) [OF ok(3)] fair_shards(2) [OF ok(3), where t = t] this]
  have "table_view K t view w' k = (table_view K t view w ++
      map_of (rev (zip keys (map (v_content V) (row_view d (length keys) vals))))) k" for k
  proof -
    have "table_view K t view w' k = (case last_value (map (v_content V \<circ> snd)
        (filter (\<lambda>p. fst p = k) (zip keys (row_view d (length keys) vals)))) of
          Some v \<Rightarrow> Some v | None \<Rightarrow> table_view K t view w k)"
      using written [of k] by (simp only: table_view_def view [rule_format] fold_set_pairs set_pairs_at)
    also have "map (v_content V \<circ> snd) (filter (\<lambda>p. fst p = k) (zip keys (row_view d (length keys) vals))) =
        map snd (filter (\<lambda>p. fst p = k) (zip keys (map (v_content V) (row_view d (length keys) vals))))"
      by (simp add: zip_map2 filter_map comp_def case_prod_unfold)
    finally show ?thesis by (simp add: map_add_def map_of_rev_last)
  qed
  moreover have "in_own_slice K t view w'" if "distinct (slice_names t)" "in_own_slice K t view w"
  proof (rule in_own_sliceI [OF ok(1) that])
    fix name
    have js: "set (order sch (length ?rngs) ?n) = {0..<length ?rngs} \<times> {0..<?n}"
      using mset_eq_setD [OF fair_order [OF ok(3)]] by (simp add: set_product)
    have "fst ` set (concat (map (\<lambda>(r, i). ?x (?rngs ! r) i)
        (filter (\<lambda>(r, i). ?names ! i = name) (order sch (length ?rngs) ?n)))) \<subseteq>
      (\<Union>i \<in> {i. ?names ! i = name \<and> i < ?n}. k_content K ` {k. bucket_of K ?n k = i})" (is "?new \<subseteq> ?old")
    proof
      fix f assume "f \<in> ?new"
      then obtain r i where ri: "(r, i) \<in> set (order sch (length ?rngs) ?n)" "?names ! i = name"
        "f \<in> fst ` set (?x (?rngs ! r) i)" by auto
      have "i < ?n" using ri(1) unfolding js by simp
      moreover have "f \<in> k_content K ` {k. bucket_of K ?n k = i}" using ri(3) by (rule fst_pairs_of [THEN subsetD])
      ultimately show "f \<in> ?old" using ri(2) by blast
    qed
    then show "dom (view w' name) \<subseteq> dom (view w name) \<union>
      (\<Union>i \<in> {i. ?names ! i = name \<and> i < ?n}. k_content K ` {k. bucket_of K ?n k = i})"
      unfolding view [rule_format] fold_set_pairs dom_set_pairs by blast
  qed
  ultimately show ?thesis
    using out False d by (auto simp: redis_insert_def redis_do_insert_def launch_insert_def)
qed

lemma fold_restrict:
  "fold (\<lambda>fs m. m |` (- set fs)) fss m = m |` (- (\<Union>fs \<in> set fss. set fs))"
proof (induction fss arbitrary: m)
  case Nil
  show ?case by (simp add: restrict_map_def)
next
  case (Cons fs fss)
  then show ?case by (simp add: restrict_restrict Int_Un_distrib)
qed

lemma in_ranges:
  assumes "mset (concat (map row_range rngs)) = mset [0..<length keys]"
    "\<And>rng. rng \<in> set rngs \<Longrightarrow> fst rng \<le> snd rng \<and> snd rng \<le> length keys"
  shows "(\<Union>rng \<in> set rngs. set (drop (fst rng) (take (snd rng) keys))) = set keys"
proof -
  have part: "set (drop b (take e keys)) = (!) keys ` {b..<e}" if "b \<le> e" "e \<le> length keys" for b e
  proof -
    have "drop b (take e keys) = map ((!) keys) [b..<e]"
      using that by (intro nth_equalityI) auto
    then show ?thesis by simp
  qed
  have "(\<Union>rng \<in> set rngs. {fst rng..<snd rng}) = {0..<length keys}"
    using mset_eq_setD [OF assms(1)] by (simp add: row_range_def)
  then have "(!) keys ` (\<Union>rng \<in> set rngs. {fst rng..<snd rng}) = set keys"
    by (metis list.set_map map_nth set_upt)
  then show ?thesis using part assms(2) by (simp add: image_UN)
qed

lemma redis_remove_spec:
  assumes ok: "redis_ok K t" "contexts_ok (storage_slice t) tcs" "fair_scheduler sch"
    and hdel: "obeys_hdel client view"
  shows "\<exists>tcs' w'. redis_remove client K sch t keys (w, None) tcs = Some (tcs', (w', None), None) \<and>
    contexts_ok (storage_slice t) tcs' \<and>
    table_view K t view w' = table_view K t view w |` (- set keys) \<and>
    (in_own_slice K t view w \<longrightarrow> in_own_slice K t view w')"
proof (cases "keys = []")
  case True
  then show ?thesis using ok(2) by (auto simp: redis_remove_def restrict_map_def)
next
  case False
  let ?n = "storage_slice t" and ?names = "slice_names t" and ?rngs = "shards sch t (length keys)"
  have slices: "slices_ok K ?n ?names" and pos: "0 < ?n"
    using ok(1) by (simp_all add: redis_ok_def slices_ok_def)
  let ?fill = "\<lambda>b e. del_fill K ?n ?names keys b e"
  let ?x = "\<lambda>rng i. map (k_content K)
    (filter (\<lambda>k. bucket_of K ?n k = i) (drop (fst rng) (take (snd rng) keys)))"
  have fill: "\<exists>tc'. ?fill (fst rng) (snd rng) tc = Some tc' \<and> tidy ?n tc' \<and>
        thread_occupied tc' = thread_occupied tc \<and>
        (\<forall>i < ?n. commands tc' ! i = ascii ''HDEL'' # ?names ! i # id (?x rng i))"
    if "length (thread_buckets tc) \<le> ?n" for rng tc
    unfolding id_apply using del_fill_spec [OF slices that] occupied_del_fill by blast
  have send: "\<exists>w'. pipe_exec_write client 3 b (w, None) = (w', None) \<and>
      view w' = (view w)(name := view w name |` (- set fs))"
    if "bucket_ready b (ascii ''HDEL'' # name # id fs)" for b name fs w
    using send_hdel [OF hdel] that unfolding id_apply by blast
  obtain tcs' w' where out: "launch_writes client 3 ?fill sch t ?rngs (w, None) tcs = Some (tcs', (w', None), None)"
    "contexts_ok ?n tcs'"
    and view: "\<forall>name. view w' name = fold (\<lambda>fs m. m |` (- set fs)) (map (\<lambda>(r, i). ?x (?rngs ! r) i)
      (filter (\<lambda>(r, i). ?names ! i = name) (order sch (length ?rngs) ?n))) (view w name)"
    using launch_writes_spec [where names = "(!) ?names" and x = ?x and g = "\<lambda>fs m. m |` (- set fs)"
        and command = "ascii ''HDEL''" and payload = id and rngs = ?rngs and w = w,
        OF pos ok(2,3) fill send] by blast
  have "table_view K t view w' k = (table_view K t view w |` (- set keys)) k" for k
  proof -
    have inj: "k_content K k' = k_content K k \<longleftrightarrow> k' = k" for k'
      using slices by (auto simp: slices_ok_def inj_eq)
    have bk: "bucket_of K ?n k < ?n" using slices by (simp add: slices_ok_def)
    have js: "set (order sch (length ?rngs) ?n) = {0..<length ?rngs} \<times> {0..<?n}"
      using mset_eq_setD [OF fair_order [OF ok(3)]] by (simp add: set_product)
    let ?hit = "\<exists>(r, i) \<in> set (order sch (length ?rngs) ?n). ?names ! i = ?names ! bucket_of K ?n k \<and>
        k_content K k \<in> set (?x (?rngs ! r) i)"
    have "?hit \<longleftrightarrow> (\<exists>rng \<in> set ?rngs. k \<in> set (drop (fst rng) (take (snd rng) keys)))"
    proof
      assume ?hit
      then show "\<exists>rng \<in> set ?rngs. k \<in> set (drop (fst rng) (take (snd rng) keys))"
        unfolding js using inj nth_mem [of _ ?rngs] by fastforce
    next
      assume "\<exists>rng \<in> set ?rngs. k \<in> set (drop (fst rng) (take (snd rng) keys))"
      then obtain r where r: "r < length ?rngs"
        "k \<in> set (drop (fst (?rngs ! r)) (take (snd (?rngs ! r)) keys))"
        by (metis in_set_conv_nth)
      then have "k_content K k \<in> set (?x (?rngs ! r) (bucket_of K ?n k))" by simp
      then show ?hit unfolding js using r(1) bk by (intro bexI [of _ "(r, bucket_of K ?n k)"]) auto
    qed
    also have "\<dots> \<longleftrightarrow> k \<in> set keys"
      using in_ranges [where rngs = ?rngs and keys = keys, OF fair_shards(1) [OF ok(3)] fair_shards(2) [OF ok(3), where t = t]] by blast
    finally show ?thesis
      unfolding table_view_def view [rule_format] fold_restrict
      by (auto simp: restrict_map_def table_view_def)
  qed
  moreover have "in_own_slice K t view w'" if "in_own_slice K t view w"
  proof -
    have "dom (view w' name) \<subseteq> dom (view w name)" for name
      unfolding view [rule_format] fold_restrict by auto
    then show ?thesis using that unfolding in_own_slice_def by blast
  qed
  ultimately show ?thesis
    using out False by (auto simp: redis_remove_def launch_delete_def)
qed

section \<open>Clearing and counting\<close>

text \<open>
  Commands that are lines of text are relied on for names that the client does not take apart:
  without null bytes, blanks and percent signs.
\<close>

definition plain_name :: "octets \<Rightarrow> bool" where
  "plain_name name \<longleftrightarrow> 0 \<notin> set name \<and> 32 \<notin> set name \<and> 37 \<notin> set name"

definition obeys_del ::
  "'w redis_client \<Rightarrow> ('w \<Rightarrow> octets \<Rightarrow> octets \<Rightarrow> octets option) \<Rightarrow> bool" where
  "obeys_del client view \<longleftrightarrow> (\<forall>w name. plain_name name \<longrightarrow>
     (\<exists>w' r. write_line client (ascii ''DEL '' @ name) w = (w', Inr r) \<and>
        view w' = (view w)(name := Map.empty)))"

definition answers_hlen ::
  "'w redis_client \<Rightarrow> ('w \<Rightarrow> octets \<Rightarrow> octets \<Rightarrow> octets option) \<Rightarrow> bool" where
  "answers_hlen client view \<longleftrightarrow> (\<forall>w name. plain_name name \<longrightarrow>
     read_line client (ascii ''HLEN '' @ name) w = Inr (Reply_integer (int (card (dom (view w name))))))"

lemma c_str_plain: "0 \<notin> set xs \<Longrightarrow> c_str xs = xs"
  by (auto simp: c_str_def takeWhile_eq_all_conv)

lemma ascii_line: "0 \<notin> set (ascii ''HLEN '')" "0 \<notin> set (ascii ''DEL '')"
  by (simp_all add: ascii_def of_char_def)

lemma remove_slices_spec:
  assumes "obeys_del client view" "\<forall>name \<in> set names. plain_name name"
  shows "\<exists>w'. remove_slices client names w = (w', None) \<and>
    (\<forall>name. view w' name = (if name \<in> set names then Map.empty else view w name))"
  using assms(2)
proof (induction names arbitrary: w)
  case (Cons name names)
  have "c_str (ascii ''DEL '' @ name) = ascii ''DEL '' @ name"
    using Cons.prems ascii_line(2) by (intro c_str_plain) (simp add: plain_name_def)
  moreover obtain w1 r where "write_line client (ascii ''DEL '' @ name) w = (w1, Inr r)"
    and view1: "view w1 = (view w)(name := Map.empty)"
    using assms(1) Cons.prems unfolding obeys_del_def by (meson list.set_intros(1))
  ultimately have "remove_hkeys_in_buckets client name w = (w1, None)"
    by (simp add: remove_hkeys_in_buckets_def)
  moreover obtain w2 where "remove_slices client names w1 = (w2, None)"
    "\<forall>name. view w2 name = (if name \<in> set names then Map.empty else view w1 name)"
    using Cons.IH [of w1] Cons.prems by auto
  ultimately show ?case using view1 by auto
qed simp

lemma redis_clear_spec:
  assumes "redis_ok K t" "obeys_del client view" "\<forall>name \<in> set (slice_names t). plain_name name"
  shows "\<exists>w'. redis_clear client t w = (w', None) \<and> table_view K t view w' = Map.empty \<and> in_own_slice K t view w'"
proof -
  obtain w' where w': "remove_slices client (slice_names t) w = (w', None)"
    "\<forall>name. view w' name = (if name \<in> set (slice_names t) then Map.empty else view w name)"
    using remove_slices_spec [OF assms(2,3)] by blast
  moreover have "slice_names t ! i \<in> set (slice_names t)" if "i < storage_slice t" for i
    using assms(1) that by (simp add: redis_ok_def slices_ok_def)
  moreover have "bucket_of K (storage_slice t) k < storage_slice t" for k
    using assms(1) by (simp add: redis_ok_def slices_ok_def)
  ultimately show ?thesis
    by (auto simp: redis_clear_def table_view_def in_own_slice_def fun_eq_iff)
qed

lemma size_loop_spec:
  assumes "answers_hlen client view" "\<forall>name \<in> set names. plain_name name"
  shows "size_loop client names acc w = Inr (acc + of_nat (\<Sum>name \<leftarrow> names. card (dom (view w name))))"
  using assms(2)
proof (induction names arbitrary: acc)
  case (Cons name names)
  have "c_str (ascii ''HLEN '' @ name) = ascii ''HLEN '' @ name"
    using Cons.prems ascii_line(1) by (intro c_str_plain) (simp add: plain_name_def)
  moreover have "read_line client (ascii ''HLEN '' @ name) w = Inr (Reply_integer (int (card (dom (view w name)))))"
    using assms(1) Cons.prems unfolding answers_hlen_def by (meson list.set_intros(1))
  ultimately have "table_size_in_bucket client name w = Inr (of_nat (card (dom (view w name))))"
    by (simp add: table_size_in_bucket_def)
  then show ?case using Cons by (simp add: add.assoc)
qed simp

text \<open>The slices hold the table's keys, each once.\<close>

lemma card_table:
  assumes ok: "redis_ok K t" and "in_own_slice K t view w"
    and fin: "\<forall>i < storage_slice t. finite (dom (view w (slice_names t ! i)))"
  shows "card (dom (table_view K t view w)) = (\<Sum>name \<leftarrow> slice_names t. card (dom (view w name)))"
    "finite (dom (table_view K t view w))"
proof -
  let ?n = "storage_slice t" and ?T = "\<lambda>i. {k \<in> dom (table_view K t view w). bucket_of K (storage_slice t) k = i}"
  have inj: "inj (k_content K)" and range: "\<And>k. bucket_of K ?n k < ?n" and len: "length (slice_names t) = ?n"
    using ok by (simp_all add: redis_ok_def slices_ok_def)
  have image: "k_content K ` ?T i = dom (view w (slice_names t ! i))" if "i < ?n" for i
  proof (intro equalityI subsetI)
    fix f assume "f \<in> k_content K ` ?T i"
    then show "f \<in> dom (view w (slice_names t ! i))" by (auto simp: table_view_def)
  next
    fix f assume f: "f \<in> dom (view w (slice_names t ! i))"
    then have "f \<in> k_content K ` {k. bucket_of K ?n k = i}"
      using assms(2) that unfolding in_own_slice_def by simp
    then obtain k where "f = k_content K k" "bucket_of K ?n k = i" by auto
    then show "f \<in> k_content K ` ?T i" using f by (auto simp: table_view_def)
  qed
  have card: "card (?T i) = card (dom (view w (slice_names t ! i)))" if "i < ?n" for i
    using image [OF that] card_image [of "k_content K" "?T i"] inj by (simp add: inj_on_subset)
  have finite: "finite (?T i)" if "i < ?n" for i
  proof (rule finite_imageD)
    show "finite (k_content K ` ?T i)" using image [OF that] fin that by simp
    show "inj_on (k_content K) (?T i)" using inj by (rule inj_on_subset) simp
  qed
  have all: "dom (table_view K t view w) = (\<Union>i \<in> {..<?n}. ?T i)" using range by auto
  have "card (\<Union>i \<in> {..<?n}. ?T i) = (\<Sum>i < ?n. card (?T i))"
    using finite by (intro card_UN_disjoint) auto
  then have "card (dom (table_view K t view w)) = (\<Sum>i < ?n. card (?T i))"
    by (simp only: all [symmetric])
  also have "\<dots> = (\<Sum>i < ?n. card (dom (view w (slice_names t ! i))))" using card by simp
  also have "\<dots> = (\<Sum>name \<leftarrow> slice_names t. card (dom (view w name)))"
    by (simp add: sum_list_sum_nth len atLeast0LessThan)
  finally show "card (dom (table_view K t view w)) = (\<Sum>name \<leftarrow> slice_names t. card (dom (view w name)))" .
  have "finite (\<Union>i \<in> {..<?n}. ?T i)" using finite by simp
  then show "finite (dom (table_view K t view w))" by (simp only: all [symmetric])
qed

lemma redis_size_spec:
  assumes ok: "redis_ok K t" "in_own_slice K t view w" "\<forall>name \<in> set (slice_names t). plain_name name"
    and fin: "\<forall>i < storage_slice t. finite (dom (view w (slice_names t ! i)))"
    and hlen: "answers_hlen client view"
  shows "redis_size client t w = Inr (of_nat (card (dom (table_view K t view w))))"
  using size_loop_spec [OF hlen ok(3), of 0 w] card_table(1) [OF ok(1,2) fin] ok(1)
  by (simp add: redis_size_def redis_ok_def slices_ok_def)

end
