(* ===== verification/Redis_Codec.thy ===== *)
theory Redis_Codec
  imports Redis_Table_Spec
begin

text \<open>
  What the table asks of a type of keys and of a type of values.  \<open>sliced_keys\<close>: keys are sent
  without loss, and a key's bucket is the number of a slice.  \<open>row_codec\<close>: a row comes back from
  the bytes it was sent as.  Both are interpreted on every type the code has functions for, and
  the table's round trip is proved from them.
\<close>

section \<open>Keys\<close>

locale sliced_keys =
  fixes K :: "'k key_ops"
  assumes content_inj: "inj (k_content K)"
    and bucket_less: "0 < n \<Longrightarrow> k_bucket K k n < n"
begin

lemma slices_okI:
  assumes "0 < n" "n < 2 ^ 32" "length names = n"
  shows "slices_ok K n names"
proof -
  have n: "unat (of_nat n :: u32) = n" using assms(2) by (simp add: unat_of_nat take_bit_nat_eq_self)
  then have "(0 :: u32) < of_nat n" using assms(1) by (simp add: word_less_nat_alt)
  then have "k_bucket K k (of_nat n) < of_nat n" for k by (rule bucket_less)
  then have "bucket_of K n k < n" for k using n by (simp add: bucket_of_def word_less_nat_alt)
  then show ?thesis using assms content_inj by (simp add: slices_ok_def)
qed

end

lemma word_mod_less: "0 < (n :: u32) \<Longrightarrow> x mod n < n"
  by (simp add: word_less_nat_alt unat_mod)

interpretation k32: sliced_keys "int32_keys handle" for handle
proof unfold_locales
  show "inj (k_content (int32_keys handle))"
    by (rule inj_on_inverseI [where g = of_le]) (simp add: int32_keys_def of_le_le_bytes32)
qed (simp add: int32_keys_def k_bucket_num_def word_mod_less)

interpretation k64: sliced_keys "int64_keys handle" for handle
proof unfold_locales
  show "inj (k_content (int64_keys handle))"
    by (rule inj_on_inverseI [where g = of_le]) (simp add: int64_keys_def of_le_le_bytes64)
qed (simp add: int64_keys_def k_bucket_num_def word_mod_less)

interpretation ks: sliced_keys "tstring_keys isa object_at" for isa object_at
  by unfold_locales (simp_all add: tstring_keys_def k_bucket_num_tstring_def word_mod_less)

section \<open>Values\<close>

lemma map_of_rev_distinct: "distinct (map fst kvs) \<Longrightarrow> map_of (rev kvs) = map_of kvs"
  by (subst map_of_inject_set) (simp_all flip: rev_map)

locale row_codec =
  fixes V :: "'v value_ops" and storable :: "'v list \<Rightarrow> bool"
  assumes restore_content: "storable row \<Longrightarrow> v_restore V (length row) (v_content V row) = row"
    and restore_length: "length (v_restore V d str) = d"
begin

lemma value_okI: "value_ok V"
  by (simp add: value_ok_def restore_length)

text \<open>What has just been inserted is found again.\<close>

lemma find_after_insert:
  assumes ok: "redis_ok K t" "contexts_ok (storage_slice t) tcs" "fair_scheduler sch"
    and server: "obeys_hmset client view" "answers_hmget client view (\<lambda>w name. False)"
    and len: "length vals = length keys * d" "length memory = length vals"
      "length dft = length vals \<or> d \<le> length dft"
    and keys: "distinct keys" and rows: "\<forall>row \<in> set (row_view d (length keys) vals). storable row"
  shows "\<exists>tcs1 w1 tcs2. redis_insert client K V sch t keys vals (w, None) tcs = Some (tcs1, (w1, None), None) \<and>
    redis_find client K V sch t keys memory dft w1 tcs1 = Some (tcs2, vals)"
proof -
  obtain tcs1 w1 where ins: "redis_insert client K V sch t keys vals (w, None) tcs = Some (tcs1, (w1, None), None)"
    and tcs1: "contexts_ok (storage_slice t) tcs1"
    and view1: "table_view K t view w1 = table_view K t view w ++
      map_of (rev (zip keys (map (v_content V) (row_view d (length keys) vals))))"
    using redis_insert_spec [OF ok server(1) len(1), where V = V and w = w] keys by blast
  let ?row = "\<lambda>j. take d (drop (j * d) vals)"
  have here: "expected_row K V t view (\<lambda>w name. False) w1 keys dft full d j = ?row j"
    if j: "j < length keys" for j full
  proof -
    have "map_of (rev (zip keys (map (v_content V) (row_view d (length keys) vals)))) (keys ! j) =
        Some (v_content V (?row j))"
      using j keys map_of_zip_nth [of keys "map (v_content V) (row_view d (length keys) vals)" j]
      by (simp add: map_of_rev_distinct nth_row_view)
    moreover have "length (?row j) = d"
    proof -
      have "Suc j * d \<le> length keys * d" using j by (intro mult_le_mono1) simp
      then show ?thesis using len(1) by simp
    qed
    moreover have "storable (?row j)" using rows j by (simp add: row_view_def)
    ultimately show ?thesis
      using restore_content [of "?row j"] by (simp add: expected_row_def looked_up_row_def view1)
  qed
  obtain tcs2 where "redis_find client K V sch t keys memory dft w1 tcs1 = Some (tcs2,
      concat (map (expected_row K V t view (\<lambda>w name. False) w1 keys dft (length memory = length dft) d)
        [0..<length keys]))"
    using redis_find_spec [OF ok(1) tcs1 ok(3) value_okI server(2), of memory keys d dft w1] len by auto
  moreover have "concat (map (expected_row K V t view (\<lambda>w name. False) w1 keys dft (length memory = length dft) d)
      [0..<length keys]) = concat (row_view d (length keys) vals)"
    unfolding row_view_def by (intro arg_cong [where f = concat] map_cong refl here) simp
  ultimately show ?thesis using ins concat_row_view [OF len(1)] by metis
qed

end

lemma length_tstring_restore: "length (tstring_restore d str) = d"
  by (induction d arbitrary: str) (simp_all add: Let_def)

interpretation strings: row_codec tstring_values "\<lambda>row. (\<Sum>s \<leftarrow> row. 4 + length s) < 2 ^ 32"
proof unfold_locales
  fix row :: "octets list"
  assume "(\<Sum>s \<leftarrow> row. 4 + length s) < 2 ^ 32"
  then show "v_restore tstring_values (length row) (v_content tstring_values row) = row"
    using tstring_restore_content [of row "[]"] by (simp add: tstring_values_def)
qed (simp add: tstring_values_def length_tstring_restore)

lemma length_fixed_restore: "length (fixed_restore sz from d str) = d"
  by (simp add: fixed_restore_def row_view_def)

interpretation words32: row_codec "fixed_values 4 (le_bytes 4) (of_le :: octets \<Rightarrow> u32)" "\<lambda>row. True"
proof unfold_locales
  show "v_restore (fixed_values 4 (le_bytes 4) (of_le :: octets \<Rightarrow> u32)) (length row)
      (v_content (fixed_values 4 (le_bytes 4) of_le) row) = row" for row
    using fixed_restore_content [of row "le_bytes 4" 4 of_le "[]"]
    by (simp add: fixed_values_def of_le_le_bytes32)
qed (simp add: fixed_values_def length_fixed_restore)

interpretation words64: row_codec "fixed_values 8 (le_bytes 8) (of_le :: octets \<Rightarrow> u64)" "\<lambda>row. True"
proof unfold_locales
  show "v_restore (fixed_values 8 (le_bytes 8) (of_le :: octets \<Rightarrow> u64)) (length row)
      (v_content (fixed_values 8 (le_bytes 8) of_le) row) = row" for row
    using fixed_restore_content [of row "le_bytes 8" 8 of_le "[]"]
    by (simp add: fixed_values_def of_le_le_bytes64)
qed (simp add: fixed_values_def length_fixed_restore)

end
