(* ===== verification/Redis_Slices.thy ===== *)
theory Redis_Slices
  imports Redis_Cluster Redis_Util_Spec
begin

text \<open>
  The names of the hashes a Redis table is stored in: \<open>BuildKeysPrefixNameWithModelTag\<close> and
  \<open>BuildKeysPrefixNameSlices\<close> of \<open>redis_table_op_util.hpp\<close>, and the outcome of
  \<open>CheckSlicesNum\<close>.  The table of hash tags, one for every slot of a cluster, is vendored data:
  it is the argument \<open>tab\<close>.  So is the digest of the MD5 code.
\<close>

section \<open>Prefixes\<close>

definition build_keys_prefix_name :: "(octets \<Rightarrow> octets) \<Rightarrow> octets \<Rightarrow> bool \<Rightarrow> octets \<Rightarrow> octets" where
  "build_keys_prefix_name md5 model_tag using_md5_prefix_name embedding_name =
     (if using_md5_prefix_name then md5 (model_tag @ ascii '':'' @ embedding_name)
      else model_tag @ ascii '':'' @ embedding_name)"

section \<open>Slices\<close>

definition tag_name :: "octets \<Rightarrow> u32 \<Rightarrow> octets" where
  "tag_name prefix tag = prefix @ ascii ''{'' @ to_string (uint tag) @ ascii ''}''"

text \<open>A tag of the user's, in braces.  Neither test is made for an empty tag in the code.\<close>

definition braced :: "octets \<Rightarrow> octets" where
  "braced tag =
     (let tag = (if last tag \<noteq> 125 then tag @ [125] else tag)
      in if hd tag \<noteq> 123 then 123 # tag else tag)"

text \<open>
  The slot of slice \<open>i\<close> on a node with the slots from the first to the second: the slices a node
  gets are spread evenly over its range.
\<close>

definition spread_slot :: "nat \<Rightarrow> nat \<Rightarrow> nat \<Rightarrow> nat \<times> nat \<Rightarrow> nat" where
  "spread_slot nodes storage_slice i cluster_slot =
     (case cluster_slot of (first, second) \<Rightarrow>
        first + i div nodes * (unat (of_nat second - of_nat first :: u32) * nodes div storage_slice))"

fun spread_round ::
  "(nat \<Rightarrow> u32) \<Rightarrow> octets \<Rightarrow> nat \<Rightarrow> nat \<Rightarrow> (nat \<times> nat) list \<Rightarrow> nat \<times> octets list \<Rightarrow> nat \<times> octets list" where
  "spread_round tab prefix nodes storage_slice [] (i, names) = (i, names)"
| "spread_round tab prefix nodes storage_slice (slot # slots) (i, names) =
     (let names = names @ [tag_name prefix (tab (spread_slot nodes storage_slice i slot))];
          i = i + 1
      in if i = storage_slice then (i, names)
         else spread_round tab prefix nodes storage_slice slots (i, names))"

lemma spread_round_grows:
  "slots \<noteq> [] \<Longrightarrow> i < fst (spread_round tab prefix nodes storage_slice slots (i, names))"
proof (induction slots arbitrary: i names)
  case (Cons slot slots)
  show ?case
  proof (cases "slots = []")
    case True
    then show ?thesis by (simp add: Let_def)
  next
    case False
    then show ?thesis using Cons.IH [of "i + 1"] by (simp add: Let_def Suc_lessD)
  qed
qed simp

function spread_rounds ::
  "(nat \<Rightarrow> u32) \<Rightarrow> octets \<Rightarrow> nat \<Rightarrow> (nat \<times> nat) list \<Rightarrow> nat \<times> octets list \<Rightarrow> nat \<times> octets list" where
  "spread_rounds tab prefix storage_slice slots (i, names) =
     (if i < storage_slice \<and> slots \<noteq> []
      then spread_rounds tab prefix storage_slice slots
             (spread_round tab prefix (length slots) storage_slice slots (i, names))
      else (i, names))"
  by pat_completeness auto
termination
proof (relation "measure (\<lambda>(tab, prefix, storage_slice, slots, i, names). storage_slice - i)")
  fix tab prefix and slots :: "(nat \<times> nat) list" and storage_slice i :: nat and names :: "octets list"
  assume "i < storage_slice \<and> slots \<noteq> []"
  then show "((tab, prefix, storage_slice, slots,
      spread_round tab prefix (length slots) storage_slice slots (i, names)),
      tab, prefix, storage_slice, slots, i, names)
    \<in> measure (\<lambda>(tab, prefix, storage_slice, slots, i, names). storage_slice - i)"
    using spread_round_grows [of slots i tab prefix "length slots" storage_slice names]
    by (auto simp: split_beta)
qed simp

definition build_keys_prefix_name_slices ::
  "(nat \<Rightarrow> u32) \<Rightarrow> (nat \<times> nat) list \<Rightarrow> nat \<Rightarrow> octets list \<Rightarrow> octets \<Rightarrow> octets list" where
  "build_keys_prefix_name_slices tab cluster_slots storage_slice redis_hash_tags prefix =
     (if length redis_hash_tags = storage_slice
      then map (\<lambda>tag. prefix @ braced tag) redis_hash_tags
      else if cluster_slots = []
      then map (\<lambda>i. tag_name prefix (tab (16384 div storage_slice * i + 16384 mod storage_slice)))
             [0..<storage_slice]
      else if length cluster_slots < storage_slice
      then snd (spread_rounds tab prefix storage_slice cluster_slots (0, []))
      else map (\<lambda>i. tag_name prefix (tab (fst (cluster_slots ! i)))) [0..<storage_slice])"

text \<open>\<open>found\<close> is how many slices of the table the servers hold, or the scan's failure.\<close>

definition check_slices_num :: "nat \<Rightarrow> string + nat \<Rightarrow> int" where
  "check_slices_num storage_slice found = (case found of
     Inl e \<Rightarrow> -1
   | Inr n \<Rightarrow> if n = 0 then 0 else if n = storage_slice then 1 else if n \<le> storage_slice then 2 else -1)"

section \<open>Decimal numbers can be read back\<close>

lemma digit_octet: "d < 10 \<Longrightarrow> unat (of_nat (48 + d) :: u8) = 48 + d"
  by (simp add: unat_of_nat take_bit_nat_eq_self del: of_nat_add)

lemma read_digits_append:
  "\<forall>b \<in> set xs. 48 \<le> b \<and> b \<le> 57 \<Longrightarrow> read_digits acc (xs @ ys) = read_digits (read_digits acc xs) ys"
  by (induction xs arbitrary: acc) simp_all

lemma digit_range:
  assumes "d < 10"
  shows "48 \<le> (of_nat (48 + d) :: u8) \<and> (of_nat (48 + d) :: u8) \<le> 57"
  using digit_octet [OF assms] assms by (simp add: word_le_nat_alt del: of_nat_add)

lemma decimal_digits_range: "\<forall>b \<in> set (decimal_digits n). 48 \<le> b \<and> b \<le> 57"
proof (induction n rule: decimal_digits.induct)
  case (1 n)
  show ?case
  proof (cases "n < 10")
    case True
    then show ?thesis using digit_range by (subst decimal_digits.simps) (simp del: of_nat_add)
  next
    case False
    then show ?thesis using 1 digit_range [of "n mod 10"]
      by (subst decimal_digits.simps) (auto simp del: of_nat_add)
  qed
qed

lemma read_decimal: "read_digits 0 (decimal_digits n) = n"
proof (induction n rule: decimal_digits.induct)
  case (1 n)
  show ?case
  proof (cases "n < 10")
    case True
    then show ?thesis using digit_range digit_octet
      by (subst decimal_digits.simps) (simp del: of_nat_add)
  next
    case False
    then show ?thesis
      using 1 digit_range [of "n mod 10"] digit_octet [of "n mod 10"] decimal_digits_range [of "n div 10"]
      by (subst decimal_digits.simps) (simp add: read_digits_append del: of_nat_add)
  qed
qed

lemma decimal_digits_inj: "decimal_digits m = decimal_digits n \<longleftrightarrow> m = n"
  by (metis read_decimal)

lemma to_string_inj: "to_string (uint v) = to_string (uint w) \<longleftrightarrow> v = w"
  by (simp add: to_string_def decimal_digits_inj word_unat_eq_iff)

lemma tag_name_inj: "tag_name prefix v = tag_name prefix w \<longleftrightarrow> v = w"
  by (simp add: tag_name_def to_string_inj)

section \<open>Where the slices go\<close>

definition slot_of_slice :: "(nat \<times> nat) list \<Rightarrow> nat \<Rightarrow> nat \<Rightarrow> nat" where
  "slot_of_slice slots storage_slice i = spread_slot (length slots) storage_slice i (slots ! (i mod length slots))"

lemma spread_round_spec:
  assumes "i < storage_slice" "p \<le> length slots" "p < length slots \<longrightarrow> i mod length slots = p"
  shows "spread_round tab prefix (length slots) storage_slice (drop p slots) (i, names) =
    (min storage_slice (i + (length slots - p)),
     names @ map (\<lambda>i. tag_name prefix (tab (slot_of_slice slots storage_slice i)))
       [i..<min storage_slice (i + (length slots - p))])"
  using assms
proof (induction "length slots - p" arbitrary: p i names)
  case 0
  then show ?case by simp
next
  case (Suc d)
  let ?n = "length slots" and ?name = "\<lambda>i. tag_name prefix (tab (slot_of_slice slots storage_slice i))"
  have p: "p < ?n" and im: "i mod ?n = p" using Suc.hyps(2) Suc.prems by simp_all
  have split: "drop p slots = slots ! p # drop (Suc p) slots" using p by (rule Cons_nth_drop_Suc [symmetric])
  have here: "spread_slot ?n storage_slice i (slots ! p) = slot_of_slice slots storage_slice i"
    by (simp add: slot_of_slice_def im)
  show ?case
  proof (cases "Suc i = storage_slice")
    case True
    then have "min storage_slice (i + (?n - p)) = Suc i" using p by simp
    moreover have "[i..<Suc i] = [i]" by simp
    ultimately show ?thesis unfolding split using True by (simp add: here Let_def del: upt_Suc)
  next
    case False
    have "Suc i mod ?n = Suc p" if "Suc p < ?n" using im that by (simp add: mod_Suc)
    then have rest: "spread_round tab prefix ?n storage_slice (drop (Suc p) slots) (Suc i, names @ [?name i]) =
        (min storage_slice (Suc i + (?n - Suc p)),
         (names @ [?name i]) @ map ?name [Suc i..<min storage_slice (Suc i + (?n - Suc p))])"
      using Suc.hyps Suc.prems(1) False p by (intro Suc.hyps(1)) auto
    have shift: "Suc i + (?n - Suc p) = i + (?n - p)" using p by simp
    have "[i..<min storage_slice (i + (?n - p))] = i # [Suc i..<min storage_slice (i + (?n - p))]"
      using Suc.prems(1) p by (intro upt_conv_Cons) simp
    then show ?thesis
      unfolding split spread_round.simps Let_def using rest [unfolded shift] False by (simp add: here)
  qed
qed

lemma spread_rounds_spec:
  assumes "slots \<noteq> []" "i \<le> storage_slice" "i < storage_slice \<longrightarrow> i mod length slots = 0"
  shows "spread_rounds tab prefix storage_slice slots (i, names) =
    (storage_slice, names @ map (\<lambda>i. tag_name prefix (tab (slot_of_slice slots storage_slice i))) [i..<storage_slice])"
  using assms(2,3)
proof (induction "storage_slice - i" arbitrary: i names rule: less_induct)
  case less
  let ?n = "length slots"
  show ?case
  proof (cases "i < storage_slice")
    case False
    then show ?thesis using less.prems by (subst spread_rounds.simps) simp
  next
    case True
    let ?j = "min storage_slice (i + ?n)"
    have n: "0 < ?n" using assms(1) by simp
    have round: "spread_round tab prefix ?n storage_slice slots (i, names) =
        (?j, names @ map (\<lambda>i. tag_name prefix (tab (slot_of_slice slots storage_slice i))) [i..<?j])"
      using spread_round_spec [of i storage_slice 0 slots tab prefix names] True less.prems n by simp
    have "spread_rounds tab prefix storage_slice slots (i, names) =
        spread_rounds tab prefix storage_slice slots
          (?j, names @ map (\<lambda>i. tag_name prefix (tab (slot_of_slice slots storage_slice i))) [i..<?j])"
      using True assms(1) by (subst spread_rounds.simps) (simp add: round)
    also have "\<dots> = (storage_slice, (names @ map (\<lambda>i. tag_name prefix (tab (slot_of_slice slots storage_slice i))) [i..<?j]) @
        map (\<lambda>i. tag_name prefix (tab (slot_of_slice slots storage_slice i))) [?j..<storage_slice])"
    proof (rule less.hyps)
      show "storage_slice - ?j < storage_slice - i" using True n by linarith
      show "?j < storage_slice \<longrightarrow> ?j mod ?n = 0" using True less.prems by (auto simp: min_def)
    qed simp
    also have "[i..<storage_slice] = [i..<?j] @ [?j..<storage_slice]"
      using upt_add_eq_append [of i ?j "storage_slice - ?j"] True by simp
    ultimately show ?thesis by simp
  qed
qed

text \<open>The nodes of a cluster hold ranges of slots in ascending order.\<close>

definition node_ranges :: "(nat \<times> nat) list \<Rightarrow> bool" where
  "node_ranges slots \<longleftrightarrow> (\<forall>r \<in> set slots. fst r \<le> snd r \<and> snd r < 16384) \<and>
     (\<forall>a b. a < b \<and> b < length slots \<longrightarrow> snd (slots ! a) < fst (slots ! b))"

lemma slot_word_diff:
  assumes "a \<le> b" "b < 16384"
  shows "unat (of_nat b - of_nat a :: u32) = b - a"
proof -
  have "of_nat b - of_nat a = (of_nat (b - a) :: u32)" using assms(1) by (simp add: of_nat_diff)
  moreover have "unat (of_nat (b - a) :: u32) = b - a"
    using assms by (simp add: unat_of_nat take_bit_nat_eq_self del: of_nat_diff)
  ultimately show ?thesis by simp
qed

lemma spread_slot_range:
  assumes "fst r \<le> snd r" "snd r < 16384" "i < storage_slice" "0 < nodes"
  shows "fst r \<le> spread_slot nodes storage_slice i r \<and> spread_slot nodes storage_slice i r \<le> snd r"
proof -
  obtain a b where r: "r = (a, b)" by (cases r)
  let ?q = "(b - a) * nodes div storage_slice"
  have "(i div nodes * ?q) * storage_slice = i div nodes * (?q * storage_slice)" by simp
  also have "\<dots> \<le> i div nodes * ((b - a) * nodes)"
    by (intro mult_le_mono2 div_times_less_eq_dividend)
  also have "\<dots> = (b - a) * (i div nodes * nodes)" by simp
  also have "\<dots> \<le> (b - a) * storage_slice"
    using assms(3) by (intro mult_le_mono2) (meson div_times_less_eq_dividend le_trans less_imp_le)
  finally have "i div nodes * ?q \<le> b - a" using assms(3) by simp
  then show ?thesis using assms(1,2) by (simp add: spread_slot_def r slot_word_diff)
qed

definition slice_slot :: "(nat \<times> nat) list \<Rightarrow> nat \<Rightarrow> nat \<Rightarrow> nat" where
  "slice_slot slots storage_slice i =
     (if slots = [] then 16384 div storage_slice * i + 16384 mod storage_slice
      else if length slots < storage_slice then slot_of_slice slots storage_slice i
      else fst (slots ! i))"

lemma slices_names:
  assumes "length tags \<noteq> storage_slice"
  shows "build_keys_prefix_name_slices tab slots storage_slice tags prefix =
    map (\<lambda>i. tag_name prefix (tab (slice_slot slots storage_slice i))) [0..<storage_slice]"
  using assms spread_rounds_spec [of slots 0 storage_slice tab prefix "[]"]
  by (simp add: build_keys_prefix_name_slices_def slice_slot_def del: spread_rounds.simps)

lemma node_of_slot:
  assumes "node_ranges slots" "a < length slots" "b < length slots"
    "fst (slots ! a) \<le> s" "s \<le> snd (slots ! a)" "fst (slots ! b) \<le> s" "s \<le> snd (slots ! b)"
  shows "a = b"
proof (rule ccontr)
  assume "a \<noteq> b"
  then consider "a < b" | "b < a" by linarith
  then show False
  proof cases
    case 1
    then have "snd (slots ! a) < fst (slots ! b)" using assms(1,3) unfolding node_ranges_def by blast
    then show ?thesis using assms(5,6) by simp
  next
    case 2
    then have "snd (slots ! b) < fst (slots ! a)" using assms(1,2) unfolding node_ranges_def by blast
    then show ?thesis using assms(4,7) by simp
  qed
qed

lemma slice_slot_range:
  assumes "node_ranges slots" "slots \<noteq> []" "i < storage_slice"
  shows "fst (slots ! (i mod length slots)) \<le> slice_slot slots storage_slice i \<and>
    slice_slot slots storage_slice i \<le> snd (slots ! (i mod length slots))"
proof -
  have n: "0 < length slots" using assms(2) by simp
  have r: "fst (slots ! (i mod length slots)) \<le> snd (slots ! (i mod length slots))"
    "snd (slots ! (i mod length slots)) < 16384"
    using assms(1) n unfolding node_ranges_def by (meson mod_less_divisor nth_mem)+
  show ?thesis
    using spread_slot_range [OF r assms(3) n] r assms(2,3)
    by (auto simp: slice_slot_def slot_of_slice_def)
qed

lemma even_slots_bound:
  assumes "i < storage_slice" "storage_slice \<le> 16384"
  shows "16384 div storage_slice * i + 16384 mod storage_slice < (16384 :: nat)"
proof -
  have "0 < 16384 div storage_slice" using assms by (simp add: div_greater_zero_iff)
  then have "16384 div storage_slice * i < 16384 div storage_slice * storage_slice" using assms(1) by simp
  then show ?thesis using div_mult_mod_eq [of 16384 storage_slice] by linarith
qed

lemma slice_slot_bound:
  assumes "i < storage_slice" "storage_slice \<le> 16384" "node_ranges slots"
  shows "slice_slot slots storage_slice i < 16384"
proof (cases "slots = []")
  case True
  then show ?thesis using even_slots_bound [OF assms(1,2)] by (simp add: slice_slot_def)
next
  case False
  then have "slots ! (i mod length slots) \<in> set slots" by simp
  then show ?thesis
    using slice_slot_range [OF assms(3) False assms(1)] assms(3) unfolding node_ranges_def by fastforce
qed

lemma slice_slot_inj:
  assumes ranges: "node_ranges slots" and small: "storage_slice \<le> 16384"
    and room: "\<forall>r \<in> set slots. length slots < storage_slice \<longrightarrow> storage_slice \<le> (snd r - fst r) * length slots"
    and ij: "i < storage_slice" "j < storage_slice"
    and same: "slice_slot slots storage_slice i = slice_slot slots storage_slice j"
  shows "i = j"
proof (cases "slots = []")
  case True
  have "0 < 16384 div storage_slice" using small ij(1) by (simp add: div_greater_zero_iff)
  then show ?thesis using same True by (simp add: slice_slot_def)
next
  case False
  let ?n = "length slots"
  have n: "0 < ?n" using False by simp
  have node: "i mod ?n = j mod ?n"
    using node_of_slot [OF ranges, of "i mod ?n" "j mod ?n" "slice_slot slots storage_slice i"]
      slice_slot_range [OF ranges False ij(1)] slice_slot_range [OF ranges False ij(2)] n same by simp
  show ?thesis
  proof (cases "?n < storage_slice")
    case False
    then show ?thesis using node ij by simp
  next
    case True
    let ?r = "slots ! (j mod ?n)"
    have r: "?r \<in> set slots" using n by simp
    then have diff: "unat (of_nat (snd ?r) - of_nat (fst ?r) :: u32) = snd ?r - fst ?r"
      using ranges by (intro slot_word_diff) (auto simp: node_ranges_def)
    have "0 < (snd ?r - fst ?r) * ?n div storage_slice"
      using room r True ij(1) by (simp add: div_greater_zero_iff)
    moreover have "i div ?n * ((snd ?r - fst ?r) * ?n div storage_slice) =
        j div ?n * ((snd ?r - fst ?r) * ?n div storage_slice)"
      using same True False node diff
      by (simp add: slice_slot_def slot_of_slice_def spread_slot_def split_beta)
    ultimately have "i div ?n = j div ?n" by simp
    then show ?thesis using node by (metis div_mult_mod_eq)
  qed
qed

end
