(* ===== verification/Redis_Standalone.thy ===== *)
theory Redis_Standalone
  imports Redis_Cluster_Spec
begin

text \<open>
  The wrapper of a single Redis server (\<open>redis_connection_pool.hpp\<close>): one command for the whole
  batch, written through iterators into the reserved memory of the first bucket and sent with
  the number of its arguments.  It is compared with the cluster's wrapper on one slice.
\<close>

section \<open>Commands\<close>

text \<open>
  \<open>put_arg\<close> writes at the two iterators, which stand at the end of what has been written.
\<close>

definition put_arg :: "octets \<Rightarrow> bucket_context \<Rightarrow> bucket_context" where
  "put_arg p b = b\<lparr>ptrs := ptrs b @ [p], sizes := sizes b @ [length p]\<rparr>"

definition put_args :: "octets list \<Rightarrow> bucket_context \<Rightarrow> bucket_context" where
  "put_args ps b = fold put_arg ps b"

definition standalone_keys :: "'k key_ops \<Rightarrow> octets \<Rightarrow> octets \<Rightarrow> 'k list \<Rightarrow> bucket_context \<Rightarrow> bucket_context" where
  "standalone_keys K command name ks b =
     fold (\<lambda>k. put_arg (k_content K k)) ks (put_args [command, name] b)"

fun standalone_pairs ::
  "'k key_ops \<Rightarrow> 'v value_ops \<Rightarrow> nat \<Rightarrow> 'k list \<Rightarrow> 'v list \<Rightarrow> bucket_context \<Rightarrow> bucket_context" where
  "standalone_pairs K V velems [] pv b = b"
| "standalone_pairs K V velems (k # ks) pv b =
     standalone_pairs K V velems ks (drop velems pv)
       (put_args [k_content K k, v_content V (take velems pv)] b)"

definition set_bucket_0 :: "bucket_context \<Rightarrow> thread_context \<Rightarrow> thread_context" where
  "set_bucket_0 b tc = tc\<lparr>thread_buckets := (thread_buckets tc)[0 := b]\<rparr>"

text \<open>The arguments sent: \<open>argc\<close> of them.\<close>

definition send_args :: "nat \<Rightarrow> bucket_context \<Rightarrow> octets list" where
  "send_args argc b = take argc (bucket_args b)"

definition standalone_mget_command ::
  "'w redis_client \<Rightarrow> 'k key_ops \<Rightarrow> octets list \<Rightarrow> 'k list \<Rightarrow> nat \<Rightarrow> nat \<Rightarrow> thread_context
     \<Rightarrow> 'w \<Rightarrow> (thread_context \<times> reply option list) option" where
  "standalone_mget_command client K names keys begin_i max_i tc w =
     (case handle_reserve 1 tc of
        None \<Rightarrow> None
      | Some tc \<Rightarrow>
          let b = standalone_keys K (ascii ''HMGET'') (names ! 0) (drop begin_i (take max_i keys)) (thread_buckets tc ! 0)
          in Some (set_bucket_0 b tc,
               [case read_command client (send_args (max_i - begin_i + 2) b) w of
                  Inl e \<Rightarrow> None | Inr r \<Rightarrow> Some r]))"

definition standalone_write :: "'w redis_client \<Rightarrow> octets list \<Rightarrow> 'w \<Rightarrow> 'w \<times> status" where
  "standalone_write client args w =
     (case write_command client args w of (w, Inl e) \<Rightarrow> (w, Some e) | (w, Inr r) \<Rightarrow> (w, None))"

definition standalone_mset_command ::
  "'w redis_client \<Rightarrow> 'k key_ops \<Rightarrow> 'v value_ops \<Rightarrow> octets list \<Rightarrow> 'k list \<Rightarrow> 'v list \<Rightarrow> nat \<Rightarrow> nat
     \<Rightarrow> nat \<Rightarrow> thread_context \<Rightarrow> 'w \<Rightarrow> (thread_context \<times> 'w \<times> status) option" where
  "standalone_mset_command client K V names keys vals begin_i max_i velems tc w =
     (case handle_reserve 1 tc of
        None \<Rightarrow> None
      | Some tc \<Rightarrow>
          let b = standalone_pairs K V velems (drop begin_i (take max_i keys)) (drop (begin_i * velems) vals)
                    (put_args [ascii ''HMSET'', names ! 0] (thread_buckets tc ! 0))
          in Some (set_bucket_0 b tc,
               standalone_write client (send_args ((max_i - begin_i) * 2 + 2) b) w))"

definition standalone_maccum_command ::
  "'w redis_client \<Rightarrow> 'k key_ops \<Rightarrow> 'v value_ops \<Rightarrow> octets list \<Rightarrow> octets \<Rightarrow> 'k list \<Rightarrow> 'v list
     \<Rightarrow> bool list \<Rightarrow> nat \<Rightarrow> nat \<Rightarrow> nat \<Rightarrow> thread_context \<Rightarrow> 'w \<Rightarrow> (thread_context \<times> 'w \<times> status) option" where
  "standalone_maccum_command client K V names dtype_str keys vals exist begin_i max_i velems tc w =
     (case handle_reserve 1 tc of
        None \<Rightarrow> None
      | Some tc \<Rightarrow>
          let b = put_args [ascii ''HMACCUM'', names ! 0, dtype_str] (thread_buckets tc ! 0);
              b = standalone_pairs K V velems (drop begin_i (take max_i keys)) (drop (begin_i * velems) vals) b;
              b = put_arg (map of_bool (take (max_i - begin_i) (drop begin_i exist))) b
          in Some (set_bucket_0 b tc,
               standalone_write client (send_args ((max_i - begin_i) * 2 + 4) b) w))"

definition standalone_del_command ::
  "'w redis_client \<Rightarrow> 'k key_ops \<Rightarrow> octets list \<Rightarrow> 'k list \<Rightarrow> nat \<Rightarrow> nat \<Rightarrow> thread_context
     \<Rightarrow> 'w \<Rightarrow> (thread_context \<times> 'w \<times> status) option" where
  "standalone_del_command client K names keys begin_i max_i tc w =
     (case handle_reserve 1 tc of
        None \<Rightarrow> None
      | Some tc \<Rightarrow>
          let b = standalone_keys K (ascii ''HDEL'') (names ! 0) (drop begin_i (take max_i keys)) (thread_buckets tc ! 0)
          in Some (set_bucket_0 b tc, standalone_write client (send_args (max_i - begin_i + 2) b) w))"

section \<open>Replies\<close>

definition standalone_row ::
  "'v value_ops \<Rightarrow> 'v list \<Rightarrow> bool \<Rightarrow> nat \<Rightarrow> reply option \<Rightarrow> nat \<Rightarrow> nat \<Rightarrow> 'v list \<Rightarrow> 'v list" where
  "standalone_row V dft is_full velems answer i j vals =
     (case answer of
        Some (Reply_array es) \<Rightarrow>
          (case es ! i of
             Reply_string str \<Rightarrow> write_at (j * velems) (v_restore V velems str) vals
           | _ \<Rightarrow> copy_default_to_tensor is_full dft velems j vals)
      | Some _ \<Rightarrow> vals
      | None \<Rightarrow> copy_default_to_tensor is_full dft velems j vals)"

definition standalone_mget_to_tensor ::
  "'v value_ops \<Rightarrow> 'v list \<Rightarrow> 'v list \<Rightarrow> bool \<Rightarrow> reply option list \<Rightarrow> nat \<Rightarrow> nat \<Rightarrow> nat \<Rightarrow> 'v list" where
  "standalone_mget_to_tensor V vals dft is_full replies begin_i max_i velems =
     fold (\<lambda>i. standalone_row V dft is_full velems (replies ! 0) i (begin_i + i)) [0..<max_i - begin_i] vals"

definition standalone_row_exists ::
  "'v value_ops \<Rightarrow> 'v list \<Rightarrow> bool \<Rightarrow> nat \<Rightarrow> reply option \<Rightarrow> nat \<Rightarrow> nat \<Rightarrow> 'v list \<times> bool list
     \<Rightarrow> 'v list \<times> bool list" where
  "standalone_row_exists V dft is_full velems answer i j s =
     (case s of (vals, exist) \<Rightarrow>
       (case answer of
          Some (Reply_array es) \<Rightarrow>
            (case es ! i of
               Reply_string str \<Rightarrow>
                 (write_at (j * velems) (v_restore V velems str) vals, exist[j := True])
             | _ \<Rightarrow> (copy_default_to_tensor is_full dft velems j vals, exist[j := False]))
        | Some _ \<Rightarrow> (vals, exist)
        | None \<Rightarrow> (copy_default_to_tensor is_full dft velems j vals, exist[j := False])))"

definition standalone_mget_to_tensor_with_exist ::
  "'v value_ops \<Rightarrow> 'v list \<Rightarrow> 'v list \<Rightarrow> bool list \<Rightarrow> bool \<Rightarrow> reply option list \<Rightarrow> nat \<Rightarrow> nat \<Rightarrow> nat
     \<Rightarrow> 'v list \<times> bool list" where
  "standalone_mget_to_tensor_with_exist V vals dft exist is_full replies begin_i max_i velems =
     fold (\<lambda>i. standalone_row_exists V dft is_full velems (replies ! 0) i (begin_i + i))
       [0..<max_i - begin_i] (vals, exist)"

section \<open>The same commands as a cluster's with one slice\<close>

lemma put_args_spec:
  assumes "length (ptrs b) = length (sizes b)"
  shows "bucket_args (put_args ps b) = bucket_args b @ ps \<and>
    length (ptrs (put_args ps b)) = length (sizes (put_args ps b))"
  using assms
proof (induction ps arbitrary: b)
  case (Cons p ps)
  have "length (ptrs (put_arg p b)) = length (sizes (put_arg p b))"
    "bucket_args (put_arg p b) = bucket_args b @ [p]"
    using Cons.prems by (simp_all add: put_arg_def bucket_args_def)
  then show ?case using Cons.IH [of "put_arg p b"] by (simp add: put_args_def)
qed (simp add: put_args_def)

lemma put_args_append: "put_args qs (put_args ps b) = put_args (ps @ qs) b"
  by (simp add: put_args_def)

lemma standalone_keys_args: "standalone_keys K command name ks b = put_args (command # name # map (k_content K) ks) b"
  by (simp add: standalone_keys_def put_args_def fold_map comp_def)

lemma standalone_pairs_args:
  "standalone_pairs K V velems ks pv b =
     put_args (flat_pairs (map (\<lambda>(k, r). (k_content K k, v_content V r)) (zip ks (row_view velems (length ks) pv)))) b"
proof (induction ks arbitrary: pv b)
  case Nil
  then show ?case by (simp add: put_args_def flat_pairs_def)
next
  case (Cons k ks)
  then show ?case by (simp add: row_view_Suc put_args_append flat_pairs_def)
qed

lemma new_bucket_args [simp]: "bucket_args new_bucket_context = []" "length (ptrs new_bucket_context) = length (sizes new_bucket_context)"
  by (simp_all add: bucket_args_def new_bucket_context_def)

lemma put_args_new: "bucket_args (put_args ps new_bucket_context) = ps"
  using put_args_spec [of new_bucket_context ps] by simp

lemma one_slice:
  assumes "slices_ok K 1 names"
  shows "bucket_of K 1 k = 0" "filter (\<lambda>k. bucket_of K 1 k = 0) ks = ks" "pairs_of K V 1 kvs 0 = map (\<lambda>(k, r). (k_content K k, v_content V r)) kvs"
proof -
  show zero: "bucket_of K 1 k = 0" for k using assms by (simp add: slices_ok_def)
  show "filter (\<lambda>k. bucket_of K 1 k = 0) ks = ks" unfolding zero by simp
  show "pairs_of K V 1 kvs 0 = map (\<lambda>(k, r). (k_content K k, v_content V r)) kvs"
    unfolding pairs_of_def zero by simp
qed

lemma reserve_one:
  "length (thread_buckets tc) \<le> 1 \<Longrightarrow> handle_reserve (Suc 0) tc = Some (tc\<lparr>thread_buckets := [new_bucket_context]\<rparr>)"
  using handle_reserve_spec [of tc 1] by simp

text \<open>
  On one slice and a batch that is not empty, a cluster's buckets hold the very arguments the
  single server is sent.
\<close>

lemma standalone_mget_args:
  assumes "slices_ok K 1 names" "length (thread_buckets tc) \<le> 1" "b < e" "e \<le> length keys"
  shows "\<exists>tc1 tc2 answer. standalone_mget_command client K names keys b e tc w = Some (tc1, [answer]) \<and>
    mget_command client K 1 names keys b e tc w = Some (tc2, [answer])"
proof -
  let ?ks = "drop b (take e keys)"
  obtain tc2 where fill: "mget_fill K 1 names keys b e tc = Some tc2" and tidy: "tidy 1 tc2"
    and args: "commands tc2 ! 0 = ascii ''HMGET'' # names ! 0 # map (k_content K) ?ks"
    using mget_fill_spec [OF assms(1,2), of keys b e] one_slice(2) [OF assms(1)] by auto
  have bucket: "bucket_args (thread_buckets tc2 ! 0) = ascii ''HMGET'' # names ! 0 # map (k_content K) ?ks"
    using args tidy by (simp add: commands_def tidy_def)
  have "length (ptrs (thread_buckets tc2 ! 0)) = length (bucket_args (thread_buckets tc2 ! 0))"
    using tidy by (simp add: tidy_def bucket_args_def)
  then have many: "3 \<le> length (ptrs (thread_buckets tc2 ! 0))" using bucket assms(3,4) by simp
  have "standalone_mget_command client K names keys b e tc w =
      Some (set_bucket_0 (put_args (ascii ''HMGET'' # names ! 0 # map (k_content K) ?ks) new_bucket_context)
        (tc\<lparr>thread_buckets := replicate 1 new_bucket_context\<rparr>),
      [case read_command client (ascii ''HMGET'' # names ! 0 # map (k_content K) ?ks) w of
         Inl e \<Rightarrow> None | Inr r \<Rightarrow> Some r])"
    using assms(4)
    by (simp add: standalone_mget_command_def reserve_one [OF assms(2)] standalone_keys_args
        send_args_def put_args_new)
  moreover have "mget_command client K 1 names keys b e tc w = Some (tc2,
      [case read_command client (ascii ''HMGET'' # names ! 0 # map (k_content K) ?ks) w of
         Inl e \<Rightarrow> None | Inr r \<Rightarrow> Some r])"
    using many by (simp add: mget_command_def fill [unfolded One_nat_def] pipe_exec_read_def bucket)
  ultimately show ?thesis by blast
qed

lemma send_one:
  assumes "sz \<le> length (ptrs b)" "bucket_args b = args"
  shows "send_buckets client sz [b] (w, None) = (case standalone_write client args w of (w, st) \<Rightarrow> ((w, None), st))"
  using assms
  by (auto simp: send_buckets_def pipe_exec_write_def standalone_write_def split: prod.splits sum.splits)

lemma standalone_mset_args:
  assumes "slices_ok K 1 names" "length (thread_buckets tc) \<le> 1" "b < e" "e \<le> length keys"
  shows "\<exists>tc1 tc2 w' st. standalone_mset_command client K V names keys vals b e d tc w = Some (tc1, w', st) \<and>
    mset_command client K V [0] 1 names keys vals b e d tc (w, None) = Some (tc2, (w', None), st)"
proof -
  let ?args = "ascii ''HMSET'' # names ! 0 #
    flat_pairs (map (\<lambda>(k, r). (k_content K k, v_content V r)) (batch_rows d b e keys vals))"
  obtain tc2 where fill: "mset_fill K V 1 names keys vals b e d tc = Some tc2" and tidy: "tidy 1 tc2"
    and args: "commands tc2 ! 0 = ?args"
    using mset_fill_spec [OF assms(1,2), of V keys vals b e d] one_slice(3) [OF assms(1), of V] by auto
  have bucket: "bucket_args (thread_buckets tc2 ! 0) = ?args"
    using args tidy by (simp add: commands_def tidy_def)
  have len: "length (batch_rows d b e keys vals) = e - b"
    using assms(4) by (simp add: batch_rows_def Let_def)
  have pairs: "length (flat_pairs kvs) = 2 * length kvs" for kvs :: "(octets \<times> octets) list"
    by (induction kvs) (auto simp: flat_pairs_def)
  have "length (ptrs (thread_buckets tc2 ! 0)) = length (bucket_args (thread_buckets tc2 ! 0))"
    using tidy by (simp add: tidy_def bucket_args_def)
  then have many: "4 \<le> length (ptrs (thread_buckets tc2 ! 0))" using bucket len pairs assms(3) by simp
  obtain w' st where w': "standalone_write client ?args w = (w', st)" by fastforce
  have "standalone_mset_command client K V names keys vals b e d tc w =
      Some (set_bucket_0 (put_args ?args new_bucket_context) (tc\<lparr>thread_buckets := replicate 1 new_bucket_context\<rparr>),
        standalone_write client ?args w)"
    using len pairs
    by (simp add: standalone_mset_command_def reserve_one [OF assms(2)] standalone_pairs_args
        put_args_append send_args_def put_args_new Let_def batch_rows_def)
  moreover have "mset_command client K V [0] 1 names keys vals b e d tc (w, None) = Some (tc2, (w', None), st)"
    using send_one [OF many bucket, of client w] w' by (simp add: mset_command_def fill [unfolded One_nat_def])
  ultimately show ?thesis using w' by auto
qed

lemma standalone_del_args:
  assumes "slices_ok K 1 names" "length (thread_buckets tc) \<le> 1" "b < e" "e \<le> length keys"
  shows "\<exists>tc1 tc2 w' st. standalone_del_command client K names keys b e tc w = Some (tc1, w', st) \<and>
    del_command client K [0] 1 names keys b e tc (w, None) = Some (tc2, (w', None), st)"
proof -
  let ?ks = "drop b (take e keys)"
  let ?args = "ascii ''HDEL'' # names ! 0 # map (k_content K) ?ks"
  obtain tc2 where fill: "del_fill K 1 names keys b e tc = Some tc2" and tidy: "tidy 1 tc2"
    and args: "commands tc2 ! 0 = ?args"
    using del_fill_spec [OF assms(1,2), of keys b e] one_slice(2) [OF assms(1)] by auto
  have bucket: "bucket_args (thread_buckets tc2 ! 0) = ?args"
    using args tidy by (simp add: commands_def tidy_def)
  have "length (ptrs (thread_buckets tc2 ! 0)) = length (bucket_args (thread_buckets tc2 ! 0))"
    using tidy by (simp add: tidy_def bucket_args_def)
  then have many: "3 \<le> length (ptrs (thread_buckets tc2 ! 0))" using bucket assms(3,4) by simp
  obtain w' st where w': "standalone_write client ?args w = (w', st)" by fastforce
  have "standalone_del_command client K names keys b e tc w =
      Some (set_bucket_0 (put_args ?args new_bucket_context) (tc\<lparr>thread_buckets := replicate 1 new_bucket_context\<rparr>),
        standalone_write client ?args w)"
    using assms(4)
    by (simp add: standalone_del_command_def reserve_one [OF assms(2)] standalone_keys_args
        send_args_def put_args_new)
  moreover have "del_command client K [0] 1 names keys b e tc (w, None) = Some (tc2, (w', None), st)"
    using send_one [OF many bucket, of client w] w' by (simp add: del_command_def fill [unfolded One_nat_def])
  ultimately show ?thesis using w' by auto
qed

text \<open>Putting the replies back needs no counting with one slice.\<close>

lemma standalone_row_step:
  assumes "(\<exists>es. answer = Some (Reply_array es)) \<longrightarrow> n = i"
  shows "\<exists>n'. mget_row V dft is_full d [answer] 0 row ([n], vals) =
      ([n'], standalone_row V dft is_full d answer i row vals) \<and>
    ((\<exists>es. answer = Some (Reply_array es)) \<longrightarrow> n' = Suc i)"
proof (cases answer)
  case (Some r)
  then show ?thesis using assms by (cases r) (auto simp: standalone_row_def split: reply.splits)
qed (simp add: standalone_row_def)

lemma standalone_rows:
  assumes "\<And>i. i < m \<Longrightarrow> bucket_locs tc ! i = 0"
  shows "\<exists>n. fold (\<lambda>i. mget_row V dft is_full d [answer] (unat (bucket_locs tc ! i)) (b + i)) [0..<m] ([0], vals) =
      ([n], fold (\<lambda>i. standalone_row V dft is_full d answer i (b + i)) [0..<m] vals) \<and>
    ((\<exists>es. answer = Some (Reply_array es)) \<longrightarrow> n = m)"
  using assms
proof (induction m)
  case (Suc m)
  define vals' where "vals' = fold (\<lambda>i. standalone_row V dft is_full d answer i (b + i)) [0..<m] vals"
  obtain n where n: "fold (\<lambda>i. mget_row V dft is_full d [answer] (unat (bucket_locs tc ! i)) (b + i)) [0..<m] ([0], vals) =
      ([n], vals')" "(\<exists>es. answer = Some (Reply_array es)) \<longrightarrow> n = m"
    using Suc.IH Suc.prems unfolding vals'_def by auto
  have loc: "unat (bucket_locs tc ! m) = 0" using Suc.prems [of m] by simp
  show ?case
    using standalone_row_step [OF n(2), of V dft is_full d "b + m" vals']
    by (simp only: upt_Suc fold_append fold_simps comp_def n(1) loc vals'_def [symmetric] if_True le0)
qed simp

end
