(* ===== verification/Redis_Export_Spec.thy ===== *)
theory Redis_Export_Spec
  imports Redis_Table_Spec
begin

text \<open>
  Exporting a Redis table to tensors by scanning its slices: what comes out when every scan
  returns each pair once, and what happens when a scan returns a pair again.
\<close>

section \<open>Scans\<close>

text \<open>
  The replies of a scan from a cursor on, as the batches of pairs they hold.  Batches before
  the last have at least one pair, which the code takes for granted.
\<close>

fun scan_chain ::
  "'w redis_client \<Rightarrow> redis_table \<Rightarrow> octets \<Rightarrow> 'w \<Rightarrow> int \<Rightarrow> (octets \<times> octets) list list \<Rightarrow> bool" where
  "scan_chain client t name w cursor [] = False"
| "scan_chain client t name w cursor [kvs] =
     (hscan_get_keys_vals_in_bucket client name cursor (max_argc t) w =
        Some (0, Reply_array (map Reply_string (flat_pairs kvs))))"
| "scan_chain client t name w cursor (kvs # kvs' # rest) =
     (kvs \<noteq> [] \<and> (case hscan_get_keys_vals_in_bucket client name cursor (max_argc t) w of
        Some (c, r) \<Rightarrow> c \<noteq> 0 \<and> r = Reply_array (map Reply_string (flat_pairs kvs)) \<and>
          scan_chain client t name w c (kvs' # rest)
      | None \<Rightarrow> False))"

definition scans_once ::
  "'w redis_client \<Rightarrow> ('w \<Rightarrow> octets \<Rightarrow> octets \<Rightarrow> octets option) \<Rightarrow> redis_table \<Rightarrow> 'w \<Rightarrow> bool" where
  "scans_once client view t w \<longleftrightarrow> (\<forall>name \<in> set (slice_names t). \<exists>batches.
     scan_chain client t name w 0 batches \<and> distinct (map fst (concat batches)) \<and>
     set (concat batches) = Map.graph (view w name))"

text \<open>The rows are as wide as the table's dimension.\<close>

definition rows_of_length :: "nat option \<Rightarrow> ('a \<times> octets) list \<Rightarrow> bool" where
  "rows_of_length row_bytes kvs \<longleftrightarrow> (case row_bytes of None \<Rightarrow> True | Some n \<Rightarrow> \<forall>p \<in> set kvs. length (snd p) = n)"

lemma write_at_write_at:
  assumes "pos + length xs \<le> length mem"
  shows "write_at (pos + length xs) ys (write_at pos xs mem) = write_at pos (xs @ ys) mem"
  using assms by (simp add: write_at_def add.assoc add.left_commute add.commute)

lemma write_at_Nil [simp]: "write_at pos [] mem = mem"
  by (simp add: write_at_def)

lemma list_update_write_at: "j < length xs \<Longrightarrow> xs[j := x] = write_at j [x] xs"
  by (simp add: write_at_def upd_conv_take_nth_drop)

lemma copy_batch_spec:
  assumes "value_ok V" "j + length kvs \<le> length keys" "length vals = length keys * d"
  shows "copy_batch from_key V d (map Reply_string (flat_pairs kvs)) (j, keys, vals) =
    Inr (j + length kvs, write_at j (map (from_key \<circ> fst) kvs) keys,
         write_at (j * d) (concat (map (v_restore V d \<circ> snd) kvs)) vals)"
  using assms(2,3)
proof (induction kvs arbitrary: j keys vals)
  case (Cons p kvs)
  obtain f v where p: "p = (f, v)" by (cases p)
  have j: "j < length keys" using Cons.prems(1) by simp
  have row: "length (v_restore V d v) = d" using assms(1) by (simp add: value_ok_def)
  have "Suc j * d \<le> length keys * d" using j by (intro mult_le_mono1) simp
  then have room: "j * d + length (v_restore V d v) \<le> length vals" using Cons.prems(2) row by simp
  have step: "copy_batch from_key V d (map Reply_string (flat_pairs (p # kvs))) (j, keys, vals) =
      copy_batch from_key V d (map Reply_string (flat_pairs kvs))
        (Suc j, write_at j [from_key f] keys, write_at (j * d) (v_restore V d v) vals)"
    using j by (simp add: p list_update_write_at)
  have len: "length (write_at j [from_key f] keys) = length keys"
    "length (write_at (j * d) (v_restore V d v) vals) = length vals"
    using j room by (simp_all add: length_write_at)
  have "Suc j * d = j * d + length (v_restore V d v)" using row by simp
  then show ?case
    unfolding step using Cons.prems len
      write_at_write_at [of j "[from_key f]" keys "map (from_key \<circ> fst) kvs"]
      write_at_write_at [OF room, of "concat (map (v_restore V d \<circ> snd) kvs)"]
    by (subst Cons.IH) (simp_all add: p add.commute)
qed simp

lemma check_dimension_spec:
  "kvs \<noteq> [] \<Longrightarrow> rows_of_length row_bytes kvs \<Longrightarrow>
     check_dimension row_bytes (map Reply_string (flat_pairs kvs)) = None"
  by (cases kvs; cases row_bytes) (auto simp: check_dimension_def rows_of_length_def)

lemma export_slice_spec:
  assumes "scan_chain client t name w cursor batches" "rows_of_length row_bytes (concat batches)"
    "value_ok V" "j + length (concat batches) \<le> length keys" "length vals = length keys * runtime_value_dim t"
  shows "export_slice client from_key V row_bytes t name w cursor (j, keys, vals) =
    Some (Inr (j + length (concat batches), write_at j (map (from_key \<circ> fst) (concat batches)) keys,
      write_at (j * runtime_value_dim t) (concat (map (v_restore V (runtime_value_dim t) \<circ> snd) (concat batches))) vals))"
  using assms(1,2,4,5)
proof (induction client t name w cursor batches arbitrary: j keys vals rule: scan_chain.induct)
  case (2 client t name w cursor kvs)
  show ?case
  proof (cases "kvs = []")
    case True
    then show ?thesis using 2 by (subst export_slice.simps) simp
  next
    case False
    then have "\<not> length (flat_pairs kvs) < 2" by (cases kvs) (auto simp: length_flat_pairs)
    moreover have "check_dimension row_bytes (map Reply_string (flat_pairs kvs)) = None"
      using check_dimension_spec [OF False] 2 by simp
    ultimately show ?thesis
      using 2 copy_batch_spec [OF assms(3), of j kvs keys vals "runtime_value_dim t" from_key]
      by (subst export_slice.simps) simp
  qed
next
  case (3 client t name w cursor kvs kvs' rest)
  let ?d = "runtime_value_dim t" and ?more = "concat (kvs' # rest)"
  obtain c where c: "hscan_get_keys_vals_in_bucket client name cursor (max_argc t) w =
      Some (c, Reply_array (map Reply_string (flat_pairs kvs)))" "c \<noteq> 0"
      "scan_chain client t name w c (kvs' # rest)" and kvs: "kvs \<noteq> []"
    using "3.prems"(1) by (auto split: option.splits prod.splits)
  have fit: "rows_of_length row_bytes kvs" "rows_of_length row_bytes ?more"
    using "3.prems"(2) by (auto simp: rows_of_length_def split: option.splits)
  have check: "check_dimension row_bytes (map Reply_string (flat_pairs kvs)) = None"
    using check_dimension_spec [OF kvs fit(1)] .
  let ?keys = "write_at j (map (from_key \<circ> fst) kvs) keys"
    and ?vals = "write_at (j * ?d) (concat (map (v_restore V ?d \<circ> snd) kvs)) vals"
  have copied: "length (concat (map (v_restore V ?d \<circ> snd) kvs)) = length kvs * ?d"
    using assms(3) by (induction kvs) (simp_all add: value_ok_def)
  have "(j + length kvs) * ?d \<le> length keys * ?d"
    using "3.prems"(3) by (intro mult_le_mono1) simp
  then have room: "j * ?d + length (concat (map (v_restore V ?d \<circ> snd) kvs)) \<le> length vals"
    using "3.prems"(4) copied by (simp add: add_mult_distrib)
  have len: "length ?keys = length keys" "length ?vals = length keys * ?d"
    using "3.prems"(3,4) room by (simp_all add: length_write_at)
  have "export_slice client from_key V row_bytes t name w cursor (j, keys, vals) =
      export_slice client from_key V row_bytes t name w c (j + length kvs, ?keys, ?vals)"
    using c check kvs copy_batch_spec [OF assms(3), of j kvs keys vals ?d from_key] "3.prems"(3,4)
    by (subst export_slice.simps) simp
  also have "\<dots> = Some (Inr (j + length kvs + length ?more,
      write_at (j + length kvs) (map (from_key \<circ> fst) ?more) ?keys,
      write_at ((j + length kvs) * ?d) (concat (map (v_restore V ?d \<circ> snd) ?more)) ?vals))"
    using "3.IH" [OF c(1) refl c(3) fit(2), of "j + length kvs" ?keys ?vals] "3.prems"(3) len
    by (simp add: comp_def)
  also have "write_at (j + length kvs) (map (from_key \<circ> fst) ?more) ?keys =
      write_at j (map (from_key \<circ> fst) (concat (kvs # kvs' # rest))) keys"
    using write_at_write_at [of j "map (from_key \<circ> fst) kvs" keys] "3.prems"(3) by simp
  also have "write_at ((j + length kvs) * ?d) (concat (map (v_restore V ?d \<circ> snd) ?more)) ?vals =
      write_at (j * ?d) (concat (map (v_restore V ?d \<circ> snd) (concat (kvs # kvs' # rest)))) vals"
    using write_at_write_at [OF room] copied by (simp add: add_mult_distrib)
  finally show ?case by (simp add: add.assoc comp_def)
qed simp

section \<open>The export\<close>

lemma export_slices_spec:
  assumes "\<And>name. name \<in> set names \<Longrightarrow> scan_chain client t name w 0 (b name) \<and>
      rows_of_length row_bytes (concat (b name))"
    "value_ok V" "j + length (concat (map (concat \<circ> b) names)) \<le> length keys"
    "length vals = length keys * runtime_value_dim t"
  shows "export_slices client from_key V row_bytes t names w (j, keys, vals) =
    Some (Inr (j + length (concat (map (concat \<circ> b) names)),
      write_at j (map (from_key \<circ> fst) (concat (map (concat \<circ> b) names))) keys,
      write_at (j * runtime_value_dim t)
        (concat (map (v_restore V (runtime_value_dim t) \<circ> snd) (concat (map (concat \<circ> b) names)))) vals))"
  using assms(1,3,4)
proof (induction names arbitrary: j keys vals)
  case (Cons name names)
  let ?d = "runtime_value_dim t" and ?kvs = "concat (b name)"
  let ?keys = "write_at j (map (from_key \<circ> fst) ?kvs) keys"
    and ?rows = "concat (map (v_restore V ?d \<circ> snd) ?kvs)"
  have copied: "length (concat (map (v_restore V ?d \<circ> snd) kvs)) = length kvs * ?d" for kvs :: "(octets \<times> octets) list"
    using assms(2) by (induction kvs) (simp_all add: value_ok_def)
  have "(j + length ?kvs) * ?d \<le> length keys * ?d"
    using Cons.prems(2) by (intro mult_le_mono1) simp
  then have room: "j * ?d + length ?rows \<le> length vals"
    using Cons.prems(3) copied [of ?kvs] by (simp add: add_mult_distrib)
  have one: "export_slice client from_key V row_bytes t name w 0 (j, keys, vals) =
      Some (Inr (j + length ?kvs, ?keys, write_at (j * ?d) ?rows vals))"
    using Cons.prems by (intro export_slice_spec assms(2)) auto
  have len: "length ?keys = length keys" "length (write_at (j * ?d) ?rows vals) = length keys * ?d"
    using Cons.prems(2,3) room by (simp_all add: length_write_at)
  have "export_slices client from_key V row_bytes t (name # names) w (j, keys, vals) =
      export_slices client from_key V row_bytes t names w (j + length ?kvs, ?keys, write_at (j * ?d) ?rows vals)"
    by (simp add: one)
  also have "\<dots> = Some (Inr (j + length ?kvs + length (concat (map (concat \<circ> b) names)),
      write_at (j + length ?kvs) (map (from_key \<circ> fst) (concat (map (concat \<circ> b) names))) ?keys,
      write_at ((j + length ?kvs) * ?d)
        (concat (map (v_restore V ?d \<circ> snd) (concat (map (concat \<circ> b) names)))) (write_at (j * ?d) ?rows vals)))"
    using Cons.prems len by (intro Cons.IH) auto
  also have "write_at (j + length ?kvs) (map (from_key \<circ> fst) (concat (map (concat \<circ> b) names))) ?keys =
      write_at j (map (from_key \<circ> fst) (concat (map (concat \<circ> b) (name # names)))) keys"
    using write_at_write_at [of j "map (from_key \<circ> fst) ?kvs" keys] Cons.prems(2) by simp
  also have "write_at ((j + length ?kvs) * ?d)
        (concat (map (v_restore V ?d \<circ> snd) (concat (map (concat \<circ> b) names)))) (write_at (j * ?d) ?rows vals) =
      write_at (j * ?d) (concat (map (v_restore V ?d \<circ> snd) (concat (map (concat \<circ> b) (name # names))))) vals"
    using write_at_write_at [OF room] copied [of ?kvs] by (simp add: add_mult_distrib)
  finally show ?case by (simp add: add.assoc comp_def)
qed simp

lemma write_at_whole: "length xs = n \<Longrightarrow> write_at 0 xs (replicate n a) = xs"
  by (simp add: write_at_def)

lemma card_graph: "card (Map.graph m) = card (dom m)"
proof -
  have "Map.graph m = (\<lambda>x. (x, the (m x))) ` dom m" by (auto simp: Map.graph_def image_iff)
  moreover have "inj_on (\<lambda>x. (x, the (m x))) (dom m)" by (auto intro: inj_onI)
  ultimately show ?thesis by (simp add: card_image)
qed

text \<open>
  The pairs that the scans of the slices return are the pairs of the table, each once.
\<close>

lemma scanned_pairs:
  assumes ok: "redis_ok K t" "in_own_slice K t view w"
    and fin: "\<forall>i < storage_slice t. finite (dom (view w (slice_names t ! i)))"
    and scans: "scans_once client view t w"
  shows "\<exists>b all. (\<forall>name \<in> set (slice_names t). scan_chain client t name w 0 (b name)) \<and>
    all = concat (map (concat \<circ> b) (slice_names t)) \<and>
    length all = card (dom (table_view K t view w)) \<and> distinct (map fst all) \<and>
    set all = {(k_content K k, v) |k v. table_view K t view w k = Some v} \<and>
    (\<forall>(f, v) \<in> set all. \<exists>name \<in> set (slice_names t). view w name f = Some v)"
proof -
  let ?names = "slice_names t" and ?n = "storage_slice t"
  have len: "length ?names = ?n" and inj: "inj (k_content K)" and range: "\<And>k. bucket_of K ?n k < ?n"
    using ok(1) by (simp_all add: redis_ok_def slices_ok_def)
  obtain b where b: "\<And>name. name \<in> set ?names \<Longrightarrow> scan_chain client t name w 0 (b name) \<and>
      distinct (map fst (concat (b name))) \<and> set (concat (b name)) = Map.graph (view w name)"
    using scans unfolding scans_once_def by metis
  define all where "all = concat (map (concat \<circ> b) ?names)"
  have "length (concat (b name)) = card (dom (view w name))" if "name \<in> set ?names" for name
    using b [OF that] by (metis card_graph distinct_card distinct_map length_map)
  then have total: "length all = card (dom (table_view K t view w))"
    using card_table(1) [OF ok(1,2) fin] by (simp add: all_def length_concat comp_def cong: map_cong)
  have at: "(f, v) \<in> set all \<longleftrightarrow> (\<exists>name \<in> set ?names. view w name f = Some v)" for f v
    using b unfolding all_def by (auto simp: Map.graph_def set_eq_iff)
  have pairs: "set all = {(k_content K k, v) |k v. table_view K t view w k = Some v}"
  proof (intro equalityI subsetI)
    fix x assume x: "x \<in> set all"
    obtain f v where fv: "x = (f, v)" by (cases x)
    then obtain i where i: "i < ?n" "view w (?names ! i) f = Some v"
      using x at len by (metis in_set_conv_nth)
    then obtain k where "f = k_content K k" "bucket_of K ?n k = i"
      using ok(2) unfolding in_own_slice_def by blast
    then show "x \<in> {(k_content K k, v) |k v. table_view K t view w k = Some v}"
      using i(2) fv by (auto simp: table_view_def)
  next
    fix x assume "x \<in> {(k_content K k, v) |k v. table_view K t view w k = Some v}"
    then obtain k v where x: "x = (k_content K k, v)"
      "view w (?names ! bucket_of K ?n k) (k_content K k) = Some v" by (auto simp: table_view_def)
    moreover have "?names ! bucket_of K ?n k \<in> set ?names" using range len by simp
    ultimately show "x \<in> set all" unfolding x(1) at by blast
  qed
  have "fst ` set all = k_content K ` dom (table_view K t view w)"
    unfolding pairs by (force simp: image_iff)
  then have "card (set (map fst all)) = length (map fst all)"
    using total inj by (simp add: card_image inj_on_subset)
  then have "distinct (map fst all)" by (rule card_distinct)
  then show ?thesis using b total pairs at all_def by (intro exI [of _ b] exI [of _ all]) auto
qed

lemma export_spec:
  assumes ok: "redis_ok K t" "in_own_slice K t view w" "\<forall>name \<in> set (slice_names t). plain_name name"
    and fin: "\<forall>i < storage_slice t. finite (dom (view w (slice_names t ! i)))"
    and hlen: "answers_hlen client view" and scans: "scans_once client view t w" and V: "value_ok V"
    and fit: "\<And>name f v. name \<in> set (slice_names t) \<Longrightarrow> view w name f = Some v \<Longrightarrow> rows_of_length row_bytes [(f, v)]"
    and inverse: "\<And>k. from_key (k_content K k) = k" and small: "card (dom (table_view K t view w)) < 2 ^ 64"
  shows "\<exists>ks rows. export_values_to_tensor client from_key k0 V v0 row_bytes t w = Some (Inr (ks, concat rows)) \<and>
    length rows = length ks \<and> distinct ks \<and>
    set (zip ks rows) = {(k, v_restore V (runtime_value_dim t) v) |k v. table_view K t view w k = Some v}"
proof -
  let ?names = "slice_names t" and ?d = "runtime_value_dim t"
  obtain b all where sp: "(\<forall>name \<in> set ?names. scan_chain client t name w 0 (b name)) \<and>
    all = concat (map (concat \<circ> b) ?names) \<and>
    length all = card (dom (table_view K t view w)) \<and> distinct (map fst all) \<and>
    set all = {(k_content K k, v) |k v. table_view K t view w k = Some v} \<and>
    (\<forall>(f, v) \<in> set all. \<exists>name \<in> set ?names. view w name f = Some v)"
    using scanned_pairs [OF ok(1,2) fin scans] by (elim exE) (rule that)
  then have b: "\<And>name. name \<in> set ?names \<Longrightarrow> scan_chain client t name w 0 (b name)"
    and all: "all = concat (map (concat \<circ> b) ?names)" and total: "length all = card (dom (table_view K t view w))"
    and once: "distinct (map fst all)" and pairs: "set all = {(k_content K k, v) |k v. table_view K t view w k = Some v}"
    by blast+
  have from_slice: "\<exists>name \<in> set ?names. view w name f = Some v" if "(f, v) \<in> set all" for f v
    using sp that by blast
  have size: "size_loop client ?names 0 w = Inr (of_nat (length all))"
    using size_loop_spec [OF hlen ok(3), of 0 w] card_table(1) [OF ok(1,2) fin] total by simp
  have unat: "unat (of_nat (length all) :: u64) = length all"
    using small total by (simp add: unat_of_nat_less)
  have "rows_of_length row_bytes [(f, v)]" if "(f, v) \<in> set all" for f v
    using from_slice [OF that] fit by blast
  then have fits: "rows_of_length row_bytes (concat (b name))" if "name \<in> set ?names" for name
    using that unfolding all by (cases row_bytes) (force simp: rows_of_length_def)+
  have copied: "length (concat (map (v_restore V ?d \<circ> snd) kvs)) = length kvs * ?d" for kvs :: "(octets \<times> octets) list"
    using V by (induction kvs) (simp_all add: value_ok_def)
  let ?ks = "map (from_key \<circ> fst) all" and ?rows = "map (v_restore V ?d \<circ> snd) all"
  have out: "export_values_to_tensor client from_key k0 V v0 row_bytes t w = Some (Inr (?ks, concat ?rows))"
  proof (cases "all = []")
    case True
    then have "size_loop client ?names 0 w = Inr 0" using size by simp
    then show ?thesis by (simp add: True export_values_to_tensor_def)
  next
    case False
    then have nz: "(of_nat (length all) :: u64) \<noteq> 0" using unat by (metis length_0_conv unsigned_0)
    have "export_slices client from_key V row_bytes t ?names w
        (0, replicate (length all) k0, replicate (length all * ?d) v0) =
      Some (Inr (0 + length all, write_at 0 ?ks (replicate (length all) k0),
        write_at (0 * ?d) (concat ?rows) (replicate (length all * ?d) v0)))"
      unfolding all using b fits by (intro export_slices_spec V) auto
    then show ?thesis
      using nz size unat by (simp add: export_values_to_tensor_def write_at_whole copied Let_def)
  qed
  have "inj_on from_key (fst ` set all)"
    unfolding pairs by (rule inj_on_inverseI [where g = "k_content K"]) (auto simp: inverse)
  then have "distinct ?ks" using once by (simp add: distinct_map flip: map_map)
  moreover have "set (zip ?ks ?rows) = {(k, v_restore V ?d v) |k v. table_view K t view w k = Some v}"
  proof -
    have "zip ?ks ?rows = map (\<lambda>p. (from_key (fst p), v_restore V ?d (snd p))) all"
      by (simp add: zip_map_map zip_same_conv_map comp_def)
    then show ?thesis by (force simp: pairs inverse image_iff)
  qed
  ultimately show ?thesis using out by (intro exI [of _ ?ks] exI [of _ ?rows]) simp
qed

end
