(* ===== verification/Redis_Samples.thy ===== *)
theory Redis_Samples
  imports Redis_Export_Spec "HOL-Library.AList"
begin

text \<open>
  A small server and a small table, on which the hypotheses of the Redis properties hold: a
  server keeps an association list per hash, answers the commands the code sends, and two of
  its hashes make up a table of 32-bit values under 64-bit keys.
\<close>

section \<open>A server\<close>

type_synonym store = "octets \<Rightarrow> (octets \<times> octets) list"

definition store_view :: "store \<Rightarrow> octets \<Rightarrow> octets \<Rightarrow> octets option" where
  "store_view w name = map_of (w name)"

fun pairs_back :: "octets list \<Rightarrow> (octets \<times> octets) list" where
  "pairs_back (f # v # args) = (f, v) # pairs_back args"
| "pairs_back args = []"

lemma pairs_back_flat [simp]: "pairs_back (flat_pairs kvs) = kvs"
  by (induction kvs) auto

text \<open>The hashes in \<open>lost\<close> are on a node that cannot be reached.\<close>

fun sample_read :: "octets list \<Rightarrow> octets list \<Rightarrow> store \<Rightarrow> string + reply" where
  "sample_read lost (cmd # name # fs) w =
     (if cmd \<noteq> ascii ''HMGET'' \<or> fs = [] then Inr (Reply_error (ascii ''ERR''))
      else if name \<in> set lost then Inl ''connection refused''
      else Inr (Reply_array (map (field_reply (map_of (w name))) fs)))"
| "sample_read lost args w = Inr (Reply_error (ascii ''ERR''))"

fun sample_write :: "octets list \<Rightarrow> store \<Rightarrow> store \<times> (string + reply)" where
  "sample_write (cmd # name # args) w =
     (if cmd = ascii ''HMSET''
      then (w(name := rev (pairs_back args) @ w name), Inr (Reply_status (ascii ''OK'')))
      else if cmd = ascii ''HDEL''
      then (w(name := filter (\<lambda>p. fst p \<notin> set args) (w name)), Inr (Reply_integer 1))
      else (w, Inr (Reply_error (ascii ''ERR''))))"
| "sample_write args w = (w, Inr (Reply_error (ascii ''ERR'')))"

definition sample_read_line :: "octets \<Rightarrow> store \<Rightarrow> string + reply" where
  "sample_read_line line w =
     (if take 5 line = ascii ''HLEN '' then Inr (Reply_integer (length (AList.clearjunk (w (drop 5 line)))))
      else if take 6 line = ascii ''HSCAN ''
      then Inr (Reply_array [Reply_string (ascii ''0''), Reply_array (map Reply_string
             (flat_pairs (AList.clearjunk (w (takeWhile (\<lambda>b. b \<noteq> 32) (drop 6 line))))))])
      else Inr (Reply_error (ascii ''ERR'')))"

definition sample_write_line :: "octets \<Rightarrow> store \<Rightarrow> store \<times> (string + reply)" where
  "sample_write_line line w =
     (if take 4 line = ascii ''DEL '' then (w(drop 4 line := []), Inr (Reply_integer 1))
      else (w, Inr (Reply_error (ascii ''ERR''))))"

definition sample_client :: "octets list \<Rightarrow> store redis_client" where
  "sample_client lost = \<lparr>read_command = sample_read lost, write_command = sample_write,
     read_line = sample_read_line, write_line = sample_write_line\<rparr>"

lemma map_of_clearjunk_card: "length (AList.clearjunk xs) = card (dom (map_of xs))"
proof -
  have "length (AList.clearjunk xs) = card (set (map fst (AList.clearjunk xs)))"
    by (simp only: distinct_card [OF distinct_clearjunk] length_map)
  also have "set (map fst (AList.clearjunk xs)) = dom (map_of xs)"
    by (simp only: dom_clearjunk dom_map_of_conv_image_fst set_map)
  finally show ?thesis .
qed

lemma sample_hmget: "answers_hmget (sample_client lost) store_view (\<lambda>w name. name \<in> set lost)"
  by (auto simp: answers_hmget_def sample_client_def store_view_def)

lemma set_pairs_map_of: "set_pairs (map_of xs) kvs = map_of (rev kvs @ xs)"
proof (induction kvs arbitrary: xs)
  case (Cons p kvs)
  then show ?case using Cons.IH [of "p # xs"]
    by (cases p) (simp add: set_pairs_def del: map_of_append fun_upd_apply)
qed (simp add: set_pairs_def)

lemma sample_hmset: "obeys_hmset (sample_client lost) store_view"
  by (auto simp: obeys_hmset_def sample_client_def store_view_def set_pairs_map_of)

lemma map_of_filter_notin: "map_of (filter (\<lambda>p. fst p \<notin> S) xs) = map_of xs |` (- S)"
  by (induction xs) (auto simp: fun_eq_iff restrict_map_def)

lemma sample_hdel: "obeys_hdel (sample_client lost) store_view"
  by (auto simp: obeys_hdel_def sample_client_def store_view_def map_of_filter_notin ascii_def of_char_def)

lemma sample_del: "obeys_del (sample_client lost) store_view"
  by (auto simp: obeys_del_def sample_client_def store_view_def sample_write_line_def ascii_def)

lemma sample_hlen: "answers_hlen (sample_client lost) store_view"
  by (auto simp: answers_hlen_def sample_client_def store_view_def sample_read_line_def ascii_def
    map_of_clearjunk_card)

section \<open>A table\<close>

definition sample_slices :: "octets list" where
  "sample_slices = [ascii ''t{3560}'', ascii ''t{18}'']"

definition sample_redis_table :: redis_table where
  "sample_redis_table = \<lparr>storage_slice = 2, slice_names = sample_slices, max_argc = 3, runtime_value_dim = 1\<rparr>"

abbreviation sample_keys :: "u64 key_ops" where
  "sample_keys \<equiv> int64_keys k_bucket_num_common_handle64"

abbreviation sample_row_ops :: "u32 value_ops" where
  "sample_row_ops \<equiv> fixed_values 4 (le_bytes 4) of_le"

text \<open>Three keys, of which the last two fall into the second slice.\<close>

definition sample_store :: store where
  "sample_store = (\<lambda>name.
     if name = ascii ''t{3560}'' then [(le_bytes 8 (4 :: u64), le_bytes 4 (40 :: u32))]
     else if name = ascii ''t{18}'' then [(le_bytes 8 (5 :: u64), le_bytes 4 (50 :: u32)),
       (le_bytes 8 (7 :: u64), le_bytes 4 (70 :: u32))]
     else [])"

text \<open>The upper half of the rows goes first, and the last bucket of the last range.\<close>

definition sample_scheduler :: scheduler where
  "sample_scheduler = \<lparr>ranges = (\<lambda>workers rows cost. [(nat rows div 2, nat rows), (0, nat rows div 2)]),
     order = (\<lambda>r n. rev (List.product [0..<r] [0..<n]))\<rparr>"

lemma sample_fair: "fair_scheduler sample_scheduler"
proof -
  have "mset [n div 2..<n] + mset [0..<n div 2] = mset [0..<n]" for n :: nat
  proof -
    have "[0..<n div 2] @ [n div 2..<n] = [0..<n]"
      using upt_add_eq_append [of 0 "n div 2" "n - n div 2"] by simp
    then show ?thesis by (metis mset_append union_commute)
  qed
  then show ?thesis
    by (auto simp: fair_scheduler_def sample_scheduler_def row_range_def)
qed

lemma sample_bucket: "bucket_of sample_keys n k = unat (ucast (k AND 0xFFFFFFFF) mod of_nat n :: u32)"
  by (simp add: bucket_of_def int64_keys_def k_bucket_num_def k_bucket_num_common_handle64_def
    of_le_le_bytes64)

lemma sample_content_inj: "inj (k_content sample_keys)"
  by (rule inj_on_inverseI [where g = of_le]) (simp add: int64_keys_def of_le_le_bytes64)

lemma sample_redis_ok: "redis_ok sample_keys sample_redis_table"
proof -
  have "unat (x mod 2 :: u32) < 2" for x :: u32
    by (simp add: unat_mod)
  then show ?thesis
    using sample_content_inj
    by (simp add: redis_ok_def slices_ok_def sample_redis_table_def sample_slices_def sample_bucket)
qed

lemma sample_value_ok: "value_ok sample_row_ops"
  by (simp add: value_ok_def fixed_values_def fixed_restore_def row_view_def)

lemma sample_contexts: "contexts_ok (storage_slice sample_redis_table) []"
  by (simp add: contexts_ok_def)

lemma sample_plain: "\<forall>name \<in> set (slice_names sample_redis_table). plain_name name"
  by (simp add: sample_redis_table_def sample_slices_def plain_name_def ascii_def of_char_def)

lemma sample_slice_of:
  "slice_names sample_redis_table ! bucket_of sample_keys (storage_slice sample_redis_table) 4 = ascii ''t{3560}''"
  "slice_names sample_redis_table ! bucket_of sample_keys (storage_slice sample_redis_table) 5 = ascii ''t{18}''"
  "slice_names sample_redis_table ! bucket_of sample_keys (storage_slice sample_redis_table) 6 = ascii ''t{3560}''"
  "ascii ''t{3560}'' \<noteq> ascii ''t{18}''"
  by (simp_all add: sample_bucket sample_redis_table_def sample_slices_def ascii_def of_char_def)

lemma sample_value_of:
  "table_view sample_keys sample_redis_table store_view sample_store 4 = Some (le_bytes 4 (40 :: u32))"
  "table_view sample_keys sample_redis_table store_view sample_store 5 = Some (le_bytes 4 (50 :: u32))"
  "v_restore sample_row_ops 1 (le_bytes 4 w) = [w]"
proof -
  show "table_view sample_keys sample_redis_table store_view sample_store 4 = Some (le_bytes 4 (40 :: u32))"
    "table_view sample_keys sample_redis_table store_view sample_store 5 = Some (le_bytes 4 (50 :: u32))"
    by (simp_all only: table_view_def sample_slice_of store_view_def)
      (use sample_slice_of(4) in \<open>simp_all add: sample_store_def int64_keys_def\<close>)
  show "v_restore sample_row_ops 1 (le_bytes 4 w) = [w]"
    by (simp add: fixed_values_def fixed_restore_def row_view_def of_le_le_bytes32)
qed

lemma sample_in_own_slice: "in_own_slice sample_keys sample_redis_table store_view sample_store"
proof -
  have own: "k_content sample_keys k \<in> k_content sample_keys ` {k. bucket_of sample_keys 2 k = i}"
    if "bucket_of sample_keys 2 k = i" for k i using that by blast
  show ?thesis
    using own [of 4] own [of 5] own [of 7] sample_slice_of(4)
    by (auto simp: in_own_slice_def sample_redis_table_def sample_slices_def store_view_def sample_store_def
      less_2_cases_iff int64_keys_def sample_bucket [unfolded int64_keys_def] split: if_splits)
qed

lemma sample_finite: "finite (dom (store_view w name))"
  by (simp add: store_view_def finite_dom_map_of)

lemma sample_scans: "scans_once (sample_client lost) store_view sample_redis_table w"
proof -
  have "\<exists>batches. scan_chain (sample_client lost) sample_redis_table name w 0 batches \<and>
      distinct (map fst (concat batches)) \<and> set (concat batches) = Map.graph (store_view w name)"
    if "name \<in> set (slice_names sample_redis_table)" for name
  proof -
    have plain: "plain_name name" using that sample_plain by blast
    let ?line = "ascii ''HSCAN '' @ name @ ascii '' '' @ to_string 0 @ ascii '' COUNT '' @ to_string (max_argc sample_redis_table)"
    have tail: "ascii '' '' @ to_string 0 @ ascii '' COUNT '' @ to_string (max_argc sample_redis_table) =
        32 # [48, 32, 67, 79, 85, 78, 84, 32, 51]"
      by (simp add: ascii_def of_char_def to_string_def decimal_digits.simps sample_redis_table_def)
    have "c_str ?line = ?line"
      using plain unfolding tail by (intro c_str_plain) (auto simp: plain_name_def ascii_def of_char_def)
    moreover have "takeWhile (\<lambda>b. b \<noteq> 32) (name @ 32 # rest) = name" for rest
      using plain by (auto simp: plain_name_def takeWhile_append)
    ultimately have "scan_chain (sample_client lost) sample_redis_table name w 0 [AList.clearjunk (w name)]"
      unfolding scan_chain.simps hscan_get_keys_vals_in_bucket_def
      by (simp only:) (simp add: sample_client_def sample_read_line_def tail atoll_def,
        simp add: ascii_def of_char_def)
    then show ?thesis by (intro exI [of _ "[AList.clearjunk (w name)]"]) (simp add: store_view_def graph_map_of)
  qed
  then show ?thesis by (simp add: scans_once_def)
qed

lemma sample_row_lengths:
  "name \<in> set (slice_names sample_redis_table) \<Longrightarrow> store_view sample_store name f = Some v
    \<Longrightarrow> rows_of_length (Some 4) [(f, v)]"
  by (auto simp: rows_of_length_def store_view_def sample_store_def split: if_splits)

lemma sample_decode: "of_le (k_content sample_keys k) = k"
  by (simp add: int64_keys_def of_le_le_bytes64)

lemma sample_dimension: "runtime_value_dim sample_redis_table = 1"
  by (simp add: sample_redis_table_def)

lemma sample_small: "card (dom (table_view sample_keys sample_redis_table store_view sample_store)) < 2 ^ 64"
proof -
  have "card (dom (table_view sample_keys sample_redis_table store_view sample_store)) \<le> card {4, 5, 7 :: u64}"
    by (intro card_mono) (auto simp: table_view_def store_view_def sample_store_def int64_keys_def
      split: if_splits dest!: arg_cong [where f = "of_le :: octets \<Rightarrow> u64"] simp: of_le_le_bytes64)
  then show ?thesis by simp
qed

end
