(* ===== verification/Redis_Properties.thy ===== *)
theory Redis_Properties
  imports Thread_Pool Redis_Codec Redis_Slices Redis_Standalone Redis_Samples
begin

text \<open>
  The properties of the Redis backend, each with a witness on the sample server: what a lookup,
  an insertion, a removal and an export do to the table, where its slices lie, that the
  checksum does not depend on the machine, and that the worker pool drains.
\<close>

section \<open>The table\<close>

text \<open>
  C32. A lookup through the Redis backend fills, for every split of the rows into ranges and
  every state of the pool of contexts, row \<open>j\<close> of the output with what the hash of the key's slice
  holds for the key, and with the default row when there is nothing or the slice's node cannot
  be reached.
\<close>

theorem redis_find_rows:
  assumes "redis_ok K t" "contexts_ok (storage_slice t) tcs" "fair_scheduler sch" "value_ok V"
    and "answers_hmget client view down"
    and "length vals = length keys * d" "length dft = length vals \<or> d \<le> length dft"
  shows "\<exists>tcs' vals'. redis_find client K V sch t keys vals dft w tcs = Some (tcs', vals') \<and>
    contexts_ok (storage_slice t) tcs' \<and> length vals' = length vals \<and>
    (\<forall>j < length keys. take d (drop (j * d) vals') =
      (if down w (slice_names t ! bucket_of K (storage_slice t) (keys ! j))
       then default_source (length vals = length dft) dft d j
       else case table_view K t view w (keys ! j) of
           Some str \<Rightarrow> v_restore V d str
         | None \<Rightarrow> default_source (length vals = length dft) dft d j))"
proof -
  let ?row = "expected_row K V t view down w keys dft (length vals = length dft) d"
  obtain tcs' where f: "redis_find client K V sch t keys vals dft w tcs =
      Some (tcs', concat (map ?row [0..<length keys]))" "contexts_ok (storage_slice t) tcs'"
    using redis_find_spec [OF assms] by blast
  have len: "length (?row j) = d" if "j < length keys" for j
    using that assms(4,6,7) by (rule expected_row_length)
  have "length (concat (map ?row [0..<length keys])) = length vals"
    using assms(6) length_concat_rows [OF len] by simp
  moreover have "take d (drop (j * d) (concat (map ?row [0..<length keys]))) = ?row j"
    if "j < length keys" for j
    using row_of_concat [of "length keys" ?row d j] len that by simp
  ultimately show ?thesis
    using f by (auto simp: expected_row_def looked_up_row_def)
qed

theorem redis_find_rows_witness:
  "\<exists>tcs' vals'. redis_find (sample_client [ascii ''t{3560}'']) sample_keys sample_row_ops sample_scheduler
     sample_redis_table [4, 5, 6] [0, 0, 0] [9] sample_store [] = Some (tcs', vals') \<and>
     take 1 (drop 1 vals') = [50] \<and> take 1 (drop 0 vals') = [9]"
proof -
  have "\<exists>tcs' vals'. redis_find (sample_client [ascii ''t{3560}'']) sample_keys sample_row_ops sample_scheduler
     sample_redis_table [4, 5, 6] [0, 0, 0] [9] sample_store [] = Some (tcs', vals') \<and>
     contexts_ok (storage_slice sample_redis_table) tcs' \<and> length vals' = length [0 :: u32, 0, 0] \<and>
    (\<forall>j < length [4 :: u64, 5, 6]. take 1 (drop (j * 1) vals') =
      (if slice_names sample_redis_table ! bucket_of sample_keys (storage_slice sample_redis_table) ([4, 5, 6] ! j)
            \<in> set [ascii ''t{3560}'']
       then default_source (length [0 :: u32, 0, 0] = length [9 :: u32]) [9] 1 j
       else case table_view sample_keys sample_redis_table store_view sample_store ([4, 5, 6] ! j) of
           Some str \<Rightarrow> v_restore sample_row_ops 1 str
         | None \<Rightarrow> default_source (length [0 :: u32, 0, 0] = length [9 :: u32]) [9] 1 j))"
    by (rule redis_find_rows [OF sample_redis_ok sample_contexts sample_fair sample_value_ok sample_hmget])
      simp_all
  then obtain tcs' vals' where f: "redis_find (sample_client [ascii ''t{3560}'']) sample_keys sample_row_ops
      sample_scheduler sample_redis_table [4, 5, 6] [0, 0, 0] [9] sample_store [] = Some (tcs', vals')"
    and rows: "\<And>j. j < 3 \<Longrightarrow> take 1 (drop j vals') =
      (if slice_names sample_redis_table ! bucket_of sample_keys (storage_slice sample_redis_table) ([4, 5, 6] ! j)
            \<in> set [ascii ''t{3560}'']
       then default_source (length [0 :: u32, 0, 0] = length [9 :: u32]) [9] 1 j
       else case table_view sample_keys sample_redis_table store_view sample_store ([4, 5, 6] ! j) of
           Some str \<Rightarrow> v_restore sample_row_ops 1 str
         | None \<Rightarrow> default_source (length [0 :: u32, 0, 0] = length [9 :: u32]) [9] 1 j)"
    by auto
  show ?thesis
    using f rows [of 0] rows [of 1] sample_slice_of sample_value_of
    by (auto simp: default_source_def)
qed

text \<open>
  C33. An insertion updates the table as a map: afterwards every key of the batch has the
  encoded row that comes last for it, all other keys what they had.  No order in which the pool
  sends the buckets changes that, provided the keys of a batch that is cut into ranges are
  distinct; and every field stays in the slice of its key.
\<close>

theorem redis_insert_assigns:
  assumes "redis_ok K t" "contexts_ok (storage_slice t) tcs" "fair_scheduler sch"
    and "obeys_hmset client view" "length vals = length keys * d"
    and "distinct keys \<or> int (length keys) < max_argc t - 1"
  shows "\<exists>tcs' w'. redis_insert client K V sch t keys vals (w, None) tcs = Some (tcs', (w', None), None) \<and>
    contexts_ok (storage_slice t) tcs' \<and>
    table_view K t view w' = table_view K t view w ++
      map_of (rev (zip keys (map (v_content V) (row_view d (length keys) vals)))) \<and>
    (distinct (slice_names t) \<longrightarrow> in_own_slice K t view w \<longrightarrow> in_own_slice K t view w')"
  using assms by (rule redis_insert_spec)

theorem redis_insert_assigns_witness:
  "\<exists>tcs' w'. redis_insert (sample_client []) sample_keys sample_row_ops sample_scheduler sample_redis_table
     [5, 6, 9] [51, 60, 90] (sample_store, None) [] = Some (tcs', (w', None), None) \<and>
     table_view sample_keys sample_redis_table store_view w' 5 = Some (le_bytes 4 (51 :: u32)) \<and>
     table_view sample_keys sample_redis_table store_view w' 4 = Some (le_bytes 4 (40 :: u32))"
proof -
  obtain tcs' w' where ins: "redis_insert (sample_client []) sample_keys sample_row_ops sample_scheduler
      sample_redis_table [5, 6, 9] [51, 60, 90] (sample_store, None) [] = Some (tcs', (w', None), None)"
    and view: "table_view sample_keys sample_redis_table store_view w' =
      table_view sample_keys sample_redis_table store_view sample_store ++ map_of (rev (zip [5, 6, 9]
        (map (v_content sample_row_ops) (row_view 1 (length [5 :: u64, 6, 9]) [51, 60, 90]))))"
    using redis_insert_assigns [OF sample_redis_ok sample_contexts sample_fair sample_hmset [of "[]"],
      where vals = "[51, 60, 90]" and keys = "[5, 6, 9]" and d = 1 and V = sample_row_ops and w = sample_store]
    by auto
  show ?thesis
    using ins sample_value_of(1)
    by (auto simp: view row_view_def upt_rec fixed_values_def fixed_content_def)
qed

text \<open>
  C34. Take a table whose slices have plain names (no zero byte, blank or percent sign, which names
  under an MD5 prefix may have: DEL and HLEN then reach another hash), whose every stored field
  lies in the slice of its key, and whose hashes are finite, and a server that answers HDEL, DEL
  and HLEN as documented.  A removal then takes exactly the given keys out of the table, in every
  schedule; a clearing after it takes out all others; and the sizes reported after the one and
  the other are the number of keys in the table, modulo 2 to the 64, and zero.
\<close>

theorem redis_remove_clear_size:
  assumes "redis_ok K t" "contexts_ok (storage_slice t) tcs" "fair_scheduler sch"
    and "obeys_hdel client view" "obeys_del client view" "answers_hlen client view"
    and "\<forall>name \<in> set (slice_names t). plain_name name"
    and "in_own_slice K t view w" "\<And>w i. i < storage_slice t \<Longrightarrow> finite (dom (view w (slice_names t ! i)))"
  shows "\<exists>tcs' w' w''. redis_remove client K sch t keys (w, None) tcs = Some (tcs', (w', None), None) \<and>
    table_view K t view w' = table_view K t view w |` (- set keys) \<and>
    redis_size client t w' = Inr (of_nat (card (dom (table_view K t view w) - set keys))) \<and>
    redis_clear client t w' = (w'', None) \<and> table_view K t view w'' = Map.empty \<and>
    redis_size client t w'' = Inr 0"
proof -
  obtain tcs' w' where rem: "redis_remove client K sch t keys (w, None) tcs = Some (tcs', (w', None), None)"
    "table_view K t view w' = table_view K t view w |` (- set keys)" "in_own_slice K t view w'"
    using redis_remove_spec [OF assms(1-4)] assms(8) by blast
  obtain w'' where clear: "redis_clear client t w' = (w'', None)" "table_view K t view w'' = Map.empty"
    "in_own_slice K t view w''"
    using redis_clear_spec [OF assms(1,5,7)] by blast
  have size: "redis_size client t u = Inr (of_nat (card (dom (table_view K t view u))))"
    if "in_own_slice K t view u" for u
    using redis_size_spec [OF assms(1) that assms(7) _ assms(6)] assms(9) by blast
  show ?thesis
    using rem clear size [OF rem(3)] size [OF clear(3)] by (auto simp: Diff_eq [symmetric])
qed

theorem redis_remove_clear_size_witness:
  "\<exists>tcs' w'. redis_remove (sample_client []) sample_keys sample_scheduler sample_redis_table [5, 6, 9]
     (sample_store, None) [] = Some (tcs', (w', None), None) \<and>
     table_view sample_keys sample_redis_table store_view w' 5 = None \<and>
     table_view sample_keys sample_redis_table store_view w' 4 = Some (le_bytes 4 (40 :: u32))"
  using redis_remove_clear_size [OF sample_redis_ok sample_contexts sample_fair sample_hdel [of "[]"] sample_del
      sample_hlen sample_plain sample_in_own_slice sample_finite, of "[5, 6, 9]"] sample_value_of(1)
  by auto

text \<open>
  C35. Rows of strings inserted under distinct 64-bit keys are what the next lookup of these keys
  returns, whatever the output and the default held and whatever checksum picks the slices: the
  packed strings lose nothing on the way to the server and back.
\<close>

theorem redis_insert_find_roundtrip:
  assumes "0 < storage_slice t" "storage_slice t < 2 ^ 32" "length (slice_names t) = storage_slice t"
    and "contexts_ok (storage_slice t) tcs" "fair_scheduler sch"
    and "obeys_hmset client view" "answers_hmget client view (\<lambda>w name. False)"
    and "length vals = length keys * d" "length memory = length vals" "length dft = length vals \<or> d \<le> length dft"
    and "distinct keys" "\<forall>row \<in> set (row_view d (length keys) vals). (\<Sum>s \<leftarrow> row. 4 + length s) < 2 ^ 32"
  shows "\<exists>tcs1 w1 tcs2.
    redis_insert client (int64_keys handle) tstring_values sch t keys vals (w, None) tcs = Some (tcs1, (w1, None), None) \<and>
    redis_find client (int64_keys handle) tstring_values sch t keys memory dft w1 tcs1 = Some (tcs2, vals)"
proof -
  have "redis_ok (int64_keys handle) t"
    using assms(1-3) unfolding redis_ok_def by (rule k64.slices_okI)
  then show ?thesis
    by (rule strings.find_after_insert) (fact assms)+
qed

theorem redis_insert_find_roundtrip_witness:
  "\<exists>tcs1 w1 tcs2. redis_insert (sample_client []) sample_keys tstring_values sample_scheduler sample_redis_table
      [5, 6] [[1, 2], [], [7], [3]] (sample_store, None) [] = Some (tcs1, (w1, None), None) \<and>
    redis_find (sample_client []) sample_keys tstring_values sample_scheduler sample_redis_table [5, 6]
      [[], [], [], []] [[], []] w1 tcs1 = Some (tcs2, [[1, 2], [], [7], [3]])"
  by (rule redis_insert_find_roundtrip [where d = 2, OF _ _ _ sample_contexts sample_fair sample_hmset
      sample_hmget [of "[]", simplified]])
    (simp_all add: sample_redis_table_def sample_slices_def row_view_def upt_rec)



section \<open>Slices\<close>

text \<open>
  C38. When the user has not given one hash tag for each slice (the number of given tags differs
  from the number of slices; with one for each the names carry the given tags, which may repeat),
  a table gets as many slice names as it has slices, no name twice, and in a cluster the slice
  with number \<open>i\<close> carries the tag of a slot that node \<open>i\<close> modulo the number of nodes holds.  It is
  assumed that the slots of the table of tags have different tags, that there are at most 16384
  slices, that the first ranges of the nodes are ascending and disjoint and lie below 16384, and
  that each has room for its share of the slices when there are more slices than nodes.
\<close>

theorem slice_names_spread:
  assumes "length tags \<noteq> n" "n \<le> 16384"
    and "inj_on tab {..<16384}" "node_ranges slots"
    and "\<forall>r \<in> set slots. length slots < n \<longrightarrow> n \<le> (snd r - fst r) * length slots"
  shows "distinct (build_keys_prefix_name_slices tab slots n tags prefix) \<and>
    (\<exists>slot. build_keys_prefix_name_slices tab slots n tags prefix =
        map (\<lambda>i. tag_name prefix (tab (slot i))) [0..<n] \<and>
      (\<forall>i < n. slot i < 16384 \<and> (slots \<noteq> [] \<longrightarrow>
        fst (slots ! (i mod length slots)) \<le> slot i \<and> slot i \<le> snd (slots ! (i mod length slots)))))"
proof -
  let ?slot = "slice_slot slots n"
  note names = slices_names [OF assms(1), of tab slots prefix]
  have bound: "?slot i < 16384" if "i < n" for i
    using that assms(2,4) by (rule slice_slot_bound)
  have "inj_on (\<lambda>i. tag_name prefix (tab (?slot i))) {..<n}"
  proof (rule inj_onI)
    fix i j assume ij: "i \<in> {..<n}" "j \<in> {..<n}" "tag_name prefix (tab (?slot i)) = tag_name prefix (tab (?slot j))"
    then have "?slot i = ?slot j"
      using inj_onD [OF assms(3)] bound by (simp add: tag_name_inj)
    then show "i = j" using slice_slot_inj [OF assms(4,2,5)] ij(1,2) by simp
  qed
  then have "distinct (build_keys_prefix_name_slices tab slots n tags prefix)"
    by (simp add: names distinct_map atLeast0LessThan)
  moreover have "fst (slots ! (i mod length slots)) \<le> ?slot i \<and> ?slot i \<le> snd (slots ! (i mod length slots))"
    if "i < n" "slots \<noteq> []" for i
    using slice_slot_range [OF assms(4) that(2,1)] .
  ultimately show ?thesis using names bound by blast
qed

theorem slice_names_spread_witness:
  "distinct (build_keys_prefix_name_slices of_nat [(0, 5460), (5461, 10922), (10923, 16383)] 7 [] (ascii ''emb''))"
proof -
  have "inj_on (of_nat :: nat \<Rightarrow> u32) {..<16384}"
    by (rule inj_onI) (simp add: word_unat_eq_iff unat_of_nat take_bit_nat_eq_self)
  moreover have "node_ranges [(0, 5460), (5461, 10922), (10923, 16383)]"
    by (auto simp: node_ranges_def less_Suc_eq)
  ultimately show ?thesis
    using slice_names_spread [of "[]" 7 of_nat "[(0, 5460), (5461, 10922), (10923, 16383)]" "ascii ''emb''"]
    by simp
qed

section \<open>The checksum\<close>

text \<open>
  C39. For bytes below two gigabytes, the checksum the handle computes does not depend on the
  instruction set: stepping by eight bytes, by four, and finishing with the tail gives the
  checksum of the bytes taken one by one, and the bucket number of the CRC handle is that
  checksum, started with all ones, modulo the number of buckets.
\<close>

theorem crc_any_machine:
  assumes "length p < 2 ^ 31"
  shows "crc32c_hash isa crc p (of_nat (length p)) = crc_bytes crc p \<and>
    k_bucket_num (k_bucket_num_crc32_handle isa) p n = crc_bytes 0xffffffff p mod n"
  using crc32c_hash_bytes [OF assms] by (simp add: k_bucket_num_def k_bucket_num_crc32_handle_def)

theorem crc_any_machine_witness:
  "crc32c_hash X86_64 7 [1, 2, 3, 4, 5, 6, 7, 8, 9] 9 = crc32c_hash Aarch64 7 [1, 2, 3, 4, 5, 6, 7, 8, 9] 9"
  using crc_any_machine [of "[1, 2, 3, 4, 5, 6, 7, 8, 9]" X86_64 7]
    crc_any_machine [of "[1, 2, 3, 4, 5, 6, 7, 8, 9]" Aarch64 7] by simp

section \<open>The worker pool\<close>

text \<open>
  A pool of \<open>n\<close> workers, run from its construction: the tasks handed to \<open>enqueue\<close> are started
  in the order they came in, each of them once, and those that have been started and not
  finished are exactly the ones the workers hold.
\<close>

lemma pool_history:
  assumes "pool_run (new_thread_pool n) es p"
  shows "started es @ tasks p = enqueued es" "mset (finished es) + mset (running p) = mset (started es)"
  using run_history [OF assms] by (simp_all add: new_thread_pool_def running_def concat_eq_Nil_conv)

text \<open>
  A task is started in the order in which it was enqueued, at most once, and nothing is
  started that was not enqueued.
\<close>

theorem pool_starts_in_order:
  assumes "pool_run (new_thread_pool n) es p"
  shows "\<exists>waiting. enqueued es = started es @ waiting \<and>
    mset (started es) = mset (finished es) + mset (running p) \<and> length (running p) \<le> n"
proof -
  have "length (workers p) = n"
    using run_length_workers [OF assms] by (simp add: new_thread_pool_def)
  moreover have "length (concat (map worker_task ws)) \<le> length ws" for ws :: "'a worker list"
  proof (induction ws)
    case (Cons w ws)
    then show ?case by (cases w) simp_all
  qed simp
  ultimately show ?thesis
    using pool_history [OF assms] unfolding running_def by metis
qed

text \<open>
  C40. The pool never goes to sleep on a task.  From every state a pool with at least one
  worker can reach, its own steps end after at most \<open>pool_work\<close> of them, and where they end
  every task that was enqueued has been finished; when the destructor has begun, all workers
  have left their loop by then and its joins return.
\<close>

theorem pool_drains:
  assumes "0 < n" "pool_run (new_thread_pool n) es p"
  shows "(\<forall>fs q. pool_run p fs q \<and> list_all internal fs \<longrightarrow> length fs \<le> pool_work p) \<and>
    (\<exists>fs q. pool_run p fs q \<and> list_all internal fs \<and> idle_pool q) \<and>
    (\<forall>fs q. pool_run p fs q \<and> idle_pool q \<longrightarrow>
       mset (finished (es @ fs)) = mset (enqueued (es @ fs)) \<and> (stop q \<longrightarrow> joined q))"
proof (intro conjI allI impI)
  fix fs q assume "pool_run p fs q \<and> list_all internal fs"
  then show "length fs \<le> pool_work p"
    using internal_run_bounded [of p fs q] by (auto simp: list_all_iff)
next
  show "\<exists>fs q. pool_run p fs q \<and> list_all internal fs \<and> idle_pool q"
    using rest_is_reached [of p] by (simp add: list_all_iff)
next
  fix fs q assume q: "pool_run p fs q \<and> idle_pool q"
  then have run: "pool_run (new_thread_pool n) (es @ fs) q"
    using pool_run_trans [OF _ assms(2)] by blast
  have rest: "tasks q = [] \<and> running q = [] \<and> (stop q \<longrightarrow> joined q)"
    using idle_pool_rests [OF pool_inv_run [OF run pool_inv_new assms(1)]] q by blast
  show "mset (finished (es @ fs)) = mset (enqueued (es @ fs))"
    using pool_history [OF run] rest by simp
  show "joined q" if "stop q" using rest that by blast
qed

theorem pool_drains_witness:
  "\<exists>fs q. pool_run ((new_thread_pool 2)\<lparr>tasks := [''a''], wakes_due := 1\<rparr>) fs q \<and> list_all internal fs \<and> idle_pool q"
proof -
  have "enqueue ''a'' (new_thread_pool 2) = Inr ((new_thread_pool 2)\<lparr>tasks := [''a''], wakes_due := 1\<rparr>)"
    by (simp add: enqueue_def new_thread_pool_def)
  then have "pool_run (new_thread_pool 2) ([] @ [Enqueued ''a'']) ((new_thread_pool 2)\<lparr>tasks := [''a''], wakes_due := 1\<rparr>)"
    by (intro pool_run.advance [OF pool_run.stay] pool_step.enqueue)
  then show ?thesis using pool_drains [of 2] by auto
qed

text \<open>Without a worker no task is ever started.\<close>

lemma pool_without_workers: "pool_run (new_thread_pool 0) es p \<Longrightarrow> started es = []"
proof (induction "new_thread_pool 0 :: 'a thread_pool" es p rule: pool_run.induct)
  case (advance es q e r)
  have none: "\<not> at_worker q i w" for i w
    using run_length_workers [OF advance.hyps(1)] by (simp add: at_worker_def new_thread_pool_def)
  from advance.hyps(3) show ?case using none advance.hyps(2) by cases auto
qed simp

end
