(* ===== verification/Redis_Checkpoint.thy ===== *)
theory Redis_Checkpoint
  imports Redis_Table Cuckoo_Checkpoint
begin

text \<open>
  Saving a Redis table to files and loading files into one: \<open>SaveToFileSystem\<close> and
  \<open>LoadFromFileSystem\<close> of \<open>redis_table_op.cc\<close>, for keys and values of a fixed size.  The file
  system is the record of \<open>Cuckoo_Checkpoint\<close>; byte counts are natural numbers.
\<close>

datatype io_error =
    File_error string
  | Scan_error export_error
  | Past_the_buffer
  | Division_by_zero

definition try_file ::
  "('fs \<Rightarrow> 'fs \<times> status) \<Rightarrow> 'fs \<times> 'b \<Rightarrow> ('fs \<times> 'b) \<times> (io_error + unit)" where
  "try_file f = (\<lambda>(fs, b). case f fs of
     (fs, None) \<Rightarrow> ((fs, b), Inr ()) | (fs, Some msg) \<Rightarrow> ((fs, b), Inl (File_error msg)))"

section \<open>Saving\<close>

text \<open>
  The pairs of a scan are copied into two buffers for \<open>buffer_size\<close> rows.  \<open>pos\<close> is the row the
  two pointers stand at.  A copy moves as many bytes as the type has, whatever the reply holds.
\<close>

definition put_bytes :: "nat \<Rightarrow> nat \<Rightarrow> reply \<Rightarrow> octets \<Rightarrow> export_error + octets" where
  "put_bytes pos n r mem = (case r of
     Reply_string str \<Rightarrow>
       if length str < n then Inl Past_the_reply else Inr (write_at (pos * n) (take n str) mem)
   | _ \<Rightarrow> Inr mem)"

fun save_batch ::
  "'fs file_system \<Rightarrow> nat \<Rightarrow> nat \<Rightarrow> string \<Rightarrow> string \<Rightarrow> reply list \<Rightarrow> 'fs \<times> nat \<times> octets \<times> octets
     \<Rightarrow> ('fs \<times> nat \<times> octets \<times> octets) \<times> (io_error + unit)" where
  "save_batch F key_len value_len key_path value_path (f # v # kvs) (fs, pos, kb, vb) =
     (if length kb < Suc pos * key_len \<or> length vb < Suc pos * value_len
      then ((fs, pos, kb, vb), Inl Past_the_buffer)
      else (case (put_bytes pos key_len f kb, put_bytes pos value_len v vb) of
         (Inr kb, Inr vb) \<Rightarrow>
           if length kb \<le> Suc pos * key_len
           then and_then (try_file (append_file F key_path kb) (fs, 0, kb, vb))
             (\<lambda>_ s. and_then (try_file (append_file F value_path vb) s)
               (\<lambda>_ s. save_batch F key_len value_len key_path value_path kvs s))
           else save_batch F key_len value_len key_path value_path kvs (fs, Suc pos, kb, vb)
       | (Inl e, _) \<Rightarrow> ((fs, pos, kb, vb), Inl (Scan_error e))
       | (_, Inl e) \<Rightarrow> ((fs, pos, kb, vb), Inl (Scan_error e))))"
| "save_batch F key_len value_len key_path value_path [] s = (s, Inr ())"
| "save_batch F key_len value_len key_path value_path [f] s = (s, Inl (Scan_error Past_the_reply))"

partial_function (option) save_slice ::
  "'fs file_system \<Rightarrow> 'w redis_client \<Rightarrow> nat \<Rightarrow> nat \<Rightarrow> string \<Rightarrow> string \<Rightarrow> redis_table \<Rightarrow> octets \<Rightarrow> 'w
     \<Rightarrow> int \<Rightarrow> 'fs \<times> nat \<times> octets \<times> octets
     \<Rightarrow> (('fs \<times> nat \<times> octets \<times> octets) \<times> (io_error + unit)) option" where
  "save_slice F client key_len value_len key_path value_path t name w cursor s =
     (case hscan_get_keys_vals_in_bucket client name cursor (max_argc t) w of
        None \<Rightarrow> Some (s, Inl (Scan_error Scan_failed))
      | Some (cursor, kvs) \<Rightarrow>
          if length (reply_elements kvs) < 2 \<and> cursor = 0 then Some (s, Inr ())
          else (case check_dimension (Some value_len) (reply_elements kvs) of
              Some e \<Rightarrow> Some (s, Inl (Scan_error e))
            | None \<Rightarrow>
                (case save_batch F key_len value_len key_path value_path (reply_elements kvs) s of
                   (s, Inl e) \<Rightarrow> Some (s, Inl e)
                 | (s, Inr _) \<Rightarrow>
                     if cursor = 0 then Some (s, Inr ())
                     else save_slice F client key_len value_len key_path value_path t name w cursor s)))"

fun save_slices ::
  "'fs file_system \<Rightarrow> 'w redis_client \<Rightarrow> nat \<Rightarrow> nat \<Rightarrow> string \<Rightarrow> string \<Rightarrow> redis_table \<Rightarrow> octets list \<Rightarrow> 'w
     \<Rightarrow> 'fs \<times> nat \<times> octets \<times> octets \<Rightarrow> (('fs \<times> nat \<times> octets \<times> octets) \<times> (io_error + unit)) option" where
  "save_slices F client key_len value_len key_path value_path t [] w s = Some (s, Inr ())"
| "save_slices F client key_len value_len key_path value_path t (name # names) w s =
     (case save_slice F client key_len value_len key_path value_path t name w 0 s of
        None \<Rightarrow> None
      | Some (s, Inl e) \<Rightarrow> Some (s, Inl e)
      | Some (s, Inr _) \<Rightarrow> save_slices F client key_len value_len key_path value_path t names w s)"

text \<open>What is left in the buffers is appended, the files are closed and take their place.\<close>

definition save_rest ::
  "'fs file_system \<Rightarrow> nat \<Rightarrow> nat \<Rightarrow> bool \<Rightarrow> string \<Rightarrow> string \<Rightarrow> string \<Rightarrow> 'fs \<times> nat \<times> octets \<times> octets
     \<Rightarrow> ('fs \<times> nat \<times> octets \<times> octets) \<times> (io_error + unit)" where
  "save_rest F key_len value_len need_tmp_file key_path value_path filepath s =
     (let (pos, kb, vb) = snd s;
          rest = (pos * key_len \<noteq> 0 \<and> pos * value_len \<noteq> 0);
          when = (\<lambda>b f s. if b then try_file f s else (s, Inr ()))
      in and_then (when rest (append_file F key_path (take (pos * key_len) kb)) s) (\<lambda>_ s.
         and_then (when rest (append_file F value_path (take (pos * value_len) vb)) s) (\<lambda>_ s.
         and_then (try_file (flush_file F key_path) s) (\<lambda>_ s.
         and_then (try_file (flush_file F value_path) s) (\<lambda>_ s.
         and_then (try_file (sync_file F key_path) s) (\<lambda>_ s.
         and_then (try_file (sync_file F value_path) s) (\<lambda>_ s.
         and_then (when need_tmp_file (\<lambda>fs. (fs, file_exists F key_path fs)) s) (\<lambda>_ s.
         and_then (when need_tmp_file (rename_file F key_path (filepath @ ''-keys'')) s) (\<lambda>_ s.
         and_then (when need_tmp_file (\<lambda>fs. (fs, file_exists F value_path fs)) s) (\<lambda>_ s.
         when need_tmp_file (rename_file F value_path (filepath @ ''-values'')) s))))))))))"

text \<open>
  The slices are counted first; when they are empty the function returns after it has opened
  the files, and a temporary file does not replace what was there before.
\<close>

definition redis_save_impl ::
  "'fs file_system \<Rightarrow> 'w redis_client \<Rightarrow> nat \<Rightarrow> nat \<Rightarrow> redis_table \<Rightarrow> string \<Rightarrow> u64 \<Rightarrow> bool \<Rightarrow> 'w \<Rightarrow> 'fs
     \<Rightarrow> ('fs \<times> (io_error + unit)) option" where
  "redis_save_impl F client key_len elem_len t filepath buffer_size append_to_file w fs =
     (case size_loop client (slice_names t) 0 w of
        Inl e \<Rightarrow> Some (fs, Inl (Scan_error (Thrown_by_client e)))
      | Inr total_size \<Rightarrow>
          (let (atomic, st) = has_atomic_move F filepath fs;
               need_tmp_file = (\<not> atomic \<or> st \<noteq> None);
               key_path = filepath @ (if need_tmp_file then ''-keys.tmp'' else ''-keys'');
               value_path = filepath @ (if need_tmp_file then ''-values.tmp'' else ''-values'');
               open_file = (if append_to_file then new_appendable F else new_writable F);
               value_len = elem_len * runtime_value_dim t;
               key_buffer = replicate (unat buffer_size * key_len) 0;
               value_buffer = replicate (unat buffer_size * value_len) 0;
               opened = and_then (try_file (create_dir F (dirname F filepath)) (fs, 0, key_buffer, value_buffer))
                 (\<lambda>_ s. and_then (try_file (open_file key_path) s)
                 (\<lambda>_ s. try_file (open_file value_path) s))
           in case opened of
                (s, Inl e) \<Rightarrow> Some (fst s, Inl e)
              | (s, Inr _) \<Rightarrow>
                  if total_size = 0 then Some (fst s, Inr ())
                  else (case save_slices F client key_len value_len key_path value_path t (slice_names t) w s of
                      None \<Rightarrow> None
                    | Some (s, Inl e) \<Rightarrow> Some (fst s, Inl e)
                    | Some (s, Inr _) \<Rightarrow>
                        (case save_rest F key_len value_len need_tmp_file key_path value_path filepath s of
                           (s, r) \<Rightarrow> Some (fst s, r)))))"

definition redis_save_to_file_system ::
  "'fs file_system \<Rightarrow> 'w redis_client \<Rightarrow> nat \<Rightarrow> nat \<Rightarrow> redis_table \<Rightarrow> string \<Rightarrow> string \<Rightarrow> u64 \<Rightarrow> bool \<Rightarrow> 'w \<Rightarrow> 'fs
     \<Rightarrow> ('fs \<times> (io_error + unit)) option" where
  "redis_save_to_file_system F client key_len elem_len t dirpath file_name buffer_size append_to_file w fs =
     (let filepath = join_path F dirpath file_name
      in case file_system_for_file F filepath of
           Some e \<Rightarrow> Some (fs, Inl (File_error e))
         | None \<Rightarrow> redis_save_impl F client key_len elem_len t filepath buffer_size append_to_file w fs)"

section \<open>Loading\<close>

text \<open>
  The two files are read in chunks of \<open>buffer_size\<close> rows, and every chunk is inserted.  A failed
  insertion is recorded in the kernel's context, whose first error stays, while \<open>DoInsert\<close>
  returns success and the loop goes on; \<open>ctx\<close> is that record.  With an empty buffer the loop
  would read nothing for ever.
\<close>

definition first_error :: "status \<Rightarrow> status \<Rightarrow> status" where
  "first_error ctx st = (case ctx of None \<Rightarrow> st | Some e \<Rightarrow> Some e)"

definition typed_elements :: "'a layout \<Rightarrow> nat \<Rightarrow> octets \<Rightarrow> 'a list" where
  "typed_elements l n bs = map (of_bytes l) (row_view (size_of l) n bs)"

type_synonym 'w loading = "(thread_context list \<times> 'w \<times> string option) \<times> status"

partial_function (option) redis_load_loop ::
  "'fs file_system \<Rightarrow> 'w redis_client \<Rightarrow> 'k key_ops \<Rightarrow> 'v value_ops \<Rightarrow> scheduler \<Rightarrow> redis_table
     \<Rightarrow> 'k layout \<Rightarrow> 'v layout \<Rightarrow> nat \<Rightarrow> string \<Rightarrow> string \<Rightarrow> nat \<Rightarrow> 'fs \<Rightarrow> nat \<Rightarrow> nat
     \<Rightarrow> 'w loading \<Rightarrow> ('w loading \<times> (io_error + unit)) option" where
  "redis_load_loop F client K V sch t kl vl buffer_size key_path value_path key_file_size fs key_pos value_pos s =
     (if key_pos < key_file_size
      then let remainder = key_file_size - key_pos;
               whole = (remainder > buffer_size * size_of kl);
               value_len = size_of vl * runtime_value_dim t;
               key_read = (if whole then buffer_size * size_of kl else remainder);
               nkeys = (if whole then buffer_size else key_read div size_of kl);
               value_read = nkeys * value_len
           in case (read_n_bytes F key_path key_pos key_read fs, read_n_bytes F value_path value_pos value_read fs) of
                (Inl e, _) \<Rightarrow> Some (s, Inl (File_error e))
              | (_, Inl e) \<Rightarrow> Some (s, Inl (File_error e))
              | (Inr key_buffer, Inr value_buffer) \<Rightarrow>
                  (case redis_do_insert client K V sch t False (typed_elements kl nkeys key_buffer)
                      (typed_elements vl (nkeys * runtime_value_dim t) value_buffer) (runtime_value_dim t)
                      (snd (fst s)) (fst (fst s)) of
                     None \<Rightarrow> None
                   | Some (tcs, ws, st) \<Rightarrow>
                       redis_load_loop F client K V sch t kl vl buffer_size key_path value_path key_file_size fs
                         (key_pos + key_read) (value_pos + value_read) ((tcs, ws), first_error (snd s) st))
      else Some (s, Inr ()))"

text \<open>That the values exist is not tested: the test of the keys' file stands there twice.\<close>

definition redis_load_impl ::
  "'fs file_system \<Rightarrow> 'w redis_client \<Rightarrow> 'k key_ops \<Rightarrow> 'v value_ops \<Rightarrow> scheduler \<Rightarrow> redis_table
     \<Rightarrow> 'k layout \<Rightarrow> 'v layout \<Rightarrow> u64 \<Rightarrow> 'fs \<Rightarrow> string \<Rightarrow> 'w loading \<Rightarrow> ('w loading \<times> (io_error + unit)) option" where
  "redis_load_impl F client K V sch t kl vl buffer_size fs filepath s =
     (let key_path = filepath @ ''-keys'';
          value_path = filepath @ ''-values'';
          value_len = size_of vl * runtime_value_dim t;
          check = (\<lambda>f next. case f fs of None \<Rightarrow> next | Some e \<Rightarrow> Some (s, Inl (File_error e)))
      in check (file_exists F key_path)
        (check (new_random_access F key_path)
        (check (file_exists F key_path)
        (check (new_random_access F value_path)
        (case (get_file_size F key_path fs, get_file_size F value_path fs) of
           (Inl e, _) \<Rightarrow> Some (s, Inl (File_error e))
         | (_, Inl e) \<Rightarrow> Some (s, Inl (File_error e))
         | (Inr key_file_size, Inr value_file_size) \<Rightarrow>
             if value_len = 0 then Some (s, Inl Division_by_zero)
             else if key_file_size div size_of kl \<noteq> value_file_size div value_len
             then Some (s, Inl (File_error (''the keys number in file '' @ key_path @
               '' is not equal to the value vectors number in file '' @ value_path @ ''.'')))
             else redis_load_loop F client K V sch t kl vl (unat buffer_size) key_path value_path key_file_size
               fs 0 0 s)))))"

fun redis_load_paths ::
  "'fs file_system \<Rightarrow> 'w redis_client \<Rightarrow> 'k key_ops \<Rightarrow> 'v value_ops \<Rightarrow> scheduler \<Rightarrow> redis_table
     \<Rightarrow> 'k layout \<Rightarrow> 'v layout \<Rightarrow> u64 \<Rightarrow> 'fs \<Rightarrow> string list \<Rightarrow> 'w loading
     \<Rightarrow> ('w loading \<times> (io_error + unit)) option" where
  "redis_load_paths F client K V sch t kl vl buffer_size fs [] s = Some (s, Inr ())"
| "redis_load_paths F client K V sch t kl vl buffer_size fs (fp # fps) s =
     (case redis_load_impl F client K V sch t kl vl buffer_size fs fp s of
        None \<Rightarrow> None
      | Some (s, Inl e) \<Rightarrow> Some (s, Inl e)
      | Some (s, Inr _) \<Rightarrow> redis_load_paths F client K V sch t kl vl buffer_size fs fps s)"

definition redis_load_from_file_system ::
  "'fs file_system \<Rightarrow> 'w redis_client \<Rightarrow> 'k key_ops \<Rightarrow> 'v value_ops \<Rightarrow> scheduler \<Rightarrow> redis_table
     \<Rightarrow> 'k layout \<Rightarrow> 'v layout \<Rightarrow> string \<Rightarrow> string \<Rightarrow> u64 \<Rightarrow> bool \<Rightarrow> 'fs \<Rightarrow> 'w loading
     \<Rightarrow> ('w loading \<times> (io_error + unit)) option" where
  "redis_load_from_file_system F client K V sch t kl vl dirpath file_name buffer_size load_entire_dir fs s =
     (let filepath = join_path F dirpath file_name
      in case file_system_for_file F filepath of
           Some e \<Rightarrow> Some (s, Inl (File_error e))
         | None \<Rightarrow>
             if load_entire_dir
             then (case matching_paths F (file_pattern F dirpath file_name) fs of
                 Inl e \<Rightarrow> Some (s, Inl (File_error e))
               | Inr all_filepath \<Rightarrow>
                   redis_load_paths F client K V sch t kl vl buffer_size fs
                     (remdups_adj (sort (map delete_postfix all_filepath))) s)
             else redis_load_impl F client K V sch t kl vl buffer_size fs filepath s)"

end
