(* ===== verification/Redis_Checkpoint_Spec.thy ===== *)
theory Redis_Checkpoint_Spec
  imports Redis_Checkpoint Redis_Codec Redis_Export_Spec Cuckoo_Checkpoint_Spec
begin

text \<open>
  What the files of a saved Redis table hold, and what loading them does to a table: on a file
  system and on servers that do what their operations are documented to do.
\<close>

section \<open>Calls of the file system\<close>

lemma try_file_ok: "snd (f fs) = None \<Longrightarrow> try_file f (fs, b) = ((fst (f fs), b), Inr ())"
  by (cases "f fs") (simp add: try_file_def)

lemma reliable_try:
  assumes "reliable F content"
  shows "\<exists>fs'. try_file (create_dir F p) (fs, b) = ((fs', b), Inr ()) \<and> content fs' = content fs"
    and "\<exists>fs'. try_file ((if append_to_file then new_appendable F else new_writable F) p) (fs, b) =
      ((fs', b), Inr ()) \<and> content fs' = (content fs)(p \<mapsto> written content append_to_file fs p)"
    and "content fs p = Some old \<Longrightarrow>
      \<exists>fs'. try_file (append_file F p bs) (fs, b) = ((fs', b), Inr ()) \<and> content fs' = (content fs)(p \<mapsto> old @ bs)"
    and "\<exists>fs'. try_file (flush_file F p) (fs, b) = ((fs', b), Inr ()) \<and> content fs' = content fs"
    and "\<exists>fs'. try_file (sync_file F p) (fs, b) = ((fs', b), Inr ()) \<and> content fs' = content fs"
    and "content fs p = Some old \<Longrightarrow> try_file (\<lambda>fs. (fs, file_exists F p fs)) (fs, b) = ((fs, b), Inr ())"
    and "content fs p = Some old \<Longrightarrow>
      \<exists>fs'. try_file (rename_file F p q) (fs, b) = ((fs', b), Inr ()) \<and>
        content fs' = (content fs)(p := None, q \<mapsto> old)"
proof -
  note r = assms [unfolded reliable_def]
  have step: "\<exists>fs'. try_file f (fs, b) = ((fs', b), Inr ()) \<and> content fs' = c"
    if "snd (f fs) = None" "content (fst (f fs)) = c" for f c
    using try_file_ok [of f fs b, OF that(1)] that(2) by blast
  show "\<exists>fs'. try_file (create_dir F p) (fs, b) = ((fs', b), Inr ()) \<and> content fs' = content fs"
    by (rule step) (use r in simp)+
  show "\<exists>fs'. try_file ((if append_to_file then new_appendable F else new_writable F) p) (fs, b) =
      ((fs', b), Inr ()) \<and> content fs' = (content fs)(p \<mapsto> written content append_to_file fs p)"
    by (rule step) (use r in \<open>simp_all add: written_def\<close>)
  show "\<exists>fs'. try_file (append_file F p bs) (fs, b) = ((fs', b), Inr ()) \<and> content fs' = (content fs)(p \<mapsto> old @ bs)"
    if "content fs p = Some old"
    by (rule step) (use r that in simp)+
  show "\<exists>fs'. try_file (flush_file F p) (fs, b) = ((fs', b), Inr ()) \<and> content fs' = content fs"
    by (rule step) (use r in simp)+
  show "\<exists>fs'. try_file (sync_file F p) (fs, b) = ((fs', b), Inr ()) \<and> content fs' = content fs"
    by (rule step) (use r in simp)+
  show "try_file (\<lambda>fs. (fs, file_exists F p fs)) (fs, b) = ((fs, b), Inr ())" if "content fs p = Some old"
  proof -
    have "file_exists F p fs = None" using r that by simp
    then show ?thesis by (simp add: try_file_def)
  qed
  show "\<exists>fs'. try_file (rename_file F p q) (fs, b) = ((fs', b), Inr ()) \<and>
        content fs' = (content fs)(p := None, q \<mapsto> old)" if "content fs p = Some old"
    by (rule step) (use r that in simp)+
qed

section \<open>The buffers\<close>

text \<open>
  The invariant of saving: the files and the rows in front of \<open>pos\<close> in the buffers hold the pairs
  so far.
\<close>

definition saving ::
  "('fs \<Rightarrow> string \<Rightarrow> octets option) \<Rightarrow> string \<Rightarrow> string \<Rightarrow> octets \<Rightarrow> octets \<Rightarrow> nat \<Rightarrow> nat \<Rightarrow> nat
     \<Rightarrow> 'fs \<times> nat \<times> octets \<times> octets \<Rightarrow> (octets \<times> octets) list \<Rightarrow> bool" where
  "saving content kp vp oldk oldv n kn vn s kvs \<longleftrightarrow> (case s of (fs, pos, kb, vb) \<Rightarrow>
     pos < n \<and> length kb = n * kn \<and> length vb = n * vn \<and> (\<exists>ck cv.
       content fs kp = Some (oldk @ ck) \<and> content fs vp = Some (oldv @ cv) \<and>
       ck @ take (pos * kn) kb = concat (map fst kvs) \<and> cv @ take (pos * vn) vb = concat (map snd kvs)))"

definition sized :: "nat \<Rightarrow> nat \<Rightarrow> (octets \<times> octets) list \<Rightarrow> bool" where
  "sized kn vn kvs \<longleftrightarrow> (\<forall>(f, v) \<in> set kvs. length f = kn \<and> length v = vn)"

lemma sized_simps [simp]:
  "sized kn vn []" "sized kn vn ((f, v) # kvs) \<longleftrightarrow> length f = kn \<and> length v = vn \<and> sized kn vn kvs"
  "sized kn vn (xs @ ys) \<longleftrightarrow> sized kn vn xs \<and> sized kn vn ys"
  by (auto simp: sized_def)

lemma put_bytes_whole:
  "length str = n \<Longrightarrow> put_bytes pos n (Reply_string str) mem = Inr (write_at (pos * n) str mem)"
  by (simp add: put_bytes_def)

lemma take_write_at:
  assumes "length str = n" "Suc pos * n \<le> length mem"
  shows "take (Suc pos * n) (write_at (pos * n) str mem) = take (pos * n) mem @ str"
  using assms by (simp add: write_at_def)

lemma save_batch_spec:
  assumes F: "reliable F content" and ne: "kp \<noteq> vp" and pos: "0 < kn"
    and inv: "saving content kp vp oldk oldv n kn vn s done" and sz: "sized kn vn kvs"
  shows "\<exists>s'. save_batch F kn vn kp vp (map Reply_string (flat_pairs kvs)) s = (s', Inr ()) \<and>
    saving content kp vp oldk oldv n kn vn s' (done @ kvs)"
  using inv sz
proof (induction kvs arbitrary: s "done")
  case Nil
  then show ?case by simp
next
  case (Cons p kvs)
  obtain f v where p: "p = (f, v)" by (cases p)
  obtain fs pos kb vb where s: "s = (fs, pos, kb, vb)" by (cases s)
  obtain ck cv where lt: "pos < n" and len: "length kb = n * kn" "length vb = n * vn"
    and c: "content fs kp = Some (oldk @ ck)" "content fs vp = Some (oldv @ cv)"
    and sofar: "ck @ take (pos * kn) kb = concat (map fst done)" "cv @ take (pos * vn) vb = concat (map snd done)"
    using Cons.prems(1) unfolding s saving_def by auto
  have fv: "length f = kn" "length v = vn" "sized kn vn kvs" using Cons.prems(2) p by simp_all
  have room: "Suc pos * kn \<le> length kb" "Suc pos * vn \<le> length vb"
    using lt len by (simp_all only: mult_le_mono1 Suc_leI)
  let ?kb = "write_at (pos * kn) f kb" and ?vb = "write_at (pos * vn) v vb"
  have len': "length ?kb = n * kn" "length ?vb = n * vn"
    using room fv len by (simp_all add: length_write_at)
  have taken: "take (Suc pos * kn) ?kb = take (pos * kn) kb @ f" "take (Suc pos * vn) ?vb = take (pos * vn) vb @ v"
    using take_write_at [OF fv(1) room(1)] take_write_at [OF fv(2) room(2)] .
  have after: "ck @ take (Suc pos * kn) ?kb = concat (map fst (done @ [p]))"
    "cv @ take (Suc pos * vn) ?vb = concat (map snd (done @ [p]))"
    using sofar unfolding taken by (simp_all add: p flip: append_assoc)
  have put: "put_bytes pos kn (Reply_string f) kb = Inr ?kb" "put_bytes pos vn (Reply_string v) vb = Inr ?vb"
    using fv by (simp_all add: put_bytes_whole)
  show ?case
  proof (cases "Suc pos < n")
    case True
    then have "Suc pos * kn < n * kn" using assms(3) by (intro mult_strict_right_mono) simp_all
    moreover have "saving content kp vp oldk oldv n kn vn (fs, Suc pos, ?kb, ?vb) (done @ [p])"
      using True len' c after unfolding saving_def by simp
    ultimately show ?thesis
      using Cons.IH [OF _ fv(3), of "(fs, Suc pos, ?kb, ?vb)" "done @ [p]"] put room len'
      by (simp add: p s not_less)
  next
    case False
    then have n: "n = Suc pos" using lt by simp
    obtain fs1 where fs1: "try_file (append_file F kp ?kb) (fs, 0 :: nat, ?kb, ?vb) = ((fs1, 0, ?kb, ?vb), Inr ())"
      "content fs1 = (content fs)(kp \<mapsto> (oldk @ ck) @ ?kb)"
      using reliable_try(3) [OF F c(1), of ?kb "(0 :: nat, ?kb, ?vb)"] by blast
    have "content fs1 vp = Some (oldv @ cv)" using fs1(2) c(2) ne by simp
    then obtain fs2 where fs2: "try_file (append_file F vp ?vb) (fs1, 0 :: nat, ?kb, ?vb) = ((fs2, 0, ?kb, ?vb), Inr ())"
      "content fs2 = (content fs1)(vp \<mapsto> (oldv @ cv) @ ?vb)"
      using reliable_try(3) [OF F, of fs1 vp _ ?vb "(0 :: nat, ?kb, ?vb)"] by blast
    have whole: "take (Suc pos * kn) ?kb = ?kb" "take (Suc pos * vn) ?vb = ?vb"
      using len' n by simp_all
    have "saving content kp vp oldk oldv n kn vn (fs2, 0, ?kb, ?vb) (done @ [p])"
      using n len' fs1(2) fs2(2) after ne unfolding saving_def whole by simp
    then show ?thesis
      using Cons.IH [OF _ fv(3), of "(fs2, 0, ?kb, ?vb)" "done @ [p]"] put room len' n fs1(1) fs2(1)
      by (simp add: p s not_less)
  qed
qed

section \<open>The slices\<close>

lemma sized_check:
  assumes "kvs \<noteq> []" "sized kn vn kvs"
  shows "check_dimension (Some vn) (map Reply_string (flat_pairs kvs)) = None"
proof -
  have "rows_of_length (Some vn) kvs" using assms(2) by (auto simp: rows_of_length_def sized_def)
  then show ?thesis by (rule check_dimension_spec [OF assms(1)])
qed

lemma save_slice_spec:
  assumes F: "reliable F content" and ne: "kp \<noteq> vp" and pos: "0 < kn"
    and "scan_chain client t name w cursor batches" "sized kn vn (concat batches)"
    and "saving content kp vp oldk oldv n kn vn s done"
  shows "\<exists>s'. save_slice F client kn vn kp vp t name w cursor s = Some (s', Inr ()) \<and>
    saving content kp vp oldk oldv n kn vn s' (done @ concat batches)"
  using assms(4-6)
proof (induction client t name w cursor batches arbitrary: s "done" rule: scan_chain.induct)
  case (2 client t name w cursor kvs)
  show ?case
  proof (cases "kvs = []")
    case True
    then show ?thesis using 2 by (subst save_slice.simps) simp
  next
    case False
    then have "\<not> length (flat_pairs kvs) < 2" by (cases kvs) (auto simp: length_flat_pairs)
    moreover have "check_dimension (Some vn) (map Reply_string (flat_pairs kvs)) = None"
      using sized_check [OF False] 2 by simp
    ultimately show ?thesis
      using 2 save_batch_spec [OF F ne pos 2(3), of kvs] by (subst save_slice.simps) auto
  qed
next
  case (3 client t name w cursor kvs kvs' rest)
  let ?more = "concat (kvs' # rest)"
  obtain c where c: "hscan_get_keys_vals_in_bucket client name cursor (max_argc t) w =
      Some (c, Reply_array (map Reply_string (flat_pairs kvs)))" "c \<noteq> 0"
      "scan_chain client t name w c (kvs' # rest)" and kvs: "kvs \<noteq> []"
    using "3.prems"(1) by (auto split: option.splits prod.splits)
  have sz: "sized kn vn kvs" "sized kn vn ?more" using "3.prems"(2) by simp_all
  have check: "check_dimension (Some vn) (map Reply_string (flat_pairs kvs)) = None"
    by (rule sized_check [OF kvs sz(1)])
  obtain s1 where s1: "save_batch F kn vn kp vp (map Reply_string (flat_pairs kvs)) s = (s1, Inr ())"
    "saving content kp vp oldk oldv n kn vn s1 (done @ kvs)"
    using save_batch_spec [OF F ne pos "3.prems"(3) sz(1)] by blast
  have "save_slice F client kn vn kp vp t name w cursor s = save_slice F client kn vn kp vp t name w c s1"
    using c check s1(1) by (subst save_slice.simps) simp
  then show ?case
    using "3.IH" [OF c(1) refl c(3) sz(2) s1(2)] by simp
qed simp

lemma save_slices_spec:
  assumes F: "reliable F content" and ne: "kp \<noteq> vp" and pos: "0 < kn"
    and "\<And>name. name \<in> set names \<Longrightarrow> scan_chain client t name w 0 (b name) \<and> sized kn vn (concat (b name))"
    and "saving content kp vp oldk oldv n kn vn s done"
  shows "\<exists>s'. save_slices F client kn vn kp vp t names w s = Some (s', Inr ()) \<and>
    saving content kp vp oldk oldv n kn vn s' (done @ concat (map (concat \<circ> b) names))"
  using assms(4,5)
proof (induction names arbitrary: s "done")
  case (Cons name names)
  obtain s1 where s1: "save_slice F client kn vn kp vp t name w 0 s = Some (s1, Inr ())"
    "saving content kp vp oldk oldv n kn vn s1 (done @ concat (b name))"
    using save_slice_spec [OF F ne pos _ _ Cons.prems(2)] Cons.prems(1) by (meson list.set_intros(1))
  then show ?case using Cons.IH [OF _ s1(2)] Cons.prems(1) by auto
qed simp

section \<open>The files\<close>

lemma save_rest_spec:
  assumes F: "reliable F content" and pos: "0 < kn" "0 < vn"
    and files: "(kp, vp) = (if tmp then (fp @ ''-keys.tmp'', fp @ ''-values.tmp'') else (fp @ ''-keys'', fp @ ''-values''))"
    and inv: "saving content kp vp oldk oldv n kn vn s kvs"
  shows "\<exists>fs' b. save_rest F kn vn tmp kp vp fp s = ((fs', b), Inr ()) \<and>
    content fs' (fp @ ''-keys'') = Some (oldk @ concat (map fst kvs)) \<and>
    content fs' (fp @ ''-values'') = Some (oldv @ concat (map snd kvs))"
proof -
  have ne: "kp \<noteq> vp" using files by (auto split: if_splits)
  note R = reliable_try [OF F]
  obtain fs p kb vb where s: "s = (fs, p, kb, vb)" by (cases s)
  obtain ck cv where c: "content fs kp = Some (oldk @ ck)" "content fs vp = Some (oldv @ cv)"
    "ck @ take (p * kn) kb = concat (map fst kvs)" "cv @ take (p * vn) vb = concat (map snd kvs)"
    using inv unfolding s saving_def by auto
  let ?b = "(p, kb, vb)" and ?rest = "p * kn \<noteq> 0 \<and> p * vn \<noteq> 0"
  let ?K = "oldk @ concat (map fst kvs)" and ?V = "oldv @ concat (map snd kvs)"
  have "\<exists>f1. (if ?rest then try_file (append_file F kp (take (p * kn) kb)) (fs, ?b) else ((fs, ?b), Inr ())) =
      ((f1, ?b), Inr ()) \<and> content f1 = (content fs)(kp \<mapsto> ?K)"
    using R(3) [OF c(1), of "take (p * kn) kb" ?b] c(1,3) pos by (cases "p = 0") (auto simp: fun_upd_idem)
  then obtain f1 where f1: "(if ?rest then try_file (append_file F kp (take (p * kn) kb)) (fs, ?b) else ((fs, ?b), Inr ())) =
      ((f1, ?b), Inr ())" "content f1 = (content fs)(kp \<mapsto> ?K)" by blast
  have cv: "content f1 vp = Some (oldv @ cv)" using f1(2) c(2) ne by simp
  have "\<exists>f2. (if ?rest then try_file (append_file F vp (take (p * vn) vb)) (f1, ?b) else ((f1, ?b), Inr ())) =
      ((f2, ?b), Inr ()) \<and> content f2 = (content f1)(vp \<mapsto> ?V)"
    using R(3) [OF cv, of "take (p * vn) vb" ?b] cv c(4) pos by (cases "p = 0") (auto simp: fun_upd_idem)
  then obtain f2 where f2: "(if ?rest then try_file (append_file F vp (take (p * vn) vb)) (f1, ?b) else ((f1, ?b), Inr ())) =
      ((f2, ?b), Inr ())" "content f2 = (content f1)(vp \<mapsto> ?V)" by blast
  obtain f3 where f3: "try_file (flush_file F kp) (f2, ?b) = ((f3, ?b), Inr ())" "content f3 = content f2"
    using R(4) [of kp f2 ?b] by blast
  obtain f4 where f4: "try_file (flush_file F vp) (f3, ?b) = ((f4, ?b), Inr ())" "content f4 = content f3"
    using R(4) [of vp f3 ?b] by blast
  obtain f5 where f5: "try_file (sync_file F kp) (f4, ?b) = ((f5, ?b), Inr ())" "content f5 = content f4"
    using R(5) [of kp f4 ?b] by blast
  obtain f6 where f6: "try_file (sync_file F vp) (f5, ?b) = ((f6, ?b), Inr ())" "content f6 = content f5"
    using R(5) [of vp f5 ?b] by blast
  have c6: "content f6 kp = Some ?K" "content f6 vp = Some ?V"
    using f1(2) f2(2) f3(2) f4(2) f5(2) f6(2) ne by simp_all
  note run = f1(1) f2(1) f3(1) f4(1) f5(1) f6(1)
  show ?thesis
  proof (cases tmp)
    case False
    then have "save_rest F kn vn tmp kp vp fp s = ((f6, ?b), Inr ())"
      using run by (simp add: save_rest_def s Let_def)
    then show ?thesis using c6 files False by auto
  next
    case True
    obtain f7 where f7: "try_file (rename_file F kp (fp @ ''-keys'')) (f6, ?b) = ((f7, ?b), Inr ())"
      "content f7 = (content f6)(kp := None, fp @ ''-keys'' \<mapsto> ?K)"
      using R(7) [OF c6(1), of "fp @ ''-keys''" ?b] by blast
    have c7: "content f7 vp = Some ?V" using f7(2) c6(2) ne files True by simp
    obtain f8 where f8: "try_file (rename_file F vp (fp @ ''-values'')) (f7, ?b) = ((f8, ?b), Inr ())"
      "content f8 = (content f7)(vp := None, fp @ ''-values'' \<mapsto> ?V)"
      using R(7) [OF c7, of "fp @ ''-values''" ?b] by blast
    have "save_rest F kn vn tmp kp vp fp s = ((f8, ?b), Inr ())"
      using True run R(6) [OF c6(1), of ?b] R(6) [OF c7, of ?b] f7(1) f8(1)
      by (simp add: save_rest_def s Let_def)
    moreover have "content f8 (fp @ ''-keys'') = Some ?K" "content f8 (fp @ ''-values'') = Some ?V"
      using f7(2) f8(2) files True by simp_all
    ultimately show ?thesis by blast
  qed
qed

section \<open>Loading\<close>

lemma typed_elements_bytes:
  assumes "layout_ok l UNIV"
  shows "typed_elements l (length xs) (concat (map (to_bytes l) xs)) = xs"
proof (rule nth_equalityI)
  fix j assume "j < length (typed_elements l (length xs) (concat (map (to_bytes l) xs)))"
  then have j: "j < length xs" by (simp add: typed_elements_def row_view_def)
  have "length (to_bytes l x) = size_of l" for x using assms by (simp add: layout_ok_def)
  from take_drop_concat [where f = "to_bytes l", OF this j]
  show "typed_elements l (length xs) (concat (map (to_bytes l) xs)) ! j = xs ! j"
    using assms j by (simp add: typed_elements_def row_view_def layout_ok_def)
qed (simp add: typed_elements_def row_view_def)

text \<open>The records in the middle of a file stand where the loop reads them.\<close>

lemma bytes_between:
  assumes recs: "records_ok kl vl d es"
  shows "take (length (take n (drop i es)) * size_of kl) (drop (i * size_of kl) (key_bytes kl es)) =
      key_bytes kl (take n (drop i es))"
    and "take (length (take n (drop i es)) * (size_of vl * d)) (drop (i * (size_of vl * d)) (value_bytes vl es)) =
      value_bytes vl (take n (drop i es))"
proof -
  let ?part = "take n (drop i es)"
  have split: "es = take i es @ ?part @ drop n (drop i es)" by (simp only: append_take_drop_id)
  have sub: "set ?part \<subseteq> set es" "set (take i es) \<subseteq> set es"
    by (meson set_drop_subset set_take_subset subset_trans)+
  note len = length_bytes [OF recs sub(1)] length_bytes [OF recs sub(2)]
  have k: "key_bytes kl es = key_bytes kl (take i es) @ key_bytes kl ?part @ key_bytes kl (drop n (drop i es))"
    and v: "value_bytes vl es = value_bytes vl (take i es) @ value_bytes vl ?part @ value_bytes vl (drop n (drop i es))"
    by (metis split bytes_append)+
  show "take (length ?part * size_of kl) (drop (i * size_of kl) (key_bytes kl es)) = key_bytes kl ?part"
    "take (length ?part * (size_of vl * d)) (drop (i * (size_of vl * d)) (value_bytes vl es)) = value_bytes vl ?part"
    unfolding k v using len by (cases "i \<le> length es"; simp)+
qed

lemma do_insert_records:
  assumes ok: "redis_ok K t" "contexts_ok (storage_slice t) tcs" "fair_scheduler sch" "obeys_hmset client view"
    and d: "runtime_value_dim t = d" and row: "\<And>e. e \<in> set es \<Longrightarrow> length (kv_mapped e) = d"
    and es: "es \<noteq> []" "distinct (map kv_key es)"
  shows "\<exists>tcs' w'. redis_do_insert client K V sch t False (map kv_key es) (concat (map kv_mapped es)) d (w, None) tcs =
      Some (tcs', (w', None), None) \<and> contexts_ok (storage_slice t) tcs' \<and>
    table_view K t view w' = table_view K t view w ++
      map_of (rev (map (\<lambda>e. (kv_key e, v_content V (kv_mapped e))) es))"
proof -
  have len: "length (concat (map kv_mapped es)) = length (map kv_key es) * d"
    using row by (induction es) (simp_all add: add_mult_distrib)
  have rows: "zip (map kv_key es) (map (v_content V) (row_view d (length es) (concat (map kv_mapped es)))) =
      map (\<lambda>e. (kv_key e, v_content V (kv_mapped e))) es"
    using row_view_concat [of "map kv_mapped es" d] row by (simp add: zip_map_map zip_same_conv_map comp_def)
  have "redis_do_insert client K V sch t False (map kv_key es) (concat (map kv_mapped es)) d (w, None) tcs =
      redis_insert client K V sch t (map kv_key es) (concat (map kv_mapped es)) (w, None) tcs"
    using es(1) len by (simp add: redis_insert_def)
  then show ?thesis
    using redis_insert_spec [OF ok len disjI1 [OF es(2)], of V w] rows by auto
qed

lemma map_of_rev_chunks:
  "map_of (rev (map g xs)) = map_of (rev (map g (take n xs))) ++ map_of (rev (map g (drop n xs)))"
  by (metis append_take_drop_id map_append map_of_append rev_append)

text \<open>One round of the loop inserts the next records, as many as the buffer holds.\<close>

lemma redis_load_round:
  assumes F: "reliable F content" and recs: "records_ok kl vl d es"
    and layouts: "layout_ok kl UNIV" "layout_ok vl UNIV"
    and files: "content fs kp = Some (key_bytes kl es)" "content fs vp = Some (value_bytes vl es)"
    and d: "runtime_value_dim t = d" and i: "i < length es"
    and ins: "redis_do_insert client K V sch t False (map kv_key (take bs (drop i es)))
      (concat (map kv_mapped (take bs (drop i es)))) d (w, None) tcs = Some (tcs1, (w1, None), None)"
  defines "next \<equiv> i + min bs (length es - i)"
  shows "redis_load_loop F client K V sch t kl vl bs kp vp (length es * size_of kl) fs
      (i * size_of kl) (i * (size_of vl * d)) ((tcs, (w, None)), None) =
    redis_load_loop F client K V sch t kl vl bs kp vp (length es * size_of kl) fs
      (next * size_of kl) (next * (size_of vl * d)) ((tcs1, (w1, None)), None)"
proof -
  let ?part = "take bs (drop i es)" and ?n = "min bs (length es - i)"
  have sk: "0 < size_of kl" using layouts by (simp add: layout_ok_def)
  have n: "length ?part = ?n" "i + ?n \<le> length es" using i by simp_all
  have sub: "set ?part \<subseteq> set es" by (meson set_drop_subset set_take_subset subset_trans)
  have left: "length es * size_of kl - i * size_of kl = (length es - i) * size_of kl"
    by (simp add: diff_mult_distrib)
  have whole: "(bs * size_of kl < length es * size_of kl - i * size_of kl) = (bs < length es - i)"
    unfolding left using sk by simp
  have reads: "(if bs < length es - i then bs * size_of kl else length es * size_of kl - i * size_of kl) = ?n * size_of kl"
    "(if bs < length es - i then bs else ?n * size_of kl div size_of kl) = ?n"
    unfolding left using sk by (simp_all add: min_def)
  have ends: "i * size_of kl + ?n * size_of kl \<le> length (key_bytes kl es)"
    "i * (size_of vl * d) + ?n * (size_of vl * d) \<le> length (value_bytes vl es)"
    using mult_le_mono1 [OF n(2)] length_bytes [OF recs order_refl] by (simp_all only: flip: add_mult_distrib)
  note at = bytes_between [OF recs, of bs i, unfolded n(1)]
  have rd: "read_n_bytes F kp (i * size_of kl) (?n * size_of kl) fs = Inr (key_bytes kl ?part)"
    "read_n_bytes F vp (i * (size_of vl * d)) (?n * (size_of vl * d)) fs = Inr (value_bytes vl ?part)"
    using F files ends at unfolding reliable_def by simp_all
  have row: "\<And>e. e \<in> set ?part \<Longrightarrow> length (kv_mapped e) = d"
    using recs sub unfolding records_ok_def by blast
  have keys: "typed_elements kl ?n (key_bytes kl ?part) = map kv_key ?part"
    using typed_elements_bytes [OF layouts(1), of "map kv_key ?part"] n(1) by (simp add: key_bytes_def comp_def)
  have "length (concat (map kv_mapped ?part)) = ?n * d"
    using row by (subst length_concat_const [where d = d]) (simp_all add: min.commute)
  then have vals: "typed_elements vl (?n * d) (value_bytes vl ?part) = concat (map kv_mapped ?part)"
    using typed_elements_bytes [OF layouts(2), of "concat (map kv_mapped ?part)"]
    by (simp add: value_bytes_def row_bytes_def concat_map_concat comp_def)
  have lt: "i * size_of kl < length es * size_of kl" using i sk by simp
  show ?thesis
    by (subst redis_load_loop.simps)
      (simp only: Let_def lt if_True whole reads d rd keys vals ins first_error_def next_def add_mult_distrib
        prod.case sum.case option.case fst_conv snd_conv)
qed

lemma redis_load_loop_spec:
  assumes F: "reliable F content" and recs: "records_ok kl vl d es"
    and layouts: "layout_ok kl UNIV" "layout_ok vl UNIV"
    and files: "content fs kp = Some (key_bytes kl es)" "content fs vp = Some (value_bytes vl es)"
    and ok: "redis_ok K t" "fair_scheduler sch" "obeys_hmset client view"
    and d: "runtime_value_dim t = d" and bs: "1 \<le> bs" and dist: "distinct (map kv_key es)"
  shows "i \<le> length es \<Longrightarrow> contexts_ok (storage_slice t) tcs \<Longrightarrow>
    \<exists>tcs' w'. redis_load_loop F client K V sch t kl vl bs kp vp (length es * size_of kl) fs
        (i * size_of kl) (i * (size_of vl * d)) ((tcs, (w, None)), None) = Some (((tcs', (w', None)), None), Inr ()) \<and>
      contexts_ok (storage_slice t) tcs' \<and>
      table_view K t view w' = table_view K t view w ++
        map_of (rev (map (\<lambda>e. (kv_key e, v_content V (kv_mapped e))) (drop i es)))"
proof (induction "length es - i" arbitrary: i tcs w rule: less_induct)
  case less
  show ?case
  proof (cases "i < length es")
    case False
    then show ?thesis using less.prems layouts by (subst redis_load_loop.simps) (simp add: layout_ok_def)
  next
    case True
    let ?part = "take bs (drop i es)" and ?next = "i + min bs (length es - i)"
    let ?pair = "\<lambda>e. (kv_key e, v_content V (kv_mapped e))"
    have "set ?part \<subseteq> set es" by (meson set_drop_subset set_take_subset subset_trans)
    then have row: "\<And>e. e \<in> set ?part \<Longrightarrow> length (kv_mapped e) = d"
      using recs unfolding records_ok_def by blast
    have part: "?part \<noteq> []" "distinct (map kv_key ?part)"
      using True bs dist by (auto simp: take_map [symmetric] drop_map [symmetric])
    obtain tcs1 w1 where ins: "redis_do_insert client K V sch t False (map kv_key ?part) (concat (map kv_mapped ?part)) d
        (w, None) tcs = Some (tcs1, (w1, None), None)" "contexts_ok (storage_slice t) tcs1"
      and view1: "table_view K t view w1 = table_view K t view w ++ map_of (rev (map ?pair ?part))"
      using do_insert_records [OF ok(1) less.prems(2) ok(2,3) d row part, of V w] by blast
    have later: "length es - ?next < length es - i" "?next \<le> length es" using True bs by auto
    obtain tcs' w' where rest: "redis_load_loop F client K V sch t kl vl bs kp vp (length es * size_of kl) fs
        (?next * size_of kl) (?next * (size_of vl * d)) ((tcs1, (w1, None)), None) =
        Some (((tcs', (w', None)), None), Inr ())" "contexts_ok (storage_slice t) tcs'"
      and view': "table_view K t view w' = table_view K t view w1 ++ map_of (rev (map ?pair (drop ?next es)))"
      using less.hyps [OF later ins(2)] by blast
    have "drop bs (drop i es) = drop ?next es"
      using True by (cases "bs < length es - i") (simp_all add: min_def add.commute)
    then have "table_view K t view w' = table_view K t view w ++ map_of (rev (map ?pair (drop i es)))"
      using map_of_rev_chunks [of ?pair "drop i es" bs] by (simp only: view' view1 map_add_assoc)
    then show ?thesis
      using rest redis_load_round [OF F recs layouts files d True ins(1)] by auto
  qed
qed

lemma redis_load_impl_spec:
  assumes F: "reliable F content" and recs: "records_ok kl vl d es"
    and layouts: "layout_ok kl UNIV" "layout_ok vl UNIV"
    and files: "content fs (fp @ ''-keys'') = Some (key_bytes kl es)" "content fs (fp @ ''-values'') = Some (value_bytes vl es)"
    and ok: "redis_ok K t" "fair_scheduler sch" "obeys_hmset client view" "contexts_ok (storage_slice t) tcs"
    and d: "runtime_value_dim t = d" "0 < d" and bs: "1 \<le> unat bs" and dist: "distinct (map kv_key es)"
  shows "\<exists>tcs' w'. redis_load_impl F client K V sch t kl vl bs fs fp ((tcs, (w, None)), None) =
      Some (((tcs', (w', None)), None), Inr ()) \<and> contexts_ok (storage_slice t) tcs' \<and>
    table_view K t view w' = table_view K t view w ++
      map_of (map (\<lambda>e. (kv_key e, v_content V (kv_mapped e))) es)"
proof -
  have pos: "0 < size_of kl" "0 < size_of vl * d" using layouts d(2) by (simp_all add: layout_ok_def)
  note len = length_bytes [OF recs order_refl]
  have asked: "file_exists F (fp @ ''-keys'') fs = None" "new_random_access F (fp @ ''-keys'') fs = None"
    "new_random_access F (fp @ ''-values'') fs = None"
    "get_file_size F (fp @ ''-keys'') fs = Inr (length es * size_of kl)"
    "get_file_size F (fp @ ''-values'') fs = Inr (length es * (size_of vl * d))"
    using F files len unfolding reliable_def by simp_all
  obtain tcs' w' where run: "redis_load_loop F client K V sch t kl vl (unat bs) (fp @ ''-keys'') (fp @ ''-values'')
      (length es * size_of kl) fs 0 0 ((tcs, (w, None)), None) = Some (((tcs', (w', None)), None), Inr ())"
    "contexts_ok (storage_slice t) tcs'"
    "table_view K t view w' = table_view K t view w ++ map_of (rev (map (\<lambda>e. (kv_key e, v_content V (kv_mapped e))) es))"
    using redis_load_loop_spec [OF F recs, OF layouts, OF files, OF ok(1-3), OF d(1), OF bs, OF dist, OF le0,
        OF ok(4), unfolded mult_0 drop_0, where V = V and w = w] by (elim exE conjE) (rule that)
  have "map_of (rev (map (\<lambda>e. (kv_key e, v_content V (kv_mapped e))) es)) =
      map_of (map (\<lambda>e. (kv_key e, v_content V (kv_mapped e))) es)"
    using dist by (intro map_of_rev_distinct) (simp add: comp_def)
  moreover have "redis_load_impl F client K V sch t kl vl bs fs fp ((tcs, (w, None)), None) =
      Some (((tcs', (w', None)), None), Inr ())"
    using asked pos run(1) d(1) by (simp add: redis_load_impl_def Let_def)
  ultimately show ?thesis using run(2,3) by (intro exI [of _ tcs'] exI [of _ w']) simp
qed

section \<open>A table as records\<close>

text \<open>The rows of a table of fixed-size elements are as wide as its dimension.\<close>

definition fixed_rows :: "'v layout \<Rightarrow> nat \<Rightarrow> ('k \<rightharpoonup> octets) \<Rightarrow> bool" where
  "fixed_rows vl d m \<longleftrightarrow> (\<forall>v \<in> ran m. \<exists>row. length row = d \<and> v = row_bytes vl row)"

definition record_of :: "'k layout \<Rightarrow> 'v layout \<Rightarrow> nat \<Rightarrow> octets \<times> octets \<Rightarrow> ('k, 'v list) kv" where
  "record_of kl vl d p = \<lparr>kv_partial = 0, kv_key = of_bytes kl (fst p), kv_mapped = typed_elements vl d (snd p)\<rparr>"

lemma record_of_bytes:
  assumes "layout_ok kl UNIV" "layout_ok vl UNIV" "length row = d"
  shows "kv_key (record_of kl vl d (to_bytes kl k, row_bytes vl row)) = k"
    "kv_mapped (record_of kl vl d (to_bytes kl k, row_bytes vl row)) = row"
  using assms typed_elements_bytes [OF assms(2), of row]
  by (simp_all add: record_of_def row_bytes_def layout_ok_def)

lemma table_records:
  assumes layouts: "layout_ok kl UNIV" "layout_ok vl UNIV" and rows: "fixed_rows vl d m"
    and once: "distinct (map fst all)" and pairs: "set all = {(to_bytes kl k, v) |k v. m k = Some v}"
  defines "es \<equiv> map (record_of kl vl d) all"
  shows "records_ok kl vl d es" "distinct (map kv_key es)"
    "map_of (map (\<lambda>e. (kv_key e, row_bytes vl (kv_mapped e))) es) = m"
    "concat (map fst all) = key_bytes kl es" "concat (map snd all) = value_bytes vl es"
    "sized (size_of kl) (size_of vl * d) all"
proof -
  have each: "\<exists>k row. p = (to_bytes kl k, row_bytes vl row) \<and> m k = Some (row_bytes vl row) \<and> length row = d"
    if p: "p \<in> set all" for p
  proof -
    obtain k v where kv: "p = (to_bytes kl k, v)" "m k = Some v" using p unfolding pairs by blast
    then show ?thesis using rows unfolding fixed_rows_def by (metis ranI)
  qed
  have whole: "fst p = to_bytes kl (kv_key (record_of kl vl d p))" "snd p = row_bytes vl (kv_mapped (record_of kl vl d p))"
    "length (kv_mapped (record_of kl vl d p)) = d" if "p \<in> set all" for p
    using each [OF that] record_of_bytes [OF layouts] by auto
  have "layout_ok kl A" "layout_ok vl B" for A B using layouts by (simp_all add: layout_ok_def)
  then show recs: "records_ok kl vl d es" using whole(3) by (simp add: records_ok_def es_def)
  have "map fst all = map (\<lambda>p. to_bytes kl (kv_key (record_of kl vl d p))) all"
    "map snd all = map (\<lambda>p. row_bytes vl (kv_mapped (record_of kl vl d p))) all"
    using whole(1,2) by (intro map_cong refl; simp)+
  then have sent: "map fst all = map (to_bytes kl) (map kv_key es)" "map fst all = map (\<lambda>e. to_bytes kl (kv_key e)) es"
    "map snd all = map (\<lambda>e. row_bytes vl (kv_mapped e)) es" by (simp_all add: es_def comp_def)
  then show dist: "distinct (map kv_key es)" using once by (simp only: distinct_map)
  show "concat (map fst all) = key_bytes kl es" "concat (map snd all) = value_bytes vl es"
    by (simp_all only: sent(2,3) key_bytes_def value_bytes_def)
  show "map_of (map (\<lambda>e. (kv_key e, row_bytes vl (kv_mapped e))) es) = m"
  proof
    fix k
    let ?kvs = "map (\<lambda>e. (kv_key e, row_bytes vl (kv_mapped e))) es"
    have d: "distinct (map fst ?kvs)" using dist by (simp add: comp_def)
    have "m k = Some v \<longleftrightarrow> (k, v) \<in> set ?kvs" for v
    proof
      assume "m k = Some v"
      moreover obtain row where row: "v = row_bytes vl row" "length row = d"
        using rows \<open>m k = Some v\<close> unfolding fixed_rows_def by (meson ranI)
      ultimately have "(to_bytes kl k, row_bytes vl row) \<in> set all" unfolding pairs by blast
      then have "record_of kl vl d (to_bytes kl k, row_bytes vl row) \<in> set es" by (simp add: es_def)
      then show "(k, v) \<in> set ?kvs"
        using record_of_bytes [OF layouts row(2), of k] row(1) by force
    next
      assume "(k, v) \<in> set ?kvs"
      then obtain p where p: "p \<in> set all" "k = kv_key (record_of kl vl d p)"
        "v = row_bytes vl (kv_mapped (record_of kl vl d p))" by (auto simp: es_def)
      then show "m k = Some v" using each [OF p(1)] record_of_bytes [OF layouts] by auto
    qed
    then have "map_of ?kvs k = Some v \<longleftrightarrow> m k = Some v" for v
      by (simp only: map_of_eq_Some_iff [OF d])
    then show "map_of ?kvs k = m k" by (metis option.exhaust)
  qed
  show "sized (size_of kl) (size_of vl * d) all"
    unfolding sized_def
  proof (intro ballI, clarify)
    fix f v assume p: "(f, v) \<in> set all"
    then have "record_of kl vl d (f, v) \<in> set es" by (simp add: es_def)
    then show "length f = size_of kl \<and> length v = size_of vl * d"
      using records_okD(1,3) [OF recs, of "record_of kl vl d (f, v)"] whole(1,2) [OF p]
      by (simp only: fst_conv snd_conv)
  qed
qed

section \<open>Saving a table\<close>

text \<open>The servers of a table whose scans return every field once.\<close>

definition scannable ::
  "'w redis_client \<Rightarrow> 'k key_ops \<Rightarrow> redis_table \<Rightarrow> ('w \<Rightarrow> octets \<Rightarrow> octets \<Rightarrow> octets option) \<Rightarrow> 'w \<Rightarrow> bool" where
  "scannable client K t view w \<longleftrightarrow> redis_ok K t \<and> in_own_slice K t view w \<and>
     (\<forall>name \<in> set (slice_names t). plain_name name) \<and>
     (\<forall>i < storage_slice t. finite (dom (view w (slice_names t ! i)))) \<and>
     answers_hlen client view \<and> scans_once client view t w \<and> card (dom (table_view K t view w)) < 2 ^ 64"

lemma scannable_size:
  assumes "scannable client K t view w"
  shows "size_loop client (slice_names t) 0 w = Inr (of_nat (card (dom (table_view K t view w))))"
    and "(of_nat (card (dom (table_view K t view w))) = (0 :: u64)) = (table_view K t view w = Map.empty)"
proof -
  have a: "redis_ok K t" "in_own_slice K t view w" "\<forall>name \<in> set (slice_names t). plain_name name"
    "\<forall>i < storage_slice t. finite (dom (view w (slice_names t ! i)))" "answers_hlen client view"
    "card (dom (table_view K t view w)) < 2 ^ 64"
    using assms by (simp_all add: scannable_def)
  note card = card_table [OF a(1,2,4)]
  show "size_loop client (slice_names t) 0 w = Inr (of_nat (card (dom (table_view K t view w))))"
    using size_loop_spec [OF a(5,3), of 0 w] card(1) by simp
  let ?c = "card (dom (table_view K t view w))"
  have e: "unat (of_nat ?c :: u64) = ?c" using a(6) by (simp add: unat_of_nat_less)
  have "(of_nat ?c = (0 :: u64)) = (unat (of_nat ?c :: u64) = 0)" by (rule unat_eq_zero [symmetric])
  then show "(of_nat ?c = (0 :: u64)) = (table_view K t view w = Map.empty)"
    by (simp only: e card_0_eq [OF card(2)] dom_eq_empty_conv)
qed

text \<open>An opened file is empty, or is what it was when the save appends.\<close>

lemma saving_start:
  assumes "1 \<le> n" "content fs kp = Some oldk" "content fs vp = Some oldv"
  shows "saving content kp vp oldk oldv n kn vn (fs, 0, replicate (n * kn) 0, replicate (n * vn) 0) []"
  using assms by (simp add: saving_def)

lemma opened_files:
  fixes app :: bool
  assumes F: "reliable F content" and ne: "kp \<noteq> vp"
  defines "opening \<equiv> if app then new_appendable F else new_writable F"
  shows "\<exists>fs'. and_then (try_file (create_dir F dir) (fs, b)) (\<lambda>_ s. and_then (try_file (opening kp) s)
      (\<lambda>_ s. try_file (opening vp) s)) = ((fs', b), Inr ()) \<and>
    content fs' = (content fs)(kp \<mapsto> written content app fs kp, vp \<mapsto> written content app fs vp)"
proof -
  obtain f1 where f1: "try_file (create_dir F dir) (fs, b) = ((f1, b), Inr ())" "content f1 = content fs"
    using reliable_try(1) [OF F, of dir fs b] by blast
  obtain f2 where f2: "try_file (opening kp) (f1, b) = ((f2, b), Inr ())"
    "content f2 = (content f1)(kp \<mapsto> written content app f1 kp)"
    using reliable_try(2) [OF F, of app kp f1 b] unfolding opening_def by blast
  obtain f3 where f3: "try_file (opening vp) (f2, b) = ((f3, b), Inr ())"
    "content f3 = (content f2)(vp \<mapsto> written content app f2 vp)"
    using reliable_try(2) [OF F, of app vp f2 b] unfolding opening_def by blast
  have "content f3 = (content fs)(kp \<mapsto> written content app fs kp, vp \<mapsto> written content app fs vp)"
    using f1(2) f2(2) f3(2) ne by (simp add: written_def)
  then show ?thesis using f1(1) f2(1) f3(1) by simp
qed

text \<open>
  Without a row the save ends after it has opened the files: where they are temporary ones,
  the files of an earlier save stay.
\<close>

lemma redis_save_empty:
  assumes F: "reliable F content" and table: "scannable client K t view w"
    and none: "table_view K t view w = Map.empty" and tmp: "has_atomic_move F fp fs \<noteq> (True, None)"
  shows "\<exists>fs'. redis_save_impl F client key_len elem_len t fp bs app w fs = Some (fs', Inr ()) \<and>
    content fs' (fp @ ''-keys'') = content fs (fp @ ''-keys'') \<and>
    content fs' (fp @ ''-values'') = content fs (fp @ ''-values'')"
proof -
  let ?b = "(0 :: nat, replicate (unat bs * key_len) 0 :: octets,
    replicate (unat bs * (elem_len * runtime_value_dim t)) 0 :: octets)"
  obtain atomic st where at: "has_atomic_move F fp fs = (atomic, st)" by force
  then have need: "\<not> atomic \<or> st \<noteq> None" using tmp by auto
  obtain fs' where opened: "and_then (try_file (create_dir F (dirname F fp)) (fs, ?b)) (\<lambda>_ s.
      and_then (try_file ((if app then new_appendable F else new_writable F) (fp @ ''-keys.tmp'')) s)
      (\<lambda>_ s. try_file ((if app then new_appendable F else new_writable F) (fp @ ''-values.tmp'')) s)) = ((fs', ?b), Inr ())"
    "content fs' = (content fs)(fp @ ''-keys.tmp'' \<mapsto> written content app fs (fp @ ''-keys.tmp''),
      fp @ ''-values.tmp'' \<mapsto> written content app fs (fp @ ''-values.tmp''))"
    using opened_files [OF F, where kp = "fp @ ''-keys.tmp''" and vp = "fp @ ''-values.tmp''" and app = app
      and dir = "dirname F fp" and fs = fs and b = ?b] by auto
  have "(of_nat (card (dom (table_view K t view w))) = (0 :: u64))" using scannable_size(2) [OF table] none by blast
  then have "redis_save_impl F client key_len elem_len t fp bs app w fs = Some (fs', Inr ())"
    unfolding redis_save_impl_def scannable_size(1) [OF table] Let_def at prod.case sum.case
    by (simp only: need opened(1) simp_thms if_True prod.case sum.case fst_conv)
  then show ?thesis using opened(2) by simp
qed

lemma redis_save_impl_spec:
  assumes F: "reliable F content" and table: "scannable client K t view w"
    and layouts: "layout_ok kl UNIV" "layout_ok vl UNIV" and keys: "k_content K = to_bytes kl"
    and rows: "fixed_rows vl d (table_view K t view w)" and d: "runtime_value_dim t = d" "0 < d"
    and bs: "1 \<le> unat bs" and filled: "table_view K t view w \<noteq> Map.empty"
  shows "\<exists>fs' es. redis_save_impl F client (size_of kl) (size_of vl) t fp bs app w fs = Some (fs', Inr ()) \<and>
    records_ok kl vl d es \<and> distinct (map kv_key es) \<and>
    map_of (map (\<lambda>e. (kv_key e, row_bytes vl (kv_mapped e))) es) = table_view K t view w \<and>
    content fs' (fp @ ''-keys'') = Some (written content app fs (fst (save_files F fp fs)) @ key_bytes kl es) \<and>
    content fs' (fp @ ''-values'') = Some (written content app fs (snd (save_files F fp fs)) @ value_bytes vl es)"
proof -
  let ?kn = "size_of kl" and ?vn = "size_of vl * d" and ?n = "unat bs"
  have pos: "0 < ?kn" "0 < ?vn" using layouts d(2) by (simp_all add: layout_ok_def)
  obtain kp vp where p: "save_files F fp fs = (kp, vp)" by force
  have ne: "kp \<noteq> vp" using p by (auto simp: save_files_def split: if_splits)
  obtain atomic st where at: "has_atomic_move F fp fs = (atomic, st)" by force
  let ?need = "\<not> atomic \<or> st \<noteq> None"
  have files: "kp = fp @ (if ?need then ''-keys.tmp'' else ''-keys'')" "vp = fp @ (if ?need then ''-values.tmp'' else ''-values'')"
    using p at by (auto simp: save_files_def split: if_splits)
  have a: "redis_ok K t" "in_own_slice K t view w"
    "\<forall>i < storage_slice t. finite (dom (view w (slice_names t ! i)))" "scans_once client view t w"
    using table by (simp_all add: scannable_def)
  obtain b all where scan: "\<forall>name \<in> set (slice_names t). scan_chain client t name w 0 (b name)"
    and all: "all = concat (map (concat \<circ> b) (slice_names t))" and once: "distinct (map fst all)"
    and pairs: "set all = {(k_content K k, v) |k v. table_view K t view w k = Some v}"
    using scanned_pairs [OF a] by (elim exE conjE) (rule that)
  note recs = table_records [OF layouts rows once pairs [unfolded keys]]
  let ?es = "map (record_of kl vl d) all"
  let ?kb = "replicate (?n * ?kn) 0 :: octets" and ?vb = "replicate (?n * ?vn) 0 :: octets"
  let ?k = "written content app fs kp" and ?v = "written content app fs vp"
  let ?b = "(0 :: nat, ?kb, ?vb)"
  obtain f3 where f3: "and_then (try_file (create_dir F (dirname F fp)) (fs, ?b)) (\<lambda>_ s.
      and_then (try_file ((if app then new_appendable F else new_writable F) kp) s)
      (\<lambda>_ s. try_file ((if app then new_appendable F else new_writable F) vp) s)) = ((f3, ?b), Inr ())"
    "content f3 = (content fs)(kp \<mapsto> ?k, vp \<mapsto> ?v)"
    using opened_files [OF F ne, where app = app and dir = "dirname F fp" and fs = fs and b = ?b] by blast
  have "content f3 kp = Some ?k" "content f3 vp = Some ?v" using f3(2) ne by simp_all
  note start = saving_start [where content = content and fs = f3 and kn = ?kn and vn = ?vn, OF bs this]
  have "scan_chain client t name w 0 (b name) \<and> sized ?kn ?vn (concat (b name))" if "name \<in> set (slice_names t)" for name
    using that scan recs(6) unfolding all sized_def by auto
  from save_slices_spec [OF F ne pos(1) this start]
  obtain s where s: "save_slices F client ?kn ?vn kp vp t (slice_names t) w (f3, 0, ?kb, ?vb) = Some (s, Inr ())"
    "saving content kp vp ?k ?v ?n ?kn ?vn s all" unfolding all append_Nil by blast
  have "(kp, vp) = (if ?need then (fp @ ''-keys.tmp'', fp @ ''-values.tmp'') else (fp @ ''-keys'', fp @ ''-values''))"
    using files by simp
  from save_rest_spec [OF F pos this s(2)]
  obtain fs' r where rest: "save_rest F ?kn ?vn ?need kp vp fp s = ((fs', r), Inr ())"
    "content fs' (fp @ ''-keys'') = Some (?k @ key_bytes kl ?es)"
    "content fs' (fp @ ''-values'') = Some (?v @ value_bytes vl ?es)" unfolding recs(4,5) by blast
  have "of_nat (card (dom (table_view K t view w))) \<noteq> (0 :: u64)" using scannable_size(2) [OF table] filled by simp
  then have "redis_save_impl F client ?kn (size_of vl) t fp bs app w fs = Some (fs', Inr ())"
    unfolding redis_save_impl_def scannable_size(1) [OF table] Let_def at prod.case sum.case d(1) files [symmetric]
    by (simp only: f3(1) s(1) rest(1) prod.case sum.case option.case if_False fst_conv)
  then show ?thesis using recs(1-3) rest(2,3) p by auto
qed

section \<open>There and back\<close>

text \<open>
  What one table saved another one loads, whatever the two have of slices, contexts, buffers and
  servers: the loaded rows replace or join those it had.
\<close>

lemma redis_save_load:
  assumes F: "reliable F content" and table: "scannable client K t view w"
    and layouts: "layout_ok kl UNIV" "layout_ok vl UNIV"
    and codec: "k_content K = to_bytes kl" "v_content V = row_bytes vl"
    and rows: "fixed_rows vl d (table_view K t view w)" "table_view K t view w \<noteq> Map.empty"
    and d: "runtime_value_dim t = d" "runtime_value_dim t' = d" "0 < d" and bs: "1 \<le> unat bs" "1 \<le> unat bs'"
    and ok: "redis_ok K' t'" "fair_scheduler sch" "obeys_hmset client' view'" "contexts_ok (storage_slice t') tcs"
  shows "\<exists>fs' tcs' u'. redis_save_to_file_system F client (size_of kl) (size_of vl) t dir file bs False w fs =
      Some (fs', Inr ()) \<and>
    redis_load_from_file_system F client' K' V sch t' kl vl dir file bs' False fs' ((tcs, (u, None)), None) =
      Some (((tcs', (u', None)), None), Inr ()) \<and>
    contexts_ok (storage_slice t') tcs' \<and>
    table_view K' t' view' u' = table_view K' t' view' u ++ table_view K t view w"
proof -
  let ?fp = "join_path F dir file"
  have fsf: "file_system_for_file F ?fp = None" using F by (simp add: reliable_def)
  obtain fs' es where save: "redis_save_impl F client (size_of kl) (size_of vl) t ?fp bs False w fs = Some (fs', Inr ())"
    and es: "records_ok kl vl d es" "distinct (map kv_key es)"
      "map_of (map (\<lambda>e. (kv_key e, row_bytes vl (kv_mapped e))) es) = table_view K t view w"
    and files: "content fs' (?fp @ ''-keys'') = Some (key_bytes kl es)"
      "content fs' (?fp @ ''-values'') = Some (value_bytes vl es)"
    using redis_save_impl_spec [OF F table layouts codec(1) rows(1) d(1,3) bs(1) rows(2), of ?fp False fs]
    by (auto simp: written_def)
  obtain tcs' u' where load: "redis_load_impl F client' K' V sch t' kl vl bs' fs' ?fp ((tcs, (u, None)), None) =
      Some (((tcs', (u', None)), None), Inr ())" "contexts_ok (storage_slice t') tcs'"
    "table_view K' t' view' u' = table_view K' t' view' u ++ table_view K t view w"
    using redis_load_impl_spec [OF F es(1), OF layouts, OF files, OF ok, OF d(2,3), OF bs(2) es(2),
        where V = V and w = u] unfolding codec(2) es(3) by blast
  have "redis_save_to_file_system F client (size_of kl) (size_of vl) t dir file bs False w fs = Some (fs', Inr ())"
    using save by (simp add: redis_save_to_file_system_def Let_def fsf)
  moreover have "redis_load_from_file_system F client' K' V sch t' kl vl dir file bs' False fs' ((tcs, (u, None)), None) =
      Some (((tcs', (u', None)), None), Inr ())"
    using load(1) by (simp add: redis_load_from_file_system_def Let_def fsf)
  ultimately show ?thesis using load(2,3) by blast
qed

end
