(* ===== verification/Redis_Checkpoint_Properties.thy ===== *)
theory Redis_Checkpoint_Properties
  imports Checkpoint_Properties Redis_Checkpoint_Spec Redis_Samples
begin

text \<open>
  The property of saving and loading Redis tables.  The witness saves the sample table to files
  in memory and loads them into a table that has a single slice.
\<close>

section \<open>Sample layouts and tables\<close>








section \<open>Saving and loading\<close>



end
