(* ===== verification/Spec2Isabelle.thy ===== *)
theory Spec2Isabelle
  imports Map_Properties Tensor_Properties Checkpoint_Properties Data_Flow_Properties
    Segment_Properties Redis_Properties Redis_Checkpoint_Properties
begin

text \<open>
  Verification library for the CPU embedding tables of TensorFlow Recommenders Addons, and for
  the operations that spread embedding rows over devices and merge them again, and for the tables
  kept in Redis (\<open>tensorflow_recommenders_addons/dynamic_embedding/core\<close>).

  \<^bold>\<open>The program.\<close>  A dynamic embedding is a hash table from keys to vectors.  On the CPU it
  is \<open>cuckoohash_map\<close> (\<open>lib/cuckoo\<close>), a concurrent cuckoo hash table with four slots in a bucket,
  striped spinlocks and lazy doubling.  \<open>kernels/lookup_impl/lookup_table_op_cpu.h\<close> wraps it
  once with a compile time and once with a run time dimension;
  \<open>kernels/cuckoo_hashtable_op.cc\<close> makes tensor operations and framework kernels of it, which
  also save a table to files and load it.  \<open>DynamicPartition\<close> (\<open>kernels/dynamic_partition_op.cc\<close>,
  \<open>dynamic_partition_op_gpu.cu.cc\<close>) and \<open>DynamicStitch\<close> (\<open>kernels/dynamic_stitch_op.cc\<close>,
  \<open>dynamic_stitch_op_gpu.cu.cc\<close>) have a CPU and a GPU kernel each.  \<open>SparseSegmentSum\<close>
  (\<open>kernels/segment_reduction_ops_impl.h\<close>, \<open>segment_reduction_ops_gpu.cu.cc\<close>) adds up the looked up
  rows of each segment on the GPU.
  A table may also live in Redis servers: \<open>kernels/redis_table_op.cc\<close> spreads it over the hashes
  (slices) of a cluster, \<open>redis_impl/redis_cluster_connection_pool.hpp\<close> turns a batch of keys into one
  command for every slice and puts the replies back in order, on the workers of
  \<open>redis_impl/thread_pool.h\<close>; \<open>redis_connection_pool.hpp\<close> does it for a single server.

  \<^bold>\<open>The theories.\<close>
  \<^item> \<open>Prelude\<close>: word types, sequencing of fallible operations, shared list lemmas.
  \<^item> \<open>Cuckoo_Hash\<close>: the key mixers, \<open>partial_key\<close>, \<open>index_hash\<close>, \<open>alt_index\<close>.
  \<^item> \<open>Cuckoo_Table\<close>: the bucket container, the locks, the map object (record \<open>cuckoo_map\<close>),
    \<open>move_bucket\<close> and \<open>rehash_lock\<close>.  \<open>Cuckoo_Inv\<close>: the invariant \<open>table_ok\<close>, the map
    \<open>abs_map\<close> a table denotes, and what migrating does to both.
  \<^item> \<open>Cuckoo_Search\<close>, \<open>Cuckoo_Path\<close>: locking one, two or three buckets, \<open>cuckoo_find\<close>, the
    breadth first search with its queue, paths, displacement and \<open>cuckoo_insert\<close>.  Their
    lemmas are in \<open>Cuckoo_Search_Lemmas\<close>, \<open>Cuckoo_BFS\<close>, \<open>Cuckoo_Kick\<close>, \<open>Cuckoo_Place\<close>.
    \<open>Cuckoo_Lock_Order\<close>: threads that run these lock sequences do not wait for each other in a cycle.
  \<^item> \<open>Cuckoo_Resize\<close>: doubling and migrating in bulk.  \<open>Cuckoo_Map\<close>: the public
    operations and \<open>cuckoo_expand_simple\<close>; \<open>Cuckoo_Map_Spec\<close>, \<open>Cuckoo_Rehash\<close>: what they do.
  \<^item> \<open>Cuckoo_Locked\<close>: \<open>locked_table\<close> and its iterators.  \<open>Cuckoo_Run\<close>: runs of operations.
  \<^item> \<open>Kv_Store\<close>: the interface (locales \<open>kv_reader\<close>, \<open>kv_store\<close>) between the tables and the
    batch operations, interpreted on the map here and on the wrappers in
    \<open>Table_Wrapper_Spec\<close>.
  \<^item> \<open>Table_Wrapper\<close>: \<open>TableWrapperOptimized\<close>, \<open>TableWrapperDefault\<close> and \<open>CreateTable\<close>.
  \<^item> \<open>Cuckoo_Table_Op\<close>: the launchers, \<open>CuckooHashTableOfTensors\<close> and the kernels;
    \<open>Cuckoo_Table_Op_Spec\<close>: their effect on the rows of the table.
  \<^item> \<open>Tensors\<close>: shape, elements and rows of a tensor, as all kernels see them.
  \<^item> \<open>Cuckoo_Checkpoint\<close>: \<open>SaveToFileSystem\<close> and \<open>LoadFromFileSystem\<close> against a record of file system
    operations; \<open>Cuckoo_Checkpoint_Spec\<close>: what the files hold and what loading them assigns.
  \<^item> \<open>Dynamic_Partition\<close>: both kernels; \<open>Dynamic_Partition_Spec\<close>: they deal out the same rows.
  \<^item> \<open>Dynamic_Stitch\<close>: the checks, the CPU loop and its worker threads; \<open>Dynamic_Stitch_GPU\<close>: the GPU
    kernel with its host code, and the fast kernel thread by thread; \<open>Dynamic_Stitch_Spec\<close>,
    \<open>Dynamic_Stitch_GPU_Spec\<close>, \<open>Dynamic_Stitch_Fast_Spec\<close>: all of them apply the same writes.
    \<open>Data_Flow\<close>: stitching undoes partitioning.
  \<^item> \<open>Segment_Sum\<close>: the shape checks, the threads of the kernel and their atomic writes;
    \<open>Segment_Sum_Spec\<close>: the writes of all threads, in any order, give the sums of the segments.
  \<^item> \<open>Thread_Pool\<close>: the worker pool as a transition system (\<open>pool_step\<close>), with its invariant, its
    history and the bound on what it does without its owner.
  \<^item> \<open>Redis_Util\<close>: command buffers, bucket numbers, the packing of rows; \<open>Redis_Util_Spec\<close>: the checksum
    byte by byte, and packed rows read back.  \<open>Redis_Cluster\<close>, \<open>Redis_Standalone\<close>: the commands of
    both wrappers and the placing of replies; \<open>Redis_Cluster_Spec\<close>: what the commands hold.
  \<^item> \<open>Redis_Table\<close>: \<open>RedisTableOfTensors\<close>; \<open>Redis_Table_Spec\<close>, \<open>Redis_Export_Spec\<close>: its operations
    against the map \<open>table_view\<close> that the hashes represent.  \<open>Redis_Slices\<close>: the names of the hashes.
  \<^item> \<open>Redis_Checkpoint\<close>: \<open>SaveToFileSystem\<close> and \<open>LoadFromFileSystem\<close> of the Redis table, for keys and values
    of a fixed size; \<open>Redis_Checkpoint_Spec\<close>: what the files hold and what loading them inserts.
  \<^item> \<open>Redis_Codec\<close>: the interfaces \<open>sliced_keys\<close> and \<open>row_codec\<close> between the table and the types of keys
    and values, interpreted on all types of keys, strings and words.
  \<^item> \<open>Samples\<close>, \<open>Redis_Samples\<close>: small concrete tables and a small server for the witnesses.
  \<^item> \<open>Map_Properties\<close>, \<open>Tensor_Properties\<close>, \<open>Checkpoint_Properties\<close>, \<open>Data_Flow_Properties\<close>,
    \<open>Segment_Properties\<close>, \<open>Redis_Properties\<close>, \<open>Redis_Checkpoint_Properties\<close>: the properties.

  \<^bold>\<open>How the model reads the code.\<close>  A member function is a function on the record of the
  object; it returns the new object and, in a sum, the exception (\<open>cuckoo_exn\<close>, \<open>op_exn\<close>) or
  the result.  Operations take effect one at a time, so that an operation finds every
  spinlock free; what threads wait for is the subject of \<open>Cuckoo_Lock_Order\<close> alone, over the same lock
  sequences.  In the operations \<open>hashpower_changed\<close> and \<open>failure_under_expansion\<close> are branches that the
  lemmas show are not taken; migrating under a lock, the order of locking and the checks
  on a path are modelled as written.  Rows of a batch are processed in the order
  the parameter \<open>shard\<close> of the device gives, which only has to cover each row once
  (\<open>fair_shard\<close>).  The allocator is the parameter \<open>alloc_limit\<close>, the largest
  hashpower it provides; the theorems ask for less than 60.  What is left of an entry that a bulk
  resize has moved into the new table is the parameter \<open>mv\<close>: a resize that throws half way leaves
  the old table with such entries.  Elsewhere a slot that was moved from is erased next, or is in a
  table that is dropped, and is not read.  The dimensions of tensors are natural numbers; where the GPU
  kernels and their host code compute in 32 bits (\<open>fits_int32\<close>) or in the index type
  (\<open>index_sizes_fit\<close>), a number beyond the limit makes the
  result \<open>None\<close>, and the properties assume that the numbers fit.  \<open>first_dim_of\<close> is one more than the
  largest index, which in the code wraps at the single index 2147483647.  CUB's sort and reduction are parameters with what its documentation
  says of them (\<open>sorts_pairs\<close>, \<open>reduces_by_key\<close>).  A GPU kernel whose threads write different
  elements is a loop over them; where threads share variables or the order matters, the
  model takes a schedule and the properties quantify over it.

  The Redis client and the servers are the record \<open>redis_client\<close> of functions over a state of the
  servers; what the code relies on is named in \<open>answers_hmget\<close>, \<open>obeys_hmset\<close>, \<open>obeys_hdel\<close>,
  \<open>obeys_del\<close>, \<open>answers_hlen\<close> and \<open>scans_once\<close>, which say what these commands do according to their
  documentation.  How \<open>Shard\<close> cuts the rows, and in which order the pool sends the buckets, are the
  fields of a \<open>scheduler\<close>; \<open>fair_scheduler\<close> asks that every row and bucket comes once.  The table of
  hash tags and the MD5 digest are arguments.

  \<^bold>\<open>Bounds and fuel.\<close>  \<open>cuckoo_insert_loop\<close> has \<open>insert_rounds\<close> = 64 rounds: each round that
  does not return doubles the table, and the allocator ends that below hashpower 60.
  \<open>run_cuckoo\<close> has \<open>cuckoo_rounds\<close> = 8: in the sequential model the first round decides.
  The loop that reserves a context, the scan of a slice and the loading of files may not end:
  they are partial functions, \<open>None\<close> is a run that does not return, and the properties show a result.  \<open>pool_work\<close> bounds the
  steps of the worker pool.
  \<open>dump\<close> and the comparison of locked tables are bounded by the capacity.  The lemmas show that the
  result \<open>Diverges\<close> or \<open>None\<close> of an exhausted bound does not occur.

  \<^bold>\<open>Not modelled.\<close>  The GPU tables and the vendored nvhash, cudf and cub code; the HKV
  tables, which wrap a library that is not in the repository; copying, moving and streaming of
  maps.  Of the Redis backend: connecting, the configuration file, the lists of nodes and keys of a
  cluster, expiry, the dump and restore of whole slices to local files, the copying of a table to other slices, its
  kernels; the hash command \<open>HMACCUM\<close> is a server module that is not in the repository, so that an
  accumulation is modelled up to the commands it sends.
\<close>

end
